(* ===== verification/Prelude.thy ===== *)
theory Prelude imports Main "HOL-Library.Word" "HOL-Library.Monad_Syntax" begin

text \<open>
  Shared vocabulary of the development.

  \<^item> Machine types of the LP64 build the models are written for: \<open>u8\<close> (\<open>char\<close>), \<open>u32\<close>
    (\<open>uint\<close>), \<open>u64\<close> (\<open>ulong\<close>, \<open>size_t\<close>).
  \<^item> Pointers: an address is a \<open>nat\<close>, a pointer is an optional address, \<open>None\<close> is \<open>NULL\<close>.
  \<^item> Memory: a \<open>region\<close> is the part of the C heap that holds the nodes of one data structure.
    It has the live cells, the addresses that were freed (handed out again last-in first-out, as
    the cache of \<open>Zend/zend_alloc.c\<close> does) and the first address never used. Reading, writing or
    freeing a cell that is not live is the value \<open>None\<close>, so that a theorem stating that an
    operation returns \<open>Some\<close> states that it makes no invalid memory access and returns.
  \<^item> Views: the projection of every live cell; an operation that changes one field of the cells
    leaves every view that does not read that field as it was.
\<close>

type_synonym u8 = "8 word"
type_synonym u32 = "32 word"
type_synonym u64 = "64 word"
type_synonym addr = nat
type_synonym ptr = "addr option"

datatype zend_result = SUCCESS | FAILURE

named_theorems mem_simps \<open>how memory primitives act on views and on live addresses\<close>

text \<open>Evaluate the first argument of a bind before looking at the continuation.\<close>

lemma bind_weak_cong: "a = b \<Longrightarrow> Option.bind a f = Option.bind b f"
  by simp

section \<open>Regions of memory cells\<close>

record 'b region =
  cells :: "addr \<rightharpoonup> 'b"
  avail :: "addr list"
  brk :: addr

definition region_empty :: "'b region" where
  "region_empty = \<lparr>cells = Map.empty, avail = [], brk = 1\<rparr>"

definition region_wf :: "'b region \<Rightarrow> bool" where
  "region_wf r \<longleftrightarrow> distinct (avail r) \<and>
     (\<forall>a\<in>set (avail r). cells r a = None \<and> a < brk r) \<and>
     (\<forall>a. cells r a \<noteq> None \<longrightarrow> a < brk r)"

definition fresh :: "'b region \<Rightarrow> addr" where
  "fresh r = (case avail r of [] \<Rightarrow> brk r | a # _ \<Rightarrow> a)"

definition new_cell :: "'b \<Rightarrow> 'b region \<Rightarrow> 'b region" where
  "new_cell b r = (case avail r of
       [] \<Rightarrow> r\<lparr>cells := (cells r)(brk r \<mapsto> b), brk := Suc (brk r)\<rparr>
     | a # as \<Rightarrow> r\<lparr>cells := (cells r)(a \<mapsto> b), avail := as\<rparr>)"

definition free_cell :: "addr \<Rightarrow> 'b region \<Rightarrow> 'b region option" where
  "free_cell a r = (case cells r a of
       None \<Rightarrow> None
     | Some _ \<Rightarrow> Some (r\<lparr>cells := (cells r)(a := None), avail := a # avail r\<rparr>))"

definition upd_cell :: "addr \<Rightarrow> ('b \<Rightarrow> 'b) \<Rightarrow> 'b region \<Rightarrow> 'b region option" where
  "upd_cell a f r = (case cells r a of
       None \<Rightarrow> None
     | Some b \<Rightarrow> Some (r\<lparr>cells := (cells r)(a \<mapsto> f b)\<rparr>))"

text \<open>\<open>if (p) p->field = v;\<close>\<close>

definition upd_if :: "ptr \<Rightarrow> ('b \<Rightarrow> 'b) \<Rightarrow> 'b region \<Rightarrow> 'b region option" where
  "upd_if p f r = (case p of None \<Rightarrow> Some r | Some a \<Rightarrow> upd_cell a f r)"

lemma region_wf_empty [simp, intro]: "region_wf region_empty"
  by (simp add: region_wf_def region_empty_def)

lemma cells_region_empty [simp]: "cells region_empty = Map.empty"
  by (simp add: region_empty_def)

lemma fresh_not_live [simp]: "region_wf r \<Longrightarrow> cells r (fresh r) = None"
  by (auto simp: region_wf_def fresh_def split: list.splits)

lemma cells_new_cell [simp]: "cells (new_cell b r) = (cells r)(fresh r \<mapsto> b)"
  by (simp add: new_cell_def fresh_def split: list.split)

lemma region_wf_new_cell [simp, intro]: "region_wf r \<Longrightarrow> region_wf (new_cell b r)"
  by (auto simp: region_wf_def new_cell_def less_Suc_eq split: list.splits if_splits)

lemma free_cell_Some:
  "cells r a = Some b \<Longrightarrow>
     \<exists>r'. free_cell a r = Some r' \<and> cells r' = (cells r)(a := None)"
  by (simp add: free_cell_def)

lemma region_wf_free_cell: "region_wf r \<Longrightarrow> free_cell a r = Some r' \<Longrightarrow> region_wf r'"
  by (auto simp: region_wf_def free_cell_def split: option.splits if_splits)

lemma cells_free_cell: "free_cell a r = Some r' \<Longrightarrow> cells r' = (cells r)(a := None)"
  by (auto simp: free_cell_def split: option.splits)

lemma free_cell_None_iff [simp]: "free_cell a r = None \<longleftrightarrow> cells r a = None"
  by (simp add: free_cell_def split: option.split)

lemma cells_upd_cell: "upd_cell a f r = Some r' \<Longrightarrow>
    \<exists>b. cells r a = Some b \<and> cells r' = (cells r)(a \<mapsto> f b)"
  by (auto simp: upd_cell_def split: option.splits)

lemma upd_cell_eq: "cells r a = Some b \<Longrightarrow>
    upd_cell a f r = Some (r\<lparr>cells := (cells r)(a \<mapsto> f b)\<rparr>)"
  by (simp add: upd_cell_def)

lemma region_wf_upd_cell: "region_wf r \<Longrightarrow> upd_cell a f r = Some r' \<Longrightarrow> region_wf r'"
  by (auto simp: region_wf_def upd_cell_def split: option.splits if_splits)

lemma region_wf_upd_if: "region_wf r \<Longrightarrow> upd_if p f r = Some r' \<Longrightarrow> region_wf r'"
  by (auto simp: upd_if_def split: option.splits dest: region_wf_upd_cell)

lemma upd_if_None [simp]: "upd_if None f r = Some r"
  by (simp add: upd_if_def)

lemma upd_if_Some [simp]: "upd_if (Some a) f r = upd_cell a f r"
  by (simp add: upd_if_def)

lemmas region_wf_steps = region_wf_free_cell region_wf_upd_cell region_wf_upd_if

section \<open>Views\<close>

definition view :: "('b \<Rightarrow> 'p) \<Rightarrow> 'b region \<Rightarrow> addr \<rightharpoonup> 'p" where
  "view v r a = map_option v (cells r a)"

lemma view_new_cell [mem_simps]: "view v (new_cell b r) = (view v r)(fresh r \<mapsto> v b)"
  by (auto simp: view_def fun_eq_iff)

lemma view_free_cell [mem_simps]:
  "free_cell a r = Some r' \<Longrightarrow> view v r' = (view v r)(a := None)"
  by (auto simp: view_def fun_eq_iff dest: cells_free_cell)

lemma view_upd_cell:
  "cells r a = Some b \<Longrightarrow> upd_cell a f r = Some r' \<Longrightarrow> view v r' = (view v r)(a \<mapsto> v (f b))"
  by (auto simp: view_def fun_eq_iff dest!: cells_upd_cell)

lemma view_upd_cell_same [mem_simps]:
  "upd_cell a f r = Some r' \<Longrightarrow> (\<And>b. v (f b) = v b) \<Longrightarrow> view v r' = view v r"
  by (auto simp: view_def fun_eq_iff dest!: cells_upd_cell)

lemma view_upd_if_same [mem_simps]:
  "upd_if p f r = Some r' \<Longrightarrow> (\<And>b. v (f b) = v b) \<Longrightarrow> view v r' = view v r"
  by (cases p) (auto dest: view_upd_cell_same)

lemma dom_view [simp]: "dom (view v r) = dom (cells r)"
  by (auto simp: view_def dom_def)

lemma view_eq_None [simp]: "view v r a = None \<longleftrightarrow> cells r a = None"
  by (simp add: view_def)

lemma view_Some_iff: "view v r a = Some x \<longleftrightarrow> (\<exists>b. cells r a = Some b \<and> v b = x)"
  by (auto simp: view_def)

lemma view_region_empty [simp]: "view v region_empty = Map.empty"
  by (auto simp: view_def)

lemma dom_upd_cell [mem_simps]: "upd_cell a f r = Some r' \<Longrightarrow> dom (cells r') = dom (cells r)"
  by (auto dest!: cells_upd_cell split: if_splits)

lemma dom_upd_if [mem_simps]: "upd_if p f r = Some r' \<Longrightarrow> dom (cells r') = dom (cells r)"
  by (cases p) (auto dest!: cells_upd_cell split: if_splits)

section \<open>Lists and words\<close>

lemma distinct_split_unique:
  assumes "distinct (xs @ x # ys)" and "xs @ x # ys = xs' @ x # ys'"
  shows "xs = xs' \<and> ys = ys'"
proof -
  have "x \<notin> set xs" and "x \<notin> set ys" using assms(1) by simp_all
  with assms(2) show ?thesis by (metis append_Cons_eq_iff)
qed

lemma in_set_splitE:
  assumes "a \<in> set ps"
  obtains xs ys where "ps = xs @ a # ys"
  using assms by (auto simp: in_set_conv_decomp)

lemma find_append:
  "List.find P (xs @ ys) = (case List.find P xs of None \<Rightarrow> List.find P ys | Some a \<Rightarrow> Some a)"
  by (induction xs) auto

lemma unat_of_nat_small: "n < 2 ^ LENGTH('a) \<Longrightarrow> unat (of_nat n :: 'a::len word) = n"
  by (simp add: unat_of_nat take_bit_nat_eq_self)

lemma byte_bit: "bit (a :: u8) n \<Longrightarrow> n < 8"
  using bit_imp_le_length [of a n] by simp

lemma Suc_Suc_diff: "\<not> n < 2 \<Longrightarrow> Suc (Suc (n - 2)) = n" "2 \<le> n \<Longrightarrow> Suc (Suc (n - 2)) = n"
  by simp_all

lemma sint_u32: "n < 2 ^ 31 \<Longrightarrow> sint (of_int (int n) :: u32) = int n"
  by transfer (simp add: signed_take_bit_int_eq_self)

end
