(* ===== verification/ZendQsort.thy ===== *)
theory ZendQsort imports Prelude "HOL-Library.Multiset" begin

text \<open>
  The engine's sorting routine, \<open>Zend/zend_qsort.c\<close>.

  The array of \<open>nmemb\<close> elements of \<open>siz\<close> bytes is a list of elements; \<open>begin\<close>, \<open>end\<close>, \<open>seg1\<close>
  and \<open>seg2\<close> are element indices (the C pointer minus \<open>base\<close>, divided by \<open>siz\<close>), of type \<open>int\<close>
  because \<open>end\<close> can point one element before the array. Reading outside the array, or past the 64
  slots of \<open>begin_stack\<close> and \<open>end_stack\<close>, is \<open>None\<close>. \<open>_zend_qsort_swap\<close> is modelled on bytes, and
  shown to exchange two elements of the element view.
\<close>

section \<open>Swapping two elements, on bytes\<close>

type_synonym memory = "u8 list"

definition swap_at :: "'a list \<Rightarrow> nat \<Rightarrow> nat \<Rightarrow> 'a list" where
  "swap_at m a b = m[a := m ! b, b := m ! a]"

fun swap_bytes :: "nat \<Rightarrow> memory \<Rightarrow> nat \<Rightarrow> nat \<Rightarrow> memory" where
  "swap_bytes 0 m a b = m"
| "swap_bytes (Suc n) m a b = swap_bytes n (swap_at m a b) (Suc a) (Suc b)"

text \<open>
  The first loop moves whole \<open>int\<close>s of four bytes while \<open>i \<le> siz\<close>, the second one the remaining
  bytes; \<open>i\<close> is the C variable, \<open>a\<close> and \<open>b\<close> the running pointers.
\<close>

function swap_ints :: "nat \<Rightarrow> nat \<Rightarrow> memory \<Rightarrow> nat \<Rightarrow> nat \<Rightarrow> memory \<times> nat \<times> nat \<times> nat" where
  "swap_ints i siz m a b =
     (if i \<le> siz then swap_ints (i + 4) siz (swap_bytes 4 m a b) (a + 4) (b + 4) else (m, a, b, i))"
  by pat_completeness auto
termination by (relation "measure (\<lambda>(i, siz, m, a, b). Suc siz - i)") auto

function swap_chars :: "nat \<Rightarrow> nat \<Rightarrow> memory \<Rightarrow> nat \<Rightarrow> nat \<Rightarrow> memory" where
  "swap_chars i siz m a b =
     (if i \<le> siz then swap_chars (Suc i) siz (swap_at m a b) (Suc a) (Suc b) else m)"
  by pat_completeness auto
termination by (relation "measure (\<lambda>(i, siz, m, a, b). Suc siz - i)") auto

declare swap_ints.simps [simp del] swap_chars.simps [simp del]

definition zend_qsort_swap :: "memory \<Rightarrow> nat \<Rightarrow> nat \<Rightarrow> nat \<Rightarrow> memory" where
  "zend_qsort_swap m a b siz =
     (let (m1, a1, b1, i) = swap_ints 4 siz m a b in swap_chars (i - 4 + 1) siz m1 a1 b1)"

section \<open>The sort\<close>

definition rd :: "'a list \<Rightarrow> int \<Rightarrow> 'a option" where
  "rd xs i = (if 0 \<le> i \<and> i < int (length xs) then Some (xs ! nat i) else None)"

definition swap_elem :: "'a list \<Rightarrow> int \<Rightarrow> int \<Rightarrow> 'a list option" where
  "swap_elem xs i j = do { _ \<leftarrow> rd xs i; _ \<leftarrow> rd xs j; Some (swap_at xs (nat i) (nat j)) }"

type_synonym 'a compare = "'a \<Rightarrow> 'a \<Rightarrow> int"

text \<open>\<open>for (; seg1 < seg2 && compare(begin, seg1) > 0; seg1 += siz);\<close>\<close>

function scan_up :: "'a compare \<Rightarrow> 'a list \<Rightarrow> int \<Rightarrow> int \<Rightarrow> int \<Rightarrow> int option" where
  "scan_up compare xs b seg1 seg2 =
     (if seg1 < seg2 then do {
        x \<leftarrow> rd xs b;
        y \<leftarrow> rd xs seg1;
        if compare x y > 0 then scan_up compare xs b (seg1 + 1) seg2 else Some seg1
      } else Some seg1)"
  by pat_completeness auto
termination by (relation "measure (\<lambda>(c, xs, b, s1, s2). nat (s2 - s1))") auto

text \<open>\<open>for (; seg2 >= seg1 && compare(seg2, begin) > 0; seg2 -= siz);\<close>\<close>

function scan_down :: "'a compare \<Rightarrow> 'a list \<Rightarrow> int \<Rightarrow> int \<Rightarrow> int \<Rightarrow> int option" where
  "scan_down compare xs b seg1 seg2 =
     (if seg2 \<ge> seg1 then do {
        y \<leftarrow> rd xs seg2;
        x \<leftarrow> rd xs b;
        if compare y x > 0 then scan_down compare xs b seg1 (seg2 - 1) else Some seg2
      } else Some seg2)"
  by pat_completeness auto
termination by (relation "measure (\<lambda>(c, xs, b, s1, s2). nat (s2 - s1 + 1))") auto

declare scan_up.simps [simp del] scan_down.simps [simp del]

partial_function (option) partition_loop ::
  "'a compare \<Rightarrow> 'a list \<Rightarrow> int \<Rightarrow> int \<Rightarrow> int \<Rightarrow> ('a list \<times> int) option" where
  "partition_loop compare xs b seg1 seg2 = do {
     s1 \<leftarrow> scan_up compare xs b seg1 seg2;
     s2 \<leftarrow> scan_down compare xs b s1 seg2;
     if s1 \<ge> s2 then Some (xs, s2)
     else do {
       ys \<leftarrow> swap_elem xs s1 s2;
       partition_loop compare ys b (s1 + 1) (s2 - 1)
     }
   }"

definition QSORT_STACK_SIZE :: nat where
  "QSORT_STACK_SIZE = 8 * 8"

type_synonym seg_stack = "(int \<times> int) list"

definition push_seg :: "int \<times> int \<Rightarrow> nat \<Rightarrow> seg_stack \<Rightarrow> (nat \<times> seg_stack) option" where
  "push_seg s loop stk = (if loop < length stk then Some (Suc loop, stk[loop := s]) else None)"

text \<open>
  The body of \<open>while (begin < end)\<close>. \<open>offset\<close> is a \<open>uint\<close>: half the byte distance, truncated to 32
  bits, then rounded down to a multiple of \<open>siz\<close>.
\<close>

partial_function (option) qsort_segment ::
  "nat \<Rightarrow> 'a compare \<Rightarrow> 'a list \<Rightarrow> int \<Rightarrow> int \<Rightarrow> nat \<Rightarrow> seg_stack \<Rightarrow> ('a list \<times> nat \<times> seg_stack) option"
  where
  "qsort_segment siz compare xs b e loop stk =
     (if b < e then do {
        let offset = ((e - b) * int siz div 2) mod 2 ^ 32;
        xs1 \<leftarrow> swap_elem xs b (b + (offset - offset mod int siz) div int siz);
        (xs2, seg2) \<leftarrow> partition_loop compare xs1 b (b + 1) e;
        xs3 \<leftarrow> swap_elem xs2 b seg2;
        if seg2 - b \<le> e - seg2 then do {
          (loop', stk') \<leftarrow> (if seg2 + 1 < e then push_seg (seg2 + 1, e) loop stk else Some (loop, stk));
          qsort_segment siz compare xs3 b (seg2 - 1) loop' stk'
        } else do {
          (loop', stk') \<leftarrow> (if seg2 - 1 > b then push_seg (b, seg2 - 1) loop stk else Some (loop, stk));
          qsort_segment siz compare xs3 (seg2 + 1) e loop' stk'
        }
      } else Some (xs, loop, stk))"

text \<open>
  \<open>for (loop = 0; loop >= 0; --loop)\<close>: the argument is the number of stacked segments, one more than
  the C variable at the head of the loop.
\<close>

partial_function (option) qsort_loop ::
  "nat \<Rightarrow> 'a compare \<Rightarrow> 'a list \<Rightarrow> nat \<Rightarrow> seg_stack \<Rightarrow> 'a list option" where
  "qsort_loop siz compare xs n stk =
     (case n of 0 \<Rightarrow> Some xs
      | Suc loop \<Rightarrow> do {
          (b, e) \<leftarrow> rd stk (int loop);
          (ys, loop', stk') \<leftarrow> qsort_segment siz compare xs b e loop stk;
          qsort_loop siz compare ys loop' stk'
        })"

declare partition_loop.simps [code] qsort_segment.simps [code] qsort_loop.simps [code]

definition zend_qsort :: "'a list \<Rightarrow> nat \<Rightarrow> 'a compare \<Rightarrow> 'a list option" where
  "zend_qsort xs siz compare =
     qsort_loop siz compare xs 1
       ((replicate QSORT_STACK_SIZE (0, 0))[0 := (0, int (length xs) - 1)])"

section \<open>Memory safety, permutation and order of one partition\<close>

text \<open>
  \<open>perm_in b e xs ys\<close>: \<open>ys\<close> is \<open>xs\<close> with the elements of the index range \<open>[b, e]\<close> permuted.
\<close>

definition perm_in :: "int \<Rightarrow> int \<Rightarrow> 'a list \<Rightarrow> 'a list \<Rightarrow> bool" where
  "perm_in b e xs ys \<longleftrightarrow> length ys = length xs \<and> mset ys = mset xs \<and>
     (\<forall>i. 0 \<le> i \<and> i < int (length xs) \<and> (i < b \<or> e < i) \<longrightarrow> ys ! nat i = xs ! nat i) \<and>
     (\<forall>i. b \<le> i \<and> i \<le> e \<longrightarrow> (\<exists>j. b \<le> j \<and> j \<le> e \<and> ys ! nat i = xs ! nat j))"

lemma perm_in_refl [simp]: "perm_in b e xs xs"
  by (auto simp: perm_in_def)

lemma perm_in_trans: "perm_in b e xs ys \<Longrightarrow> perm_in b e ys zs \<Longrightarrow> perm_in b e xs zs"
  by (clarsimp simp: perm_in_def) metis

lemma perm_in_length: "perm_in b e xs ys \<Longrightarrow> length ys = length xs"
  by (simp add: perm_in_def)

lemma perm_in_mset: "perm_in b e xs ys \<Longrightarrow> mset ys = mset xs"
  by (simp add: perm_in_def)

lemma perm_in_out:
  "perm_in b e xs ys \<Longrightarrow> 0 \<le> i \<Longrightarrow> i < int (length xs) \<Longrightarrow> i < b \<or> e < i \<Longrightarrow>
     ys ! nat i = xs ! nat i"
  by (simp add: perm_in_def)

lemma perm_in_in:
  "perm_in b e xs ys \<Longrightarrow> b \<le> i \<Longrightarrow> i \<le> e \<Longrightarrow> \<exists>j. b \<le> j \<and> j \<le> e \<and> ys ! nat i = xs ! nat j"
  by (simp add: perm_in_def)

lemma perm_in_widen:
  assumes p: "perm_in b e xs ys" and "b' \<le> b" "e \<le> e'" "0 \<le> b'" "e' < int (length xs)"
  shows "perm_in b' e' xs ys"
  unfolding perm_in_def
proof (intro conjI allI impI)
  fix i assume i: "b' \<le> i \<and> i \<le> e'"
  show "\<exists>j. b' \<le> j \<and> j \<le> e' \<and> ys ! nat i = xs ! nat j"
  proof (cases "b \<le> i \<and> i \<le> e")
    case True
    with perm_in_in [OF p] obtain j where "b \<le> j" "j \<le> e" "ys ! nat i = xs ! nat j" by blast
    with assms show ?thesis by (intro exI [of _ j]) auto
  next
    case False
    then have "ys ! nat i = xs ! nat i" using i assms by (intro perm_in_out [OF p]) auto
    with i show ?thesis by blast
  qed
qed (use assms in \<open>auto simp: perm_in_length perm_in_mset perm_in_out\<close>)

lemma length_swap_at [simp]: "length (swap_at m a b) = length m"
  by (simp add: swap_at_def)

lemma rd_in [simp]: "0 \<le> i \<Longrightarrow> i < int (length xs) \<Longrightarrow> rd xs i = Some (xs ! nat i)"
  by (simp add: rd_def)

lemma swap_elem_in:
  "0 \<le> i \<Longrightarrow> i < int (length xs) \<Longrightarrow> 0 \<le> j \<Longrightarrow> j < int (length xs) \<Longrightarrow>
     swap_elem xs i j = Some (swap_at xs (nat i) (nat j))"
  by (simp add: swap_elem_def)

lemma swap_at_nth:
  "a < length m \<Longrightarrow> b < length m \<Longrightarrow> k < length m \<Longrightarrow>
     swap_at m a b ! k = (if k = b then m ! a else if k = a then m ! b else m ! k)"
  by (simp add: swap_at_def nth_list_update)

lemma perm_in_swap:
  assumes "b \<le> i" "i \<le> e" "b \<le> j" "j \<le> e" "0 \<le> b" "e < int (length xs)"
  shows "perm_in b e xs (swap_at xs (nat i) (nat j))"
  unfolding perm_in_def
proof (intro conjI allI impI)
  show "mset (swap_at xs (nat i) (nat j)) = mset xs"
    using assms mset_swap [of "nat j" xs "nat i"] by (simp add: swap_at_def)
  fix k assume k: "b \<le> k \<and> k \<le> e"
  have "swap_at xs (nat i) (nat j) ! nat k = xs ! nat (if k = j then i else if k = i then j else k)"
    using assms k by (auto simp: swap_at_nth)
  then show "\<exists>l. b \<le> l \<and> l \<le> e \<and> swap_at xs (nat i) (nat j) ! nat k = xs ! nat l"
    using assms k by (intro exI [of _ "if k = j then i else if k = i then j else k"]) auto
qed (use assms in \<open>auto simp: swap_at_nth nat_eq_iff\<close>)

lemma scan_up_spec:
  "0 \<le> b \<Longrightarrow> b < int (length xs) \<Longrightarrow> 0 \<le> s1 \<Longrightarrow> s2 < int (length xs) \<Longrightarrow>
   \<exists>s. scan_up compare xs b s1 s2 = Some s \<and> s1 \<le> s \<and> (s \<le> s2 \<or> s = s1) \<and>
     (\<forall>i. s1 \<le> i \<and> i < s \<longrightarrow> compare (xs ! nat b) (xs ! nat i) > 0) \<and>
     (s < s2 \<longrightarrow> \<not> compare (xs ! nat b) (xs ! nat s) > 0)"
proof (induction compare xs b s1 s2 rule: scan_up.induct)
  case (1 compare xs b s1 s2)
  show ?case
  proof (cases "s1 < s2 \<and> compare (xs ! nat b) (xs ! nat s1) > 0")
    case True
    have "\<exists>s. scan_up compare xs b (s1 + 1) s2 = Some s \<and> s1 + 1 \<le> s \<and> (s \<le> s2 \<or> s = s1 + 1) \<and>
       (\<forall>i. s1 + 1 \<le> i \<and> i < s \<longrightarrow> compare (xs ! nat b) (xs ! nat i) > 0) \<and>
       (s < s2 \<longrightarrow> \<not> compare (xs ! nat b) (xs ! nat s) > 0)"
      using 1 True by (intro "1.IH") auto
    then obtain s where s: "scan_up compare xs b (s1 + 1) s2 = Some s" "s1 + 1 \<le> s" "s \<le> s2 \<or> s = s1 + 1"
      "\<forall>i. s1 + 1 \<le> i \<and> i < s \<longrightarrow> compare (xs ! nat b) (xs ! nat i) > 0"
      "s < s2 \<longrightarrow> \<not> compare (xs ! nat b) (xs ! nat s) > 0" by blast
    have "\<forall>i. s1 \<le> i \<and> i < s \<longrightarrow> compare (xs ! nat b) (xs ! nat i) > 0"
      using s(4) True by (metis add1_zle_eq order_le_imp_less_or_eq)
    with s True "1.prems" show ?thesis
      by (intro exI [of _ s], subst scan_up.simps) auto
  next
    case False
    with "1.prems" show ?thesis
      by (intro exI [of _ s1], subst scan_up.simps) auto
  qed
qed

lemma scan_down_spec:
  "0 \<le> b \<Longrightarrow> b < int (length xs) \<Longrightarrow> 0 \<le> s1 \<Longrightarrow> s2 < int (length xs) \<Longrightarrow>
   \<exists>s. scan_down compare xs b s1 s2 = Some s \<and> s \<le> s2 \<and> (s1 - 1 \<le> s \<or> s = s2) \<and>
     (\<forall>i. s < i \<and> i \<le> s2 \<longrightarrow> compare (xs ! nat i) (xs ! nat b) > 0) \<and>
     (s1 \<le> s \<longrightarrow> \<not> compare (xs ! nat s) (xs ! nat b) > 0)"
proof (induction compare xs b s1 s2 rule: scan_down.induct)
  case (1 compare xs b s1 s2)
  show ?case
  proof (cases "s1 \<le> s2 \<and> compare (xs ! nat s2) (xs ! nat b) > 0")
    case True
    have "\<exists>s. scan_down compare xs b s1 (s2 - 1) = Some s \<and> s \<le> s2 - 1 \<and> (s1 - 1 \<le> s \<or> s = s2 - 1) \<and>
       (\<forall>i. s < i \<and> i \<le> s2 - 1 \<longrightarrow> compare (xs ! nat i) (xs ! nat b) > 0) \<and>
       (s1 \<le> s \<longrightarrow> \<not> compare (xs ! nat s) (xs ! nat b) > 0)"
      using 1 True by (intro "1.IH") auto
    then obtain s where s: "scan_down compare xs b s1 (s2 - 1) = Some s" "s \<le> s2 - 1" "s1 - 1 \<le> s \<or> s = s2 - 1"
      "\<forall>i. s < i \<and> i \<le> s2 - 1 \<longrightarrow> compare (xs ! nat i) (xs ! nat b) > 0"
      "s1 \<le> s \<longrightarrow> \<not> compare (xs ! nat s) (xs ! nat b) > 0" by blast
    have "\<forall>i. s < i \<and> i \<le> s2 \<longrightarrow> compare (xs ! nat i) (xs ! nat b) > 0"
      using s(4) True by (metis zle_diff1_eq order_le_imp_less_or_eq)
    with s True "1.prems" show ?thesis
      by (intro exI [of _ s], subst scan_down.simps) auto
  next
    case False
    with "1.prems" show ?thesis
      by (intro exI [of _ s2], subst scan_down.simps) auto
  qed
qed

definition asym_compare :: "'a compare \<Rightarrow> bool" where
  "asym_compare compare \<longleftrightarrow> (\<forall>u v. compare u v > 0 \<longrightarrow> \<not> compare v u > 0)"

definition below :: "'a compare \<Rightarrow> 'a \<Rightarrow> 'a \<Rightarrow> bool" where
  "below compare u v \<longleftrightarrow> \<not> compare u v > 0"

lemma partition_loop_spec:
  assumes "0 \<le> b" "b < s1" "s2 < int (length xs)" "s1 \<le> s2 + 1"
  shows "\<exists>ys s. partition_loop compare xs b s1 s2 = Some (ys, s) \<and> s1 - 1 \<le> s \<and> s \<le> s2 \<and>
     perm_in s1 s2 xs ys \<and>
     (asym_compare compare \<longrightarrow>
       (\<forall>i. s1 \<le> i \<and> i \<le> s \<longrightarrow> below compare (ys ! nat i) (xs ! nat b)) \<and>
       (\<forall>i. s < i \<and> i \<le> s2 \<longrightarrow> below compare (xs ! nat b) (ys ! nat i)))"
  using assms
proof (induction "nat (s2 - s1 + 1)" arbitrary: xs s1 s2 rule: less_induct)
  case less
  let ?x = "xs ! nat b"
  obtain t1 where t1: "scan_up compare xs b s1 s2 = Some t1" "s1 \<le> t1" "t1 \<le> s2 \<or> t1 = s1"
    "\<And>i. s1 \<le> i \<Longrightarrow> i < t1 \<Longrightarrow> compare ?x (xs ! nat i) > 0" "t1 < s2 \<Longrightarrow> \<not> compare ?x (xs ! nat t1) > 0"
    using scan_up_spec [of b xs s1 s2 compare] less.prems by auto
  obtain t2 where t2: "scan_down compare xs b t1 s2 = Some t2" "t2 \<le> s2" "t1 - 1 \<le> t2 \<or> t2 = s2"
    "\<And>i. t2 < i \<Longrightarrow> i \<le> s2 \<Longrightarrow> compare (xs ! nat i) ?x > 0" "t1 \<le> t2 \<Longrightarrow> \<not> compare (xs ! nat t2) ?x > 0"
    using scan_down_spec [of b xs t1 s2 compare] less.prems t1 by auto
  have low: "asym_compare compare \<Longrightarrow> s1 \<le> i \<Longrightarrow> i < t1 \<Longrightarrow> below compare (xs ! nat i) ?x" for i
    using t1(4) by (auto simp: asym_compare_def below_def)
  have high: "asym_compare compare \<Longrightarrow> t2 < i \<Longrightarrow> i \<le> s2 \<Longrightarrow> below compare ?x (xs ! nat i)" for i
    using t2(4) by (auto simp: asym_compare_def below_def)
  show ?case
  proof (cases "t1 \<ge> t2")
    case True
    have "below compare (xs ! nat i) ?x" if "asym_compare compare" "s1 \<le> i" "i \<le> t2" for i
    proof (cases "i < t1")
      case True
      with low that show ?thesis by blast
    next
      case False
      with that True have "i = t2" by simp
      with t2(5) False True show ?thesis by (simp add: below_def)
    qed
    with True t1 t2 high less.prems show ?thesis
      by (subst partition_loop.simps) (auto intro!: exI [of _ t2])
  next
    case False
    define ys where "ys = swap_at xs (nat t1) (nat t2)"
    have sw: "swap_elem xs t1 t2 = Some ys"
      unfolding ys_def by (rule swap_elem_in) (use False t1 t2 less.prems in auto)
    have len: "length ys = length xs" by (simp add: ys_def)
    have yb: "ys ! nat b = ?x" using False t1 t2 less.prems
      by (simp add: ys_def swap_at_nth nat_eq_iff)
    have ynth: "ys ! nat i = (if i = t2 then xs ! nat t1 else if i = t1 then xs ! nat t2 else xs ! nat i)"
      if "s1 \<le> i" "i \<le> s2" for i using that False t1 t2 less.prems by (simp add: ys_def swap_at_nth nat_eq_iff)
    have "\<exists>zs s. partition_loop compare ys b (t1 + 1) (t2 - 1) = Some (zs, s) \<and> t1 + 1 - 1 \<le> s \<and> s \<le> t2 - 1 \<and>
       perm_in (t1 + 1) (t2 - 1) ys zs \<and>
       (asym_compare compare \<longrightarrow>
         (\<forall>i. t1 + 1 \<le> i \<and> i \<le> s \<longrightarrow> below compare (zs ! nat i) (ys ! nat b)) \<and>
         (\<forall>i. s < i \<and> i \<le> t2 - 1 \<longrightarrow> below compare (ys ! nat b) (zs ! nat i)))"
      by (rule less.hyps) (use False t1 t2 less.prems len in auto)
    then obtain zs s where zs: "partition_loop compare ys b (t1 + 1) (t2 - 1) = Some (zs, s)"
      "t1 \<le> s" "s \<le> t2 - 1" "perm_in (t1 + 1) (t2 - 1) ys zs"
      "\<And>i. asym_compare compare \<Longrightarrow> t1 + 1 \<le> i \<Longrightarrow> i \<le> s \<Longrightarrow> below compare (zs ! nat i) ?x"
      "\<And>i. asym_compare compare \<Longrightarrow> s < i \<Longrightarrow> i \<le> t2 - 1 \<Longrightarrow> below compare ?x (zs ! nat i)"
      using yb by auto
    have out: "zs ! nat i = ys ! nat i" if "s1 \<le> i" "i \<le> s2" "i < t1 + 1 \<or> t2 - 1 < i" for i
      using that less.prems len t1 by (intro perm_in_out [OF zs(4)]) auto
    have "perm_in s1 s2 xs zs"
    proof (rule perm_in_trans)
      show "perm_in s1 s2 xs ys" unfolding ys_def
        by (rule perm_in_swap) (use False t1 t2 less.prems in auto)
      show "perm_in s1 s2 ys zs"
        by (rule perm_in_widen [OF zs(4)]) (use t1 t2 less.prems len in auto)
    qed
    moreover have "below compare (zs ! nat i) ?x" if "asym_compare compare" "s1 \<le> i" "i \<le> s" for i
    proof (cases "i \<le> t1")
      case True
      with that zs(3) t2(2) have "zs ! nat i = (if i = t1 then xs ! nat t2 else xs ! nat i)"
        using False by (auto simp: out ynth)
      with True that low False t2(5) show ?thesis by (auto simp: below_def)
    qed (use that zs(5) in auto)
    moreover have "below compare ?x (zs ! nat i)" if "asym_compare compare" "s < i" "i \<le> s2" for i
    proof (cases "i < t2")
      case False
      with that zs(2) t1(2) have "zs ! nat i = (if i = t2 then xs ! nat t1 else xs ! nat i)"
        using \<open>\<not> t2 \<le> t1\<close> by (auto simp: out ynth)
      with False that high \<open>\<not> t2 \<le> t1\<close> t1(5) t2(2) show ?thesis by (auto simp: below_def)
    qed (use that zs(6) in auto)
    ultimately show ?thesis
      using zs(1,2,3) sw False t1(1,2) t2(1,2)
      by (subst partition_loop.simps) (auto intro!: exI [of _ zs] exI [of _ s])
  qed
qed

section \<open>The whole sort\<close>

text \<open>
  Pending segments: the stacked ones followed by the current one, which sits at the index the C
  variable \<open>loop\<close> has. They are disjoint ranges of the array, the one at index \<open>i\<close> is at most a
  \<open>2 ^ i\<close>-th of the array (this is why 64 slots are enough), and the array is sorted but for pairs
  inside one pending segment.
\<close>

definition disj_seg :: "int \<times> int \<Rightarrow> int \<times> int \<Rightarrow> bool" where
  "disj_seg s t \<longleftrightarrow> snd s < fst t \<or> snd t < fst s"

definition segs_ok :: "int \<Rightarrow> seg_stack \<Rightarrow> bool" where
  "segs_ok n S \<longleftrightarrow> (\<forall>s\<in>set S. 0 \<le> fst s \<and> snd s < n \<and> fst s \<le> snd s + 1) \<and> sorted_wrt disj_seg S"

definition depth_ok :: "int \<Rightarrow> seg_stack \<Rightarrow> bool" where
  "depth_ok n S \<longleftrightarrow> (\<forall>i<length S. (snd (S ! i) - fst (S ! i) + 1) * 2 ^ i \<le> n)"

definition seg_weight :: "seg_stack \<Rightarrow> nat" where
  "seg_weight S = sum_list (map (\<lambda>s. nat (2 * (snd s - fst s + 1) + 1)) S)"

definition sorted_mod :: "'a compare \<Rightarrow> 'a list \<Rightarrow> seg_stack \<Rightarrow> bool" where
  "sorted_mod compare xs S \<longleftrightarrow> (\<forall>i j. 0 \<le> i \<and> i < j \<and> j < int (length xs) \<longrightarrow>
     (\<exists>s\<in>set S. fst s \<le> i \<and> j \<le> snd s) \<or> below compare (xs ! nat i) (xs ! nat j))"

definition preorder_compare :: "'a compare \<Rightarrow> bool" where
  "preorder_compare compare \<longleftrightarrow> asym_compare compare \<and>
     (\<forall>u v w. below compare u v \<longrightarrow> below compare v w \<longrightarrow> below compare u w)"

lemma preorder_compare_trans:
  "preorder_compare compare \<Longrightarrow> below compare u v \<Longrightarrow> below compare v w \<Longrightarrow> below compare u w"
  by (auto simp: preorder_compare_def)

lemma preorder_compare_map:
  assumes "preorder_compare c"
  shows "preorder_compare (\<lambda>x y. c (f x) (f y))"
  unfolding preorder_compare_def asym_compare_def
proof (intro conjI allI impI)
  fix u v w
  show "\<not> 0 < c (f v) (f u)" if "0 < c (f u) (f v)"
    using assms that unfolding preorder_compare_def asym_compare_def by blast
  show "below (\<lambda>x y. c (f x) (f y)) u w"
    if "below (\<lambda>x y. c (f x) (f y)) u v" "below (\<lambda>x y. c (f x) (f y)) v w"
    using that preorder_compare_trans [OF assms, of "f u" "f v" "f w"] unfolding below_def by simp
qed

lemma segs_ok_snoc:
  "segs_ok n (S @ [t]) \<longleftrightarrow> segs_ok n S \<and> 0 \<le> fst t \<and> snd t < n \<and> fst t \<le> snd t + 1 \<and>
     (\<forall>s\<in>set S. disj_seg s t)"
  by (auto simp: segs_ok_def sorted_wrt_append)

lemma depth_ok_snoc:
  "depth_ok n (S @ [t]) \<longleftrightarrow> depth_ok n S \<and> (snd t - fst t + 1) * 2 ^ length S \<le> n"
  by (auto simp: depth_ok_def nth_append less_Suc_eq)

lemma seg_weight_append [simp]: "seg_weight (S @ T) = seg_weight S + seg_weight T"
  by (simp add: seg_weight_def)

lemma seg_weight_one [simp]: "seg_weight [(b, e)] = nat (2 * (e - b + 1) + 1)"
  by (simp add: seg_weight_def)

lemma sorted_mod_perm:
  assumes p: "perm_in b e xs ys" and sm: "sorted_mod compare xs (S @ [(b, e)])"
    and ok: "segs_ok (int (length xs)) (S @ [(b, e)])"
  shows "sorted_mod compare ys (S @ [(b, e)])"
  unfolding sorted_mod_def
proof (intro allI impI)
  fix i j assume ij: "0 \<le> i \<and> i < j \<and> j < int (length ys)"
  let ?in = "\<lambda>k. b \<le> k \<and> k \<le> e"
  have same: "\<exists>k'. ys ! nat k = xs ! nat k' \<and> (if ?in k then ?in k' else k' = k)"
    if "0 \<le> k" "k < int (length ys)" for k
  proof (cases "?in k")
    case True
    with perm_in_in [OF p, of k] show ?thesis by auto
  next
    case False
    with that have "ys ! nat k = xs ! nat k"
      using perm_in_length [OF p] by (intro perm_in_out [OF p]) auto
    with False show ?thesis by auto
  qed
  obtain i' j' where i': "ys ! nat i = xs ! nat i'" "if ?in i then ?in i' else i' = i"
    and j': "ys ! nat j = xs ! nat j'" "if ?in j then ?in j' else j' = j"
    using same [of i] same [of j] ij by auto
  show "(\<exists>s\<in>set (S @ [(b, e)]). fst s \<le> i \<and> j \<le> snd s) \<or> below compare (ys ! nat i) (ys ! nat j)"
  proof (cases "?in i \<and> ?in j")
    case True
    then show ?thesis by auto
  next
    case False
    have "0 \<le> i' \<and> i' < j' \<and> j' < int (length xs)"
      using False ij i' j' ok perm_in_length [OF p] by (auto simp: segs_ok_snoc split: if_splits)
    with sm have "(\<exists>s\<in>set (S @ [(b, e)]). fst s \<le> i' \<and> j' \<le> snd s) \<or> below compare (xs ! nat i') (xs ! nat j')"
      unfolding sorted_mod_def by blast
    then show ?thesis
    proof
      assume "\<exists>s\<in>set (S @ [(b, e)]). fst s \<le> i' \<and> j' \<le> snd s"
      then obtain s where "s \<in> set (S @ [(b, e)])" and s2: "fst s \<le> i'" "j' \<le> snd s" by blast
      then have s: "s \<in> set S \<or> s = (b, e)" "fst s \<le> i'" "j' \<le> snd s" by auto
      have "fst s \<le> i \<and> j \<le> snd s" "s \<in> set S"
        using s False i' j' \<open>0 \<le> i' \<and> i' < j' \<and> j' < int (length xs)\<close> ok
        by (auto simp: segs_ok_snoc disj_seg_def split: if_splits)
      then show ?thesis by auto
    qed (simp add: i' j')
  qed
qed

lemma sorted_mod_split:
  assumes pre: "preorder_compare compare" and sm: "sorted_mod compare ys (S @ [(b, e)])"
    and lo: "\<And>i. b \<le> i \<Longrightarrow> i < s \<Longrightarrow> below compare (ys ! nat i) (ys ! nat s)"
    and hi: "\<And>i. s < i \<Longrightarrow> i \<le> e \<Longrightarrow> below compare (ys ! nat s) (ys ! nat i)"
    and T: "\<And>i j. i < j \<Longrightarrow> (b \<le> i \<and> j < s) \<or> (s < i \<and> j \<le> e) \<Longrightarrow> \<exists>t\<in>set T. fst t \<le> i \<and> j \<le> snd t"
  shows "sorted_mod compare ys (S @ T)"
  unfolding sorted_mod_def
proof (intro allI impI)
  fix i j assume ij: "0 \<le> i \<and> i < j \<and> j < int (length ys)"
  with sm consider "\<exists>t\<in>set S. fst t \<le> i \<and> j \<le> snd t" | "below compare (ys ! nat i) (ys ! nat j)" | "b \<le> i" "j \<le> e"
    unfolding sorted_mod_def by fastforce
  then show "(\<exists>t\<in>set (S @ T). fst t \<le> i \<and> j \<le> snd t) \<or> below compare (ys ! nat i) (ys ! nat j)"
  proof cases
    case 3
    show ?thesis
    proof (cases "j < s \<or> s < i")
      case True
      with T [of i j] ij 3 show ?thesis by auto
    next
      case False
      have l: "below compare (ys ! nat i) (ys ! nat s)" if "i \<noteq> s"
        using that False 3 lo by simp
      have h: "below compare (ys ! nat s) (ys ! nat j)" if "j \<noteq> s"
        using that False 3 hi by simp
      from l h False ij have "below compare (ys ! nat i) (ys ! nat j)"
        by (cases "i = s \<or> j = s") (auto intro: preorder_compare_trans [OF pre])
      then show ?thesis ..
    qed
  qed auto
qed

text \<open>What one run of the inner loop leaves: the stacked segments \<open>S'\<close>, with less to do.\<close>

definition seg_post :: "'a compare \<Rightarrow> 'a list \<Rightarrow> seg_stack \<Rightarrow> 'a list \<Rightarrow> seg_stack \<Rightarrow> bool" where
  "seg_post compare xs S ys S' \<longleftrightarrow> length ys = length xs \<and> mset ys = mset xs \<and>
     segs_ok (int (length xs)) S' \<and> depth_ok (int (length xs)) S' \<and> seg_weight S' < seg_weight S \<and>
     (preorder_compare compare \<longrightarrow> sorted_mod compare xs S \<longrightarrow> sorted_mod compare ys S')"

lemma seg_post_trans:
  "seg_post compare xs S ys S' \<Longrightarrow> seg_post compare ys S' zs S'' \<Longrightarrow> seg_post compare xs S zs S''"
  by (auto simp: seg_post_def)

lemma seg_post_empty:
  assumes "\<not> b < e" "segs_ok (int (length xs)) (S @ [(b, e)])" "depth_ok (int (length xs)) (S @ [(b, e)])"
  shows "seg_post compare xs (S @ [(b, e)]) xs S"
proof -
  have "sorted_mod compare xs S" if sm: "sorted_mod compare xs (S @ [(b, e)])"
    unfolding sorted_mod_def
  proof (intro allI impI)
    fix i j assume "0 \<le> i \<and> i < j \<and> j < int (length xs)"
    with sm assms(1) show "(\<exists>s\<in>set S. fst s \<le> i \<and> j \<le> snd s) \<or> below compare (xs ! nat i) (xs ! nat j)"
      unfolding sorted_mod_def by fastforce
  qed
  with assms show ?thesis by (auto simp: seg_post_def segs_ok_snoc depth_ok_snoc)
qed

text \<open>
  Splitting the current segment at the pivot's final place: \<open>T\<close> is what is still to be sorted, the
  larger part first when it has two elements or more, the smaller part last.
\<close>

lemma pivot_split:
  assumes bs: "b \<le> s" "s \<le> e" "b < e"
    and ok: "segs_ok (int (length xs)) (S @ [(b, e)])" and dep: "depth_ok (int (length xs)) (S @ [(b, e)])"
    and p: "perm_in b e xs ys"
    and lo: "\<And>i. preorder_compare compare \<Longrightarrow> b \<le> i \<Longrightarrow> i < s \<Longrightarrow> below compare (ys ! nat i) (ys ! nat s)"
    and hi: "\<And>i. preorder_compare compare \<Longrightarrow> s < i \<Longrightarrow> i \<le> e \<Longrightarrow> below compare (ys ! nat s) (ys ! nat i)"
    and T: "T = (if s - b \<le> e - s then (if s + 1 < e then [(s + 1, e)] else []) @ [(b, s - 1)]
                 else (if s - 1 > b then [(b, s - 1)] else []) @ [(s + 1, e)])"
  shows "seg_post compare xs (S @ [(b, e)]) ys (S @ T) \<and>
    segs_ok (int (length ys)) (S @ T) \<and> depth_ok (int (length ys)) (S @ T)"
proof -
  let ?n = "int (length xs)"
  have len: "int (length ys) = ?n" using p by (simp add: perm_in_length)
  have half: "2 * x * 2 ^ length S \<le> ?n" and whole: "x * 2 ^ length S \<le> ?n" if "0 \<le> x" "2 * x \<le> e - b + 1" for x
  proof -
    have "(e - b + 1) * 2 ^ length S \<le> ?n" using dep by (simp add: depth_ok_snoc)
    moreover have "2 * x * 2 ^ length S \<le> (e - b + 1) * 2 ^ length S"
      by (rule mult_right_mono [OF that(2)]) simp
    ultimately show h: "2 * x * 2 ^ length S \<le> ?n" by (rule order_trans [rotated])
    moreover have "x * 2 ^ length S \<le> 2 * x * 2 ^ length S"
      by (rule mult_right_mono) (use that(1) in auto)
    ultimately show "x * 2 ^ length S \<le> ?n" by (rule order_trans [rotated])
  qed
  have all: "x * 2 ^ length S \<le> ?n" if "x \<le> e - b + 1" for x
  proof (rule order_trans)
    show "x * 2 ^ length S \<le> (e - b + 1) * 2 ^ length S" by (rule mult_right_mono [OF that]) simp
    show "(e - b + 1) * 2 ^ length S \<le> ?n" using dep by (simp add: depth_ok_snoc)
  qed
  have ok': "segs_ok ?n (S @ T)"
    using ok bs unfolding T segs_ok_def sorted_wrt_append by (auto simp: disj_seg_def)
  have dep': "depth_ok ?n (S @ T)"
  proof (cases "s - b \<le> e - s")
    case True
    have "(s - b) * 2 ^ length S \<le> ?n" "2 * (s - b) * 2 ^ length S \<le> ?n" "(e - s) * 2 ^ length S \<le> ?n"
      using half [of "s - b"] whole [of "s - b"] all [of "e - s"] True bs by auto
    with True dep show ?thesis unfolding T
      by (auto simp: depth_ok_snoc simp flip: append_assoc) (simp_all add: algebra_simps)
  next
    case False
    have "(e - s) * 2 ^ length S \<le> ?n" "2 * (e - s) * 2 ^ length S \<le> ?n" "(s - b) * 2 ^ length S \<le> ?n"
      using half [of "e - s"] whole [of "e - s"] all [of "s - b"] False bs by auto
    with False dep show ?thesis unfolding T
      by (auto simp: depth_ok_snoc simp flip: append_assoc) (simp_all add: algebra_simps)
  qed
  have "seg_weight (S @ T) < seg_weight (S @ [(b, e)])"
    unfolding T using bs by (auto simp: seg_weight_def)
  moreover have "sorted_mod compare ys (S @ T)"
    if pre: "preorder_compare compare" and sm: "sorted_mod compare xs (S @ [(b, e)])"
  proof (rule sorted_mod_split [OF pre sorted_mod_perm [OF p sm ok] lo [OF pre] hi [OF pre]])
    fix i j assume "i < j" "(b \<le> i \<and> j < s) \<or> (s < i \<and> j \<le> e)"
    then show "\<exists>t\<in>set T. fst t \<le> i \<and> j \<le> snd t" unfolding T by auto
  qed
  ultimately show ?thesis using ok' dep' p len by (auto simp: seg_post_def perm_in_length perm_in_mset)
qed

lemma push_seg_take:
  "take loop stk = S \<Longrightarrow> length S = loop \<Longrightarrow> loop < length stk \<Longrightarrow>
     \<exists>stk'. push_seg s loop stk = Some (Suc loop, stk') \<and> take (Suc loop) stk' = S @ [s] \<and>
       length stk' = length stk"
  by (auto simp: push_seg_def take_Suc_conv_app_nth)

text \<open>The offset stays in the segment, so the pivot is one of its elements.\<close>

lemma pivot_in_segment:
  fixes b e :: int
  assumes "b < e" "0 < siz"
  defines "off \<equiv> ((e - b) * int siz div 2) mod 2 ^ 32"
  shows "b \<le> b + (off - off mod int siz) div int siz \<and> b + (off - off mod int siz) div int siz \<le> e"
proof -
  have o1: "(off - off mod int siz) div int siz = off div int siz"
    by (metis minus_mod_eq_div_mult nonzero_mult_div_cancel_right assms(2) less_numeral_extra(3) of_nat_eq_0_iff)
  have "0 \<le> off" by (simp add: off_def)
  have "off \<le> (e - b) * int siz div 2" unfolding off_def
    by (rule zmod_le_nonneg_dividend) (use assms in simp)
  also have "\<dots> \<le> (e - b) * int siz"
  proof -
    have "x div 2 \<le> x" if "0 \<le> x" for x :: int using that by arith
    then show ?thesis using assms by simp
  qed
  finally have "off div int siz \<le> (e - b) * int siz div int siz"
    using assms by (intro zdiv_mono1) auto
  with o1 \<open>0 \<le> off\<close> assms show ?thesis by (simp add: pos_imp_zdiv_nonneg_iff)
qed

lemma qsort_segment_unfold:
  assumes "b < e"
    and "swap_elem xs b (b + (((e - b) * int siz div 2) mod 2 ^ 32 -
           ((e - b) * int siz div 2) mod 2 ^ 32 mod int siz) div int siz) = Some xs1"
    and "partition_loop compare xs1 b (b + 1) e = Some (xs2, s)" and "swap_elem xs2 b s = Some xs3"
  shows "qsort_segment siz compare xs b e loop stk =
    (if s - b \<le> e - s then do {
       (loop', stk') \<leftarrow> (if s + 1 < e then push_seg (s + 1, e) loop stk else Some (loop, stk));
       qsort_segment siz compare xs3 b (s - 1) loop' stk'
     } else do {
       (loop', stk') \<leftarrow> (if s - 1 > b then push_seg (b, s - 1) loop stk else Some (loop, stk));
       qsort_segment siz compare xs3 (s + 1) e loop' stk'
     })"
  using assms by (subst qsort_segment.simps) (simp add: Let_def)

lemma qsort_segment_spec:
  assumes "take loop stk = S" "length S = loop" "length stk = 64" "0 < siz" "int (length xs) < 2 ^ 64"
    and "segs_ok (int (length xs)) (S @ [(b, e)])" "depth_ok (int (length xs)) (S @ [(b, e)])"
  shows "\<exists>ys S' stk'. qsort_segment siz compare xs b e loop stk = Some (ys, length S', stk') \<and>
     take (length S') stk' = S' \<and> length stk' = 64 \<and> seg_post compare xs (S @ [(b, e)]) ys S'"
  using assms
proof (induction "nat (e - b)" arbitrary: xs b e loop stk S rule: less_induct)
  case less
  note ok = less.prems(6) and dep = less.prems(7)
  show ?case
  proof (cases "b < e")
    case False
    then have "qsort_segment siz compare xs b e loop stk = Some (xs, length S, stk)"
      using less.prems(2) by (subst qsort_segment.simps) simp
    then show ?thesis using less.prems(1-3) seg_post_empty [OF False ok dep]
      by (intro exI [of _ xs] exI [of _ S] exI [of _ stk]) simp
  next
    case True
    let ?n = "int (length xs)"
    have be: "0 \<le> b" "e < ?n" using ok by (auto simp: segs_ok_snoc)
    define off where "off = ((e - b) * int siz div 2) mod 2 ^ 32"
    define q where "q = b + (off - off mod int siz) div int siz"
    have q: "b \<le> q" "q \<le> e"
      using pivot_in_segment [OF True less.prems(4)] by (auto simp: q_def off_def)
    define xs1 where "xs1 = swap_at xs (nat b) (nat q)"
    have sw1: "swap_elem xs b q = Some xs1"
      unfolding xs1_def by (rule swap_elem_in) (use be q True in auto)
    have p1: "perm_in b e xs xs1"
      unfolding xs1_def by (rule perm_in_swap) (use be q True in auto)
    have l1: "length xs1 = length xs" by (simp add: xs1_def)
    obtain xs2 s where part: "partition_loop compare xs1 b (b + 1) e = Some (xs2, s)"
      and s: "b \<le> s" "s \<le> e" and p2: "perm_in (b + 1) e xs1 xs2"
      and lo: "asym_compare compare \<Longrightarrow> \<forall>i. b + 1 \<le> i \<and> i \<le> s \<longrightarrow> below compare (xs2 ! nat i) (xs1 ! nat b)"
      and hi: "asym_compare compare \<Longrightarrow> \<forall>i. s < i \<and> i \<le> e \<longrightarrow> below compare (xs1 ! nat b) (xs2 ! nat i)"
      using partition_loop_spec [of b "b + 1" e xs1 compare] be True l1 by auto
    have l2: "length xs2 = length xs" using p2 l1 by (simp add: perm_in_length)
    have xb: "xs2 ! nat b = xs1 ! nat b"
      by (rule perm_in_out [OF p2]) (use be True l1 in auto)
    define xs3 where "xs3 = swap_at xs2 (nat b) (nat s)"
    have sw3: "swap_elem xs2 b s = Some xs3"
      unfolding xs3_def by (rule swap_elem_in) (use be s True l2 in auto)
    have p3: "perm_in b e xs2 xs3"
      unfolding xs3_def by (rule perm_in_swap) (use be s True l2 in auto)
    have p: "perm_in b e xs xs3"
    proof (rule perm_in_trans [OF p1], rule perm_in_trans [OF _ p3])
      show "perm_in b e xs1 xs2" by (rule perm_in_widen [OF p2]) (use be l1 in auto)
    qed
    have nth3: "xs3 ! nat i = (if i = s then xs1 ! nat b else if i = b then xs2 ! nat s else xs2 ! nat i)"
      if "b \<le> i" "i \<le> e" for i
      using that be s l2 xb by (simp add: xs3_def swap_at_nth nat_eq_iff)
    have lo3: "below compare (xs3 ! nat i) (xs3 ! nat s)" if "preorder_compare compare" "b \<le> i" "i < s" for i
      using that s lo by (auto simp: nth3 preorder_compare_def)
    have hi3: "below compare (xs3 ! nat s) (xs3 ! nat i)" if "preorder_compare compare" "s < i" "i \<le> e" for i
      using that s hi by (auto simp: nth3 preorder_compare_def)
    define T where "T = (if s - b \<le> e - s then (if s + 1 < e then [(s + 1, e)] else []) @ [(b, s - 1)]
                 else (if s - 1 > b then [(b, s - 1)] else []) @ [(s + 1, e)])"
    note post = pivot_split [OF s True ok dep p lo3 hi3 T_def, THEN conjunct1]
    note okT = pivot_split [OF s True ok dep p lo3 hi3 T_def, THEN conjunct2]
    have l3: "length xs3 = length xs" using p by (simp add: perm_in_length)
    have room: "loop < 64" if "e - b + 1 \<ge> 1"
    proof (rule ccontr)
      assume "\<not> loop < 64"
      then have "(2::int) ^ 64 \<le> 2 ^ loop" by (intro power_increasing) auto
      also have "\<dots> \<le> (e - b + 1) * 2 ^ loop" using that by simp
      also have "\<dots> \<le> ?n" using dep less.prems(2) by (simp add: depth_ok_snoc)
      finally show False using less.prems(5) by simp
    qed
    note unfold = qsort_segment_unfold [OF True sw1 [unfolded q_def off_def] part sw3]
    have next_seg: ?thesis
      if T1: "T = T1 @ [(b', e')]" "nat (e' - b') < nat (e - b)"
        and st: "take loop' stk' = S @ T1" "length (S @ T1) = loop'" "length stk' = 64"
        and run: "qsort_segment siz compare xs b e loop stk = qsort_segment siz compare xs3 b' e' loop' stk'"
      for T1 b' e' loop' stk'
    proof -
      have "\<exists>ys S' stk''. qsort_segment siz compare xs3 b' e' loop' stk' = Some (ys, length S', stk'') \<and>
         take (length S') stk'' = S' \<and> length stk'' = 64 \<and> seg_post compare xs3 ((S @ T1) @ [(b', e')]) ys S'"
        using okT T1 st less.prems(4,5) l3 by (intro less.hyps) auto
      with run T1 seg_post_trans [OF post] show ?thesis by fastforce
    qed
    show ?thesis
    proof (cases "s - b \<le> e - s")
      case le: True
      show ?thesis
      proof (cases "s + 1 < e")
        case True
        from push_seg_take [OF less.prems(1,2), of "(s + 1, e)"] room s less.prems(3) \<open>b < e\<close> obtain stk' where
          "push_seg (s + 1, e) loop stk = Some (Suc loop, stk')" "take (Suc loop) stk' = S @ [(s + 1, e)]"
          "length stk' = 64" by auto
        with True le s less.prems(2) \<open>b < e\<close> show ?thesis
          by (intro next_seg [of "[(s + 1, e)]" b "s - 1" "Suc loop" stk']) (auto simp: T_def unfold)
      next
        case False
        with le s less.prems(1-3) \<open>b < e\<close> show ?thesis
          by (intro next_seg [of "[]" b "s - 1" loop stk]) (auto simp: T_def unfold)
      qed
    next
      case gt: False
      show ?thesis
      proof (cases "s - 1 > b")
        case True
        from push_seg_take [OF less.prems(1,2), of "(b, s - 1)"] room s less.prems(3) \<open>b < e\<close> obtain stk' where
          "push_seg (b, s - 1) loop stk = Some (Suc loop, stk')" "take (Suc loop) stk' = S @ [(b, s - 1)]"
          "length stk' = 64" by auto
        with True gt s less.prems(2) \<open>b < e\<close> show ?thesis
          by (intro next_seg [of "[(b, s - 1)]" "s + 1" e "Suc loop" stk']) (auto simp: T_def unfold)
      next
        case False
        with gt s less.prems(1-3) \<open>b < e\<close> show ?thesis
          by (intro next_seg [of "[]" "s + 1" e loop stk]) (auto simp: T_def unfold)
      qed
    qed
  qed
qed

lemma qsort_loop_spec:
  assumes "take n stk = S" "length S = n" "length stk = 64" "0 < siz" "int (length xs) < 2 ^ 64"
    and "segs_ok (int (length xs)) S" "depth_ok (int (length xs)) S"
  shows "\<exists>ys. qsort_loop siz compare xs n stk = Some ys \<and> mset ys = mset xs \<and>
     (preorder_compare compare \<and> sorted_mod compare xs S \<longrightarrow> sorted_mod compare ys [])"
  using assms
proof (induction "seg_weight S" arbitrary: xs n stk S rule: less_induct)
  case less
  show ?case
  proof (cases n)
    case 0
    with less.prems show ?thesis by (subst qsort_loop.simps) auto
  next
    case (Suc loop)
    with less.prems obtain S0 b e where S: "S = S0 @ [(b, e)]" "length S0 = loop"
      by (cases S rule: rev_cases) auto
    have len: "loop < length stk" using less.prems(1,2) Suc by (metis Suc_le_lessD length_take min.cobounded1)
    have top: "rd stk (int loop) = Some (b, e)" and t0: "take loop stk = S0"
      using less.prems(1) Suc S len by (auto simp: take_Suc_conv_app_nth)
    from qsort_segment_spec [OF t0 S(2) less.prems(3,4,5), of b e compare] less.prems(6,7) S
    obtain ys S' stk' where seg: "qsort_segment siz compare xs b e loop stk = Some (ys, length S', stk')"
      "take (length S') stk' = S'" "length stk' = 64" and post: "seg_post compare xs S ys S'" by auto
    from post have "\<exists>zs. qsort_loop siz compare ys (length S') stk' = Some zs \<and> mset zs = mset ys \<and>
       (preorder_compare compare \<and> sorted_mod compare ys S' \<longrightarrow> sorted_mod compare zs [])"
      using seg less.prems(4,5) by (intro less.hyps) (auto simp: seg_post_def)
    with post seg top Suc show ?thesis
      by (subst qsort_loop.simps) (auto simp: seg_post_def)
  qed
qed

lemma sorted_mod_whole: "sorted_mod compare xs [(0, int (length xs) - 1)]"
  by (auto simp: sorted_mod_def)

lemma sorted_mod_Nil: "sorted_mod compare xs [] \<longleftrightarrow> sorted_wrt (below compare) xs"
  unfolding sorted_mod_def sorted_wrt_iff_nth_less
  by (auto simp: all_nat)

lemma zend_qsort_spec:
  assumes "0 < siz" "length xs < 2 ^ 64"
  shows "\<exists>ys. zend_qsort xs siz compare = Some ys \<and> mset ys = mset xs \<and>
    (preorder_compare compare \<longrightarrow> sorted_wrt (below compare) ys)"
proof -
  let ?s = "(0, int (length xs) - 1)"
  have "int (length xs) < 2 ^ 64" using assms(2) by (metis of_nat_less_iff of_nat_numeral of_nat_power)
  moreover have "take 1 ((replicate QSORT_STACK_SIZE (0, 0))[0 := ?s]) = [?s]"
    by (simp add: QSORT_STACK_SIZE_def numeral_eq_Suc)
  moreover have "segs_ok (int (length xs)) [?s]" "depth_ok (int (length xs)) [?s]"
    by (auto simp: segs_ok_def depth_ok_def)
  ultimately have "\<exists>ys. qsort_loop siz compare xs 1 ((replicate QSORT_STACK_SIZE (0, 0))[0 := ?s]) = Some ys \<and>
     mset ys = mset xs \<and> (preorder_compare compare \<and> sorted_mod compare xs [?s] \<longrightarrow> sorted_mod compare ys [])"
    using assms(1) by (intro qsort_loop_spec) (auto simp: QSORT_STACK_SIZE_def)
  then show ?thesis
    by (simp add: zend_qsort_def sorted_mod_whole sorted_mod_Nil)
qed

section \<open>The byte swap exchanges two elements\<close>

lemma swap_bytes_add: "swap_bytes (n + k) m a b = swap_bytes k (swap_bytes n m a b) (a + n) (b + n)"
  by (induction n arbitrary: m a b) auto

lemma length_swap_bytes [simp]: "length (swap_bytes n m a b) = length m"
  by (induction n arbitrary: m a b) auto

lemma swap_chars_bytes: "swap_chars i siz m a b = swap_bytes (Suc siz - i) m a b"
proof (induction i siz m a b rule: swap_chars.induct)
  case (1 i siz m a b)
  then show ?case by (subst swap_chars.simps) (auto simp: Suc_diff_le)
qed

lemma swap_ints_bytes:
  "i \<le> siz + 4 \<Longrightarrow> \<exists>n. swap_ints i siz m a b = (swap_bytes (4 * n) m a b, a + 4 * n, b + 4 * n, i + 4 * n) \<and>
     siz < i + 4 * n \<and> i + 4 * n \<le> siz + 4"
proof (induction i siz m a b rule: swap_ints.induct)
  case (1 i siz m a b)
  show ?case
  proof (cases "i \<le> siz")
    case True
    with 1 obtain n where n: "swap_ints (i + 4) siz (swap_bytes 4 m a b) (a + 4) (b + 4) =
       (swap_bytes (4 * n) (swap_bytes 4 m a b) (a + 4) (b + 4), a + 4 + 4 * n, b + 4 + 4 * n, i + 4 + 4 * n)"
      "siz < i + 4 + 4 * n" "i + 4 + 4 * n \<le> siz + 4" by auto
    have "swap_bytes (4 * n) (swap_bytes 4 m a b) (a + 4) (b + 4) = swap_bytes (4 * Suc n) m a b"
      using swap_bytes_add [of 4 "4 * n" m a b] by simp
    with True n show ?thesis
      by (intro exI [of _ "Suc n"], subst swap_ints.simps) simp
  next
    case False
    with 1 show ?thesis by (intro exI [of _ 0], subst swap_ints.simps) auto
  qed
qed

lemma zend_qsort_swap_bytes: "zend_qsort_swap m a b siz = swap_bytes siz m a b"
proof -
  obtain n where n: "swap_ints 4 siz m a b = (swap_bytes (4 * n) m a b, a + 4 * n, b + 4 * n, 4 + 4 * n)"
    "siz < 4 + 4 * n" "4 + 4 * n \<le> siz + 4" using swap_ints_bytes [of 4 siz m a b] by auto
  then have "siz = 4 * n + (siz - 4 * n)" by simp
  then have "swap_bytes siz m a b = swap_bytes (siz - 4 * n) (swap_bytes (4 * n) m a b) (a + 4 * n) (b + 4 * n)"
    by (metis swap_bytes_add)
  with n show ?thesis by (simp add: zend_qsort_swap_def swap_chars_bytes)
qed

lemma swap_bytes_nth:
  "a + n \<le> b \<or> b + n \<le> a \<or> a = b \<Longrightarrow> a + n \<le> length m \<Longrightarrow> b + n \<le> length m \<Longrightarrow> k < length m \<Longrightarrow>
   swap_bytes n m a b ! k =
     (if a \<le> k \<and> k < a + n then m ! (k - a + b) else if b \<le> k \<and> k < b + n then m ! (k - b + a) else m ! k)"
proof (induction n arbitrary: m a b)
  case (Suc n)
  have "swap_bytes (Suc n) m a b ! k = swap_bytes n (swap_at m a b) (Suc a) (Suc b) ! k" by simp
  also have "\<dots> = (if Suc a \<le> k \<and> k < Suc a + n then swap_at m a b ! (k - Suc a + Suc b)
      else if Suc b \<le> k \<and> k < Suc b + n then swap_at m a b ! (k - Suc b + Suc a) else swap_at m a b ! k)"
    using Suc.prems by (intro Suc.IH) auto
  also have "\<dots> = (if a \<le> k \<and> k < a + Suc n then m ! (k - a + b)
      else if b \<le> k \<and> k < b + Suc n then m ! (k - b + a) else m ! k)"
  proof (cases "k = a \<or> k = b")
    case True
    have f: "\<not> (Suc b \<le> k \<and> k < Suc b + n)" "\<not> (Suc a \<le> k \<and> k < Suc a + n)"
      using Suc.prems(1) True by linarith+
    have g: "a \<le> k \<and> k < a + Suc n \<longleftrightarrow> k = a" "b \<le> k \<and> k < b + Suc n \<longleftrightarrow> k = b"
      using Suc.prems(1) True by linarith+
    have nth: "swap_at m a b ! k = (if k = b then m ! a else m ! b)"
      using Suc.prems True by (subst swap_at_nth) auto
    show ?thesis using True by (simp only: f g if_False nth) auto
  next
    case False
    have nth: "swap_at m a b ! x = m ! x" if "x \<noteq> a" "x \<noteq> b" for x
      using that by (simp add: swap_at_def)
    have r1: "swap_at m a b ! (k - Suc a + Suc b) = m ! (k - a + b)" if "Suc a \<le> k" "k < Suc a + n"
      using that Suc.prems(1) by (subst nth) (auto intro!: arg_cong [of _ _ "(!) m"])
    have r2: "swap_at m a b ! (k - Suc b + Suc a) = m ! (k - b + a)" if "Suc b \<le> k" "k < Suc b + n"
      using that Suc.prems(1) by (subst nth) (auto intro!: arg_cong [of _ _ "(!) m"])
    from False have le: "Suc a \<le> k \<longleftrightarrow> a \<le> k" "Suc b \<le> k \<longleftrightarrow> b \<le> k" by auto
    from False r1 r2 nth [of k] show ?thesis unfolding le by simp
  qed
  finally show ?case .
qed auto

lemma concat_uniform_nth:
  "\<forall>x\<in>set bs. length x = siz \<Longrightarrow> i < length bs \<Longrightarrow> l < siz \<Longrightarrow> concat bs ! (i * siz + l) = bs ! i ! l"
proof (induction bs arbitrary: i)
  case (Cons x bs)
  then show ?case by (cases i) (auto simp: nth_append algebra_simps)
qed simp

lemma length_concat_uniform: "\<forall>x\<in>set bs. length x = siz \<Longrightarrow> length (concat bs) = length bs * siz"
  by (induction bs) auto

lemma block_bound: "i < n \<Longrightarrow> i * siz + siz \<le> n * (siz :: nat)"
  by (metis Suc_leI add.commute mult_Suc mult_le_mono1)

lemma block_disjoint: "i < j \<Longrightarrow> i * siz + siz \<le> j * (siz :: nat)"
  by (metis Suc_leI add.commute mult_Suc mult_le_mono1)

text \<open>
  \<open>_zend_qsort_swap\<close> exchanges the bytes of two elements of an array, and no other byte, for every
  element size: the loop over \<open>int\<close>s and the loop over the remaining bytes cover the element exactly,
  also when an element is swapped with itself.
\<close>

theorem zend_qsort_swap_blocks:
  assumes len: "\<forall>x\<in>set bs. length x = siz" and ij: "i < length bs" "j < length bs"
  shows "zend_qsort_swap (concat bs) (i * siz) (j * siz) siz = concat (swap_at bs i j)"
proof (rule nth_equalityI)
  have len': "\<forall>x\<in>set (swap_at bs i j). length x = siz"
    using len ij by (auto simp: swap_at_def in_set_conv_nth nth_list_update split: if_splits)
  show "length (zend_qsort_swap (concat bs) (i * siz) (j * siz) siz) = length (concat (swap_at bs i j))"
    by (simp add: zend_qsort_swap_bytes length_concat_uniform [OF len] length_concat_uniform [OF len'])
  fix k assume "k < length (zend_qsort_swap (concat bs) (i * siz) (j * siz) siz)"
  then have k: "k < length bs * siz" by (simp add: zend_qsort_swap_bytes length_concat_uniform [OF len])
  then have siz: "0 < siz" by (cases siz) auto
  define p l where "p = k div siz" and "l = k mod siz"
  have kpl: "k = p * siz + l" "p < length bs" "l < siz"
    using k siz by (auto simp: p_def l_def less_mult_imp_div_less)
  have blk: "q * siz \<le> k \<and> k < q * siz + siz \<longleftrightarrow> q = p" for q
    using kpl block_disjoint [of q p siz] block_disjoint [of p q siz] by (cases q p rule: linorder_cases) auto
  have "i * siz + siz \<le> j * siz \<or> j * siz + siz \<le> i * siz \<or> i * siz = j * siz"
    using block_disjoint [of i j siz] block_disjoint [of j i siz] by (cases i j rule: linorder_cases) auto
  then have "zend_qsort_swap (concat bs) (i * siz) (j * siz) siz ! k =
      (if i = p then concat bs ! (k - i * siz + j * siz)
       else if j = p then concat bs ! (k - j * siz + i * siz) else concat bs ! k)"
    unfolding zend_qsort_swap_bytes
    using block_bound [OF ij(1), of siz] block_bound [OF ij(2), of siz] k
    by (subst swap_bytes_nth) (simp_all only: length_concat_uniform [OF len] blk)
  also have "\<dots> = concat bs ! ((if p = i then j else if p = j then i else p) * siz + l)"
    by (simp add: kpl(1) add.commute)
  also have "\<dots> = bs ! (if p = i then j else if p = j then i else p) ! l"
    using kpl ij by (intro concat_uniform_nth [OF len]) auto
  also have "\<dots> = swap_at bs i j ! p ! l" using kpl ij by (auto simp: swap_at_nth)
  also have "\<dots> = concat (swap_at bs i j) ! k"
    unfolding kpl(1) using kpl by (subst concat_uniform_nth [OF len']) auto
  finally show "zend_qsort_swap (concat bs) (i * siz) (j * siz) siz ! k = concat (swap_at bs i j) ! k" .
qed

theorem zend_qsort_swap_blocks_witness:
  "zend_qsort_swap (concat [[1, 2, 3, 4, 5], [6, 7, 8, 9, 10]]) (0 * 5) (1 * 5) 5 = [6, 7, 8, 9, 10, 1, 2, 3, 4, 5]"
  by (subst zend_qsort_swap_blocks) (simp_all add: swap_at_def)

section \<open>The contract of a sort routine\<close>

text \<open>
  \<open>zend_llist_sort\<close> and \<open>zend_hash_sort\<close> sort an array of node pointers with a routine they are
  given (\<open>sort_func_t\<close>). What they need of it: it returns a permutation of its array for every
  comparison, and an ordered one when the comparison is a total preorder. \<open>zend_qsort\<close> keeps the
  contract for pointers of eight bytes.
\<close>

locale node_sorter =
  fixes srt :: "(addr \<times> 'b) list \<Rightarrow> (addr \<times> 'b) compare \<Rightarrow> (addr \<times> 'b) list option"
  assumes sorts: "length xs < 2 ^ 64 \<Longrightarrow> \<exists>ys. srt xs c = Some ys \<and> mset ys = mset xs \<and>
    (preorder_compare c \<longrightarrow> sorted_wrt (below c) ys)"
begin

lemma sort_nodes:
  assumes len: "length xs < 2 ^ 64" and d: "distinct xs"
  shows "\<exists>ys. srt (map (\<lambda>a. (a, g a)) xs) c = Some (map (\<lambda>a. (a, g a)) ys) \<and>
    mset ys = mset xs \<and> distinct ys \<and> set ys = set xs \<and> length ys = length xs \<and>
    (preorder_compare c \<longrightarrow> sorted_wrt (\<lambda>a b. below c (a, g a) (b, g b)) ys)"
proof -
  let ?n = "\<lambda>a. (a, g a)"
  obtain zs where zs: "srt (map ?n xs) c = Some zs" "mset zs = mset (map ?n xs)"
    "preorder_compare c \<longrightarrow> sorted_wrt (below c) zs" using sorts [of "map ?n xs" c] len by auto
  have "\<forall>z\<in>set zs. z = ?n (fst z)" using mset_eq_setD [OF zs(2)] by auto
  then have zmap: "zs = map ?n (map fst zs)" by (simp add: list_eq_iff_nth_eq)
  have m: "mset (map fst zs) = mset xs" using arg_cong [OF zs(2), of "image_mset fst"]
    by (simp add: image_mset.compositionality comp_def)
  moreover have "distinct (map fst zs)" using d m by (metis mset_eq_imp_distinct_iff)
  moreover have "sorted_wrt (\<lambda>a b. below c (?n a) (?n b)) (map fst zs)" if "preorder_compare c"
    using zs(3) that by (subst (asm) zmap) (simp add: sorted_wrt_map)
  moreover have "srt (map ?n xs) c = Some (map ?n (map fst zs))"
    unfolding zmap [symmetric] by (rule zs(1))
  ultimately show ?thesis
    using mset_eq_setD [OF m] mset_eq_length [OF m] by (intro exI [of _ "map fst zs"]) simp
qed

end

interpretation qs: node_sorter "\<lambda>xs. zend_qsort xs 8"
  by unfold_locales (rule zend_qsort_spec, simp_all)

text \<open>
  C14: \<open>zend_qsort\<close> returns for every array and every comparison function, even an inconsistent one,
  never leaves the array or its 64-entry stack of segments, and permutes the elements; when the
  comparison is a total preorder the result is ordered.
\<close>

theorem zend_qsort_sorts:
  assumes "0 < siz" "length xs < 2 ^ 64"
  shows "\<exists>ys. zend_qsort xs siz compare = Some ys \<and> mset ys = mset xs \<and>
    (preorder_compare compare \<longrightarrow> sorted_wrt (below compare) ys)"
  by (rule zend_qsort_spec [OF assms])

theorem zend_qsort_sorts_witness:
  "\<exists>ys. zend_qsort [3, 1, 2 :: int] 4 (\<lambda>x y. x - y) = Some ys \<and> mset ys = {#1, 2, 3#} \<and> sorted ys"
proof -
  have "preorder_compare (-)" by (auto simp: preorder_compare_def asym_compare_def below_def)
  moreover have "below (\<lambda>x y. x - y) = ((\<le>) :: int \<Rightarrow> int \<Rightarrow> bool)" by (auto simp: fun_eq_iff below_def)
  ultimately show ?thesis using zend_qsort_sorts [of 4 "[3, 1, 2 :: int]" "(-)"]
    by (auto simp: add_mset_commute)
qed

end
