(* ===== verification/Dll.thy ===== *)
theory Dll imports Prelude begin

text \<open>
  Doubly linked lists in memory, once for every structure of the engine that is one: the element
  list of \<open>zend_llist\<close>, the insertion-order list and the collision chains of \<open>HashTable\<close>.

  \<open>dseg L l xs r\<close> says that in the link map \<open>L\<close> (next and previous pointer of every live cell)
  the addresses \<open>xs\<close> form a doubly linked segment whose first previous pointer is \<open>l\<close> and whose
  last next pointer is \<open>r\<close>. The locale \<open>linked_cell\<close> is the interface of a node type: two getters
  and two setters for the link fields. Its lemmas give the effect of the pointer writes that the C
  code makes to append, to prepend and to unlink a node.
\<close>

definition first_ptr :: "addr list \<Rightarrow> ptr \<Rightarrow> ptr" where
  "first_ptr xs r = (case xs of [] \<Rightarrow> r | x # _ \<Rightarrow> Some x)"

definition last_ptr :: "ptr \<Rightarrow> addr list \<Rightarrow> ptr" where
  "last_ptr l xs = (if xs = [] then l else Some (last xs))"

lemma first_ptr_simps [simp]:
  "first_ptr [] r = r"
  "first_ptr (x # xs) r = Some x"
  by (simp_all add: first_ptr_def)

lemma last_ptr_simps [simp]:
  "last_ptr l [] = l"
  "last_ptr l (x # xs) = last_ptr (Some x) xs"
  "last_ptr l (xs @ ys) = last_ptr (last_ptr l xs) ys"
  by (auto simp: last_ptr_def)

lemma first_ptr_append [simp]: "first_ptr (xs @ ys) r = first_ptr xs (first_ptr ys r)"
  by (cases xs) auto

lemma first_ptr_None [simp]: "first_ptr xs None = None \<longleftrightarrow> xs = []"
  by (cases xs) auto

lemma last_ptr_None [simp]: "last_ptr None xs = None \<longleftrightarrow> xs = []"
  by (simp add: last_ptr_def)

lemma last_ptr_after [simp]: "last_ptr (Some a) xs \<noteq> None" "\<exists>y. last_ptr (Some a) xs = Some y"
  by (auto simp: last_ptr_def)

lemma last_ptr_Some_iff: "last_ptr None xs = Some a \<longleftrightarrow> (\<exists>ys. xs = ys @ [a])"
  by (auto simp: last_ptr_def) (metis append_butlast_last_id)

lemma first_ptr_Some_iff: "first_ptr xs None = Some a \<longleftrightarrow> (\<exists>ys. xs = a # ys)"
  by (cases xs) auto

type_synonym links = "addr \<rightharpoonup> ptr \<times> ptr"

fun dseg :: "links \<Rightarrow> ptr \<Rightarrow> addr list \<Rightarrow> ptr \<Rightarrow> bool" where
  "dseg L l [] r = True"
| "dseg L l (x # xs) r = (L x = Some (first_ptr xs r, l) \<and> dseg L (Some x) xs r)"

lemma dseg_append [simp]:
  "dseg L l (xs @ ys) r \<longleftrightarrow> dseg L l xs (first_ptr ys r) \<and> dseg L (last_ptr l xs) ys r"
  by (induction xs arbitrary: l) auto

lemma dseg_frame: "(\<And>a. a \<in> set xs \<Longrightarrow> L' a = L a) \<Longrightarrow> dseg L' l xs r = dseg L l xs r"
  by (induction xs arbitrary: l) auto

lemma dseg_upd_other [simp]: "a \<notin> set xs \<Longrightarrow> dseg (L(a := v)) l xs r = dseg L l xs r"
  by (rule dseg_frame) auto

lemma dseg_live: "dseg L l xs r \<Longrightarrow> set xs \<subseteq> dom L"
  by (induction xs arbitrary: l) auto

lemma dseg_links: "dseg L l (xs @ a # ys) r \<Longrightarrow> L a = Some (first_ptr ys r, last_ptr l xs)"
  by simp

text \<open>Redirecting the two ends of a segment.\<close>

lemma dseg_set_prev_first:
  "dseg L l (x # xs) r \<Longrightarrow> x \<notin> set xs \<Longrightarrow>
     dseg (L(x \<mapsto> (first_ptr xs r, l'))) l' (x # xs) r"
  by simp

lemma dseg_set_next_last:
  "dseg L l (xs @ [x]) r \<Longrightarrow> x \<notin> set xs \<Longrightarrow>
     dseg (L(x \<mapsto> (r', last_ptr l xs))) l (xs @ [x]) r'"
  by simp

text \<open>A whole list: head pointer, tail pointer, links.\<close>

definition dlist :: "links \<Rightarrow> ptr \<Rightarrow> ptr \<Rightarrow> addr list \<Rightarrow> bool" where
  "dlist L h t xs \<longleftrightarrow> distinct xs \<and> h = first_ptr xs None \<and> t = last_ptr None xs \<and>
     dseg L None xs None"

lemma dlist_Nil [simp]: "dlist L h t [] \<longleftrightarrow> h = None \<and> t = None"
  by (auto simp: dlist_def)

lemma dlist_distinct: "dlist L h t xs \<Longrightarrow> distinct xs"
  by (simp add: dlist_def)

lemma dlist_frame:
  "dlist L h t xs \<Longrightarrow> (\<And>a. a \<in> set xs \<Longrightarrow> L' a = L a) \<Longrightarrow> dlist L' h t xs"
  using dseg_frame [of xs L' L None None] by (simp add: dlist_def)

lemma dlist_at:
  "dlist L h t (xs @ a # ys) \<Longrightarrow> L a = Some (first_ptr ys None, last_ptr None xs)"
  by (simp add: dlist_def)

lemma dlist_unique_links:
  assumes "dlist L h t xs" and "a \<in> set xs"
  obtains ys zs where "xs = ys @ a # zs" and "L a = Some (first_ptr zs None, last_ptr None ys)"
proof -
  from assms(2) obtain ys zs where xs: "xs = ys @ a # zs" by (rule in_set_splitE)
  show thesis
    by (rule that [OF xs]) (use assms(1) xs in \<open>simp add: dlist_at\<close>)
qed

section \<open>Pointer code shared by the lists\<close>

text \<open>The link map of a region whose nodes have the next pointer \<open>nx\<close> and the previous pointer \<open>pv\<close>.\<close>

abbreviation links_by :: "('b \<Rightarrow> ptr) \<Rightarrow> ('b \<Rightarrow> ptr) \<Rightarrow> 'b region \<Rightarrow> links" where
  "links_by nx pv \<equiv> view (\<lambda>b. (nx b, pv b))"

text \<open>
  Unlinking a node, as \<open>DEL_LLIST_ELEMENT\<close> and the deletions of \<open>zend_hash.c\<close> write it:
  \<^verbatim>\<open>
  if (cur->prev) cur->prev->next = cur->next; else head = cur->next;
  if (cur->next) cur->next->prev = cur->prev; else tail = cur->prev;
  \<close>
\<close>

definition dll_unlink ::
  "('b \<Rightarrow> ptr) \<Rightarrow> ('b \<Rightarrow> ptr) \<Rightarrow> (ptr \<Rightarrow> 'b \<Rightarrow> 'b) \<Rightarrow> (ptr \<Rightarrow> 'b \<Rightarrow> 'b) \<Rightarrow>
     addr \<Rightarrow> 'b region \<Rightarrow> ptr \<Rightarrow> ptr \<Rightarrow> ('b region \<times> ptr \<times> ptr) option" where
  "dll_unlink nx pv set_nx set_pv cur r head tail = do {
     b \<leftarrow> cells r cur;
     r1 \<leftarrow> upd_if (pv b) (set_nx (nx b)) r;
     let head' = (if pv b = None then nx b else head);
     b1 \<leftarrow> cells r1 cur;
     r2 \<leftarrow> upd_if (nx b1) (set_pv (pv b1)) r1;
     let tail' = (if nx b1 = None then pv b1 else tail);
     Some (r2, head', tail')
   }"

text \<open>
  \<^verbatim>\<open>for (p = head; p; p = p->next) *out++ = p;\<close> The array holds, for every pointer, the node it
  points at, for the comparison functions that read it.
\<close>

partial_function (option) collect_nodes ::
  "('b \<Rightarrow> ptr) \<Rightarrow> 'b region \<Rightarrow> ptr \<Rightarrow> (addr \<times> 'b) list option" where
  "collect_nodes nx r p =
     (case p of None \<Rightarrow> Some []
      | Some a \<Rightarrow> do {
          b \<leftarrow> cells r a;
          xs \<leftarrow> collect_nodes nx r (nx b);
          Some ((a, b) # xs)
        })"

declare collect_nodes.simps [code]

section \<open>The interface of a linked node\<close>

locale linked_cell =
  fixes nx :: "'b \<Rightarrow> ptr" and pv :: "'b \<Rightarrow> ptr"
    and set_nx :: "ptr \<Rightarrow> 'b \<Rightarrow> 'b" and set_pv :: "ptr \<Rightarrow> 'b \<Rightarrow> 'b"
  assumes nx_set_nx [simp]: "nx (set_nx p b) = p"
    and nx_set_pv [simp]: "nx (set_pv p b) = nx b"
    and pv_set_pv [simp]: "pv (set_pv p b) = p"
    and pv_set_nx [simp]: "pv (set_nx p b) = pv b"
begin

abbreviation links :: "'b region \<Rightarrow> links" where
  "links \<equiv> links_by nx pv"

lemma links_upd_nx:
  "links r a = Some (n, p) \<Longrightarrow>
     \<exists>r'. upd_cell a (set_nx q) r = Some r' \<and> links r' = (links r)(a \<mapsto> (q, p))"
  by (auto simp: view_Some_iff upd_cell_eq view_def fun_eq_iff)

lemma links_upd_pv:
  "links r a = Some (n, p) \<Longrightarrow>
     \<exists>r'. upd_cell a (set_pv q) r = Some r' \<and> links r' = (links r)(a \<mapsto> (n, q))"
  by (auto simp: view_Some_iff upd_cell_eq view_def fun_eq_iff)

text \<open>Appending: the new cell points back to the old tail, the old tail forward to the cell.\<close>

lemma append_cell:
  assumes L: "dlist (links r) h t xs" and a: "links r a = Some (None, t)" and new: "a \<notin> set xs"
  shows "\<exists>r'. upd_if t (set_nx (Some a)) r = Some r' \<and>
     dlist (links r') (if t = None then Some a else h) (Some a) (xs @ [a])"
proof (cases xs rule: rev_cases)
  case Nil
  with L a show ?thesis by (auto simp: dlist_def)
next
  case (snoc ys y)
  with L have t: "t = Some y" and y: "links r y = Some (None, last_ptr None ys)"
    and seg: "dseg (links r) None ys (Some y)" and d: "distinct xs" by (auto simp: dlist_def)
  from links_upd_nx [OF y] obtain r' where r':
    "upd_cell y (set_nx (Some a)) r = Some r'"
    "links r' = (links r)(y \<mapsto> (Some a, last_ptr None ys))" by blast
  have "dlist (links r') h (Some a) (xs @ [a])"
    using L a new d seg unfolding snoc r'(2)
    by (auto simp: dlist_def t)
  with r' t show ?thesis by auto
qed

text \<open>Prepending to a list that keeps no tail pointer.\<close>

lemma prepend_cell:
  assumes L: "dseg (links r) None xs None" and d: "distinct xs"
    and a: "links r a = Some (first_ptr xs None, None)" and new: "a \<notin> set xs"
  shows "\<exists>r'. upd_if (first_ptr xs None) (set_pv (Some a)) r = Some r' \<and>
     dseg (links r') None (a # xs) None"
proof (cases xs)
  case Nil
  with a show ?thesis by auto
next
  case (Cons y ys)
  with L have y: "links r y = Some (first_ptr ys None, None)"
    and seg: "dseg (links r) (Some y) ys None" by auto
  from links_upd_pv [OF y] obtain r' where r':
    "upd_cell y (set_pv (Some a)) r = Some r'"
    "links r' = (links r)(y \<mapsto> (first_ptr ys None, Some a))" by blast
  with Cons a new d seg show ?thesis by auto
qed

text \<open>Unlinking: the neighbours of the cell are made to point at each other.\<close>

lemma unlink_seg:
  assumes L: "dseg (links r) None (xs @ a # ys) None" and d: "distinct (xs @ a # ys)"
  shows "\<exists>r1 r2. upd_if (last_ptr None xs) (set_nx (first_ptr ys None)) r = Some r1 \<and>
     upd_if (first_ptr ys None) (set_pv (last_ptr None xs)) r1 = Some r2 \<and>
     dseg (links r2) None (xs @ ys) None \<and> links r2 a = links r a"
proof -
  obtain r1 where r1: "upd_if (last_ptr None xs) (set_nx (first_ptr ys None)) r = Some r1"
    and s1: "dseg (links r1) None xs (first_ptr ys None)"
    and s2: "dseg (links r1) (Some a) ys None" and la: "links r1 a = links r a"
  proof (cases xs rule: rev_cases)
    case Nil
    with L that show ?thesis by auto
  next
    case (snoc zs z)
    with L have "links r z = Some (Some a, last_ptr None zs)" by auto
    from links_upd_nx [OF this] obtain r1 where "upd_cell z (set_nx (first_ptr ys None)) r = Some r1"
      "links r1 = (links r)(z \<mapsto> (first_ptr ys None, last_ptr None zs))" by blast
    with snoc L d that show ?thesis by auto
  qed
  show ?thesis
  proof (cases ys)
    case Nil
    with r1 s1 la show ?thesis by auto
  next
    case (Cons y zs)
    with s2 have "links r1 y = Some (first_ptr zs None, Some a)" by auto
    from links_upd_pv [OF this] obtain r2 where "upd_cell y (set_pv (last_ptr None xs)) r1 = Some r2"
      "links r2 = (links r1)(y \<mapsto> (first_ptr zs None, last_ptr None xs))" by blast
    with Cons r1 s1 s2 d la show ?thesis by auto
  qed
qed

lemma unlink_dlist:
  assumes L: "dlist (links r) h t (xs @ a # ys)"
  shows "\<exists>r' h' t'. dll_unlink nx pv set_nx set_pv a r h t = Some (r', h', t') \<and>
     dlist (links r') h' t' (xs @ ys) \<and> links r' a = links r a"
proof -
  from L have seg: "dseg (links r) None (xs @ a # ys) None" and d: "distinct (xs @ a # ys)"
    and ht: "h = first_ptr (xs @ a # ys) None" "t = last_ptr None (xs @ a # ys)" by (auto simp: dlist_def)
  from dseg_links [OF seg] obtain b where b: "cells r a = Some b" "nx b = first_ptr ys None" "pv b = last_ptr None xs"
    by (auto simp: view_Some_iff)
  from unlink_seg [OF seg d] obtain r1 r2 where
    r1: "upd_if (last_ptr None xs) (set_nx (first_ptr ys None)) r = Some r1" and
    r2: "upd_if (first_ptr ys None) (set_pv (last_ptr None xs)) r1 = Some r2" and
    res: "dseg (links r2) None (xs @ ys) None" "links r2 a = links r a" by blast
  have "last_ptr None xs \<noteq> Some a" using d by (auto simp: last_ptr_Some_iff)
  with r1 b have b1: "cells r1 a = Some b"
    by (cases "last_ptr None xs") (auto dest: cells_upd_cell)
  have "dlist (links r2) (if pv b = None then nx b else h) (if nx b = None then pv b else t) (xs @ ys)"
    using res(1) d ht b by (cases xs; cases ys) (auto simp: dlist_def)
  with res(2) show ?thesis
    unfolding dll_unlink_def by (intro exI [of _ r2] exI) (simp add: b b1 r1 r2 Let_def)
qed

lemma unlink_view:
  assumes "dll_unlink nx pv set_nx set_pv a r h t = Some (r', h', t')"
    and "\<And>p b. v (set_nx p b) = v b" "\<And>p b. v (set_pv p b) = v b"
  shows "view v r' = view v r"
  using assms by (auto simp: dll_unlink_def Let_def split: Option.bind_splits dest!: view_upd_if_same [where v = v])

lemma unlink_dom:
  assumes "dll_unlink nx pv set_nx set_pv a r h t = Some (r', h', t')"
  shows "dom (cells r') = dom (cells r)"
  using assms by (clarsimp simp: dll_unlink_def Let_def split: Option.bind_splits) (metis dom_upd_if)

lemma unlink_region_wf:
  assumes "dll_unlink nx pv set_nx set_pv a r h t = Some (r', h', t')" "region_wf r"
  shows "region_wf r'"
  using assms by (auto simp: dll_unlink_def Let_def split: Option.bind_splits intro: region_wf_upd_if)

lemma collect_dseg:
  "dseg (links r) l xs None \<Longrightarrow>
     collect_nodes nx r (first_ptr xs None) = Some (map (\<lambda>a. (a, the (cells r a))) xs)"
proof (induction xs arbitrary: l)
  case Nil
  show ?case by (subst collect_nodes.simps) simp
next
  case (Cons x xs)
  then obtain b where "cells r x = Some b" "nx b = first_ptr xs None" by (auto simp: view_Some_iff)
  with Cons show ?case by (subst collect_nodes.simps) auto
qed

end

end
