(* ===== verification/ZendLlist.thy ===== *)
theory ZendLlist imports Dll ZendQsort begin

text \<open>
  The doubly linked list of \<open>Zend/zend_llist.c\<close>, every operation of the file.

  A \<open>zend_llist\<close> owns the region of its element nodes. The \<open>data\<close> bytes of an element are a value
  of type \<open>'d\<close>. A destructor is external code called with the data: the field \<open>ll_dtor\<close> says
  whether one is set, and \<open>ll_destroyed\<close> records the data it was called with, in order. Callbacks
  passed to an operation get the data and a state of their own and may change both.
\<close>

record 'd zend_llist_element =
  le_next :: ptr
  le_prev :: ptr
  le_data :: 'd

record 'd zend_llist =
  ll_head :: ptr
  ll_tail :: ptr
  ll_count :: u64
  ll_size :: u64
  ll_dtor :: bool
  ll_persistent :: bool
  ll_traverse_ptr :: ptr
  ll_elems :: "'d zend_llist_element region"
  ll_destroyed :: "'d list"

definition set_next :: "ptr \<Rightarrow> 'd zend_llist_element \<Rightarrow> 'd zend_llist_element" where
  "set_next p e = e\<lparr>le_next := p\<rparr>"

definition set_prev :: "ptr \<Rightarrow> 'd zend_llist_element \<Rightarrow> 'd zend_llist_element" where
  "set_prev p e = e\<lparr>le_prev := p\<rparr>"

interpretation ll: linked_cell le_next le_prev set_next set_prev
  by unfold_locales (simp_all add: set_next_def set_prev_def)

section \<open>Operations\<close>

text \<open>\<open>zend_llist_init\<close> does not write \<open>traverse_ptr\<close>.\<close>

definition zend_llist_init :: "'d zend_llist \<Rightarrow> u64 \<Rightarrow> bool \<Rightarrow> bool \<Rightarrow> 'd zend_llist" where
  "zend_llist_init l sz dtor persistent =
     l\<lparr>ll_head := None, ll_tail := None, ll_count := 0, ll_size := sz, ll_dtor := dtor,
       ll_persistent := persistent\<rparr>"

definition zend_llist_add_element :: "'d zend_llist \<Rightarrow> 'd \<Rightarrow> 'd zend_llist option" where
  "zend_llist_add_element l element = do {
     let tmp = fresh (ll_elems l);
     let r = new_cell \<lparr>le_next = None, le_prev = ll_tail l, le_data = element\<rparr> (ll_elems l);
     r' \<leftarrow> upd_if (ll_tail l) (set_next (Some tmp)) r;
     Some (l\<lparr>ll_elems := r',
       ll_head := (if ll_tail l = None then Some tmp else ll_head l),
       ll_tail := Some tmp, ll_count := ll_count l + 1\<rparr>)
   }"

definition zend_llist_prepend_element :: "'d zend_llist \<Rightarrow> 'd \<Rightarrow> 'd zend_llist option" where
  "zend_llist_prepend_element l element = do {
     let tmp = fresh (ll_elems l);
     let r = new_cell \<lparr>le_next = ll_head l, le_prev = None, le_data = element\<rparr> (ll_elems l);
     r' \<leftarrow> upd_if (ll_head l) (set_prev (Some tmp)) r;
     Some (l\<lparr>ll_elems := r',
       ll_tail := (if ll_head l = None then Some tmp else ll_tail l),
       ll_head := Some tmp, ll_count := ll_count l + 1\<rparr>)
   }"

definition call_ll_dtor :: "'d \<Rightarrow> 'd zend_llist \<Rightarrow> 'd zend_llist" where
  "call_ll_dtor d l = (if ll_dtor l then l\<lparr>ll_destroyed := ll_destroyed l @ [d]\<rparr> else l)"

definition DEL_LLIST_ELEMENT :: "addr \<Rightarrow> 'd zend_llist \<Rightarrow> 'd zend_llist option" where
  "DEL_LLIST_ELEMENT current l = do {
     (r, h, t) \<leftarrow> dll_unlink le_next le_prev set_next set_prev current (ll_elems l) (ll_head l) (ll_tail l);
     e \<leftarrow> cells r current;
     let l1 = call_ll_dtor (le_data e) (l\<lparr>ll_head := h, ll_tail := t\<rparr>);
     r' \<leftarrow> free_cell current r;
     Some (l1\<lparr>ll_elems := r', ll_count := ll_count l - 1\<rparr>)
   }"

partial_function (option) del_element_loop ::
  "('d \<Rightarrow> 'e \<Rightarrow> bool) \<Rightarrow> 'e \<Rightarrow> ptr \<Rightarrow> 'd zend_llist \<Rightarrow> 'd zend_llist option" where
  "del_element_loop compare element current l =
     (case current of
        None \<Rightarrow> Some l
      | Some a \<Rightarrow> do {
          e \<leftarrow> cells (ll_elems l) a;
          if compare (le_data e) element then DEL_LLIST_ELEMENT a l
          else del_element_loop compare element (le_next e) l
        })"

definition zend_llist_del_element ::
  "'d zend_llist \<Rightarrow> 'e \<Rightarrow> ('d \<Rightarrow> 'e \<Rightarrow> bool) \<Rightarrow> 'd zend_llist option" where
  "zend_llist_del_element l element compare = del_element_loop compare element (ll_head l) l"

partial_function (option) destroy_loop :: "ptr \<Rightarrow> 'd zend_llist \<Rightarrow> 'd zend_llist option" where
  "destroy_loop current l =
     (case current of
        None \<Rightarrow> Some l
      | Some a \<Rightarrow> do {
          e \<leftarrow> cells (ll_elems l) a;
          r \<leftarrow> free_cell a (ll_elems l);
          destroy_loop (le_next e) (call_ll_dtor (le_data e) l\<lparr>ll_elems := r\<rparr>)
        })"

definition zend_llist_destroy :: "'d zend_llist \<Rightarrow> 'd zend_llist option" where
  "zend_llist_destroy l = do {
     l' \<leftarrow> destroy_loop (ll_head l) l;
     Some (l'\<lparr>ll_count := 0\<rparr>)
   }"

definition zend_llist_clean :: "'d zend_llist \<Rightarrow> 'd zend_llist option" where
  "zend_llist_clean l = do {
     l' \<leftarrow> zend_llist_destroy l;
     Some (l'\<lparr>ll_head := None, ll_tail := None\<rparr>)
   }"

text \<open>The result is the pointer to the data of the old tail, whose node has been freed.\<close>

definition zend_llist_remove_tail :: "'d zend_llist \<Rightarrow> (ptr \<times> 'd zend_llist) option" where
  "zend_llist_remove_tail l =
     (case ll_tail l of
        None \<Rightarrow> Some (None, l)
      | Some old_tail \<Rightarrow> do {
          e \<leftarrow> cells (ll_elems l) old_tail;
          r \<leftarrow> upd_if (le_prev e) (set_next None) (ll_elems l);
          e' \<leftarrow> cells r old_tail;
          let l1 = l\<lparr>ll_head := (if le_prev e = None then None else ll_head l), ll_tail := le_prev e'\<rparr>;
          let l2 = call_ll_dtor (le_data e') l1;
          r' \<leftarrow> free_cell old_tail r;
          Some (Some old_tail, l2\<lparr>ll_elems := r', ll_count := ll_count l - 1\<rparr>)
        })"

partial_function (option) copy_loop ::
  "'d zend_llist_element region \<Rightarrow> ptr \<Rightarrow> 'd zend_llist \<Rightarrow> 'd zend_llist option" where
  "copy_loop src p dst =
     (case p of
        None \<Rightarrow> Some dst
      | Some a \<Rightarrow> do {
          e \<leftarrow> cells src a;
          dst' \<leftarrow> zend_llist_add_element dst (le_data e);
          copy_loop src (le_next e) dst'
        })"

definition zend_llist_copy :: "'d zend_llist \<Rightarrow> 'd zend_llist \<Rightarrow> 'd zend_llist option" where
  "zend_llist_copy dst src =
     copy_loop (ll_elems src) (ll_head src)
       (zend_llist_init dst (ll_size src) (ll_dtor src) (ll_persistent src))"

partial_function (option) apply_with_del_loop ::
  "('d \<Rightarrow> 's \<Rightarrow> bool \<times> 'd \<times> 's) \<Rightarrow> ptr \<Rightarrow> 'd zend_llist \<Rightarrow> 's \<Rightarrow> ('d zend_llist \<times> 's) option" where
  "apply_with_del_loop func element l s =
     (case element of
        None \<Rightarrow> Some (l, s)
      | Some a \<Rightarrow> do {
          e \<leftarrow> cells (ll_elems l) a;
          let (del, d, s') = func (le_data e) s;
          r \<leftarrow> upd_cell a (\<lambda>x. x\<lparr>le_data := d\<rparr>) (ll_elems l);
          l' \<leftarrow> (if del then DEL_LLIST_ELEMENT a (l\<lparr>ll_elems := r\<rparr>) else Some (l\<lparr>ll_elems := r\<rparr>));
          apply_with_del_loop func (le_next e) l' s'
        })"

definition zend_llist_apply_with_del ::
  "'d zend_llist \<Rightarrow> ('d \<Rightarrow> 's \<Rightarrow> bool \<times> 'd \<times> 's) \<Rightarrow> 's \<Rightarrow> ('d zend_llist \<times> 's) option" where
  "zend_llist_apply_with_del l func s = apply_with_del_loop func (ll_head l) l s"

partial_function (option) apply_loop ::
  "('d \<Rightarrow> 's \<Rightarrow> 'd \<times> 's) \<Rightarrow> ptr \<Rightarrow> 'd zend_llist_element region \<Rightarrow> 's \<Rightarrow>
     ('d zend_llist_element region \<times> 's) option" where
  "apply_loop func element r s =
     (case element of
        None \<Rightarrow> Some (r, s)
      | Some a \<Rightarrow> do {
          e \<leftarrow> cells r a;
          let (d, s') = func (le_data e) s;
          r' \<leftarrow> upd_cell a (\<lambda>x. x\<lparr>le_data := d\<rparr>) r;
          e' \<leftarrow> cells r' a;
          apply_loop func (le_next e') r' s'
        })"

definition zend_llist_apply ::
  "'d zend_llist \<Rightarrow> ('d \<Rightarrow> 's \<Rightarrow> 'd \<times> 's) \<Rightarrow> 's \<Rightarrow> ('d zend_llist \<times> 's) option" where
  "zend_llist_apply l func s = do {
     (r, s') \<leftarrow> apply_loop func (ll_head l) (ll_elems l) s;
     Some (l\<lparr>ll_elems := r\<rparr>, s')
   }"

definition zend_llist_apply_with_argument ::
  "'d zend_llist \<Rightarrow> ('d \<Rightarrow> 'a \<Rightarrow> 's \<Rightarrow> 'd \<times> 's) \<Rightarrow> 'a \<Rightarrow> 's \<Rightarrow> ('d zend_llist \<times> 's) option" where
  "zend_llist_apply_with_argument l func arg s = do {
     (r, s') \<leftarrow> apply_loop (\<lambda>d. func d arg) (ll_head l) (ll_elems l) s;
     Some (l\<lparr>ll_elems := r\<rparr>, s')
   }"

definition zend_llist_apply_with_arguments ::
  "'d zend_llist \<Rightarrow> ('d \<Rightarrow> 'a list \<Rightarrow> 's \<Rightarrow> 'd \<times> 's) \<Rightarrow> 'a list \<Rightarrow> 's \<Rightarrow> ('d zend_llist \<times> 's) option" where
  "zend_llist_apply_with_arguments l func args s = do {
     (r, s') \<leftarrow> apply_loop (\<lambda>d. func d args) (ll_head l) (ll_elems l) s;
     Some (l\<lparr>ll_elems := r\<rparr>, s')
   }"

text \<open>
  Sorting: the pointers are collected, sorted by \<open>zend_qsort\<close> (elements of eight bytes) with a
  comparison that reads the nodes, and the nodes are linked again in the new order. The array has
  \<open>count\<close> slots: a list whose \<open>count\<close> is not its length would overflow it, which is \<open>None\<close>.
\<close>

fun llist_relink :: "addr \<Rightarrow> addr list \<Rightarrow> 'd zend_llist_element region \<Rightarrow> 'd zend_llist_element region option" where
  "llist_relink e0 [] r = upd_cell e0 (set_next None) r"
| "llist_relink e0 (e1 # es) r = do {
     r1 \<leftarrow> upd_cell e1 (set_prev (Some e0)) r;
     r2 \<leftarrow> upd_cell e0 (set_next (Some e1)) r1;
     llist_relink e1 es r2
   }"

definition zend_llist_sort ::
  "'d zend_llist \<Rightarrow> 'd zend_llist_element compare \<Rightarrow> 'd zend_llist option" where
  "zend_llist_sort l comp_func =
     (if ll_count l \<le> 0 then Some l
      else do {
        nodes \<leftarrow> collect_nodes le_next (ll_elems l) (ll_head l);
        sorted \<leftarrow> (if length nodes = unat (ll_count l)
                   then zend_qsort nodes 8 (\<lambda>x y. comp_func (snd x) (snd y)) else None);
        case map fst sorted of
          [] \<Rightarrow> None
        | e0 # es \<Rightarrow> do {
            r1 \<leftarrow> upd_cell e0 (set_prev None) (ll_elems l);
            r2 \<leftarrow> llist_relink e0 es r1;
            Some (l\<lparr>ll_elems := r2, ll_head := Some e0, ll_tail := Some (last (e0 # es))\<rparr>)
          }
      })"

definition zend_llist_count :: "'d zend_llist \<Rightarrow> u64" where
  "zend_llist_count l = ll_count l"

text \<open>
  Traversal. \<open>pos\<close> is \<open>None\<close> for a \<open>NULL\<close> position argument, which stands for the list's own
  \<open>traverse_ptr\<close>. The result is the pointer to the data (the node that holds it) and the state.
\<close>

definition get_current :: "'d zend_llist \<Rightarrow> ptr option \<Rightarrow> ptr" where
  "get_current l pos = (case pos of None \<Rightarrow> ll_traverse_ptr l | Some p \<Rightarrow> p)"

definition set_current :: "ptr \<Rightarrow> 'd zend_llist \<Rightarrow> ptr option \<Rightarrow> 'd zend_llist \<times> ptr option" where
  "set_current p l pos = (case pos of None \<Rightarrow> (l\<lparr>ll_traverse_ptr := p\<rparr>, None) | Some _ \<Rightarrow> (l, Some p))"

definition zend_llist_get_first_ex ::
  "'d zend_llist \<Rightarrow> ptr option \<Rightarrow> ptr \<times> 'd zend_llist \<times> ptr option" where
  "zend_llist_get_first_ex l pos = (ll_head l, set_current (ll_head l) l pos)"

definition zend_llist_get_last_ex ::
  "'d zend_llist \<Rightarrow> ptr option \<Rightarrow> ptr \<times> 'd zend_llist \<times> ptr option" where
  "zend_llist_get_last_ex l pos = (ll_tail l, set_current (ll_tail l) l pos)"

definition zend_llist_get_next_ex ::
  "'d zend_llist \<Rightarrow> ptr option \<Rightarrow> (ptr \<times> 'd zend_llist \<times> ptr option) option" where
  "zend_llist_get_next_ex l pos =
     (case get_current l pos of
        None \<Rightarrow> Some (None, l, pos)
      | Some a \<Rightarrow> do {
          e \<leftarrow> cells (ll_elems l) a;
          Some (le_next e, set_current (le_next e) l pos)
        })"

definition zend_llist_get_prev_ex ::
  "'d zend_llist \<Rightarrow> ptr option \<Rightarrow> (ptr \<times> 'd zend_llist \<times> ptr option) option" where
  "zend_llist_get_prev_ex l pos =
     (case get_current l pos of
        None \<Rightarrow> Some (None, l, pos)
      | Some a \<Rightarrow> do {
          e \<leftarrow> cells (ll_elems l) a;
          Some (le_prev e, set_current (le_prev e) l pos)
        })"

declare del_element_loop.simps [code] destroy_loop.simps [code] copy_loop.simps [code]
  apply_with_del_loop.simps [code] apply_loop.simps [code]

section \<open>Well-formed lists and their contents\<close>

abbreviation ll_links :: "'d zend_llist_element region \<Rightarrow> links" where
  "ll_links \<equiv> links_by le_next le_prev"

abbreviation ll_data :: "'d zend_llist_element region \<Rightarrow> addr \<rightharpoonup> 'd" where
  "ll_data \<equiv> view le_data"

definition ll_shape :: "'d zend_llist_element region \<Rightarrow> ptr \<Rightarrow> ptr \<Rightarrow> addr list \<Rightarrow> bool" where
  "ll_shape r h t xs \<longleftrightarrow> region_wf r \<and> dom (cells r) = set xs \<and> dlist (ll_links r) h t xs"

definition ll_vals :: "'d zend_llist_element region \<Rightarrow> addr list \<Rightarrow> 'd list" where
  "ll_vals r xs = map (\<lambda>a. the (ll_data r a)) xs"

definition llist_wf :: "'d zend_llist \<Rightarrow> addr list \<Rightarrow> bool" where
  "llist_wf l xs \<longleftrightarrow> ll_shape (ll_elems l) (ll_head l) (ll_tail l) xs \<and>
     ll_count l = of_nat (length xs) \<and> length xs < 2 ^ 64"

text \<open>The contract of the component: the sequence of data values the list holds.\<close>

definition llist_holds :: "'d zend_llist \<Rightarrow> 'd list \<Rightarrow> bool" where
  "llist_holds l ds \<longleftrightarrow> (\<exists>xs. llist_wf l xs \<and> ds = ll_vals (ll_elems l) xs)"

lemma ll_vals_simps [simp]:
  "ll_vals r [] = []"
  "ll_vals r (x # xs) = the (ll_data r x) # ll_vals r xs"
  "ll_vals r (xs @ ys) = ll_vals r xs @ ll_vals r ys"
  "length (ll_vals r xs) = length xs"
  by (simp_all add: ll_vals_def)

lemma ll_vals_cong: "(\<And>a. a \<in> set xs \<Longrightarrow> ll_data r' a = ll_data r a) \<Longrightarrow> ll_vals r' xs = ll_vals r xs"
  by (simp add: ll_vals_def)

lemma ll_data_links [simp]: "le_data (set_next p e) = le_data e" "le_data (set_prev p e) = le_data e"
  by (simp_all add: set_next_def set_prev_def)

lemma llist_wf_length: "llist_wf l xs \<Longrightarrow> unat (ll_count l) = length xs"
  by (simp add: llist_wf_def unat_of_nat_small)

lemma llist_wf_init:
  "ll_elems l = region_empty \<Longrightarrow> llist_wf (zend_llist_init l sz d p) []"
  by (simp add: llist_wf_def zend_llist_init_def ll_shape_def)

lemma ll_shape_live:
  assumes "ll_shape r h t xs" "a \<in> set xs"
  obtains e where "cells r a = Some e"
  using assms by (auto simp: ll_shape_def)

lemma new_node_links:
  "region_wf r \<Longrightarrow> dom (cells r) = set xs \<Longrightarrow> fresh r \<notin> set xs"
  using fresh_not_live [of r] by (metis domIff)

lemma ll_shape_append:
  assumes sh: "ll_shape r h t xs"
  shows "\<exists>r'. upd_if t (set_next (Some (fresh r)))
       (new_cell \<lparr>le_next = None, le_prev = t, le_data = d\<rparr> r) = Some r' \<and>
     ll_shape r' (if t = None then Some (fresh r) else h) (Some (fresh r)) (xs @ [fresh r]) \<and>
     ll_vals r' (xs @ [fresh r]) = ll_vals r xs @ [d]"
proof -
  let ?a = "fresh r" and ?r1 = "new_cell \<lparr>le_next = None, le_prev = t, le_data = d\<rparr> r"
  from sh have wf: "region_wf r" and dm: "dom (cells r) = set xs" and L: "dlist (ll_links r) h t xs"
    by (auto simp: ll_shape_def)
  have new: "?a \<notin> set xs" by (rule new_node_links [OF wf dm])
  have L1: "ll_links ?r1 = (ll_links r)(?a \<mapsto> (None, t))" by (simp add: view_new_cell)
  have "dlist (ll_links ?r1) h t xs"
    by (rule dlist_frame [OF L]) (use new in \<open>auto simp: L1\<close>)
  from ll.append_cell [OF this _ new] obtain r' where r': "upd_if t (set_next (Some ?a)) ?r1 = Some r'"
    "dlist (ll_links r') (if t = None then Some ?a else h) (Some ?a) (xs @ [?a])" by (auto simp: L1)
  have v: "ll_data r' = (ll_data r)(?a \<mapsto> d)"
    using view_upd_if_same [OF r'(1), of le_data] by (simp add: view_new_cell)
  have "ll_vals r' xs = ll_vals r xs" by (rule ll_vals_cong) (use new v in auto)
  with r' v wf dm dom_upd_if [OF r'(1)] region_wf_upd_if [OF _ r'(1)] show ?thesis
    by (auto simp: ll_shape_def)
qed

lemma ll_shape_prepend:
  assumes sh: "ll_shape r h t xs"
  shows "\<exists>r'. upd_if h (set_prev (Some (fresh r)))
       (new_cell \<lparr>le_next = h, le_prev = None, le_data = d\<rparr> r) = Some r' \<and>
     ll_shape r' (Some (fresh r)) (if h = None then Some (fresh r) else t) (fresh r # xs) \<and>
     ll_vals r' (fresh r # xs) = d # ll_vals r xs"
proof -
  let ?a = "fresh r" and ?r1 = "new_cell \<lparr>le_next = h, le_prev = None, le_data = d\<rparr> r"
  from sh have wf: "region_wf r" and dm: "dom (cells r) = set xs" and L: "dlist (ll_links r) h t xs"
    by (auto simp: ll_shape_def)
  have new: "?a \<notin> set xs" by (rule new_node_links [OF wf dm])
  have L1: "ll_links ?r1 = (ll_links r)(?a \<mapsto> (h, None))" by (simp add: view_new_cell)
  have h: "h = first_ptr xs None" and d: "distinct xs" using L by (auto simp: dlist_def)
  have "dseg (ll_links ?r1) None xs None" using L new unfolding L1 by (simp add: dlist_def)
  moreover have "ll_links ?r1 ?a = Some (first_ptr xs None, None)" unfolding L1 using h by simp
  ultimately obtain r' where r': "upd_if h (set_prev (Some ?a)) ?r1 = Some r'"
    "dseg (ll_links r') None (?a # xs) None" using ll.prepend_cell [OF _ d _ new] unfolding h by blast
  have v: "ll_data r' = (ll_data r)(?a \<mapsto> d)"
    using view_upd_if_same [OF r'(1), of le_data] by (simp add: view_new_cell)
  have "ll_vals r' xs = ll_vals r xs" by (rule ll_vals_cong) (use new v in auto)
  moreover have "dlist (ll_links r') (Some ?a) (if h = None then Some ?a else t) (?a # xs)"
    using r'(2) L d new h by (cases xs) (auto simp: dlist_def)
  ultimately show ?thesis
    using r' v wf dm dom_upd_if [OF r'(1)] region_wf_upd_if [OF _ r'(1)] by (auto simp: ll_shape_def)
qed

lemma ll_shape_unlink:
  assumes sh: "ll_shape r h t (xs @ a # ys)"
  shows "\<exists>r1 h' t' e r2. dll_unlink le_next le_prev set_next set_prev a r h t = Some (r1, h', t') \<and>
     cells r1 a = Some e \<and> le_data e = the (ll_data r a) \<and> free_cell a r1 = Some r2 \<and>
     ll_shape r2 h' t' (xs @ ys) \<and> ll_data r2 = (ll_data r)(a := None)"
proof -
  from sh have wf: "region_wf r" and dm: "dom (cells r) = set (xs @ a # ys)"
    and L: "dlist (ll_links r) h t (xs @ a # ys)" by (auto simp: ll_shape_def)
  from ll.unlink_dlist [OF L] obtain r1 h' t' where
    u: "dll_unlink le_next le_prev set_next set_prev a r h t = Some (r1, h', t')" and
    L1: "dlist (ll_links r1) h' t' (xs @ ys)" by blast
  have dm1: "dom (cells r1) = set (xs @ a # ys)" and v1: "ll_data r1 = ll_data r"
    using ll.unlink_dom [OF u] ll.unlink_view [OF u, of le_data] dm by auto
  then obtain e where e: "cells r1 a = Some e" by fastforce
  then have de: "le_data e = the (ll_data r a)" unfolding v1 [symmetric] by (simp add: view_def)
  obtain r2 where f: "free_cell a r1 = Some r2" using free_cell_Some [OF e] by blast
  have na: "a \<notin> set (xs @ ys)" using dlist_distinct [OF L] by auto
  have v2: "view v r2 = (view v r1)(a := None)" for v :: "'a zend_llist_element \<Rightarrow> 'c"
    by (rule view_free_cell [OF f])
  have "dlist (ll_links r2) h' t' (xs @ ys)"
    by (rule dlist_frame [OF L1]) (use na in \<open>auto simp: v2\<close>)
  moreover have "dom (cells r2) = set (xs @ ys)" using cells_free_cell [OF f] dm1 na by auto
  ultimately show ?thesis
    using u e de f v1 v2 [of le_data] region_wf_free_cell [OF ll.unlink_region_wf [OF u wf] f] by (auto simp: ll_shape_def)
qed

section \<open>Every operation refines the list of data values\<close>

lemma llist_add_wf:
  assumes wf: "llist_wf l xs" and room: "length xs + 1 < 2 ^ 64"
  shows "\<exists>l' a. zend_llist_add_element l d = Some l' \<and> llist_wf l' (xs @ [a]) \<and>
    ll_vals (ll_elems l') (xs @ [a]) = ll_vals (ll_elems l) xs @ [d]"
proof -
  from wf have "ll_shape (ll_elems l) (ll_head l) (ll_tail l) xs" by (simp add: llist_wf_def)
  from ll_shape_append [OF this, of d] obtain r' where
    "upd_if (ll_tail l) (set_next (Some (fresh (ll_elems l))))
       (new_cell \<lparr>le_next = None, le_prev = ll_tail l, le_data = d\<rparr> (ll_elems l)) = Some r'"
    "ll_shape r' (if ll_tail l = None then Some (fresh (ll_elems l)) else ll_head l)
       (Some (fresh (ll_elems l))) (xs @ [fresh (ll_elems l)])"
    "ll_vals r' (xs @ [fresh (ll_elems l)]) = ll_vals (ll_elems l) xs @ [d]" by blast
  with wf room show ?thesis
    unfolding zend_llist_add_element_def Let_def llist_wf_def by auto
qed

lemma llist_add_frame:
  "zend_llist_add_element l d = Some l' \<Longrightarrow>
     ll_dtor l' = ll_dtor l \<and> ll_size l' = ll_size l \<and> ll_persistent l' = ll_persistent l \<and>
     ll_traverse_ptr l' = ll_traverse_ptr l \<and> ll_destroyed l' = ll_destroyed l"
  by (auto simp: zend_llist_add_element_def Let_def split: Option.bind_splits)

lemma llist_prepend_wf:
  assumes wf: "llist_wf l xs" and room: "length xs + 1 < 2 ^ 64"
  shows "\<exists>l' a. zend_llist_prepend_element l d = Some l' \<and> llist_wf l' (a # xs) \<and>
    ll_vals (ll_elems l') (a # xs) = d # ll_vals (ll_elems l) xs"
proof -
  from wf have "ll_shape (ll_elems l) (ll_head l) (ll_tail l) xs" by (simp add: llist_wf_def)
  from ll_shape_prepend [OF this, of d] obtain r' where
    "upd_if (ll_head l) (set_prev (Some (fresh (ll_elems l))))
       (new_cell \<lparr>le_next = ll_head l, le_prev = None, le_data = d\<rparr> (ll_elems l)) = Some r'"
    "ll_shape r' (Some (fresh (ll_elems l))) (if ll_head l = None then Some (fresh (ll_elems l)) else ll_tail l)
       (fresh (ll_elems l) # xs)"
    "ll_vals r' (fresh (ll_elems l) # xs) = d # ll_vals (ll_elems l) xs" by blast
  with wf room show ?thesis
    unfolding zend_llist_prepend_element_def Let_def llist_wf_def
    by (cases "ll_head l") auto
qed

lemma call_ll_dtor_simps [simp]:
  "ll_head (call_ll_dtor d l) = ll_head l" "ll_tail (call_ll_dtor d l) = ll_tail l"
  "ll_count (call_ll_dtor d l) = ll_count l" "ll_elems (call_ll_dtor d l) = ll_elems l"
  "ll_dtor (call_ll_dtor d l) = ll_dtor l"
  "ll_destroyed (call_ll_dtor d l) = ll_destroyed l @ (if ll_dtor l then [d] else [])"
  by (simp_all add: call_ll_dtor_def)

lemma llist_del_wf:
  assumes wf: "llist_wf l (xs @ a # ys)"
  shows "\<exists>l'. DEL_LLIST_ELEMENT a l = Some l' \<and> llist_wf l' (xs @ ys) \<and>
    ll_data (ll_elems l') = (ll_data (ll_elems l))(a := None) \<and> ll_dtor l' = ll_dtor l \<and>
    ll_destroyed l' = ll_destroyed l @ (if ll_dtor l then [the (ll_data (ll_elems l) a)] else [])"
proof -
  from wf have "ll_shape (ll_elems l) (ll_head l) (ll_tail l) (xs @ a # ys)" by (simp add: llist_wf_def)
  from ll_shape_unlink [OF this] obtain r1 h' t' e r2 where
    u: "dll_unlink le_next le_prev set_next set_prev a (ll_elems l) (ll_head l) (ll_tail l) = Some (r1, h', t')"
    "cells r1 a = Some e" "le_data e = the (ll_data (ll_elems l) a)" "free_cell a r1 = Some r2"
    "ll_shape r2 h' t' (xs @ ys)" "ll_data r2 = (ll_data (ll_elems l))(a := None)" by blast
  have "ll_count l - 1 = of_nat (length (xs @ ys))" using wf by (simp add: llist_wf_def)
  with u wf show ?thesis by (simp add: DEL_LLIST_ELEMENT_def llist_wf_def)
qed

lemma llist_notin_vals:
  "a \<notin> set xs \<Longrightarrow> ll_data r' = (ll_data r)(a := None) \<Longrightarrow> ll_vals r' xs = ll_vals r xs"
  by (rule ll_vals_cong) auto

lemma llist_wf_distinct: "llist_wf l xs \<Longrightarrow> distinct xs"
  by (auto simp: llist_wf_def ll_shape_def dest: dlist_distinct)

lemma llist_wf_links:
  assumes "llist_wf l (xs @ a # ys)"
  obtains e where "cells (ll_elems l) a = Some e" "le_next e = first_ptr ys None"
    "le_prev e = last_ptr None xs" "le_data e = the (ll_data (ll_elems l) a)"
proof -
  from assms have "ll_links (ll_elems l) a = Some (first_ptr ys None, last_ptr None xs)"
    by (auto simp: llist_wf_def ll_shape_def intro: dlist_at)
  then obtain e where "cells (ll_elems l) a = Some e" "le_next e = first_ptr ys None"
    "le_prev e = last_ptr None xs" by (auto simp: view_Some_iff)
  with that show thesis by (simp add: view_def)
qed

lemma llist_wf_ends: "llist_wf l xs \<Longrightarrow> ll_head l = first_ptr xs None \<and> ll_tail l = last_ptr None xs"
  by (simp add: llist_wf_def ll_shape_def dlist_def)

text \<open>Deleting the first match; what the destructor gets.\<close>

fun drop_first :: "('d \<Rightarrow> bool) \<Rightarrow> 'd list \<Rightarrow> 'd list" where
  "drop_first P [] = []"
| "drop_first P (d # ds) = (if P d then ds else d # drop_first P ds)"

fun first_hit :: "('d \<Rightarrow> bool) \<Rightarrow> 'd list \<Rightarrow> 'd list" where
  "first_hit P [] = []"
| "first_hit P (d # ds) = (if P d then [d] else first_hit P ds)"

lemma del_element_loop_wf:
  assumes "llist_wf l (xs @ ys)"
  shows "\<exists>l' zs. del_element_loop compare element (first_ptr ys None) l = Some l' \<and> llist_wf l' (xs @ zs) \<and>
    ll_vals (ll_elems l') (xs @ zs) =
      ll_vals (ll_elems l) xs @ drop_first (\<lambda>d. compare d element) (ll_vals (ll_elems l) ys) \<and>
    ll_destroyed l' = ll_destroyed l @
      (if ll_dtor l then first_hit (\<lambda>d. compare d element) (ll_vals (ll_elems l) ys) else [])"
  using assms
proof (induction ys arbitrary: xs)
  case Nil
  then show ?case by (subst del_element_loop.simps) (auto intro: exI [of _ "[]"])
next
  case (Cons y ys)
  obtain e where e: "cells (ll_elems l) y = Some e" "le_next e = first_ptr ys None"
    "le_data e = the (ll_data (ll_elems l) y)" using llist_wf_links [OF Cons.prems] by metis
  show ?case
  proof (cases "compare (le_data e) element")
    case True
    from llist_del_wf [OF Cons.prems] obtain l' where l': "DEL_LLIST_ELEMENT y l = Some l'"
      "llist_wf l' (xs @ ys)" "ll_data (ll_elems l') = (ll_data (ll_elems l))(y := None)"
      "ll_destroyed l' = ll_destroyed l @ (if ll_dtor l then [the (ll_data (ll_elems l) y)] else [])" by blast
    moreover have "y \<notin> set (xs @ ys)" using llist_wf_distinct [OF Cons.prems] by auto
    ultimately have "ll_vals (ll_elems l') (xs @ ys) = ll_vals (ll_elems l) (xs @ ys)"
      by (intro llist_notin_vals) auto
    with l' True e show ?thesis
      by (intro exI [of _ l'] exI [of _ ys], subst del_element_loop.simps) auto
  next
    case False
    from Cons.IH [of "xs @ [y]"] Cons.prems obtain l' zs where
      "del_element_loop compare element (first_ptr ys None) l = Some l'" "llist_wf l' ((xs @ [y]) @ zs)"
      "ll_vals (ll_elems l') ((xs @ [y]) @ zs) =
        ll_vals (ll_elems l) (xs @ [y]) @ drop_first (\<lambda>d. compare d element) (ll_vals (ll_elems l) ys)"
      "ll_destroyed l' = ll_destroyed l @
        (if ll_dtor l then first_hit (\<lambda>d. compare d element) (ll_vals (ll_elems l) ys) else [])"
      by auto
    with False e show ?thesis
      by (intro exI [of _ l'] exI [of _ "y # zs"], subst del_element_loop.simps) auto
  qed
qed

text \<open>Destroying frees every node and calls the destructor on every value, in list order.\<close>

lemma destroy_loop_spec:
  assumes "region_wf (ll_elems l)" "distinct ys" "dseg (ll_links (ll_elems l)) lft ys None"
  shows "\<exists>r. destroy_loop (first_ptr ys None) l =
      Some (l\<lparr>ll_elems := r, ll_destroyed := ll_destroyed l @ (if ll_dtor l then ll_vals (ll_elems l) ys else [])\<rparr>) \<and>
    region_wf r \<and> cells r = (cells (ll_elems l)) |` (- set ys)"
  using assms
proof (induction ys arbitrary: l lft)
  case Nil
  then show ?case by (subst destroy_loop.simps) (auto intro!: exI [of _ "ll_elems l"])
next
  case (Cons y ys)
  then obtain e where e: "cells (ll_elems l) y = Some e" "le_next e = first_ptr ys None"
    by (auto simp: view_Some_iff)
  obtain r1 where r1: "free_cell y (ll_elems l) = Some r1" using free_cell_Some [OF e(1)] by blast
  define l1 where "l1 = (call_ll_dtor (le_data e) l)\<lparr>ll_elems := r1\<rparr>"
  have l1: "ll_elems l1 = r1" "ll_dtor l1 = ll_dtor l"
    "ll_destroyed l1 = ll_destroyed l @ (if ll_dtor l then [le_data e] else [])"
    by (simp_all add: l1_def)
  have l1_upd: "l1\<lparr>ll_elems := r, ll_destroyed := ds\<rparr> = l\<lparr>ll_elems := r, ll_destroyed := ds\<rparr>" for r ds
    by (simp add: l1_def call_ll_dtor_def)
  have nv: "ll_vals r1 ys = ll_vals (ll_elems l) ys"
    using Cons.prems(2) by (intro llist_notin_vals [OF _ view_free_cell [OF r1]]) auto
  have "dseg (ll_links r1) (Some y) ys None"
    using Cons.prems(2,3) by (auto simp: view_free_cell [OF r1])
  with Cons.IH [of l1 "Some y"] Cons.prems(1,2) region_wf_free_cell [OF _ r1] obtain r where
    r: "destroy_loop (first_ptr ys None) l1 =
      Some (l1\<lparr>ll_elems := r, ll_destroyed := ll_destroyed l1 @ (if ll_dtor l then ll_vals r1 ys else [])\<rparr>)"
      "region_wf r" "cells r = (cells r1) |` (- set ys)" unfolding l1(1,2) by auto
  have "cells r = cells (ll_elems l) |` (- set (y # ys))"
    unfolding r(3) cells_free_cell [OF r1] by (auto simp: restrict_map_def fun_eq_iff)
  moreover have "destroy_loop (first_ptr (y # ys) None) l = destroy_loop (first_ptr ys None) l1"
    using e r1 by (subst destroy_loop.simps) (simp add: l1_def call_ll_dtor_def)
  ultimately show ?case
    using r(1,2) e nv unfolding l1_upd l1(3) by (intro exI [of _ r]) (simp add: view_def)
qed

lemma llist_destroy_wf:
  assumes wf: "llist_wf l xs"
  shows "\<exists>l'. zend_llist_destroy l = Some l' \<and> cells (ll_elems l') = Map.empty \<and> region_wf (ll_elems l') \<and>
    ll_head l' = ll_head l \<and> ll_tail l' = ll_tail l \<and> ll_count l' = 0 \<and> ll_dtor l' = ll_dtor l \<and>
    ll_destroyed l' = ll_destroyed l @ (if ll_dtor l then ll_vals (ll_elems l) xs else [])"
proof -
  have wf': "region_wf (ll_elems l)" "distinct xs" "dseg (ll_links (ll_elems l)) None xs None"
    "dom (cells (ll_elems l)) = set xs" using wf by (auto simp: llist_wf_def ll_shape_def dlist_def)
  obtain r where "destroy_loop (first_ptr xs None) l =
      Some (l\<lparr>ll_elems := r, ll_destroyed := ll_destroyed l @ (if ll_dtor l then ll_vals (ll_elems l) xs else [])\<rparr>)"
    "region_wf r" "cells r = (cells (ll_elems l)) |` (- set xs)" using destroy_loop_spec [OF wf'(1-3)] by blast
  moreover have "cells (ll_elems l) |` (- set xs) = Map.empty"
    using wf'(4) by (auto simp: restrict_map_def fun_eq_iff)
  ultimately show ?thesis using llist_wf_ends [OF wf] by (simp add: zend_llist_destroy_def)
qed

lemma llist_clean_wf:
  assumes wf: "llist_wf l xs"
  shows "\<exists>l'. zend_llist_clean l = Some l' \<and> llist_wf l' [] \<and>
    ll_destroyed l' = ll_destroyed l @ (if ll_dtor l then ll_vals (ll_elems l) xs else [])"
  using llist_destroy_wf [OF wf] by (auto simp: zend_llist_clean_def llist_wf_def ll_shape_def)

lemma llist_remove_tail_wf:
  assumes wf: "llist_wf l (xs @ [a])"
  shows "\<exists>l'. zend_llist_remove_tail l = Some (Some a, l') \<and> llist_wf l' xs \<and>
    ll_vals (ll_elems l') xs = ll_vals (ll_elems l) xs \<and> cells (ll_elems l') a = None \<and>
    ll_destroyed l' = ll_destroyed l @ (if ll_dtor l then [the (ll_data (ll_elems l) a)] else [])"
proof -
  let ?r = "ll_elems l"
  from wf have sh: "ll_shape ?r (ll_head l) (ll_tail l) (xs @ [a])" by (simp add: llist_wf_def)
  then have L: "dlist (ll_links ?r) (ll_head l) (ll_tail l) (xs @ a # [])"
    and rwf: "region_wf ?r" and dm: "dom (cells ?r) = set (xs @ [a])" by (auto simp: ll_shape_def)
  then have seg: "dseg (ll_links ?r) None (xs @ a # []) None" and d: "distinct (xs @ a # [])"
    by (auto simp: dlist_def)
  obtain e where e: "cells ?r a = Some e" "le_prev e = last_ptr None xs" "le_data e = the (ll_data ?r a)"
    using llist_wf_links [OF wf] by metis
  obtain r1 where r1: "upd_if (last_ptr None xs) (set_next None) ?r = Some r1"
    "dseg (ll_links r1) None xs None" using ll.unlink_seg [OF seg d] by auto
  have "last_ptr None xs \<noteq> Some a" using d by (auto simp: last_ptr_Some_iff)
  with r1 e have e1: "cells r1 a = Some e" by (cases "last_ptr None xs") (auto dest: cells_upd_cell)
  obtain r2 where r2: "free_cell a r1 = Some r2" using free_cell_Some [OF e1] by blast
  have na: "a \<notin> set xs" using d by simp
  have "dlist (ll_links r2) (if le_prev e = None then None else ll_head l) (last_ptr None xs) xs"
    using r1(2) L d e(2) na by (cases xs) (auto simp: dlist_def view_free_cell [OF r2])
  moreover have "dom (cells r2) = set xs"
    using cells_free_cell [OF r2] dom_upd_if [OF r1(1)] dm na by auto
  moreover have "ll_data r2 = (ll_data ?r)(a := None)"
    using view_free_cell [OF r2, of le_data] view_upd_if_same [OF r1(1), of le_data] by simp
  moreover note region_wf_free_cell [OF region_wf_upd_if [OF rwf r1(1)] r2] cells_free_cell [OF r2]
  moreover have "ll_tail l = Some a" using L by (simp add: dlist_def)
  moreover have "ll_count l - 1 = of_nat (length xs)" "length xs < 2 ^ 64" using wf by (auto simp: llist_wf_def)
  ultimately show ?thesis
    using e e1 r1(1) r2 na llist_notin_vals [OF na]
    by (simp add: zend_llist_remove_tail_def llist_wf_def ll_shape_def)
qed

lemma copy_loop_spec:
  assumes "dseg (ll_links src) lft ys None" "llist_wf dst xs" "length xs + length ys < 2 ^ 64"
  shows "\<exists>dst' zs. copy_loop src (first_ptr ys None) dst = Some dst' \<and> llist_wf dst' zs \<and>
    ll_vals (ll_elems dst') zs = ll_vals (ll_elems dst) xs @ ll_vals src ys \<and>
    ll_dtor dst' = ll_dtor dst \<and> ll_size dst' = ll_size dst \<and> ll_persistent dst' = ll_persistent dst"
  using assms
proof (induction ys arbitrary: dst xs lft)
  case Nil
  then show ?case by (subst copy_loop.simps) auto
next
  case (Cons y ys)
  then obtain e where e: "cells src y = Some e" "le_next e = first_ptr ys None" "le_data e = the (ll_data src y)"
    by (auto simp: view_Some_iff view_def)
  from llist_add_wf [OF Cons.prems(2), of "le_data e"] Cons.prems(3) obtain dst1 a where
    d1: "zend_llist_add_element dst (le_data e) = Some dst1" "llist_wf dst1 (xs @ [a])"
    "ll_vals (ll_elems dst1) (xs @ [a]) = ll_vals (ll_elems dst) xs @ [le_data e]" by auto
  from Cons.IH [OF _ d1(2), of "Some y"] Cons.prems obtain dst' zs where
    "copy_loop src (first_ptr ys None) dst1 = Some dst'" "llist_wf dst' zs"
    "ll_vals (ll_elems dst') zs = ll_vals (ll_elems dst1) (xs @ [a]) @ ll_vals src ys"
    "ll_dtor dst' = ll_dtor dst1" "ll_size dst' = ll_size dst1" "ll_persistent dst' = ll_persistent dst1" by auto
  with d1 e llist_add_frame [OF d1(1)] show ?case
    by (intro exI [of _ dst'] exI [of _ zs], subst copy_loop.simps) auto
qed

text \<open>Applying a callback to every value: the state is threaded in list order.\<close>

fun map_state :: "('d \<Rightarrow> 's \<Rightarrow> 'd \<times> 's) \<Rightarrow> 'd list \<Rightarrow> 's \<Rightarrow> 'd list \<times> 's" where
  "map_state f [] s = ([], s)"
| "map_state f (d # ds) s =
     (let (d', s') = f d s; (ds', s'') = map_state f ds s' in (d' # ds', s''))"

lemma set_data_links: "cells r a = Some e \<Longrightarrow> upd_cell a (\<lambda>x. x\<lparr>le_data := d\<rparr>) r = Some r' \<Longrightarrow>
    ll_links r' = ll_links r \<and> ll_data r' = (ll_data r)(a \<mapsto> d) \<and> cells r' a = Some (e\<lparr>le_data := d\<rparr>)"
  using view_upd_cell_same [of a "\<lambda>x. x\<lparr>le_data := d\<rparr>" r r' "\<lambda>b. (le_next b, le_prev b)"]
    view_upd_cell [of r a e "\<lambda>x. x\<lparr>le_data := d\<rparr>" r' le_data]
  by (auto dest!: cells_upd_cell)

lemma apply_loop_spec:
  assumes "dseg (ll_links r) lft ys None" "distinct ys" "region_wf r"
  shows "\<exists>r' s'. apply_loop func (first_ptr ys None) r s = Some (r', s') \<and> ll_links r' = ll_links r \<and>
    dom (cells r') = dom (cells r) \<and> region_wf r' \<and> (\<forall>a. a \<notin> set ys \<longrightarrow> ll_data r' a = ll_data r a) \<and>
    (ll_vals r' ys, s') = map_state func (ll_vals r ys) s"
  using assms
proof (induction ys arbitrary: r s lft)
  case Nil
  then show ?case by (subst apply_loop.simps) auto
next
  case (Cons y ys)
  then obtain e where e: "cells r y = Some e" "le_next e = first_ptr ys None" by (auto simp: view_Some_iff)
  obtain d s1 where f: "func (le_data e) s = (d, s1)" by fastforce
  obtain r1 where r1: "upd_cell y (\<lambda>x. x\<lparr>le_data := d\<rparr>) r = Some r1" using upd_cell_eq [OF e(1)] by blast
  note r1v = set_data_links [OF e(1) r1]
  have v1: "ll_vals r1 ys = ll_vals r ys" using Cons.prems(2) r1v by (intro ll_vals_cong) auto
  have "dseg (ll_links r1) (Some y) ys None" using Cons.prems(1) r1v by auto
  with Cons.IH [of r1 "Some y" s1] Cons.prems(2) region_wf_upd_cell [OF Cons.prems(3) r1] obtain r' s' where
    r': "apply_loop func (first_ptr ys None) r1 s1 = Some (r', s')" "ll_links r' = ll_links r1"
      "dom (cells r') = dom (cells r1)" "region_wf r'" "\<forall>a. a \<notin> set ys \<longrightarrow> ll_data r' a = ll_data r1 a"
      "(ll_vals r' ys, s') = map_state func (ll_vals r ys) s1" using v1 by auto
  have "apply_loop func (first_ptr (y # ys) None) r s = Some (r', s')"
    using e f r1 r1v r'(1) by (subst apply_loop.simps) simp
  moreover have "ll_data r' y = Some d" using r'(5) Cons.prems(2) r1v by auto
  ultimately show ?case
    using r' r1v dom_upd_cell [OF r1] e f by (intro exI [of _ r'] exI [of _ s']) (auto simp: view_def split: prod.splits)
qed

lemma llist_apply_wf:
  assumes wf: "llist_wf l xs"
  shows "\<exists>l' s'. zend_llist_apply l func s = Some (l', s') \<and> llist_wf l' xs \<and>
    (ll_vals (ll_elems l') xs, s') = map_state func (ll_vals (ll_elems l) xs) s"
proof -
  have wf': "region_wf (ll_elems l)" "distinct xs" "dseg (ll_links (ll_elems l)) None xs None"
    using wf by (auto simp: llist_wf_def ll_shape_def dlist_def)
  from apply_loop_spec [OF wf'(3,2,1), of func s] wf llist_wf_ends [OF wf] show ?thesis
    by (auto simp: zend_llist_apply_def llist_wf_def ll_shape_def)
qed

text \<open>Applying a callback that may ask for the deletion of the value it got.\<close>

fun filter_state :: "('d \<Rightarrow> 's \<Rightarrow> bool \<times> 'd \<times> 's) \<Rightarrow> 'd list \<Rightarrow> 's \<Rightarrow> 'd list \<times> 'd list \<times> 's" where
  "filter_state f [] s = ([], [], s)"
| "filter_state f (d # ds) s =
     (let (del, d', s') = f d s; (keep, gone, s'') = filter_state f ds s'
      in if del then (keep, d' # gone, s'') else (d' # keep, gone, s''))"

lemma llist_wf_set_data:
  assumes wf: "llist_wf l xs" and e: "cells (ll_elems l) a = Some e"
    and r: "upd_cell a (\<lambda>x. x\<lparr>le_data := d\<rparr>) (ll_elems l) = Some r"
  shows "llist_wf (l\<lparr>ll_elems := r\<rparr>) xs"
  using wf set_data_links [OF e r] dom_upd_cell [OF r] region_wf_upd_cell [OF _ r]
  by (auto simp: llist_wf_def ll_shape_def)

lemma apply_with_del_loop_spec:
  assumes "llist_wf l (xs @ ys)"
  shows "\<exists>l' s' zs gone. apply_with_del_loop func (first_ptr ys None) l s = Some (l', s') \<and>
    llist_wf l' (xs @ zs) \<and> ll_vals (ll_elems l') xs = ll_vals (ll_elems l) xs \<and> ll_dtor l' = ll_dtor l \<and>
    (ll_vals (ll_elems l') zs, gone, s') = filter_state func (ll_vals (ll_elems l) ys) s \<and>
    ll_destroyed l' = ll_destroyed l @ (if ll_dtor l then gone else [])"
  using assms
proof (induction ys arbitrary: l s xs)
  case Nil
  then show ?case by (subst apply_with_del_loop.simps) (auto intro!: exI [of _ "[]"])
next
  case (Cons y ys)
  obtain e where e: "cells (ll_elems l) y = Some e" "le_next e = first_ptr ys None"
    "le_data e = the (ll_data (ll_elems l) y)" using llist_wf_links [OF Cons.prems] by metis
  obtain del d s1 where f: "func (le_data e) s = (del, d, s1)" by (metis prod_cases3)
  obtain r1 where r1: "upd_cell y (\<lambda>x. x\<lparr>le_data := d\<rparr>) (ll_elems l) = Some r1"
    using upd_cell_eq [OF e(1)] by blast
  let ?l1 = "l\<lparr>ll_elems := r1\<rparr>"
  note r1v = set_data_links [OF e(1) r1]
  have wf1: "llist_wf ?l1 (xs @ y # ys)" by (rule llist_wf_set_data [OF Cons.prems e(1) r1])
  have y: "y \<notin> set xs" "y \<notin> set ys" using llist_wf_distinct [OF Cons.prems] by auto
  have v1: "ll_vals r1 xs = ll_vals (ll_elems l) xs" "ll_vals r1 ys = ll_vals (ll_elems l) ys"
    using y r1v by (auto intro!: ll_vals_cong)
  show ?case
  proof (cases del)
    case True
    from llist_del_wf [OF wf1] r1v obtain l2 where l2: "DEL_LLIST_ELEMENT y ?l1 = Some l2" "llist_wf l2 (xs @ ys)"
      "ll_data (ll_elems l2) = (ll_data r1)(y := None)" "ll_dtor l2 = ll_dtor l"
      "ll_destroyed l2 = ll_destroyed l @ (if ll_dtor l then [d] else [])" by auto
    have v2: "ll_vals (ll_elems l2) xs = ll_vals (ll_elems l) xs" "ll_vals (ll_elems l2) ys = ll_vals (ll_elems l) ys"
      using llist_notin_vals [OF y(1) l2(3)] llist_notin_vals [OF y(2) l2(3)] v1 by auto
    from Cons.IH [OF l2(2), of s1] v2 l2(4) obtain l' s' zs gone where
      "apply_with_del_loop func (first_ptr ys None) l2 s1 = Some (l', s')" "llist_wf l' (xs @ zs)"
      "ll_vals (ll_elems l') xs = ll_vals (ll_elems l) xs" "ll_dtor l' = ll_dtor l"
      "(ll_vals (ll_elems l') zs, gone, s') = filter_state func (ll_vals (ll_elems l) ys) s1"
      "ll_destroyed l' = ll_destroyed l2 @ (if ll_dtor l then gone else [])" by auto
    moreover from this have "apply_with_del_loop func (first_ptr (y # ys) None) l s = Some (l', s')"
      using e f r1 True l2(1) by (subst apply_with_del_loop.simps) simp
    ultimately show ?thesis
      using e f True l2(5)
      by (intro exI [of _ l'] exI [of _ s'] exI [of _ zs] exI [of _ "d # gone"]) (auto split: prod.splits)
  next
    case False
    from Cons.IH [of ?l1 "xs @ [y]" s1] wf1 v1 r1v obtain l' s' zs gone where
      "apply_with_del_loop func (first_ptr ys None) ?l1 s1 = Some (l', s')" "llist_wf l' ((xs @ [y]) @ zs)"
      "ll_vals (ll_elems l') (xs @ [y]) = ll_vals (ll_elems l) xs @ [d]" "ll_dtor l' = ll_dtor l"
      "(ll_vals (ll_elems l') zs, gone, s') = filter_state func (ll_vals (ll_elems l) ys) s1"
      "ll_destroyed l' = ll_destroyed l @ (if ll_dtor l then gone else [])" by auto
    moreover from this have "apply_with_del_loop func (first_ptr (y # ys) None) l s = Some (l', s')"
      using e f r1 False by (subst apply_with_del_loop.simps) simp
    ultimately show ?thesis
      using e f False
      by (intro exI [of _ l'] exI [of _ s'] exI [of _ "y # zs"] exI [of _ gone]) (auto split: prod.splits)
  qed
qed

text \<open>Linking the nodes in a new order.\<close>

lemma llist_relink_spec:
  assumes "distinct (e0 # es)" "set (e0 # es) \<subseteq> dom (cells r)" "region_wf r" "ll_links r e0 = Some (n, lft)"
  shows "\<exists>r'. llist_relink e0 es r = Some r' \<and> dseg (ll_links r') lft (e0 # es) None \<and>
    (\<forall>a. a \<notin> set (e0 # es) \<longrightarrow> ll_links r' a = ll_links r a) \<and> ll_data r' = ll_data r \<and>
    dom (cells r') = dom (cells r) \<and> region_wf r'"
  using assms
proof (induction es arbitrary: e0 r n lft)
  case Nil
  from ll.links_upd_nx [OF Nil.prems(4), of None] obtain r' where
    r': "upd_cell e0 (set_next None) r = Some r'" "ll_links r' = (ll_links r)(e0 \<mapsto> (None, lft))" by blast
  with Nil view_upd_cell_same [OF r'(1), of le_data] dom_upd_cell [OF r'(1)] region_wf_upd_cell [OF _ r'(1)]
  show ?case by auto
next
  case (Cons e1 es)
  then have "ll_links r e1 \<noteq> None" by auto
  then obtain n1 p1 where "ll_links r e1 = Some (n1, p1)" by fastforce
  from ll.links_upd_pv [OF this, of "Some e0"] obtain r1 where
    r1: "upd_cell e1 (set_prev (Some e0)) r = Some r1" "ll_links r1 = (ll_links r)(e1 \<mapsto> (n1, Some e0))" by blast
  have "ll_links r1 e0 = Some (n, lft)" using Cons.prems r1(2) by auto
  from ll.links_upd_nx [OF this, of "Some e1"] obtain r2 where
    r2: "upd_cell e0 (set_next (Some e1)) r1 = Some r2" "ll_links r2 = (ll_links r1)(e0 \<mapsto> (Some e1, lft))" by blast
  have frame: "ll_data r2 = ll_data r" "dom (cells r2) = dom (cells r)" "region_wf r2"
    using view_upd_cell_same [OF r1(1), of le_data] view_upd_cell_same [OF r2(1), of le_data]
      dom_upd_cell [OF r1(1)] dom_upd_cell [OF r2(1)]
      region_wf_upd_cell [OF region_wf_upd_cell [OF Cons.prems(3) r1(1)] r2(1)] by auto
  have "ll_links r2 e1 = Some (n1, Some e0)" using Cons.prems(1) r1(2) r2(2) by auto
  with Cons.IH [of e1 r2 n1 "Some e0"] Cons.prems frame obtain r' where
    r': "llist_relink e1 es r2 = Some r'" "dseg (ll_links r') (Some e0) (e1 # es) None"
      "\<forall>a. a \<notin> set (e1 # es) \<longrightarrow> ll_links r' a = ll_links r2 a" "ll_data r' = ll_data r2"
      "dom (cells r') = dom (cells r2)" "region_wf r'" by auto
  with Cons.prems(1) r1 r2 frame show ?case by (intro exI [of _ r']) auto
qed

lemma ll_vals_mset: "mset ys = mset xs \<Longrightarrow> mset (ll_vals r ys) = mset (ll_vals r xs)"
  by (simp add: ll_vals_def)

lemma llist_sort_wf:
  assumes wf: "llist_wf l xs"
  shows "\<exists>l' ys. zend_llist_sort l cmp = Some l' \<and> llist_wf l' ys \<and> mset ys = mset xs \<and>
    ll_data (ll_elems l') = ll_data (ll_elems l) \<and>
    (preorder_compare cmp \<longrightarrow>
       sorted_wrt (\<lambda>a b. below cmp (the (cells (ll_elems l) a)) (the (cells (ll_elems l) b))) ys)"
proof (cases "xs = []")
  case True
  with wf show ?thesis by (intro exI [of _ l] exI [of _ "[]"]) (auto simp: zend_llist_sort_def llist_wf_def)
next
  case False
  let ?r = "ll_elems l" and ?c = "\<lambda>(x :: addr \<times> 'a zend_llist_element) y. cmp (snd x) (snd y)"
  have w: "region_wf ?r" "distinct xs" "dseg (ll_links ?r) None xs None" "dom (cells ?r) = set xs"
    "length xs < 2 ^ 64" using wf by (auto simp: llist_wf_def ll_shape_def dlist_def)
  have col: "collect_nodes le_next ?r (ll_head l) = Some (map (\<lambda>a. (a, the (cells ?r a))) xs)"
    using ll.collect_dseg [OF w(3)] llist_wf_ends [OF wf] by simp
  obtain ys where ys: "zend_qsort (map (\<lambda>a. (a, the (cells ?r a))) xs) 8 ?c = Some (map (\<lambda>a. (a, the (cells ?r a))) ys)"
    "mset ys = mset xs" "distinct ys" "set ys = set xs" "length ys = length xs"
    "preorder_compare ?c \<longrightarrow> sorted_wrt (\<lambda>a b. below ?c (a, the (cells ?r a)) (b, the (cells ?r b))) ys"
    using qs.sort_nodes [OF w(5,2), of "\<lambda>a. the (cells ?r a)" ?c] by blast
  have pre: "preorder_compare ?c" if "preorder_compare cmp"
    using preorder_compare_map [OF that, of snd] .
  obtain e0 es where ye: "ys = e0 # es" using ys(5) False by (cases ys) auto
  have "ll_links ?r e0 \<noteq> None" using ye ys(4) w(4) by auto
  then obtain n p where "ll_links ?r e0 = Some (n, p)" by fastforce
  from ll.links_upd_pv [OF this, of None] obtain r1 where
    r1: "upd_cell e0 (set_prev None) ?r = Some r1" "ll_links r1 = (ll_links ?r)(e0 \<mapsto> (n, None))" by blast
  have "\<exists>r'. llist_relink e0 es r1 = Some r' \<and> dseg (ll_links r') None (e0 # es) None \<and>
    (\<forall>a. a \<notin> set (e0 # es) \<longrightarrow> ll_links r' a = ll_links r1 a) \<and> ll_data r' = ll_data r1 \<and>
    dom (cells r') = dom (cells r1) \<and> region_wf r'"
    using ye ys(3,4) w(1,4) r1(2) dom_upd_cell [OF r1(1)] region_wf_upd_cell [OF w(1) r1(1)]
    by (intro llist_relink_spec) auto
  then obtain r2 where r2: "llist_relink e0 es r1 = Some r2" "dseg (ll_links r2) None ys None"
    "ll_data r2 = ll_data r1" "dom (cells r2) = dom (cells r1)" "region_wf r2" using ye by blast
  have "ll_data r2 = ll_data ?r" "dom (cells r2) = set ys"
    using r2 view_upd_cell_same [OF r1(1), of le_data] dom_upd_cell [OF r1(1)] w(4) ys(4) by auto
  moreover have cnt: "\<not> ll_count l \<le> 0" "unat (ll_count l) = length xs"
    using llist_wf_length [OF wf] False by auto
  moreover have "map fst (map (\<lambda>a. (a, the (cells ?r a))) ys) = ys" by (simp add: comp_def)
  then have "zend_llist_sort l cmp = Some (l\<lparr>ll_elems := r2, ll_head := Some e0, ll_tail := Some (last ys)\<rparr>)"
    unfolding zend_llist_sort_def using cnt col ys(1) r1(1) r2(1) ye
    by (simp only: simp_thms if_False if_True length_map bind.bind_lunit ye list.case)
  ultimately show ?thesis
    using wf ys pre r2 ye
    by (intro exI [of _ "l\<lparr>ll_elems := r2, ll_head := Some e0, ll_tail := Some (last ys)\<rparr>"] exI [of _ ys])
       (auto simp: llist_wf_def ll_shape_def dlist_def last_ptr_def below_def)
qed

section \<open>Properties\<close>

text \<open>A list built by appending to a just initialised one, for the concrete instances below.\<close>

definition blank_llist :: "'d zend_llist" where
  "blank_llist = \<lparr>ll_head = Some 9, ll_tail = None, ll_count = 77, ll_size = 0, ll_dtor = False,
     ll_persistent = False, ll_traverse_ptr = Some 5, ll_elems = region_empty, ll_destroyed = []\<rparr>"

definition llist_of :: "'d list \<Rightarrow> 'd zend_llist" where
  "llist_of ds = foldl (\<lambda>l d. the (zend_llist_add_element l d)) (zend_llist_init blank_llist 8 True False) ds"

lemma llist_holds_length: "llist_holds l ds \<Longrightarrow> length ds < 2 ^ 64 \<and> unat (ll_count l) = length ds"
  by (auto simp: llist_holds_def llist_wf_length) (simp add: llist_wf_def)

lemma llist_holdsI: "llist_wf l xs \<Longrightarrow> ll_vals (ll_elems l) xs = ds \<Longrightarrow> llist_holds l ds"
  by (auto simp: llist_holds_def)

lemma llist_holds_add:
  "llist_holds l ds \<Longrightarrow> length ds + 1 < 2 ^ 64 \<Longrightarrow>
     \<exists>l'. zend_llist_add_element l d = Some l' \<and> llist_holds l' (ds @ [d])"
  unfolding llist_holds_def using llist_add_wf ll_vals_simps(4) by metis

lemma llist_holds_of: "length ds < 2 ^ 64 \<Longrightarrow> llist_holds (llist_of ds) ds"
proof (induction ds rule: rev_induct)
  case Nil
  show ?case
    by (rule llist_holdsI [of _ "[]"]) (simp_all add: llist_of_def llist_wf_init blank_llist_def)
next
  case (snoc d ds)
  with llist_holds_add [of "llist_of ds" ds d] show ?case by (auto simp: llist_of_def)
qed

text \<open>
  C16: appending and prepending to a list holding the values \<open>ds\<close> make no invalid access and give
  a list holding \<open>ds @ [d]\<close> and \<open>d # ds\<close>.
\<close>

theorem llist_insert_refines:
  assumes "llist_holds l ds" "length ds + 1 < 2 ^ 64"
  shows "(\<exists>l'. zend_llist_add_element l d = Some l' \<and> llist_holds l' (ds @ [d])) \<and>
    (\<exists>l'. zend_llist_prepend_element l d = Some l' \<and> llist_holds l' (d # ds))"
proof
  show "\<exists>l'. zend_llist_add_element l d = Some l' \<and> llist_holds l' (ds @ [d])"
    by (rule llist_holds_add [OF assms])
  from assms(1) obtain xs where "llist_wf l xs" "ds = ll_vals (ll_elems l) xs" by (auto simp: llist_holds_def)
  with llist_prepend_wf [of l xs d] assms(2)
  show "\<exists>l'. zend_llist_prepend_element l d = Some l' \<and> llist_holds l' (d # ds)"
    by (auto intro!: llist_holdsI)
qed

theorem llist_insert_refines_witness:
  "\<exists>l'. zend_llist_prepend_element (llist_of [4, 5 :: int]) 3 = Some l' \<and> llist_holds l' [3, 4, 5]"
  using llist_insert_refines [OF llist_holds_of [of "[4, 5 :: int]"], of 3] by simp

text \<open>
  C15: \<open>zend_llist_del_element\<close> removes the first value that compares equal, the others keep their
  order, and the destructor is called exactly on the removed value, if there is one.
\<close>

theorem llist_del_element_refines:
  assumes "llist_holds l ds"
  shows "\<exists>l'. zend_llist_del_element l el compare = Some l' \<and>
    llist_holds l' (drop_first (\<lambda>d. compare d el) ds) \<and>
    ll_destroyed l' = ll_destroyed l @ (if ll_dtor l then first_hit (\<lambda>d. compare d el) ds else [])"
proof -
  from assms obtain xs where xs: "llist_wf l xs" "ds = ll_vals (ll_elems l) xs" by (auto simp: llist_holds_def)
  with del_element_loop_wf [of l "[]" xs compare el] llist_wf_ends [OF xs(1)] show ?thesis
    by (auto simp: zend_llist_del_element_def intro!: llist_holdsI)
qed

theorem llist_del_element_refines_witness:
  "\<exists>l'. zend_llist_del_element (llist_of [4, 5, 5 :: int]) 5 (=) = Some l' \<and> llist_holds l' [4, 5]"
  using llist_del_element_refines [OF llist_holds_of [of "[4, 5, 5 :: int]"], of 5 "(=)"] by auto

text \<open>
  \<open>zend_llist_apply_with_del\<close> calls the callback once on every value in list order, keeps the
  values it does not ask to delete, and calls the destructor on the others, in order.
\<close>

theorem llist_apply_with_del_refines:
  assumes "llist_holds l ds" and "filter_state func ds s = (keep, gone, s')"
  shows "\<exists>l'. zend_llist_apply_with_del l func s = Some (l', s') \<and> llist_holds l' keep \<and>
    ll_destroyed l' = ll_destroyed l @ (if ll_dtor l then gone else [])"
proof -
  from assms obtain xs where xs: "llist_wf l xs" "ds = ll_vals (ll_elems l) xs" by (auto simp: llist_holds_def)
  with apply_with_del_loop_spec [of l "[]" xs func s] llist_wf_ends [OF xs(1)] assms(2) show ?thesis
    by (auto simp: zend_llist_apply_with_del_def intro!: llist_holdsI)
qed

theorem llist_apply_with_del_refines_witness:
  "\<exists>l'. zend_llist_apply_with_del (llist_of [1, 2, 3 :: int]) (\<lambda>d s. (even d, d, s + d)) 0 = Some (l', 6) \<and>
    llist_holds l' [1, 3]"
  using llist_apply_with_del_refines [OF llist_holds_of [of "[1, 2, 3 :: int]"],
      of "\<lambda>d s. (even d, d, s + d)" 0 "[1, 3]" "[2]" 6] by auto

text \<open>
  \<open>zend_llist_sort\<close> leaves a well-formed list with the same values for every comparison, and an
  ordered one when the comparison is a total preorder.
\<close>

theorem llist_sort_sorts:
  fixes ds :: "'a list"
  assumes "llist_holds l ds"
  shows "\<exists>l' es. zend_llist_sort l (\<lambda>x y. cmp (le_data x) (le_data y)) = Some l' \<and> llist_holds l' es \<and>
    mset es = mset ds \<and> (preorder_compare cmp \<longrightarrow> sorted_wrt (below cmp) es)"
proof -
  let ?c = "\<lambda>(x :: 'a zend_llist_element) (y :: 'a zend_llist_element). cmp (le_data x) (le_data y)"
  from assms obtain xs where xs: "llist_wf l xs" "ds = ll_vals (ll_elems l) xs" by (auto simp: llist_holds_def)
  from llist_sort_wf [OF xs(1), of ?c] obtain l' ys where l': "zend_llist_sort l ?c = Some l'" "llist_wf l' ys"
    "mset ys = mset xs" "ll_data (ll_elems l') = ll_data (ll_elems l)"
    and srt: "preorder_compare ?c \<longrightarrow>
       sorted_wrt (\<lambda>a b. below ?c (the (cells (ll_elems l) a)) (the (cells (ll_elems l) b))) ys" by blast
  have live: "ll_data (ll_elems l) a = Some (le_data (the (cells (ll_elems l) a)))" if "a \<in> set ys" for a
  proof -
    from that xs(1) mset_eq_setD [OF l'(3)] have "a \<in> dom (cells (ll_elems l))"
      by (simp add: llist_wf_def ll_shape_def)
    then show ?thesis by (auto simp: view_def)
  qed
  have "sorted_wrt (below cmp) (ll_vals (ll_elems l) ys)" if "preorder_compare cmp"
    using srt preorder_compare_map [OF that, of le_data] live
    by (auto simp: ll_vals_def sorted_wrt_map below_def intro: sorted_wrt_mono_rel [rotated])
  moreover have "ll_vals (ll_elems l') ys = ll_vals (ll_elems l) ys" by (rule ll_vals_cong) (simp add: l'(4))
  ultimately show ?thesis using l' xs(2) ll_vals_mset [OF l'(3), of "ll_elems l"]
    by (intro exI [of _ l'] exI [of _ "ll_vals (ll_elems l) ys"]) (auto intro: llist_holdsI)
qed

theorem llist_sort_sorts_witness:
  "\<exists>l' es. zend_llist_sort (llist_of [3, 1, 2 :: int]) (\<lambda>x y. le_data x - le_data y) = Some l' \<and>
    llist_holds l' es \<and> mset es = {#1, 2, 3#} \<and> sorted es"
proof -
  have "preorder_compare (-)" by (auto simp: preorder_compare_def asym_compare_def below_def)
  moreover have "below (\<lambda>x y. x - y) = ((\<le>) :: int \<Rightarrow> int \<Rightarrow> bool)" by (auto simp: fun_eq_iff below_def)
  ultimately show ?thesis using llist_sort_sorts [OF llist_holds_of [of "[3, 1, 2 :: int]"], of "(-)"]
    by (auto simp: add_mset_commute)
qed

text \<open>
  the traversal functions step through the values in list order and back, from either end, and
  stop with \<open>NULL\<close> past the ends.
\<close>

theorem llist_traversal:
  assumes "llist_holds l ds"
  shows "\<exists>xs. length xs = length ds \<and> (\<forall>i<length ds. ll_data (ll_elems l) (xs ! i) = Some (ds ! i)) \<and>
    zend_llist_get_first_ex l (Some p) = (first_ptr xs None, l, Some (first_ptr xs None)) \<and>
    zend_llist_get_last_ex l (Some p) = (last_ptr None xs, l, Some (last_ptr None xs)) \<and>
    (\<forall>i<length ds.
      (let n = (if Suc i < length ds then Some (xs ! Suc i) else None)
       in zend_llist_get_next_ex l (Some (Some (xs ! i))) = Some (n, l, Some n)) \<and>
      (let n = (if 0 < i then Some (xs ! (i - 1)) else None)
       in zend_llist_get_prev_ex l (Some (Some (xs ! i))) = Some (n, l, Some n)))"
proof -
  from assms obtain xs where xs: "llist_wf l xs" "ds = ll_vals (ll_elems l) xs" by (auto simp: llist_holds_def)
  have step: "ll_data (ll_elems l) (xs ! i) = Some (ds ! i) \<and>
      (\<exists>e. cells (ll_elems l) (xs ! i) = Some e \<and> le_next e = (if Suc i < length xs then Some (xs ! Suc i) else None) \<and>
         le_prev e = (if 0 < i then Some (xs ! (i - 1)) else None))" if i: "i < length xs" for i
  proof -
    obtain e where "cells (ll_elems l) (xs ! i) = Some e" "le_next e = first_ptr (drop (Suc i) xs) None"
      "le_prev e = last_ptr None (take i xs)" "le_data e = the (ll_data (ll_elems l) (xs ! i))"
      using llist_wf_links [of l "take i xs" "xs ! i" "drop (Suc i) xs"] xs(1) id_take_nth_drop [OF i] by metis
    moreover have "first_ptr (drop (Suc i) xs) None = (if Suc i < length xs then Some (xs ! Suc i) else None)"
      by (simp add: first_ptr_def hd_drop_conv_nth split: list.split)
         (metis Cons_nth_drop_Suc list.inject not_le drop_eq_Nil list.distinct(1))
    moreover have "last_ptr None (take i xs) = (if 0 < i then Some (xs ! (i - 1)) else None)"
      using i by (auto simp: last_ptr_def last_conv_nth)
    ultimately show ?thesis using i xs(2) by (auto simp: ll_vals_def view_def)
  qed
  have len: "length ds = length xs" using xs(2) by simp
  show ?thesis
  proof (intro exI [of _ xs] conjI allI impI)
    fix i assume "i < length ds"
    then have i: "i < length xs" by (simp add: len)
    from step [OF i] show "let n = (if Suc i < length ds then Some (xs ! Suc i) else None)
       in zend_llist_get_next_ex l (Some (Some (xs ! i))) = Some (n, l, Some n)"
      by (auto simp: zend_llist_get_next_ex_def get_current_def set_current_def len Let_def)
    from step [OF i] show "let n = (if 0 < i then Some (xs ! (i - 1)) else None)
       in zend_llist_get_prev_ex l (Some (Some (xs ! i))) = Some (n, l, Some n)"
      by (auto simp: zend_llist_get_prev_ex_def get_current_def set_current_def Let_def)
  qed (use step len llist_wf_ends [OF xs(1)] in
        \<open>auto simp: zend_llist_get_first_ex_def zend_llist_get_last_ex_def set_current_def\<close>)
qed

theorem llist_traversal_witness:
  "\<exists>xs. length xs = length [7, 8 :: int] \<and>
    zend_llist_get_next_ex (llist_of [7, 8 :: int]) (Some (Some (xs ! 0))) =
      Some (Some (xs ! 1), llist_of [7, 8], Some (Some (xs ! 1)))"
  using llist_traversal [OF llist_holds_of [of "[7, 8 :: int]"], of None]
  by (auto simp: Let_def)

text \<open>
  \<open>zend_llist_remove_tail\<close> removes the last value and calls the destructor on it; the pointer it
  returns is to the data of the node it has just freed, so its caller must not read it.
\<close>

theorem llist_remove_tail_dangles:
  assumes "llist_holds l (ds @ [d])"
  shows "\<exists>a l'. zend_llist_remove_tail l = Some (Some a, l') \<and> llist_holds l' ds \<and>
    ll_data (ll_elems l) a = Some d \<and> cells (ll_elems l') a = None \<and>
    ll_destroyed l' = ll_destroyed l @ (if ll_dtor l then [d] else [])"
proof -
  from assms obtain zs where zs: "llist_wf l zs" "ds @ [d] = ll_vals (ll_elems l) zs" by (auto simp: llist_holds_def)
  then obtain xs a where xs: "zs = xs @ [a]" by (cases zs rule: rev_cases) auto
  with zs have d: "ds = ll_vals (ll_elems l) xs" "the (ll_data (ll_elems l) a) = d" by auto
  have "ll_data (ll_elems l) a \<noteq> None" using zs(1) xs by (auto simp: llist_wf_def ll_shape_def)
  with llist_remove_tail_wf [of l xs a] zs(1) xs d show ?thesis
    by (auto intro: llist_holdsI)
qed

theorem llist_remove_tail_dangles_witness:
  "\<exists>a l'. zend_llist_remove_tail (llist_of [1, 2 :: int]) = Some (Some a, l') \<and> llist_holds l' [1] \<and>
    cells (ll_elems l') a = None"
  using llist_remove_tail_dangles [of "llist_of [1, 2 :: int]" "[1]" 2] llist_holds_of [of "[1, 2 :: int]"] by auto

text \<open>
  \<open>zend_llist_copy\<close> gives a list with the values, the element size and the destructor of the
  source; \<open>zend_llist_clean\<close> calls the destructor on every value in order and leaves an empty list.
\<close>

theorem llist_copy_clean:
  assumes "llist_holds src ds" "ll_elems dst = region_empty"
  shows "(\<exists>dst'. zend_llist_copy dst src = Some dst' \<and> llist_holds dst' ds \<and>
      ll_dtor dst' = ll_dtor src \<and> ll_size dst' = ll_size src) \<and>
    (\<exists>l'. zend_llist_clean src = Some l' \<and> llist_holds l' [] \<and>
      ll_destroyed l' = ll_destroyed src @ (if ll_dtor src then ds else []))"
proof -
  from assms obtain xs where xs: "llist_wf src xs" "ds = ll_vals (ll_elems src) xs" by (auto simp: llist_holds_def)
  then have "dseg (ll_links (ll_elems src)) None xs None" "length xs < 2 ^ 64"
    by (auto simp: llist_wf_def ll_shape_def dlist_def)
  from copy_loop_spec [OF this(1) llist_wf_init [OF assms(2), of "ll_size src" "ll_dtor src" "ll_persistent src"]]
    this(2) llist_wf_ends [OF xs(1)] xs(2) llist_clean_wf [OF xs(1)] show ?thesis
    by (fastforce simp: zend_llist_copy_def zend_llist_init_def intro: llist_holdsI)
qed

theorem llist_copy_clean_witness:
  "\<exists>dst'. zend_llist_copy blank_llist (llist_of [1, 2 :: int]) = Some dst' \<and> llist_holds dst' [1, 2]"
proof -
  have e: "ll_elems (blank_llist :: int zend_llist) = region_empty" by (simp add: blank_llist_def)
  show ?thesis using llist_copy_clean [OF llist_holds_of [of "[1, 2 :: int]"] e] by auto
qed

end
