(* ===== verification/ZendHashFunc.thy ===== *)
theory ZendHashFunc imports Prelude begin

text \<open>
  The string hash of \<open>Zend/zend_hash.h\<close>: \<open>zend_inline_hash_func\<close>, the multiply-by-33 hash with
  its loop unrolled eight times and its fall-through \<open>switch\<close> over the remaining length.

  A key is the list of its bytes. \<open>char\<close> is signed on the modelled build, so the byte that is
  added is sign extended to the width of the hash. Reading past the end of the key is \<open>None\<close>.
  The lemmas show that the unrolled code computes the plain left fold over the first
  \<open>nKeyLength\<close> bytes, reads no other byte, and returns.
\<close>

unbundle bit_operations_syntax

text \<open>\<open>hash = ((hash << 5) + hash) + *arKey++;\<close>\<close>

definition hash_char :: "u64 \<times> u8 list \<Rightarrow> (u64 \<times> u8 list) option" where
  "hash_char s = (case s of (hash, key) \<Rightarrow> (case key of
       [] \<Rightarrow> None
     | c # key' \<Rightarrow> Some ((push_bit 5 hash + hash) + scast c, key')))"

partial_function (option) hash_unrolled :: "u64 \<times> u8 list \<Rightarrow> u32 \<Rightarrow> (u64 \<times> u8 list \<times> u32) option" where
  "hash_unrolled s nKeyLength =
     (if 8 \<le> nKeyLength then do {
        s \<leftarrow> hash_char s; s \<leftarrow> hash_char s; s \<leftarrow> hash_char s; s \<leftarrow> hash_char s;
        s \<leftarrow> hash_char s; s \<leftarrow> hash_char s; s \<leftarrow> hash_char s; s \<leftarrow> hash_char s;
        hash_unrolled s (nKeyLength - 8)
      } else Some (fst s, snd s, nKeyLength))"

declare hash_unrolled.simps [code]

text \<open>The \<open>switch\<close>: every label falls through to the next one.\<close>

definition hash_switch :: "u64 \<times> u8 list \<Rightarrow> u32 \<Rightarrow> (u64 \<times> u8 list) option" where
  "hash_switch s nKeyLength = do {
     s \<leftarrow> (if nKeyLength = 7 then hash_char s else Some s);
     s \<leftarrow> (if nKeyLength \<in> {6, 7} then hash_char s else Some s);
     s \<leftarrow> (if nKeyLength \<in> {5, 6, 7} then hash_char s else Some s);
     s \<leftarrow> (if nKeyLength \<in> {4, 5, 6, 7} then hash_char s else Some s);
     s \<leftarrow> (if nKeyLength \<in> {3, 4, 5, 6, 7} then hash_char s else Some s);
     s \<leftarrow> (if nKeyLength \<in> {2, 3, 4, 5, 6, 7} then hash_char s else Some s);
     (if nKeyLength \<in> {1, 2, 3, 4, 5, 6, 7} then hash_char s else Some s)
   }"

definition zend_inline_hash_func :: "u8 list \<Rightarrow> u32 \<Rightarrow> u64 option" where
  "zend_inline_hash_func arKey nKeyLength = do {
     (hash, key, n) \<leftarrow> hash_unrolled (5381, arKey) nKeyLength;
     (hash, key) \<leftarrow> hash_switch (hash, key) n;
     Some hash
   }"

definition zend_hash_func :: "u8 list \<Rightarrow> u32 \<Rightarrow> u64 option" where
  "zend_hash_func arKey nKeyLength = zend_inline_hash_func arKey nKeyLength"

definition zend_get_hash_value :: "u8 list \<Rightarrow> u32 \<Rightarrow> u64 option" where
  "zend_get_hash_value arKey nKeyLength = zend_inline_hash_func arKey nKeyLength"

section \<open>The reference definition\<close>

definition djb_step :: "u8 \<Rightarrow> u64 \<Rightarrow> u64" where
  "djb_step c h = h * 33 + scast c"

definition djb_hash :: "u8 list \<Rightarrow> u64" where
  "djb_hash key = fold djb_step key 5381"

lemma push_bit_5: "push_bit 5 (h :: u64) + h = h * 33"
  by (simp add: push_bit_eq_mult algebra_simps)

lemma hash_char_simps [simp]:
  "hash_char (h, []) = None"
  "hash_char (h, c # key) = Some (djb_step c h, key)"
  by (simp_all add: hash_char_def djb_step_def push_bit_5)

text \<open>Several steps at once.\<close>

fun hash_chars :: "nat \<Rightarrow> u64 \<times> u8 list \<Rightarrow> (u64 \<times> u8 list) option" where
  "hash_chars 0 s = Some s"
| "hash_chars (Suc n) s = Option.bind (hash_char s) (hash_chars n)"

lemma hash_chars_eq:
  "hash_chars n (h, key) =
     (if n \<le> length key then Some (fold djb_step (take n key) h, drop n key) else None)"
proof (induction n arbitrary: h key)
  case (Suc n)
  then show ?case by (cases key) auto
qed simp

lemma hash_chars_add: "hash_chars (m + n) s = Option.bind (hash_chars m s) (hash_chars n)"
  by (induction m arbitrary: s) (auto simp: Option.bind_eq_Some_conv split: Option.bind_split)

lemma hash_chars_8:
  "Option.bind (hash_char s) (\<lambda>s. Option.bind (hash_char s) (\<lambda>s. Option.bind (hash_char s) (\<lambda>s.
   Option.bind (hash_char s) (\<lambda>s. Option.bind (hash_char s) (\<lambda>s. Option.bind (hash_char s) (\<lambda>s.
   Option.bind (hash_char s) (\<lambda>s. Option.bind (hash_char s) f))))))) = Option.bind (hash_chars 8 s) f"
  by (simp add: numeral_eq_Suc)

lemma hash_chars_0: "hash_chars 0 = Some"
  by (simp add: fun_eq_iff)

lemma hash_chars_numeral:
  "hash_chars (numeral k) = (\<lambda>s. Option.bind (hash_char s) (hash_chars (pred_numeral k)))"
  "hash_chars (Suc 0) = hash_char" "hash_chars 0 = Some"
  by (simp_all add: numeral_eq_Suc fun_eq_iff hash_chars_0)

lemma hash_switch_eq: "unat n < 8 \<Longrightarrow> hash_switch s n = hash_chars (unat n) s"
proof -
  assume "unat n < 8"
  then have "unat n \<in> {0, 1, 2, 3, 4, 5, 6, 7}" by auto
  then have "(of_nat (unat n) :: u32) \<in> of_nat ` {0, 1, 2, 3, 4, 5, 6, 7}" by (rule imageI)
  then have "n \<in> {0, 1, 2, 3, 4, 5, 6, 7}" by simp
  then show ?thesis by (elim insertE emptyE) (simp_all add: hash_switch_def hash_chars_numeral)
qed

lemma hash_unrolled_eq:
  "Option.bind (hash_unrolled s n) (\<lambda>(h, key, n). hash_switch (h, key) n) = hash_chars (unat n) s"
proof (induction "unat n" arbitrary: s n rule: less_induct)
  case less
  show ?case
  proof (cases "8 \<le> n")
    case True
    then have u: "unat n = 8 + unat (n - 8)" by (simp add: unat_sub word_le_nat_alt)
    with less [of "n - 8"] True show ?thesis
      by (subst hash_unrolled.simps) (simp add: hash_chars_8 hash_chars_add)
  next
    case False
    then have "unat n < 8" by (simp add: word_less_nat_alt not_le)
    with False show ?thesis by (subst hash_unrolled.simps) (simp add: hash_switch_eq)
  qed
qed

lemma inline_hash_eq:
  "zend_inline_hash_func arKey nKeyLength =
     (if unat nKeyLength \<le> length arKey then Some (djb_hash (take (unat nKeyLength) arKey)) else None)"
proof -
  have "zend_inline_hash_func arKey nKeyLength = map_option fst (hash_chars (unat nKeyLength) (5381, arKey))"
    by (simp add: zend_inline_hash_func_def flip: hash_unrolled_eq)
       (simp add: case_prod_beta split: Option.bind_splits)
  then show ?thesis by (simp add: hash_chars_eq djb_hash_def)
qed

lemma inline_hash_whole:
  "unat n = length key \<Longrightarrow> zend_inline_hash_func key n = Some (djb_hash key)"
  by (simp add: inline_hash_eq)

text \<open>
  C17: the unrolled string hash returns the left fold of \<open>h * 33 + c\<close> (bytes sign extended) over the
  first \<open>nKeyLength\<close> bytes of the key for every key and length, and reads past the key exactly
  when the length is larger than the key.
\<close>

theorem zend_hash_func_fold:
  "zend_hash_func arKey nKeyLength =
     (if unat nKeyLength \<le> length arKey
      then Some (fold (\<lambda>c h. h * 33 + scast c) (take (unat nKeyLength) arKey) 5381) else None)"
proof -
  have "djb_step = (\<lambda>c h. h * 33 + scast c)" by (simp add: fun_eq_iff djb_step_def)
  then show ?thesis by (simp add: zend_hash_func_def inline_hash_eq djb_hash_def)
qed

end
