(* ===== verification/ZendHash.thy ===== *)
theory ZendHash imports Dll ZendHashFunc ZendQsort "HOL-Library.AList" begin

text \<open>
  The hash table of the engine, \<open>Zend/zend_hash.c\<close>: its state, the lookups and the invariant.

  A table is an array of collision chains (doubly linked through \<open>pNext\<close> and \<open>pLast\<close>) whose buckets
  are also linked, in insertion order, through \<open>pListNext\<close> and \<open>pListLast\<close>. The record \<open>HashTable\<close>
  has the fields of the C structure, and with them what the operations change outside it:

  \<^item> \<open>ht_mem\<close>, the memory of the buckets of this table (allocated and freed by its operations);
  \<^item> \<open>ht_dtor_log\<close>, the values the destructor was called on, in order of the calls (a destructor
    that changes the table it is called from is not modelled);
  \<^item> \<open>ht_alloc_ok\<close>, whether an allocation of that many array slots succeeds where the code
    goes on without it (\<open>perealloc_recoverable\<close>, \<open>calloc\<close>). The other allocations of the engine do
    not return when memory is exhausted.

  Buckets hold values of any type \<open>'v\<close>: \<open>pData\<close> points at the field \<open>pDataPtr\<close> of the bucket itself
  when the data has the size of a pointer and at a separate block otherwise. A data pointer that
  the code hands out is identified by the address of its bucket.

  An operation returns \<open>None\<close> when it would read or write memory that is not allocated, index the
  bucket array out of range, or not return.
\<close>

section \<open>State\<close>

datatype 'v data_ref = DataPtr | Block 'v

record 'v bucket =
  b_h :: u64
  nKeyLength :: u32
  pData :: "'v data_ref"
  pDataPtr :: "'v option"
  pListNext :: ptr
  pListLast :: ptr
  pNext :: ptr
  pLast :: ptr
  arKey :: "u8 list"

record 'v HashTable =
  nTableSize :: u32
  nTableMask :: u32
  nNumOfElements :: u32
  nNextFreeElement :: u64
  pInternalPointer :: ptr
  pListHead :: ptr
  pListTail :: ptr
  arBuckets :: "ptr list"
  pDestructor :: bool
  persistent :: bool
  nApplyCount :: u8
  bApplyProtection :: bool
  ht_mem :: "'v bucket region"
  ht_dtor_log :: "'v list"
  ht_alloc_ok :: "u32 \<Rightarrow> bool"

definition HASH_UPDATE :: u32 where "HASH_UPDATE = 1"
definition HASH_ADD :: u32 where "HASH_ADD = 2"
definition HASH_NEXT_INSERT :: u32 where "HASH_NEXT_INSERT = 4"

abbreviation set_pListNext :: "ptr \<Rightarrow> 'v bucket \<Rightarrow> 'v bucket" where
  "set_pListNext p b \<equiv> b\<lparr>pListNext := p\<rparr>"
abbreviation set_pListLast :: "ptr \<Rightarrow> 'v bucket \<Rightarrow> 'v bucket" where
  "set_pListLast p b \<equiv> b\<lparr>pListLast := p\<rparr>"
abbreviation set_pNext :: "ptr \<Rightarrow> 'v bucket \<Rightarrow> 'v bucket" where
  "set_pNext p b \<equiv> b\<lparr>pNext := p\<rparr>"
abbreviation set_pLast :: "ptr \<Rightarrow> 'v bucket \<Rightarrow> 'v bucket" where
  "set_pLast p b \<equiv> b\<lparr>pLast := p\<rparr>"

interpretation gl: linked_cell pListNext pListLast set_pListNext set_pListLast
  by unfold_locales simp_all

interpretation ch: linked_cell pNext pLast set_pNext set_pLast
  by unfold_locales simp_all

abbreviation glinks :: "'v bucket region \<Rightarrow> links" where "glinks \<equiv> links_by pListNext pListLast"
abbreviation clinks :: "'v bucket region \<Rightarrow> links" where "clinks \<equiv> links_by pNext pLast"

text \<open>What \<open>*pData\<close> reads.\<close>

definition bucket_data :: "'v bucket \<Rightarrow> 'v option" where
  "bucket_data b = (case pData b of DataPtr \<Rightarrow> pDataPtr b | Block v \<Rightarrow> Some v)"

text \<open>\<open>sizeof(void *)\<close> on the modelled build.\<close>

definition SIZEOF_VOIDP :: u32 where "SIZEOF_VOIDP = 8"

definition init_data :: "u32 \<Rightarrow> 'v \<Rightarrow> 'v bucket \<Rightarrow> 'v bucket" where
  "init_data nDataSize v b =
     (if nDataSize = SIZEOF_VOIDP then b\<lparr>pDataPtr := Some v, pData := DataPtr\<rparr>
      else b\<lparr>pData := Block v, pDataPtr := None\<rparr>)"

definition update_data :: "u32 \<Rightarrow> 'v \<Rightarrow> 'v bucket \<Rightarrow> 'v bucket" where
  "update_data nDataSize v b =
     (if nDataSize = SIZEOF_VOIDP then b\<lparr>pDataPtr := Some v, pData := DataPtr\<rparr>
      else (case pData b of
          DataPtr \<Rightarrow> b\<lparr>pDataPtr := None, pData := Block v\<rparr>
        | Block _ \<Rightarrow> b\<lparr>pData := Block v\<rparr>))"

text \<open>\<open>if (ht->pDestructor) ht->pDestructor(p->pData);\<close>\<close>

definition call_destructor :: "addr \<Rightarrow> 'v HashTable \<Rightarrow> 'v HashTable option" where
  "call_destructor a ht =
     (if pDestructor ht then do {
        b \<leftarrow> cells (ht_mem ht) a;
        v \<leftarrow> bucket_data b;
        Some (ht\<lparr>ht_dtor_log := ht_dtor_log ht @ [v]\<rparr>)
      } else Some ht)"

text \<open>\<open>nIndex = h & ht->nTableMask\<close>, an \<open>uint\<close>.\<close>

definition slot :: "u32 \<Rightarrow> u64 \<Rightarrow> nat" where
  "slot msk h = unat (ucast (h AND ucast msk) :: u32)"

definition bucket_head :: "'v HashTable \<Rightarrow> nat \<Rightarrow> ptr option" where
  "bucket_head ht i = (if i < length (arBuckets ht) then Some (arBuckets ht ! i) else None)"

definition set_bucket_head :: "nat \<Rightarrow> ptr \<Rightarrow> 'v HashTable \<Rightarrow> 'v HashTable option" where
  "set_bucket_head i p ht =
     (if i < length (arBuckets ht) then Some (ht\<lparr>arBuckets := (arBuckets ht)[i := p]\<rparr>) else None)"

text \<open>
  \<open>memcmp\<close> compares bytes as \<open>unsigned char\<close> and stops at the first difference; reading past the
  end of either buffer is \<open>None\<close>. C fixes only the sign of the result: the difference is returned.
\<close>

fun memcmp :: "u8 list \<Rightarrow> u8 list \<Rightarrow> nat \<Rightarrow> int option" where
  "memcmp xs ys 0 = Some 0"
| "memcmp (x # xs) (y # ys) (Suc n) = (if x = y then memcmp xs ys n else Some (uint x - uint y))"
| "memcmp _ _ (Suc n) = None"

section \<open>Initialisation\<close>

partial_function (option) init_shift :: "nat \<Rightarrow> u32 \<Rightarrow> nat option" where
  "init_shift i nSize = (if push_bit i 1 < nSize then init_shift (Suc i) nSize else Some i)"

declare init_shift.simps [code]

definition zend_hash_init :: "'v HashTable \<Rightarrow> u32 \<Rightarrow> bool \<Rightarrow> bool \<Rightarrow> (zend_result \<times> 'v HashTable) option" where
  "zend_hash_init ht nSize dtor persist = do {
     size \<leftarrow> (if 0x80000000 \<le> nSize then Some 0x80000000
              else do { i \<leftarrow> init_shift 3 nSize; Some (push_bit i 1) });
     let ht = ht\<lparr>nTableSize := size, nTableMask := size - 1, pDestructor := dtor, arBuckets := [],
       pListHead := None, pListTail := None, nNumOfElements := 0, nNextFreeElement := 0,
       pInternalPointer := None, persistent := persist, nApplyCount := 0, bApplyProtection := True,
       ht_mem := region_empty\<rparr>;
     if persist \<and> \<not> ht_alloc_ok ht size then Some (FAILURE, ht)
     else Some (SUCCESS, ht\<lparr>arBuckets := replicate (unat size) None\<rparr>)
   }"

definition zend_hash_init_ex ::
  "'v HashTable \<Rightarrow> u32 \<Rightarrow> bool \<Rightarrow> bool \<Rightarrow> bool \<Rightarrow> (zend_result \<times> 'v HashTable) option" where
  "zend_hash_init_ex ht nSize dtor persist protect = do {
     (retval, ht) \<leftarrow> zend_hash_init ht nSize dtor persist;
     Some (retval, ht\<lparr>bApplyProtection := protect\<rparr>)
   }"

definition zend_hash_set_apply_protection :: "'v HashTable \<Rightarrow> bool \<Rightarrow> 'v HashTable" where
  "zend_hash_set_apply_protection ht protect = ht\<lparr>bApplyProtection := protect\<rparr>"

section \<open>Lookup\<close>

text \<open>\<open>while (p != NULL) { if (test) return ...; p = p->pNext; }\<close>\<close>

partial_function (option) chain_search ::
  "('v bucket \<Rightarrow> bool option) \<Rightarrow> 'v bucket region \<Rightarrow> ptr \<Rightarrow> ptr option" where
  "chain_search test r p =
     (case p of None \<Rightarrow> Some None
      | Some a \<Rightarrow> do {
          b \<leftarrow> cells r a;
          found \<leftarrow> test b;
          if found then Some (Some a) else chain_search test r (pNext b)
        })"

declare chain_search.simps [code]

text \<open>The conditions the loops test.\<close>

definition str_match :: "u64 \<Rightarrow> u8 list \<Rightarrow> u32 \<Rightarrow> 'v bucket \<Rightarrow> bool option" where
  "str_match h key n b =
     (if b_h b = h \<and> nKeyLength b = n
      then do { d \<leftarrow> memcmp (arKey b) key (unat n); Some (d = 0) } else Some False)"

definition idx_match :: "u64 \<Rightarrow> 'v bucket \<Rightarrow> bool option" where
  "idx_match h b = Some (b_h b = h \<and> nKeyLength b = 0)"

definition found_result :: "ptr \<Rightarrow> zend_result \<times> ptr" where
  "found_result p = (case p of None \<Rightarrow> (FAILURE, None) | Some a \<Rightarrow> (SUCCESS, Some a))"

definition zend_hash_index_find :: "'v HashTable \<Rightarrow> u64 \<Rightarrow> (zend_result \<times> ptr) option" where
  "zend_hash_index_find ht h = do {
     head \<leftarrow> bucket_head ht (slot (nTableMask ht) h);
     p \<leftarrow> chain_search (idx_match h) (ht_mem ht) head;
     Some (found_result p)
   }"

definition zend_hash_index_exists :: "'v HashTable \<Rightarrow> u64 \<Rightarrow> bool option" where
  "zend_hash_index_exists ht h = do {
     head \<leftarrow> bucket_head ht (slot (nTableMask ht) h);
     p \<leftarrow> chain_search (idx_match h) (ht_mem ht) head;
     Some (p \<noteq> None)
   }"

definition zend_hash_find :: "'v HashTable \<Rightarrow> u8 list \<Rightarrow> u32 \<Rightarrow> (zend_result \<times> ptr) option" where
  "zend_hash_find ht key n = do {
     h \<leftarrow> zend_inline_hash_func key n;
     head \<leftarrow> bucket_head ht (slot (nTableMask ht) h);
     p \<leftarrow> chain_search (str_match h key n) (ht_mem ht) head;
     Some (found_result p)
   }"

definition zend_hash_quick_find :: "'v HashTable \<Rightarrow> u8 list \<Rightarrow> u32 \<Rightarrow> u64 \<Rightarrow> (zend_result \<times> ptr) option" where
  "zend_hash_quick_find ht key n h =
     (if n = 0 then zend_hash_index_find ht h
      else do {
        head \<leftarrow> bucket_head ht (slot (nTableMask ht) h);
        p \<leftarrow> chain_search (str_match h key n) (ht_mem ht) head;
        Some (found_result p)
      })"

definition zend_hash_exists :: "'v HashTable \<Rightarrow> u8 list \<Rightarrow> u32 \<Rightarrow> bool option" where
  "zend_hash_exists ht key n = do {
     h \<leftarrow> zend_inline_hash_func key n;
     head \<leftarrow> bucket_head ht (slot (nTableMask ht) h);
     p \<leftarrow> chain_search (str_match h key n) (ht_mem ht) head;
     Some (p \<noteq> None)
   }"

definition zend_hash_quick_exists :: "'v HashTable \<Rightarrow> u8 list \<Rightarrow> u32 \<Rightarrow> u64 \<Rightarrow> bool option" where
  "zend_hash_quick_exists ht key n h =
     (if n = 0 then zend_hash_index_exists ht h
      else do {
        head \<leftarrow> bucket_head ht (slot (nTableMask ht) h);
        p \<leftarrow> chain_search (str_match h key n) (ht_mem ht) head;
        Some (p \<noteq> None)
      })"

definition zend_hash_num_elements :: "'v HashTable \<Rightarrow> u32" where
  "zend_hash_num_elements ht = nNumOfElements ht"

definition zend_hash_next_free_element :: "'v HashTable \<Rightarrow> u64" where
  "zend_hash_next_free_element ht = nNextFreeElement ht"

section \<open>Keys and the abstract table\<close>

text \<open>
  Abstractly a table is the list of its entries in insertion order. A key is a non-empty byte string
  or an integer; a bucket with \<open>nKeyLength = 0\<close> has an integer key, whatever its \<open>arKey\<close> holds.
\<close>

datatype hkey = StrKey "u8 list" | IdxKey u64

definition bkey :: "'v bucket \<Rightarrow> hkey" where
  "bkey b = (if nKeyLength b = 0 then IdxKey (b_h b) else StrKey (arKey b))"

text \<open>The hash of a key, and the key a C caller names by a byte pointer and a length.\<close>

fun key_hash :: "hkey \<Rightarrow> u64" where
  "key_hash (StrKey key) = djb_hash key"
| "key_hash (IdxKey h) = h"

definition arg_key :: "u8 list \<Rightarrow> u32 \<Rightarrow> hkey" where
  "arg_key key n = (if n = 0 then IdxKey (djb_hash []) else StrKey (take (unat n) key))"

definition bucket_ok :: "'v bucket \<Rightarrow> bool" where
  "bucket_ok b \<longleftrightarrow> (nKeyLength b \<noteq> 0 \<longrightarrow> length (arKey b) = unat (nKeyLength b) \<and> b_h b = djb_hash (arKey b)) \<and>
     (pData b = DataPtr \<longleftrightarrow> pDataPtr b \<noteq> None)"

definition entry :: "'v bucket region \<Rightarrow> addr \<Rightarrow> hkey \<times> 'v" where
  "entry r a = (case the (cells r a) of b \<Rightarrow> (bkey b, the (bucket_data b)))"

section \<open>The invariant\<close>

definition chains_ok :: "'v bucket region \<Rightarrow> ptr list \<Rightarrow> u32 \<Rightarrow> addr set \<Rightarrow> (nat \<Rightarrow> addr list) \<Rightarrow> bool" where
  "chains_ok r heads msk A chn \<longleftrightarrow> (\<forall>i<length heads. heads ! i = first_ptr (chn i) None \<and>
     dseg (clinks r) None (chn i) None \<and> distinct (chn i) \<and>
     set (chn i) = {a \<in> A. slot msk (b_h (the (cells r a))) = i})"

definition size_ok :: "u32 \<Rightarrow> u32 \<Rightarrow> ptr list \<Rightarrow> bool" where
  "size_ok sz msk heads \<longleftrightarrow> (\<exists>k. 3 \<le> k \<and> k \<le> 31 \<and> sz = push_bit k 1) \<and> msk = sz - 1 \<and>
     length heads = unat sz"

definition contents_ok :: "'v bucket region \<Rightarrow> addr list \<Rightarrow> bool" where
  "contents_ok r ps \<longleftrightarrow> (\<forall>a\<in>set ps. bucket_ok (the (cells r a))) \<and> distinct (map (\<lambda>a. bkey (the (cells r a))) ps)"

definition hash_inv :: "'v HashTable \<Rightarrow> addr list \<Rightarrow> (nat \<Rightarrow> addr list) \<Rightarrow> bool" where
  "hash_inv ht ps chn \<longleftrightarrow>
     region_wf (ht_mem ht) \<and> dom (cells (ht_mem ht)) = set ps \<and>
     dlist (glinks (ht_mem ht)) (pListHead ht) (pListTail ht) ps \<and>
     size_ok (nTableSize ht) (nTableMask ht) (arBuckets ht) \<and>
     chains_ok (ht_mem ht) (arBuckets ht) (nTableMask ht) (set ps) chn \<and>
     contents_ok (ht_mem ht) ps \<and>
     nNumOfElements ht = of_nat (length ps) \<and>
     (pInternalPointer ht = None \<or> pInternalPointer ht \<in> Some ` set ps)"

text \<open>The table \<open>ht\<close> holds the entries \<open>es\<close>, in this order, in the buckets at \<open>ps\<close>.\<close>

definition represents :: "'v HashTable \<Rightarrow> addr list \<Rightarrow> (hkey \<times> 'v) list \<Rightarrow> bool" where
  "represents ht ps es \<longleftrightarrow> (\<exists>chn. hash_inv ht ps chn) \<and> es = map (entry (ht_mem ht)) ps"

text \<open>The bucket of a key.\<close>

definition bucket_of :: "addr list \<Rightarrow> (hkey \<times> 'v) list \<Rightarrow> hkey \<rightharpoonup> addr" where
  "bucket_of ps es = map_of (zip (map fst es) ps)"

lemma unat_size: "k < 32 \<Longrightarrow> unat (push_bit k 1 :: u32) = 2 ^ k"
  by (subst unsigned_push_bit_eq) (simp add: take_bit_nat_eq_self)

lemma size_okE:
  assumes "size_ok sz msk heads"
  obtains k where "3 \<le> k" "k \<le> 31" "sz = push_bit k 1" "unat sz = 2 ^ k" "msk = sz - 1" "length heads = 2 ^ k"
proof -
  from assms obtain k where k: "3 \<le> k" "k \<le> 31" "sz = push_bit k 1" "msk = sz - 1" "length heads = unat sz"
    unfolding size_ok_def by blast
  with unat_size [of k] that show thesis by simp
qed

lemma slot_eq: "slot msk h = unat (ucast h AND msk)"
proof -
  have "(ucast (ucast msk :: u64) :: u32) = msk"
    by (rule word_unat_eq_iff [THEN iffD2]) (simp add: unsigned_ucast_eq take_bit_word_eq_self)
  then show ?thesis by (simp add: slot_def unsigned_and_eq)
qed

lemma slot_less: "size_ok sz msk heads \<Longrightarrow> slot msk h < length heads"
proof (erule size_okE)
  fix k assume k: "k \<le> 31" "sz = push_bit k 1" "unat sz = 2 ^ k" "msk = sz - 1" "length heads = 2 ^ k"
  have "unat (ucast h AND msk) \<le> unat msk" by (simp add: word_and_le1 flip: word_le_nat_alt)
  also have "unat msk < unat sz" using k by (simp add: unat_sub_if')
  finally show ?thesis using k by (simp add: slot_eq)
qed

lemma find_unique:
  assumes "\<And>x y. x \<in> set xs \<Longrightarrow> y \<in> set xs \<Longrightarrow> P x \<Longrightarrow> P y \<Longrightarrow> x = y"
  shows "List.find P xs = Some a \<longleftrightarrow> a \<in> set xs \<and> P a"
  using assms by (induction xs) auto

lemma memcmp_total:
  "n \<le> length xs \<Longrightarrow> n \<le> length ys \<Longrightarrow> \<exists>d. memcmp xs ys n = Some d \<and> (d = 0 \<longleftrightarrow> take n xs = take n ys)"
  by (induction xs ys n rule: memcmp.induct) (auto simp: word_uint_eq_iff)

lemma bucket_ok_data: "bucket_ok b \<Longrightarrow> \<exists>v. bucket_data b = Some v"
  by (auto simp: bucket_ok_def bucket_data_def split: data_ref.split)

lemma key_hash_bkey: "bucket_ok b \<Longrightarrow> key_hash (bkey b) = b_h b"
  by (auto simp: bucket_ok_def bkey_def)

lemma key_hash_arg: "key_hash (arg_key key n) = djb_hash (take (unat n) key)"
  by (simp add: arg_key_def)

lemma idx_match_key: "idx_match h b = Some (bkey b = IdxKey h)"
  by (auto simp: idx_match_def bkey_def)

lemma str_match_key:
  assumes ok: "bucket_ok b" and n: "unat n \<le> length key"
  shows "str_match (key_hash (arg_key key n)) key n b = Some (bkey b = arg_key key n)"
proof (cases "b_h b = key_hash (arg_key key n) \<and> nKeyLength b = n")
  case eq: True
  show ?thesis
  proof (cases "n = 0")
    case True
    with eq show ?thesis by (simp add: str_match_def bkey_def arg_key_def)
  next
    case False
    with eq ok have len: "length (arKey b) = unat n" by (simp add: bucket_ok_def)
    obtain d where "memcmp (arKey b) key (unat n) = Some d" "d = 0 \<longleftrightarrow> arKey b = take (unat n) key"
      using memcmp_total [of "unat n" "arKey b" key] len n by auto
    with eq False show ?thesis by (simp add: str_match_def bkey_def arg_key_def)
  qed
next
  case neq: False
  have "bkey b \<noteq> arg_key key n"
  proof
    assume k: "bkey b = arg_key key n"
    from k ok have h: "b_h b = key_hash (arg_key key n)" by (metis key_hash_bkey)
    from k have "nKeyLength b = n"
    proof (cases "n = 0")
      case False
      with k have "nKeyLength b \<noteq> 0" and "arKey b = take (unat n) key"
        by (auto simp: bkey_def arg_key_def split: if_splits)
      with ok n show ?thesis by (simp add: bucket_ok_def word_unat_eq_iff)
    qed (simp add: bkey_def arg_key_def split: if_splits)
    with h neq show False by simp
  qed
  with neq show ?thesis by (auto simp: str_match_def)
qed

lemma chain_search_spec:
  "dseg (clinks r) l xs None \<Longrightarrow> (\<And>a. a \<in> set xs \<Longrightarrow> test (the (cells r a)) = Some (P a)) \<Longrightarrow>
     chain_search test r (first_ptr xs None) = Some (List.find P xs)"
proof (induction xs arbitrary: l)
  case Nil
  show ?case by (subst chain_search.simps) simp
next
  case (Cons x xs)
  then obtain b where b: "cells r x = Some b" "pNext b = first_ptr xs None" by (auto simp: view_Some_iff)
  with Cons.prems(2) [of x] have "test b = Some (P x)" by simp
  with b Cons show ?case by (subst chain_search.simps) auto
qed

lemma bucket_of_iff:
  assumes "contents_ok r ps"
  shows "bucket_of ps (map (entry r) ps) k = Some a \<longleftrightarrow> a \<in> set ps \<and> bkey (the (cells r a)) = k"
proof -
  let ?key = "\<lambda>a. bkey (the (cells r a))"
  have keys: "map fst (map (entry r) ps) = map ?key ps" by (simp add: entry_def)
  have d: "distinct (map fst (zip (map ?key ps) ps))" using assms by (simp add: contents_ok_def)
  show ?thesis unfolding bucket_of_def keys map_of_eq_Some_iff [OF d]
    by (auto simp: in_set_zip in_set_conv_nth)
qed

lemma hash_invD:
  assumes "hash_inv ht ps chn"
  shows "region_wf (ht_mem ht)" "dom (cells (ht_mem ht)) = set ps"
    "dlist (glinks (ht_mem ht)) (pListHead ht) (pListTail ht) ps"
    "size_ok (nTableSize ht) (nTableMask ht) (arBuckets ht)"
    "chains_ok (ht_mem ht) (arBuckets ht) (nTableMask ht) (set ps) chn"
    "contents_ok (ht_mem ht) ps" "nNumOfElements ht = of_nat (length ps)"
    "pInternalPointer ht = None \<or> pInternalPointer ht \<in> Some ` set ps"
  using assms by (simp_all add: hash_inv_def)

lemma hash_inv_live: "hash_inv ht ps chn \<Longrightarrow> a \<in> set ps \<Longrightarrow> \<exists>b. cells (ht_mem ht) a = Some b \<and> bucket_ok b"
proof -
  assume inv: "hash_inv ht ps chn" and a: "a \<in> set ps"
  then obtain b where b: "cells (ht_mem ht) a = Some b" unfolding hash_inv_def by blast
  from inv a have "bucket_ok (the (cells (ht_mem ht) a))" by (simp add: hash_inv_def contents_ok_def)
  with b show ?thesis by simp
qed

lemma hash_inv_distinct: "hash_inv ht ps chn \<Longrightarrow> distinct ps"
  by (auto simp: hash_inv_def dlist_def)

text \<open>The chain that holds a key.\<close>

lemma chain_of:
  assumes "hash_inv ht ps chn"
  shows "bucket_head ht (slot (nTableMask ht) h) = Some (first_ptr (chn (slot (nTableMask ht) h)) None)"
    "dseg (clinks (ht_mem ht)) None (chn (slot (nTableMask ht) h)) None"
    "distinct (chn (slot (nTableMask ht) h))"
    "set (chn (slot (nTableMask ht) h)) =
       {a \<in> set ps. slot (nTableMask ht) (b_h (the (cells (ht_mem ht) a))) = slot (nTableMask ht) h}"
  using hash_invD(5) [OF assms] slot_less [OF hash_invD(4) [OF assms], of h]
  by (simp_all add: chains_ok_def bucket_head_def)

lemma chain_lookup:
  assumes inv: "hash_inv ht ps chn" and h: "h = key_hash k"
    and test: "\<And>b. bucket_ok b \<Longrightarrow> test b = Some (bkey b = k)"
  shows "\<exists>head. bucket_head ht (slot (nTableMask ht) h) = Some head \<and>
     chain_search test (ht_mem ht) head = Some (bucket_of ps (map (entry (ht_mem ht)) ps) k)"
proof -
  let ?r = "ht_mem ht" and ?c = "chn (slot (nTableMask ht) h)"
  let ?P = "\<lambda>a. bkey (the (cells ?r a)) = k"
  note c = chain_of [OF inv, of h]
  have ok: "bucket_ok (the (cells ?r a))" if "a \<in> set ps" for a
    using hash_inv_live [OF inv that] by auto
  have s: "chain_search test ?r (first_ptr ?c None) = Some (List.find ?P ?c)"
    by (rule chain_search_spec [OF c(2)]) (use c(4) ok test in auto)
  have "inj_on (\<lambda>a. bkey (the (cells ?r a))) (set ps)"
    using hash_invD(6) [OF inv] by (simp add: contents_ok_def distinct_map)
  then have uniq: "x = y" if "x \<in> set ps" "y \<in> set ps" "?P x" "?P y" for x y
    using that by (simp add: inj_on_def)
  have sub: "set ?c \<subseteq> set ps" using c(4) by blast
  have inchain: "a \<in> set ?c" if "?P a" "a \<in> set ps" for a
    using that ok [of a] key_hash_bkey [of "the (cells ?r a)"] c(4) h by simp
  have "List.find ?P ?c = Some a \<longleftrightarrow> a \<in> set ?c \<and> ?P a" for a
    by (rule find_unique) (use uniq sub in blast)
  then have "List.find ?P ?c = Some a \<longleftrightarrow> bucket_of ps (map (entry ?r) ps) k = Some a" for a
    unfolding bucket_of_iff [OF hash_invD(6) [OF inv]] using inchain sub by blast
  then have "List.find ?P ?c = bucket_of ps (map (entry ?r) ps) k" by (metis not_None_eq)
  with s c(1) show ?thesis by auto
qed

section \<open>What the lookups return\<close>

definition data_at :: "'v HashTable \<Rightarrow> addr \<Rightarrow> 'v option" where
  "data_at ht a = Option.bind (cells (ht_mem ht) a) bucket_data"

lemma representsI: "hash_inv ht ps chn \<Longrightarrow> es = map (entry (ht_mem ht)) ps \<Longrightarrow> represents ht ps es"
  by (auto simp: represents_def)

lemma represents_distinct: "represents ht ps es \<Longrightarrow> distinct (map fst es)"
  by (auto simp: represents_def hash_inv_def contents_ok_def entry_def comp_def)

lemma represents_length: "represents ht ps es \<Longrightarrow> length es = length ps"
  by (simp add: represents_def)

lemma entry_eq: "cells r a = Some b \<Longrightarrow> bucket_data b = Some v \<Longrightarrow> entry r a = (bkey b, v)"
  by (simp add: entry_def)

lemma represents_at:
  assumes "represents ht ps es" "i < length ps"
  obtains b where "cells (ht_mem ht) (ps ! i) = Some b" "bucket_ok b" "bkey b = fst (es ! i)"
    "bucket_data b = Some (snd (es ! i))"
proof -
  from assms(1) obtain chn where inv: "hash_inv ht ps chn" and es: "es = map (entry (ht_mem ht)) ps"
    by (auto simp: represents_def)
  from assms(2) have "ps ! i \<in> set ps" by simp
  from hash_inv_live [OF inv this] obtain b where b: "cells (ht_mem ht) (ps ! i) = Some b" "bucket_ok b" by blast
  from bucket_ok_data [OF b(2)] obtain v where v: "bucket_data b = Some v" by blast
  from es assms(2) entry_eq [OF b(1) v] have "es ! i = (bkey b, v)" by simp
  with b v that show thesis by simp
qed

lemma bucket_of_eq_None: "length ps = length es \<Longrightarrow> bucket_of ps es k = None \<longleftrightarrow> map_of es k = None"
  using map_of_zip_is_None [of "map fst es" ps k] by (simp add: bucket_of_def map_of_eq_None_iff)

lemma bucket_of_nth:
  assumes "distinct (map fst es)" "length ps = length es" "bucket_of ps es k = Some a"
  obtains i where "i < length ps" "a = ps ! i" "fst (es ! i) = k" "map_of es k = Some (snd (es ! i))"
proof -
  from assms have "(k, a) \<in> set (zip (map fst es) ps)" unfolding bucket_of_def by (metis map_of_SomeD)
  then obtain i where i: "i < length ps" "a = ps ! i" "fst (es ! i) = k"
    using assms(2) by (auto simp: set_zip)
  then have "(k, snd (es ! i)) \<in> set es" using assms(2) by (metis nth_mem prod.collapse)
  with assms(1) have "map_of es k = Some (snd (es ! i))" by simp
  with i that show thesis by blast
qed

lemma bucket_of_data:
  assumes rep: "represents ht ps es" and b: "bucket_of ps es k = Some a"
  shows "data_at ht a = map_of es k"
proof -
  obtain i where i: "i < length ps" "a = ps ! i" "fst (es ! i) = k" "map_of es k = Some (snd (es ! i))"
    using bucket_of_nth [OF represents_distinct [OF rep] _ b] represents_length [OF rep] by metis
  obtain b where "cells (ht_mem ht) (ps ! i) = Some b" "bucket_data b = Some (snd (es ! i))"
    using represents_at [OF rep i(1)] by blast
  with i show ?thesis by (simp add: data_at_def)
qed

lemma index_lookup:
  assumes "represents ht ps es"
  shows "\<exists>head. bucket_head ht (slot (nTableMask ht) h) = Some head \<and>
    chain_search (idx_match h) (ht_mem ht) head = Some (bucket_of ps es (IdxKey h))"
proof -
  from assms obtain chn where "hash_inv ht ps chn" "es = map (entry (ht_mem ht)) ps" by (auto simp: represents_def)
  then show ?thesis using chain_lookup [of ht ps chn h "IdxKey h" "idx_match h"] by (simp add: idx_match_key)
qed

lemma string_lookup:
  assumes "represents ht ps es" "unat n \<le> length key" "h = djb_hash (take (unat n) key)"
  shows "\<exists>head. bucket_head ht (slot (nTableMask ht) h) = Some head \<and>
    chain_search (str_match h key n) (ht_mem ht) head = Some (bucket_of ps es (arg_key key n))"
proof -
  from assms(1) obtain chn where "hash_inv ht ps chn" "es = map (entry (ht_mem ht)) ps" by (auto simp: represents_def)
  then show ?thesis using chain_lookup [of ht ps chn h "arg_key key n" "str_match h key n"] assms(2,3)
    by (simp add: key_hash_arg str_match_key flip: key_hash_arg)
qed

text \<open>The key a caller of a \<open>quick\<close> function names by bytes, length and precomputed hash.\<close>

definition quick_key :: "u8 list \<Rightarrow> u32 \<Rightarrow> u64 \<Rightarrow> hkey" where
  "quick_key key n h = (if n = 0 then IdxKey h else StrKey (take (unat n) key))"

definition quick_args_ok :: "u8 list \<Rightarrow> u32 \<Rightarrow> u64 \<Rightarrow> bool" where
  "quick_args_ok key n h \<longleftrightarrow> (n = 0 \<or> unat n \<le> length key \<and> h = djb_hash (take (unat n) key))"

lemma find_spec:
  assumes rep: "represents ht ps es"
  shows "zend_hash_index_find ht h = Some (found_result (bucket_of ps es (IdxKey h)))"
    "zend_hash_index_exists ht h = Some (map_of es (IdxKey h) \<noteq> None)"
    "unat n \<le> length key \<Longrightarrow> zend_hash_find ht key n = Some (found_result (bucket_of ps es (arg_key key n)))"
    "unat n \<le> length key \<Longrightarrow> zend_hash_exists ht key n = Some (map_of es (arg_key key n) \<noteq> None)"
    "quick_args_ok key n h \<Longrightarrow>
       zend_hash_quick_find ht key n h = Some (found_result (bucket_of ps es (quick_key key n h)))"
    "quick_args_ok key n h \<Longrightarrow> zend_hash_quick_exists ht key n h = Some (map_of es (quick_key key n h) \<noteq> None)"
proof -
  have none: "bucket_of ps es k = None \<longleftrightarrow> map_of es k = None" for k
    using represents_length [OF rep] by (simp add: bucket_of_eq_None)
  show idx: "zend_hash_index_find ht h = Some (found_result (bucket_of ps es (IdxKey h)))"
    "zend_hash_index_exists ht h = Some (map_of es (IdxKey h) \<noteq> None)"
    using index_lookup [OF rep, of h]
    by (auto simp: zend_hash_index_find_def zend_hash_index_exists_def none simp del: not_None_eq)
  show "unat n \<le> length key \<Longrightarrow> zend_hash_find ht key n = Some (found_result (bucket_of ps es (arg_key key n)))"
    "unat n \<le> length key \<Longrightarrow> zend_hash_exists ht key n = Some (map_of es (arg_key key n) \<noteq> None)"
    using string_lookup [OF rep, of n key]
    by (auto simp: zend_hash_find_def zend_hash_exists_def inline_hash_eq none simp del: not_None_eq)
  show "quick_args_ok key n h \<Longrightarrow>
       zend_hash_quick_find ht key n h = Some (found_result (bucket_of ps es (quick_key key n h)))"
    "quick_args_ok key n h \<Longrightarrow> zend_hash_quick_exists ht key n h = Some (map_of es (quick_key key n h) \<noteq> None)"
    using string_lookup [OF rep, of n key h] idx
    by (auto simp: zend_hash_quick_find_def zend_hash_quick_exists_def quick_args_ok_def quick_key_def arg_key_def
             none simp del: not_None_eq split: if_splits)
qed

section \<open>Initialisation gives an empty table\<close>

lemma init_shift_spec:
  "i \<le> 31 \<Longrightarrow> nSize < 0x80000000 \<Longrightarrow>
     \<exists>k. init_shift i nSize = Some k \<and> i \<le> k \<and> k \<le> 31 \<and> nSize \<le> push_bit k 1"
proof (induction "31 - i" arbitrary: i)
  case 0
  then have "i = 31" by simp
  with 0 show ?case by (subst init_shift.simps) (auto simp: push_bit_eq_mult)
next
  case (Suc d)
  then have "\<not> push_bit i 1 < nSize \<or> (\<exists>k. init_shift (Suc i) nSize = Some k \<and> Suc i \<le> k \<and> k \<le> 31 \<and> nSize \<le> push_bit k 1)"
    by simp
  then show ?case using Suc.prems by (subst init_shift.simps) (auto simp: not_less)
qed

lemma hash_inv_init:
  assumes "3 \<le> k" "k \<le> 31" "nTableSize ht = push_bit k 1" "nTableMask ht = nTableSize ht - 1"
    "arBuckets ht = replicate (unat (nTableSize ht)) None" "ht_mem ht = region_empty"
    "pListHead ht = None" "pListTail ht = None" "pInternalPointer ht = None" "nNumOfElements ht = 0"
  shows "hash_inv ht [] (\<lambda>_. [])"
  using assms by (auto simp: hash_inv_def size_ok_def chains_ok_def contents_ok_def simp del: push_bit_of_1)

lemma init_represents:
  "\<exists>res ht'. zend_hash_init ht nSize dtor persist = Some (res, ht') \<and>
     (res = FAILURE \<longleftrightarrow> persist \<and> \<not> ht_alloc_ok ht (nTableSize ht')) \<and>
     (res = SUCCESS \<longrightarrow> represents ht' [] [] \<and> (nSize \<le> 0x80000000 \<longrightarrow> nSize \<le> nTableSize ht') \<and>
        pDestructor ht' = dtor \<and> bApplyProtection ht' \<and> nApplyCount ht' = 0 \<and> nNextFreeElement ht' = 0)"
proof -
  obtain k where k: "3 \<le> k" "k \<le> 31" "nSize \<le> 0x80000000 \<longrightarrow> nSize \<le> push_bit k 1"
    "(if 0x80000000 \<le> nSize then Some 0x80000000
      else do { i \<leftarrow> init_shift 3 nSize; Some (push_bit i 1) }) = Some (push_bit k 1 :: u32)"
  proof (cases "0x80000000 \<le> nSize")
    case True
    with that [of 31] show ?thesis by simp
  next
    case False
    then obtain k where "init_shift 3 nSize = Some k" "3 \<le> k" "k \<le> 31" "nSize \<le> push_bit k 1"
      using init_shift_spec [of 3 nSize] by (auto simp: not_le)
    with False that [of k] show ?thesis by simp
  qed
  show ?thesis
    unfolding zend_hash_init_def k(4) using k
    by (auto simp: Let_def simp del: push_bit_of_1 intro!: representsI hash_inv_init)
qed

end
