(* ===== verification/ZendHashInsert.thy ===== *)
theory ZendHashInsert imports ZendHash begin

text \<open>
  Insertion into the hash table of \<open>Zend/zend_hash.c\<close>: the two macros that link a bucket in, the
  growth of the bucket array with its rehash, and the operations that add or update an entry by
  string key, by string key with a precomputed hash, by integer key or at the next free integer.

  The lemmas show that each operation keeps the invariant and changes the abstract table as the
  library function \<open>AList.update\<close> does: in place for a key the table has, at the end for a new one.
\<close>

section \<open>Operations\<close>

definition connect_to_bucket_dllist :: "addr \<Rightarrow> nat \<Rightarrow> 'v HashTable \<Rightarrow> 'v HashTable option" where
  "connect_to_bucket_dllist a i ht = do {
     head \<leftarrow> bucket_head ht i;
     r \<leftarrow> upd_cell a (set_pNext head) (ht_mem ht);
     r \<leftarrow> upd_cell a (set_pLast None) r;
     r \<leftarrow> upd_if head (set_pLast (Some a)) r;
     Some (ht\<lparr>ht_mem := r\<rparr>)
   }"

definition connect_to_global_dllist :: "addr \<Rightarrow> 'v HashTable \<Rightarrow> 'v HashTable option" where
  "connect_to_global_dllist a ht = do {
     r \<leftarrow> upd_cell a (set_pListLast (pListTail ht)) (ht_mem ht);
     r \<leftarrow> upd_cell a (set_pListNext None) r;
     r \<leftarrow> upd_if (pListTail ht) (set_pListNext (Some a)) r;
     Some (ht\<lparr>ht_mem := r, pListTail := Some a,
       pListHead := (if pListHead ht = None then Some a else pListHead ht),
       pInternalPointer := (if pInternalPointer ht = None then Some a else pInternalPointer ht)\<rparr>)
   }"

partial_function (option) rehash_loop :: "'v HashTable \<Rightarrow> ptr \<Rightarrow> 'v HashTable option" where
  "rehash_loop ht p =
     (case p of None \<Rightarrow> Some ht
      | Some a \<Rightarrow> do {
          b \<leftarrow> cells (ht_mem ht) a;
          let i = slot (nTableMask ht) (b_h b);
          ht \<leftarrow> connect_to_bucket_dllist a i ht;
          ht \<leftarrow> set_bucket_head i (Some a) ht;
          b \<leftarrow> cells (ht_mem ht) a;
          rehash_loop ht (pListNext b)
        })"

declare rehash_loop.simps [code]

definition zend_hash_rehash :: "'v HashTable \<Rightarrow> 'v HashTable option" where
  "zend_hash_rehash ht =
     (let n = unat (nTableSize ht) in
      if n \<le> length (arBuckets ht)
      then rehash_loop (ht\<lparr>arBuckets := replicate n None @ drop n (arBuckets ht)\<rparr>) (pListHead ht)
      else None)"

text \<open>
  \<open>perealloc_recoverable\<close> keeps the slots that fit. The new ones are not initialised: the rehash
  clears the whole array before it reads it.
\<close>

definition realloc_slots :: "nat \<Rightarrow> ptr list \<Rightarrow> ptr list" where
  "realloc_slots n xs = take n xs @ replicate (n - length xs) None"

definition zend_hash_do_resize :: "'v HashTable \<Rightarrow> (zend_result \<times> 'v HashTable) option" where
  "zend_hash_do_resize ht =
     (let sz = push_bit 1 (nTableSize ht) in
      if 0 < sz then
        if ht_alloc_ok ht sz then do {
          ht \<leftarrow> zend_hash_rehash (ht\<lparr>arBuckets := realloc_slots (unat sz) (arBuckets ht),
                 nTableSize := sz, nTableMask := sz - 1\<rparr>);
          Some (SUCCESS, ht)
        } else Some (FAILURE, ht)
      else Some (SUCCESS, ht))"

definition if_full_do_resize :: "'v HashTable \<Rightarrow> 'v HashTable option" where
  "if_full_do_resize ht =
     (if nTableSize ht < nNumOfElements ht then map_option snd (zend_hash_do_resize ht) else Some ht)"

text \<open>
  \<open>pemalloc\<close> followed by the writes to the key, the hash and the data of the new bucket. The link
  fields, which \<open>pemalloc\<close> leaves uninitialised, are written by the two connect macros.
\<close>

definition new_bucket :: "u8 list \<Rightarrow> u32 \<Rightarrow> u64 \<Rightarrow> u32 \<Rightarrow> 'v \<Rightarrow> 'v bucket" where
  "new_bucket key n h nDataSize v = init_data nDataSize v
     \<lparr>b_h = h, nKeyLength = n, pData = DataPtr, pDataPtr = None, pListNext = None, pListLast = None,
      pNext = None, pLast = None, arKey = key\<rparr>"

text \<open>The update of a bucket that has the key: destructor on the old data, then \<open>UPDATE_DATA\<close>.\<close>

definition overwrite :: "addr \<Rightarrow> u32 \<Rightarrow> 'v \<Rightarrow> 'v HashTable \<Rightarrow> 'v HashTable option" where
  "overwrite a nDataSize v ht = do {
     ht \<leftarrow> call_destructor a ht;
     r \<leftarrow> upd_cell a (update_data nDataSize v) (ht_mem ht);
     Some (ht\<lparr>ht_mem := r\<rparr>)
   }"

text \<open>
  The result of an insertion: the return value, what is stored through \<open>pDest\<close> (\<open>None\<close> where the
  code does not store) and the table.
\<close>

type_synonym 'v insert_result = "(zend_result \<times> ptr \<times> 'v HashTable) option"

definition zend_hash_add_or_update ::
  "'v HashTable \<Rightarrow> u8 list \<Rightarrow> u32 \<Rightarrow> 'v \<Rightarrow> u32 \<Rightarrow> u32 \<Rightarrow> 'v insert_result" where
  "zend_hash_add_or_update ht key n v nDataSize flag =
     (if n \<le> 0 then Some (FAILURE, None, ht)
      else do {
        h \<leftarrow> zend_inline_hash_func key n;
        let i = slot (nTableMask ht) h;
        head \<leftarrow> bucket_head ht i;
        p \<leftarrow> chain_search (str_match h key n) (ht_mem ht) head;
        case p of
          Some a \<Rightarrow>
            if flag AND HASH_ADD \<noteq> 0 then Some (FAILURE, None, ht)
            else do { ht \<leftarrow> overwrite a nDataSize v ht; Some (SUCCESS, Some a, ht) }
        | None \<Rightarrow> do {
            let a = fresh (ht_mem ht);
            let ht = ht\<lparr>ht_mem := new_cell (new_bucket (take (unat n) key) n h nDataSize v) (ht_mem ht)\<rparr>;
            ht \<leftarrow> connect_to_bucket_dllist a i ht;
            ht \<leftarrow> connect_to_global_dllist a ht;
            ht \<leftarrow> set_bucket_head i (Some a) ht;
            ht \<leftarrow> if_full_do_resize (ht\<lparr>nNumOfElements := nNumOfElements ht + 1\<rparr>);
            Some (SUCCESS, Some a, ht)
          }
      })"

definition LONG_MAX :: u64 where "LONG_MAX = 0x7FFFFFFFFFFFFFFF"

text \<open>\<open>if ((long)h >= (long)ht->nNextFreeElement) ht->nNextFreeElement = h < LONG_MAX ? h + 1 : LONG_MAX;\<close>\<close>

definition bump_next_free :: "u64 \<Rightarrow> 'v HashTable \<Rightarrow> 'v HashTable" where
  "bump_next_free h ht =
     (if sint h \<ge> sint (nNextFreeElement ht)
      then ht\<lparr>nNextFreeElement := (if h < LONG_MAX then h + 1 else LONG_MAX)\<rparr> else ht)"

definition zend_hash_index_update_or_next_insert ::
  "'v HashTable \<Rightarrow> u64 \<Rightarrow> 'v \<Rightarrow> u32 \<Rightarrow> u32 \<Rightarrow> 'v insert_result" where
  "zend_hash_index_update_or_next_insert ht h v nDataSize flag = do {
     let h = (if flag AND HASH_NEXT_INSERT \<noteq> 0 then nNextFreeElement ht else h);
     let i = slot (nTableMask ht) h;
     head \<leftarrow> bucket_head ht i;
     p \<leftarrow> chain_search (idx_match h) (ht_mem ht) head;
     case p of
       Some a \<Rightarrow>
         if flag AND HASH_NEXT_INSERT \<noteq> 0 \<or> flag AND HASH_ADD \<noteq> 0 then Some (FAILURE, None, ht)
         else do { ht \<leftarrow> overwrite a nDataSize v ht; Some (SUCCESS, Some a, bump_next_free h ht) }
     | None \<Rightarrow> do {
         let a = fresh (ht_mem ht);
         let ht = ht\<lparr>ht_mem := new_cell (new_bucket [] 0 h nDataSize v) (ht_mem ht)\<rparr>;
         ht \<leftarrow> connect_to_bucket_dllist a i ht;
         ht \<leftarrow> set_bucket_head i (Some a) ht;
         ht \<leftarrow> connect_to_global_dllist a ht;
         let ht = bump_next_free h ht;
         ht \<leftarrow> if_full_do_resize (ht\<lparr>nNumOfElements := nNumOfElements ht + 1\<rparr>);
         Some (SUCCESS, Some a, ht)
       }
   }"

definition zend_hash_quick_add_or_update ::
  "'v HashTable \<Rightarrow> u8 list \<Rightarrow> u32 \<Rightarrow> u64 \<Rightarrow> 'v \<Rightarrow> u32 \<Rightarrow> u32 \<Rightarrow> 'v insert_result" where
  "zend_hash_quick_add_or_update ht key n h v nDataSize flag =
     (if n = 0 then zend_hash_index_update_or_next_insert ht h v nDataSize HASH_UPDATE
      else do {
        let i = slot (nTableMask ht) h;
        head \<leftarrow> bucket_head ht i;
        p \<leftarrow> chain_search (str_match h key n) (ht_mem ht) head;
        case p of
          Some a \<Rightarrow>
            if flag AND HASH_ADD \<noteq> 0 then Some (FAILURE, None, ht)
            else do { ht \<leftarrow> overwrite a nDataSize v ht; Some (SUCCESS, Some a, ht) }
        | None \<Rightarrow> do {
            let a = fresh (ht_mem ht);
            let ht = ht\<lparr>ht_mem := new_cell (new_bucket (take (unat n) key) n h nDataSize v) (ht_mem ht)\<rparr>;
            ht \<leftarrow> connect_to_bucket_dllist a i ht;
            ht \<leftarrow> set_bucket_head i (Some a) ht;
            ht \<leftarrow> connect_to_global_dllist a ht;
            ht \<leftarrow> if_full_do_resize (ht\<lparr>nNumOfElements := nNumOfElements ht + 1\<rparr>);
            Some (SUCCESS, Some a, ht)
          }
      })"

text \<open>The macros of \<open>zend_hash.h\<close> that fix the flag.\<close>

definition zend_hash_update :: "'v HashTable \<Rightarrow> u8 list \<Rightarrow> u32 \<Rightarrow> 'v \<Rightarrow> u32 \<Rightarrow> 'v insert_result" where
  "zend_hash_update ht key n v sz = zend_hash_add_or_update ht key n v sz HASH_UPDATE"

definition zend_hash_add :: "'v HashTable \<Rightarrow> u8 list \<Rightarrow> u32 \<Rightarrow> 'v \<Rightarrow> u32 \<Rightarrow> 'v insert_result" where
  "zend_hash_add ht key n v sz = zend_hash_add_or_update ht key n v sz HASH_ADD"

definition zend_hash_quick_update :: "'v HashTable \<Rightarrow> u8 list \<Rightarrow> u32 \<Rightarrow> u64 \<Rightarrow> 'v \<Rightarrow> u32 \<Rightarrow> 'v insert_result" where
  "zend_hash_quick_update ht key n h v sz = zend_hash_quick_add_or_update ht key n h v sz HASH_UPDATE"

definition zend_hash_quick_add :: "'v HashTable \<Rightarrow> u8 list \<Rightarrow> u32 \<Rightarrow> u64 \<Rightarrow> 'v \<Rightarrow> u32 \<Rightarrow> 'v insert_result" where
  "zend_hash_quick_add ht key n h v sz = zend_hash_quick_add_or_update ht key n h v sz HASH_ADD"

definition zend_hash_index_update :: "'v HashTable \<Rightarrow> u64 \<Rightarrow> 'v \<Rightarrow> u32 \<Rightarrow> 'v insert_result" where
  "zend_hash_index_update ht h v sz = zend_hash_index_update_or_next_insert ht h v sz HASH_UPDATE"

definition zend_hash_next_index_insert :: "'v HashTable \<Rightarrow> 'v \<Rightarrow> u32 \<Rightarrow> 'v insert_result" where
  "zend_hash_next_index_insert ht v sz = zend_hash_index_update_or_next_insert ht 0 v sz HASH_NEXT_INSERT"

text \<open>\<open>zend_hash_add_empty_element\<close> stores the pointer constant \<open>(void *) 1\<close>, passed here as \<open>dummy\<close>.\<close>

definition zend_hash_add_empty_element :: "'v \<Rightarrow> 'v HashTable \<Rightarrow> u8 list \<Rightarrow> u32 \<Rightarrow> 'v insert_result" where
  "zend_hash_add_empty_element dummy ht key n = zend_hash_add ht key n dummy SIZEOF_VOIDP"

section \<open>Frames\<close>

text \<open>The fields of a bucket that the linking operations leave alone.\<close>

definition pay :: "'v bucket \<Rightarrow> u64 \<times> u32 \<times> 'v data_ref \<times> 'v option \<times> u8 list" where
  "pay b = (b_h b, nKeyLength b, pData b, pDataPtr b, arKey b)"

lemma pay_link_upd [simp]:
  "pay (b\<lparr>pListNext := p\<rparr>) = pay b" "pay (b\<lparr>pListLast := p\<rparr>) = pay b"
  "pay (b\<lparr>pNext := p\<rparr>) = pay b" "pay (b\<lparr>pLast := p\<rparr>) = pay b"
  by (simp_all add: pay_def)

lemma pay_eqD:
  "pay b = pay c \<Longrightarrow> b_h b = b_h c \<and> bkey b = bkey c \<and> bucket_data b = bucket_data c \<and> bucket_ok b = bucket_ok c"
  by (auto simp: pay_def bkey_def bucket_data_def bucket_ok_def split: data_ref.split)

lemma pay_at:
  assumes "view pay r' = view pay r"
  shows "pay (the (cells r' a)) = pay (the (cells r a))"
  using fun_cong [OF assms, of a] by (cases "cells r a"; cases "cells r' a") (simp_all add: view_def)

lemma pay_frame:
  assumes "view pay r' = view pay r"
  shows "b_h (the (cells r' a)) = b_h (the (cells r a))" "bkey (the (cells r' a)) = bkey (the (cells r a))"
    "entry r' a = entry r a" "bucket_ok (the (cells r' a)) = bucket_ok (the (cells r a))"
    "dom (cells r') = dom (cells r)"
  using pay_eqD [OF pay_at [OF assms, of a]] arg_cong [OF assms, of dom] by (simp_all add: entry_def)

lemma contents_frame: "view pay r' = view pay r \<Longrightarrow> contents_ok r' ps = contents_ok r ps"
  by (simp add: contents_ok_def pay_frame [of r' r])

lemma chains_frame:
  "clinks r' = clinks r \<Longrightarrow> view pay r' = view pay r \<Longrightarrow> chains_ok r' heads msk A chn = chains_ok r heads msk A chn"
  by (simp add: chains_ok_def pay_frame [of r' r])

lemma chains_cong:
  assumes ok: "chains_ok r heads msk A chn"
    and same: "\<And>x. x \<in> A \<Longrightarrow> clinks r' x = clinks r x \<and> b_h (the (cells r' x)) = b_h (the (cells r x))"
  shows "chains_ok r' heads msk A chn"
  unfolding chains_ok_def
proof (intro allI impI)
  fix j assume "j < length heads"
  then have j: "heads ! j = first_ptr (chn j) None" "dseg (clinks r) None (chn j) None" "distinct (chn j)"
    "set (chn j) = {a \<in> A. slot msk (b_h (the (cells r a))) = j}"
    using ok by (simp_all add: chains_ok_def)
  have "dseg (clinks r') None (chn j) None = dseg (clinks r) None (chn j) None"
    by (rule dseg_frame) (use j(4) same in simp)
  moreover have "{a \<in> A. slot msk (b_h (the (cells r' a))) = j} = set (chn j)"
    unfolding j(4) using same by auto
  ultimately show "heads ! j = first_ptr (chn j) None \<and> dseg (clinks r') None (chn j) None \<and>
    distinct (chn j) \<and> set (chn j) = {a \<in> A. slot msk (b_h (the (cells r' a))) = j}"
    using j by simp
qed

section \<open>Linking a bucket in\<close>

lemma connect_bucket_spec:
  assumes ok: "chains_ok r (arBuckets ht) msk A chn" and r: "r = ht_mem ht" and a: "a \<notin> A" "cells r a = Some b"
    and i: "slot msk (b_h b) = i" "i < length (arBuckets ht)"
  shows "\<exists>r'. connect_to_bucket_dllist a i ht = Some (ht\<lparr>ht_mem := r'\<rparr>) \<and>
    chains_ok r' ((arBuckets ht)[i := Some a]) msk (insert a A) (chn(i := a # chn i)) \<and>
    glinks r' = glinks r \<and> view pay r' = view pay r \<and> (region_wf r \<longrightarrow> region_wf r')"
proof -
  let ?hd = "first_ptr (chn i) None"
  have hd: "arBuckets ht ! i = ?hd" and seg: "dseg (clinks r) None (chn i) None" and di: "distinct (chn i)"
    and seti: "set (chn i) = {a \<in> A. slot msk (b_h (the (cells r a))) = i}"
    using ok i by (simp_all add: chains_ok_def)
  from upd_cell_eq [OF a(2)] obtain r1 where r1: "upd_cell a (set_pNext ?hd) r = Some r1"
    "cells r1 = (cells r)(a \<mapsto> b\<lparr>pNext := ?hd\<rparr>)" by fastforce
  then obtain r2 where r2: "upd_cell a (set_pLast None) r1 = Some r2"
    "cells r2 = (cells r)(a \<mapsto> b\<lparr>pNext := ?hd, pLast := None\<rparr>)" by (fastforce simp: upd_cell_def)
  have a': "a \<notin> set (chn i)" using a(1) seti by simp
  have c2: "clinks r2 = (clinks r)(a \<mapsto> (?hd, None))" using r2(2) by (auto simp: view_def fun_eq_iff)
  then have "dseg (clinks r2) None (chn i) None" using seg a' by simp
  from ch.prepend_cell [OF this di _ a'] c2 obtain r3 where
    r3: "upd_if ?hd (set_pLast (Some a)) r2 = Some r3" "dseg (clinks r3) None (a # chn i) None" by auto
  have pay: "view pay r3 = view pay r" and glob: "glinks r3 = glinks r"
    using r1(1) r2(1) r3(1) by (simp_all add: mem_simps)
  have other: "clinks r3 x = clinks r x" if "x \<noteq> a" "x \<notin> set (chn i)" for x
  proof -
    have "Some x \<noteq> ?hd" using that by (auto simp: first_ptr_def split: list.splits)
    then have "clinks r3 x = clinks r2 x"
      using r3(1) by (cases "chn i") (auto simp: view_def dest!: cells_upd_cell)
    with c2 that show ?thesis by simp
  qed
  have "chains_ok r3 ((arBuckets ht)[i := Some a]) msk (insert a A) (chn(i := a # chn i))"
    unfolding chains_ok_def pay_frame(1) [OF pay]
  proof (intro allI impI)
    fix j assume j: "j < length ((arBuckets ht)[i := Some a])"
    show "(arBuckets ht)[i := Some a] ! j = first_ptr ((chn(i := a # chn i)) j) None \<and>
      dseg (clinks r3) None ((chn(i := a # chn i)) j) None \<and> distinct ((chn(i := a # chn i)) j) \<and>
      set ((chn(i := a # chn i)) j) = {x \<in> insert a A. slot msk (b_h (the (cells r x))) = j}"
    proof (cases "j = i")
      case True
      moreover have "set (a # chn i) = {x \<in> insert a A. slot msk (b_h (the (cells r x))) = i}"
        unfolding list.set(2) seti using i(1) a(2) by auto
      ultimately show ?thesis using j r3(2) di a' by simp
    next
      case False
      have setj: "set (chn j) = {a \<in> A. slot msk (b_h (the (cells r a))) = j}"
        and segj: "dseg (clinks r) None (chn j) None" "distinct (chn j)" "arBuckets ht ! j = first_ptr (chn j) None"
        using ok j by (simp_all add: chains_ok_def)
      have "dseg (clinks r3) None (chn j) None = dseg (clinks r) None (chn j) None"
      proof (rule dseg_frame)
        fix x assume "x \<in> set (chn j)"
        with setj have x: "x \<in> A" "slot msk (b_h (the (cells r x))) = j" by simp_all
        with a(1) have "x \<noteq> a" by blast
        moreover from x False have "x \<notin> set (chn i)" by (simp add: seti)
        ultimately show "clinks r3 x = clinks r x" by (rule other)
      qed
      moreover have "set (chn j) = {x \<in> insert a A. slot msk (b_h (the (cells r x))) = j}"
        unfolding setj using i(1) a(2) False by auto
      ultimately show ?thesis using False segj by simp
    qed
  qed
  moreover have "connect_to_bucket_dllist a i ht = Some (ht\<lparr>ht_mem := r3\<rparr>)"
    using r1(1) r2(1) r3(1) i(2) hd r by (simp add: connect_to_bucket_dllist_def bucket_head_def)
  moreover have "region_wf r \<longrightarrow> region_wf r3"
    using region_wf_upd_cell [OF _ r1(1)] region_wf_upd_cell [OF _ r2(1)] region_wf_upd_if [OF _ r3(1)] by simp
  ultimately show ?thesis using pay glob by auto
qed

lemma connect_global_spec:
  assumes L: "dlist (glinks (ht_mem ht)) (pListHead ht) (pListTail ht) ps"
    and a: "a \<notin> set ps" "cells (ht_mem ht) a = Some b"
  shows "\<exists>r'. connect_to_global_dllist a ht = Some (ht\<lparr>ht_mem := r', pListTail := Some a,
       pListHead := (if pListHead ht = None then Some a else pListHead ht),
       pInternalPointer := (if pInternalPointer ht = None then Some a else pInternalPointer ht)\<rparr>) \<and>
    dlist (glinks r') (if pListHead ht = None then Some a else pListHead ht) (Some a) (ps @ [a]) \<and>
    clinks r' = clinks (ht_mem ht) \<and> view pay r' = view pay (ht_mem ht) \<and>
    (region_wf (ht_mem ht) \<longrightarrow> region_wf r')"
proof -
  let ?r = "ht_mem ht"
  from upd_cell_eq [OF a(2)] obtain r1 where r1: "upd_cell a (set_pListLast (pListTail ht)) ?r = Some r1"
    "cells r1 = (cells ?r)(a \<mapsto> b\<lparr>pListLast := pListTail ht\<rparr>)" by fastforce
  then obtain r2 where r2: "upd_cell a (set_pListNext None) r1 = Some r2"
    "cells r2 = (cells ?r)(a \<mapsto> b\<lparr>pListLast := pListTail ht, pListNext := None\<rparr>)" by (fastforce simp: upd_cell_def)
  have g2: "glinks r2 = (glinks ?r)(a \<mapsto> (None, pListTail ht))" using r2(2) by (auto simp: view_def fun_eq_iff)
  have "dlist (glinks r2) (pListHead ht) (pListTail ht) ps"
    by (rule dlist_frame [OF L]) (use a(1) g2 in auto)
  from gl.append_cell [OF this _ a(1)] g2 obtain r3 where
    r3: "upd_if (pListTail ht) (set_pListNext (Some a)) r2 = Some r3"
    "dlist (glinks r3) (if pListTail ht = None then Some a else pListHead ht) (Some a) (ps @ [a])" by auto
  have "(pListTail ht = None) = (pListHead ht = None)" using L by (auto simp: dlist_def)
  with r3(2) have "dlist (glinks r3) (if pListHead ht = None then Some a else pListHead ht) (Some a) (ps @ [a])"
    by simp
  moreover have "view pay r3 = view pay ?r" "clinks r3 = clinks ?r"
    using r1(1) r2(1) r3(1) by (simp_all add: mem_simps)
  moreover have "region_wf ?r \<longrightarrow> region_wf r3"
    using region_wf_upd_cell [OF _ r1(1)] region_wf_upd_cell [OF _ r2(1)] region_wf_upd_if [OF _ r3(1)] by simp
  moreover have "connect_to_global_dllist a ht = Some (ht\<lparr>ht_mem := r3, pListTail := Some a,
       pListHead := (if pListHead ht = None then Some a else pListHead ht),
       pInternalPointer := (if pInternalPointer ht = None then Some a else pInternalPointer ht)\<rparr>)"
    by (simp add: connect_to_global_dllist_def r1(1) r2(1) r3(1))
  ultimately show ?thesis by (intro exI [of _ r3] conjI)
qed

section \<open>Rehash and growth\<close>

lemma rehash_loop_spec:
  "dlist (glinks (ht_mem ht)) (pListHead ht) (pListTail ht) (qs @ rs) \<Longrightarrow>
   chains_ok (ht_mem ht) (arBuckets ht) (nTableMask ht) (set qs) chn \<Longrightarrow>
   size_ok sz (nTableMask ht) (arBuckets ht) \<Longrightarrow>
   \<exists>r' heads' chn'. rehash_loop ht (first_ptr rs None) = Some (ht\<lparr>ht_mem := r', arBuckets := heads'\<rparr>) \<and>
     chains_ok r' heads' (nTableMask ht) (set (qs @ rs)) chn' \<and> size_ok sz (nTableMask ht) heads' \<and>
     glinks r' = glinks (ht_mem ht) \<and> view pay r' = view pay (ht_mem ht) \<and>
     (region_wf (ht_mem ht) \<longrightarrow> region_wf r')"
proof (induction rs arbitrary: qs ht chn)
  case Nil
  then show ?case
    by (subst rehash_loop.simps)
       (auto intro!: exI [of _ "ht_mem ht"] exI [of _ "arBuckets ht"] exI [of _ chn])
next
  case (Cons a rs)
  then obtain b where b: "cells (ht_mem ht) a = Some b" "pListNext b = first_ptr rs None"
    by (auto simp: dlist_def view_Some_iff)
  have a: "a \<notin> set qs" using Cons.prems(1) by (auto simp: dlist_def)
  let ?i = "slot (nTableMask ht) (b_h b)"
  have i: "?i < length (arBuckets ht)" using slot_less [OF Cons.prems(3)] .
  from connect_bucket_spec [OF Cons.prems(2) refl a b(1) refl i] obtain r1 where r1:
    "connect_to_bucket_dllist a ?i ht = Some (ht\<lparr>ht_mem := r1\<rparr>)"
    "chains_ok r1 ((arBuckets ht)[?i := Some a]) (nTableMask ht) (set (qs @ [a])) (chn(?i := a # chn ?i))"
    "glinks r1 = glinks (ht_mem ht)" "view pay r1 = view pay (ht_mem ht)"
    "region_wf (ht_mem ht) \<longrightarrow> region_wf r1" by auto
  let ?ht1 = "ht\<lparr>ht_mem := r1, arBuckets := (arBuckets ht)[?i := Some a]\<rparr>"
  have "glinks r1 a = Some (first_ptr rs None, pListLast b)" unfolding r1(3) using b by (simp add: view_def)
  then obtain b1 where b1: "cells r1 a = Some b1" "pListNext b1 = first_ptr rs None" by (auto simp: view_Some_iff)
  have step: "rehash_loop ht (first_ptr (a # rs) None) = rehash_loop ?ht1 (first_ptr rs None)"
    using b b1 r1(1) i by (subst rehash_loop.simps) (simp add: Let_def set_bucket_head_def)
  have "\<exists>r' heads' chn'. rehash_loop ?ht1 (first_ptr rs None) = Some (?ht1\<lparr>ht_mem := r', arBuckets := heads'\<rparr>) \<and>
     chains_ok r' heads' (nTableMask ?ht1) (set ((qs @ [a]) @ rs)) chn' \<and> size_ok sz (nTableMask ?ht1) heads' \<and>
     glinks r' = glinks (ht_mem ?ht1) \<and> view pay r' = view pay (ht_mem ?ht1) \<and>
     (region_wf (ht_mem ?ht1) \<longrightarrow> region_wf r')"
    by (rule Cons.IH) (use Cons.prems(1,3) r1(2,3) in \<open>simp_all add: size_ok_def\<close>)
  then show ?case using step r1 by auto
qed

lemma rehash_spec:
  assumes L: "dlist (glinks (ht_mem ht)) (pListHead ht) (pListTail ht) ps"
    and s: "size_ok (nTableSize ht) (nTableMask ht) (arBuckets ht)"
  shows "\<exists>r' heads' chn'. zend_hash_rehash ht = Some (ht\<lparr>ht_mem := r', arBuckets := heads'\<rparr>) \<and>
     chains_ok r' heads' (nTableMask ht) (set ps) chn' \<and> size_ok (nTableSize ht) (nTableMask ht) heads' \<and>
     glinks r' = glinks (ht_mem ht) \<and> view pay r' = view pay (ht_mem ht) \<and>
     (region_wf (ht_mem ht) \<longrightarrow> region_wf r')"
proof -
  let ?ht0 = "ht\<lparr>arBuckets := replicate (unat (nTableSize ht)) None\<rparr>"
  have h: "pListHead ht = first_ptr ps None" using L by (simp add: dlist_def)
  have len: "length (arBuckets ht) = unat (nTableSize ht)" using s by (simp add: size_ok_def)
  have "chains_ok (ht_mem ?ht0) (arBuckets ?ht0) (nTableMask ?ht0) (set []) (\<lambda>_. [])"
    by (simp add: chains_ok_def)
  from rehash_loop_spec [of ?ht0 "[]" ps, OF _ this, of "nTableSize ht"] L s
  show ?thesis by (auto simp: zend_hash_rehash_def Let_def h len size_ok_def)
qed

lemma size_ok_double:
  assumes "size_ok sz msk heads" "0 < push_bit 1 sz"
  shows "size_ok (push_bit 1 sz) (push_bit 1 sz - 1) (realloc_slots (unat (push_bit 1 sz)) heads)"
proof -
  from assms(1) obtain k where k: "3 \<le> k" "k \<le> 31" "sz = push_bit k 1" by (rule size_okE)
  have e: "push_bit 1 sz = push_bit (Suc k) 1" unfolding k(3) by (simp del: push_bit_of_1 add: push_bit_push_bit)
  have "k \<noteq> 31"
  proof
    assume "k = 31"
    with e have "push_bit 1 sz = 0" by (simp add: push_bit_eq_mult)
    with assms(2) show False by simp
  qed
  then show ?thesis unfolding size_ok_def e using k
    by (auto simp: realloc_slots_def simp del: push_bit_of_1 intro!: exI [of _ "Suc k"])
qed

lemma resize_spec:
  assumes inv: "hash_inv ht ps chn"
  shows "\<exists>res sz msk heads r chn'. zend_hash_do_resize ht =
       Some (res, ht\<lparr>nTableSize := sz, nTableMask := msk, arBuckets := heads, ht_mem := r\<rparr>) \<and>
     hash_inv (ht\<lparr>nTableSize := sz, nTableMask := msk, arBuckets := heads, ht_mem := r\<rparr>) ps chn' \<and>
     view pay r = view pay (ht_mem ht)"
proof -
  let ?sz = "push_bit 1 (nTableSize ht)"
  note d = hash_invD [OF inv]
  consider (same) res where "zend_hash_do_resize ht = Some (res, ht)"
    | (grow) "0 < ?sz" "ht_alloc_ok ht ?sz"
    by (cases "0 < ?sz"; cases "ht_alloc_ok ht ?sz") (simp_all add: zend_hash_do_resize_def Let_def)
  then show ?thesis
  proof cases
    case same
    with inv show ?thesis
      by (intro exI [of _ res] exI [of _ "nTableSize ht"] exI [of _ "nTableMask ht"] exI [of _ "arBuckets ht"]
            exI [of _ "ht_mem ht"] exI [of _ chn]) simp
  next
    case grow
    let ?ht = "ht\<lparr>arBuckets := realloc_slots (unat ?sz) (arBuckets ht), nTableSize := ?sz, nTableMask := ?sz - 1\<rparr>"
    obtain r' heads' chn' where r': "zend_hash_rehash ?ht = Some (?ht\<lparr>ht_mem := r', arBuckets := heads'\<rparr>)"
      "chains_ok r' heads' (?sz - 1) (set ps) chn'" "size_ok ?sz (?sz - 1) heads'"
      "glinks r' = glinks (ht_mem ht)" "view pay r' = view pay (ht_mem ht)" "region_wf r'"
      using rehash_spec [of ?ht ps] size_ok_double [OF d(4) grow(1)] d(1,3) by auto
    let ?ht' = "ht\<lparr>nTableSize := ?sz, nTableMask := ?sz - 1, arBuckets := heads', ht_mem := r'\<rparr>"
    have "?ht\<lparr>ht_mem := r', arBuckets := heads'\<rparr> = ?ht'" by simp
    with r'(1) grow have res: "zend_hash_do_resize ht = Some (SUCCESS, ?ht')"
      by (simp add: zend_hash_do_resize_def Let_def)
    have "dom (cells r') = dom (cells (ht_mem ht))" by (rule pay_frame(5) [OF r'(5)])
    with r' d have "hash_inv ?ht' ps chn'" by (simp add: hash_inv_def contents_frame [OF r'(5)])
    with res r'(5) show ?thesis by blast
  qed
qed

section \<open>The abstract effect of an insertion\<close>

text \<open>The fields that no operation on entries changes.\<close>

definition config :: "'v HashTable \<Rightarrow> bool \<times> bool \<times> u8 \<times> bool \<times> (u32 \<Rightarrow> bool)" where
  "config ht = (pDestructor ht, persistent ht, nApplyCount ht, bApplyProtection ht, ht_alloc_ok ht)"

lemma if_full_spec:
  assumes "hash_inv ht ps chn"
  shows "\<exists>ht'. if_full_do_resize ht = Some ht' \<and> represents ht' ps (map (entry (ht_mem ht)) ps) \<and>
    config ht' = config ht \<and> ht_dtor_log ht' = ht_dtor_log ht \<and> nNextFreeElement ht' = nNextFreeElement ht \<and>
    pInternalPointer ht' = pInternalPointer ht"
proof (cases "nTableSize ht < nNumOfElements ht")
  case True
  from resize_spec [OF assms] obtain res sz msk heads r chn' where r:
    "zend_hash_do_resize ht = Some (res, ht\<lparr>nTableSize := sz, nTableMask := msk, arBuckets := heads, ht_mem := r\<rparr>)"
    "hash_inv (ht\<lparr>nTableSize := sz, nTableMask := msk, arBuckets := heads, ht_mem := r\<rparr>) ps chn'"
    "view pay r = view pay (ht_mem ht)" by blast
  from True r(1,2) show ?thesis
    by (auto simp: if_full_do_resize_def represents_def config_def pay_frame(3) [OF r(3)])
next
  case False
  with assms show ?thesis by (auto simp: if_full_do_resize_def represents_def)
qed

lemma connect_global_heads:
  "connect_to_global_dllist a (ht\<lparr>arBuckets := H\<rparr>) =
     map_option (\<lambda>ht'. ht'\<lparr>arBuckets := H\<rparr>) (connect_to_global_dllist a ht)"
  by (simp add: connect_to_global_dllist_def split: Option.bind_split)

lemma contents_new_cell:
  assumes "contents_ok r ps" "a \<notin> set ps" "cells r' = (cells r)(a \<mapsto> b)" "bucket_ok b"
    "bkey b \<notin> (\<lambda>a. bkey (the (cells r a))) ` set ps"
  shows "contents_ok r' (ps @ [a])"
proof -
  have same: "cells r' x = cells r x" if "x \<in> set ps" for x using assms(2,3) that by auto
  then have keys: "map (\<lambda>a. bkey (the (cells r' a))) ps = map (\<lambda>a. bkey (the (cells r a))) ps" by simp
  have "cells r' a = Some b" by (simp add: assms(3))
  with assms(1,4,5) same show ?thesis by (simp add: contents_ok_def keys)
qed

lemma link_new:
  assumes inv: "hash_inv ht ps chn" and b: "bucket_ok b" "bkey b \<notin> (\<lambda>a. bkey (the (cells (ht_mem ht) a))) ` set ps"
    and a: "a = fresh (ht_mem ht)" and i: "i = slot (nTableMask ht) (b_h b)"
    and ht0: "ht0 = ht\<lparr>ht_mem := new_cell b (ht_mem ht)\<rparr>"
  shows "\<exists>r1 ht2. connect_to_bucket_dllist a i ht0 = Some (ht0\<lparr>ht_mem := r1\<rparr>) \<and>
    connect_to_global_dllist a (ht0\<lparr>ht_mem := r1\<rparr>) = Some ht2 \<and> arBuckets ht2 = arBuckets ht \<and>
    hash_inv (ht2\<lparr>arBuckets := (arBuckets ht)[i := Some a], nNumOfElements := nNumOfElements ht + 1\<rparr>)
      (ps @ [a]) (chn(i := a # chn i)) \<and>
    map (entry (ht_mem ht2)) (ps @ [a]) = map (entry (ht_mem ht)) ps @ [(bkey b, the (bucket_data b))] \<and>
    config ht2 = config ht \<and> ht_dtor_log ht2 = ht_dtor_log ht \<and> nNextFreeElement ht2 = nNextFreeElement ht \<and>
    nNumOfElements ht2 = nNumOfElements ht \<and> nTableMask ht2 = nTableMask ht \<and>
    pInternalPointer ht2 = (if pInternalPointer ht = None then Some a else pInternalPointer ht)"
proof -
  note d = hash_invD [OF inv]
  let ?r = "ht_mem ht" and ?rn = "ht_mem ht0"
  have "cells ?r a = None" using d(1) a by simp
  then have new: "a \<notin> set ps" unfolding d(2) [symmetric] by blast
  have c0: "cells ?rn = (cells ?r)(a \<mapsto> b)" by (simp add: ht0 a)
  have live: "cells ?rn a = Some b" by (simp add: c0)
  have same: "cells ?rn x = cells ?r x" if "x \<in> set ps" for x using that new c0 by auto
  have il: "i < length (arBuckets ht)" using slot_less [OF d(4)] i by simp
  have "chains_ok ?rn (arBuckets ht) (nTableMask ht) (set ps) chn"
    by (rule chains_cong [OF d(5)]) (simp add: same view_def)
  then have "chains_ok ?rn (arBuckets ht0) (nTableMask ht) (set ps) chn" by (simp add: ht0)
  from connect_bucket_spec [OF this refl new live i [symmetric]] il obtain r1 where r1:
    "connect_to_bucket_dllist a i ht0 = Some (ht0\<lparr>ht_mem := r1\<rparr>)"
    "chains_ok r1 ((arBuckets ht)[i := Some a]) (nTableMask ht) (insert a (set ps)) (chn(i := a # chn i))"
    "glinks r1 = glinks ?rn" "view pay r1 = view pay ?rn" "region_wf ?rn \<longrightarrow> region_wf r1"
    by (auto simp: ht0)
  let ?ht1 = "ht0\<lparr>ht_mem := r1\<rparr>"
  have f: "ht_mem ?ht1 = r1" "pListHead ?ht1 = pListHead ht" "pListTail ?ht1 = pListTail ht"
    "pInternalPointer ?ht1 = pInternalPointer ht" by (simp_all add: ht0)
  have L1: "dlist (glinks r1) (pListHead ht) (pListTail ht) ps"
    by (rule dlist_frame [OF d(3)]) (use same r1(3) in \<open>simp add: view_def\<close>)
  obtain b1 where b1: "cells r1 a = Some b1"
    using pay_frame(5) [OF r1(4)] live by blast
  from connect_global_spec [of ?ht1 ps a b1, unfolded f, OF L1 new b1] obtain r2 where
    r2: "connect_to_global_dllist a ?ht1 = Some (?ht1\<lparr>ht_mem := r2, pListTail := Some a,
       pListHead := (if pListHead ht = None then Some a else pListHead ht),
       pInternalPointer := (if pInternalPointer ht = None then Some a else pInternalPointer ht)\<rparr>)"
    "dlist (glinks r2) (if pListHead ht = None then Some a else pListHead ht) (Some a) (ps @ [a])"
    "clinks r2 = clinks r1" "view pay r2 = view pay r1" "region_wf r1 \<longrightarrow> region_wf r2"
    by blast
  have pay: "view pay r2 = view pay ?rn" using r2(4) r1(4) by simp
  have dom: "dom (cells r2) = insert a (set ps)" using pay_frame(5) [OF pay] c0 d(2) by simp
  have cont: "contents_ok r2 (ps @ [a])"
    unfolding contents_frame [OF pay] by (rule contents_new_cell [OF d(6) new c0 b])
  have chains: "chains_ok r2 ((arBuckets ht)[i := Some a]) (nTableMask ht) (insert a (set ps)) (chn(i := a # chn i))"
    unfolding chains_frame [OF r2(3,4)] by (rule r1(2))
  have rw: "region_wf r2" using r1(5) r2(5) d(1) by (simp add: ht0)
  have ents: "map (entry r2) (ps @ [a]) = map (entry ?r) ps @ [(bkey b, the (bucket_data b))]"
  proof -
    have "entry ?rn a = (bkey b, the (bucket_data b))" by (simp add: entry_def live)
    moreover have "entry ?rn x = entry ?r x" if "x \<in> set ps" for x by (simp add: entry_def same [OF that])
    ultimately show ?thesis by (simp add: pay_frame(3) [OF pay])
  qed
  show ?thesis
    by (intro exI [of _ r1] exI conjI, rule r1(1), rule r2(1))
       (use cont chains rw ents dom d r2(2) in \<open>auto simp: hash_inv_def ht0 size_ok_def config_def\<close>)
qed

lemma alist_update_old:
  "distinct (map fst es) \<Longrightarrow> k \<in> fst ` set es \<Longrightarrow>
     AList.update k v es = map (\<lambda>e. if fst e = k then (k, v) else e) es"
proof (induction es)
  case (Cons e es)
  then show ?case by (cases e) (force intro!: map_idI [symmetric])
qed simp

lemma alist_update_new: "k \<notin> fst ` set es \<Longrightarrow> AList.update k v es = es @ [(k, v)]"
  by (induction es) auto

text \<open>
  \<open>inserted ht ps es k v ht' a\<close>: from a table \<open>ht\<close> that held \<open>es\<close>, \<open>ht'\<close> was made by storing
  \<open>v\<close> under \<open>k\<close>, in the bucket at \<open>a\<close>. An old value of the key went to the destructor.
\<close>

definition inserted ::
  "'v HashTable \<Rightarrow> addr list \<Rightarrow> (hkey \<times> 'v) list \<Rightarrow> hkey \<Rightarrow> 'v \<Rightarrow> 'v HashTable \<Rightarrow> addr \<Rightarrow> bool" where
  "inserted ht ps es k v ht' a \<longleftrightarrow>
     (let ps' = (if k \<in> fst ` set es then ps else ps @ [a]) in
        represents ht' ps' (AList.update k v es) \<and> bucket_of ps' (AList.update k v es) k = Some a) \<and>
     config ht' = config ht \<and>
     ht_dtor_log ht' = ht_dtor_log ht @ (case map_of es k of Some w \<Rightarrow> if pDestructor ht then [w] else [] | None \<Rightarrow> []) \<and>
     pInternalPointer ht' = (if pInternalPointer ht = None \<and> k \<notin> fst ` set es then Some a else pInternalPointer ht)"

lemma update_data_ok:
  "bucket_ok b \<Longrightarrow> bucket_ok (update_data sz v b) \<and> bkey (update_data sz v b) = bkey b \<and>
     bucket_data (update_data sz v b) = Some v \<and> b_h (update_data sz v b) = b_h b \<and>
     pListNext (update_data sz v b) = pListNext b \<and> pListLast (update_data sz v b) = pListLast b \<and>
     pNext (update_data sz v b) = pNext b \<and> pLast (update_data sz v b) = pLast b"
  by (auto simp: update_data_def bucket_ok_def bkey_def bucket_data_def split: data_ref.splits)

text \<open>A write that changes only the data of a bucket.\<close>

lemma data_write_inv:
  assumes inv: "hash_inv ht ps chn" and a: "cells (ht_mem ht) a = Some b" "a \<in> set ps"
    and f: "bucket_ok (f b)" "bkey (f b) = bkey b" "b_h (f b) = b_h b" "pListNext (f b) = pListNext b"
      "pListLast (f b) = pListLast b" "pNext (f b) = pNext b" "pLast (f b) = pLast b"
  shows "\<exists>r'. upd_cell a f (ht_mem ht) = Some r' \<and> cells r' = (cells (ht_mem ht))(a \<mapsto> f b) \<and>
    hash_inv (ht\<lparr>ht_mem := r'\<rparr>) ps chn"
proof -
  note d = hash_invD [OF inv]
  let ?r = "ht_mem ht"
  from upd_cell_eq [OF a(1)] obtain r' where r': "upd_cell a f ?r = Some r'" "cells r' = (cells ?r)(a \<mapsto> f b)"
    by fastforce
  have same: "b_h (the (cells r' x)) = b_h (the (cells ?r x)) \<and> bkey (the (cells r' x)) = bkey (the (cells ?r x)) \<and>
    (bucket_ok (the (cells ?r x)) \<longrightarrow> bucket_ok (the (cells r' x)))" for x using r'(2) a f by auto
  have links: "glinks r' = glinks ?r" "clinks r' = clinks ?r" using r'(2) a f by (auto simp: view_def fun_eq_iff)
  have "chains_ok r' heads msk A chn = chains_ok ?r heads msk A chn" for heads msk A
    by (simp add: chains_ok_def links same)
  moreover have "contents_ok r' ps" using d(6) same by (simp add: contents_ok_def)
  moreover have "dom (cells r') = set ps" using d(2) r'(2) a(2) by auto
  moreover have "region_wf r'" using region_wf_upd_cell [OF d(1) r'(1)] .
  ultimately have "hash_inv (ht\<lparr>ht_mem := r'\<rparr>) ps chn" using d by (simp add: hash_inv_def links)
  with r' show ?thesis by blast
qed

lemma hash_inv_log [simp]: "hash_inv (ht\<lparr>ht_dtor_log := L\<rparr>) ps chn = hash_inv ht ps chn"
  by (simp add: hash_inv_def)

lemma overwrite_spec:
  assumes rep: "represents ht ps es" and k: "bucket_of ps es k = Some a"
  shows "\<exists>ht'. overwrite a sz v ht = Some ht' \<and> inserted ht ps es k v ht' a \<and>
    nNextFreeElement ht' = nNextFreeElement ht"
proof -
  from rep obtain chn where inv: "hash_inv ht ps chn" and es: "es = map (entry (ht_mem ht)) ps"
    by (auto simp: represents_def)
  note d = hash_invD [OF inv]
  let ?r = "ht_mem ht"
  have a: "a \<in> set ps" "bkey (the (cells ?r a)) = k" using k by (simp_all add: es bucket_of_iff [OF d(6)])
  from hash_inv_live [OF inv a(1)] obtain b where b: "cells ?r a = Some b" "bucket_ok b" by blast
  from bucket_ok_data [OF b(2)] obtain w where w: "bucket_data b = Some w" by blast
  have kb: "bkey b = k" using a b by simp
  note u = update_data_ok [OF b(2), of sz v]
  have kin: "k \<in> fst ` set es" using a by (force simp: es entry_def)
  have wk: "map_of es k = Some w"
    using entry_eq [OF b(1) w] a(1) represents_distinct [OF rep] kb by (force simp: es intro!: map_of_is_SomeI)
  let ?log = "ht_dtor_log ht @ (if pDestructor ht then [w] else [])"
  let ?hl = "ht\<lparr>ht_dtor_log := ?log\<rparr>"
  have "hash_inv ?hl ps chn" "cells (ht_mem ?hl) a = Some b" using inv b by simp_all
  from data_write_inv [OF this a(1), of "update_data sz v"] u obtain r' where
    r': "upd_cell a (update_data sz v) ?r = Some r'" "cells r' = (cells ?r)(a \<mapsto> update_data sz v b)"
    and inv': "hash_inv (?hl\<lparr>ht_mem := r'\<rparr>) ps chn" by auto
  have res: "overwrite a sz v ht = Some (?hl\<lparr>ht_mem := r'\<rparr>)"
    using b(1) w r'(1) by (simp add: overwrite_def call_destructor_def)
  have "entry r' x = (if fst (entry ?r x) = k then (k, v) else entry ?r x)" if x: "x \<in> set ps" for x
  proof (cases "x = a")
    case True
    with r'(2) u b kb show ?thesis by (simp add: entry_def)
  next
    case False
    have "bkey (the (cells ?r x)) \<noteq> k"
      using d(6) x a False by (auto simp: contents_ok_def distinct_map inj_on_def)
    with False r'(2) show ?thesis by (simp add: entry_def)
  qed
  then have ents: "map (entry r') ps = AList.update k v es"
    by (simp add: alist_update_old [OF represents_distinct [OF rep] kin]) (simp add: es)
  have "contents_ok r' ps" using hash_invD(6) [OF inv'] by simp
  then have "bucket_of ps (AList.update k v es) k = Some a"
    using bucket_of_iff [of r' ps k a] a r'(2) u b by (simp add: ents kb)
  with inv' ents kin wk res show ?thesis
    by (auto simp: inserted_def represents_def config_def Let_def)
qed

lemma hash_inv_next_free [simp]: "hash_inv (ht\<lparr>nNextFreeElement := x\<rparr>) ps chn = hash_inv ht ps chn"
  by (simp add: hash_inv_def)

lemma insert_tail:
  assumes rep: "represents ht ps es" and b: "bucket_ok b" "bkey b = k" "bucket_data b = Some v"
    and k: "k \<notin> fst ` set es" and a: "a = fresh (ht_mem ht)" and i: "i = slot (nTableMask ht) (b_h b)"
    and ht0: "ht0 = ht\<lparr>ht_mem := new_cell b (ht_mem ht)\<rparr>"
  shows "\<exists>ht1 ht2 H. connect_to_bucket_dllist a i ht0 = Some ht1 \<and> connect_to_global_dllist a ht1 = Some ht2 \<and>
    set_bucket_head i (Some a) ht2 = Some (ht2\<lparr>arBuckets := H\<rparr>) \<and>
    set_bucket_head i (Some a) ht1 = Some (ht1\<lparr>arBuckets := H\<rparr>) \<and>
    connect_to_global_dllist a (ht1\<lparr>arBuckets := H\<rparr>) = Some (ht2\<lparr>arBuckets := H\<rparr>) \<and>
    nNextFreeElement ht2 = nNextFreeElement ht \<and> nNumOfElements ht2 = nNumOfElements ht \<and>
    (\<forall>nf. \<exists>ht'. if_full_do_resize (ht2\<lparr>arBuckets := H, nNextFreeElement := nf, nNumOfElements := nNumOfElements ht + 1\<rparr>) = Some ht' \<and>
       inserted ht ps es k v ht' a \<and> nNextFreeElement ht' = nf)"
proof -
  from rep obtain chn where inv: "hash_inv ht ps chn" and es: "es = map (entry (ht_mem ht)) ps"
    by (auto simp: represents_def)
  have "bkey b \<notin> (\<lambda>a. bkey (the (cells (ht_mem ht) a))) ` set ps"
    using k b(2) by (auto simp: es entry_def image_image)
  from link_new [OF inv b(1) this a i ht0] obtain r1 ht2 where l:
    "connect_to_bucket_dllist a i ht0 = Some (ht0\<lparr>ht_mem := r1\<rparr>)"
    "connect_to_global_dllist a (ht0\<lparr>ht_mem := r1\<rparr>) = Some ht2" "arBuckets ht2 = arBuckets ht"
    "hash_inv (ht2\<lparr>arBuckets := (arBuckets ht)[i := Some a], nNumOfElements := nNumOfElements ht + 1\<rparr>)
      (ps @ [a]) (chn(i := a # chn i))"
    "map (entry (ht_mem ht2)) (ps @ [a]) = map (entry (ht_mem ht)) ps @ [(bkey b, the (bucket_data b))]"
    "config ht2 = config ht" "ht_dtor_log ht2 = ht_dtor_log ht" "nNextFreeElement ht2 = nNextFreeElement ht"
    "nNumOfElements ht2 = nNumOfElements ht" "nTableMask ht2 = nTableMask ht"
    "pInternalPointer ht2 = (if pInternalPointer ht = None then Some a else pInternalPointer ht)" by blast
  let ?H = "(arBuckets ht)[i := Some a]"
  have il: "i < length (arBuckets ht)" using slot_less [OF hash_invD(4) [OF inv]] i by simp
  have ents: "map (entry (ht_mem ht2)) (ps @ [a]) = AList.update k v es"
    by (simp only: l(5) b(2,3) option.sel alist_update_new [OF k] es [symmetric])
  have main: "\<exists>ht'. if_full_do_resize (ht2\<lparr>arBuckets := ?H, nNextFreeElement := nf, nNumOfElements := nNumOfElements ht + 1\<rparr>) = Some ht' \<and>
       inserted ht ps es k v ht' a \<and> nNextFreeElement ht' = nf" for nf
  proof -
    let ?ht3 = "ht2\<lparr>arBuckets := ?H, nNextFreeElement := nf, nNumOfElements := nNumOfElements ht + 1\<rparr>"
    have eq: "?ht3 = ht2\<lparr>arBuckets := ?H, nNumOfElements := nNumOfElements ht + 1\<rparr>\<lparr>nNextFreeElement := nf\<rparr>" by simp
    have inv3: "hash_inv ?ht3 (ps @ [a]) (chn(i := a # chn i))" unfolding eq hash_inv_next_free by (rule l(4))
    from if_full_spec [OF inv3] obtain ht' where ht': "if_full_do_resize ?ht3 = Some ht'"
      "represents ht' (ps @ [a]) (map (entry (ht_mem ?ht3)) (ps @ [a]))" "config ht' = config ?ht3"
      "ht_dtor_log ht' = ht_dtor_log ?ht3" "nNextFreeElement ht' = nf" "pInternalPointer ht' = pInternalPointer ?ht3"
      by auto
    have m: "ht_mem ?ht3 = ht_mem ht2" by simp
    have "bucket_of (ps @ [a]) (AList.update k v es) k = Some a"
    proof -
      have "entry (ht_mem ht2) a = (k, v)" using l(5) b by simp
      then have "bkey (the (cells (ht_mem ht2) a)) = k" by (simp add: entry_def)
      then show ?thesis
        using bucket_of_iff [OF hash_invD(6) [OF inv3], of k a] unfolding m ents by simp
    qed
    moreover have "represents ht' (ps @ [a]) (AList.update k v es)" using ht'(2) unfolding m ents .
    moreover have "config ht' = config ht" using ht'(3) l(6) by (simp add: config_def)
    moreover have "map_of es k = None" using k by (simp add: map_of_eq_None_iff)
    ultimately have "inserted ht ps es k v ht' a" using ht'(4,6) k l(7,11) by (simp add: inserted_def Let_def)
    with ht'(1,5) show ?thesis by blast
  qed
  show ?thesis
    by (rule exI [of _ "ht0\<lparr>ht_mem := r1\<rparr>"], rule exI [of _ ht2], rule exI [of _ ?H])
       (use l main il in \<open>simp add: set_bucket_head_def ht0 connect_global_heads\<close>)
qed

section \<open>The operations\<close>

lemma new_bucket_str:
  "n \<noteq> 0 \<Longrightarrow> unat n \<le> length key \<Longrightarrow> h = djb_hash (take (unat n) key) \<Longrightarrow>
     bucket_ok (new_bucket (take (unat n) key) n h sz v) \<and>
     bkey (new_bucket (take (unat n) key) n h sz v) = StrKey (take (unat n) key) \<and>
     bucket_data (new_bucket (take (unat n) key) n h sz v) = Some v \<and>
     b_h (new_bucket (take (unat n) key) n h sz v) = h"
  by (auto simp: new_bucket_def init_data_def bucket_ok_def bkey_def bucket_data_def)

lemma new_bucket_idx:
  "bucket_ok (new_bucket [] 0 h sz v) \<and> bkey (new_bucket [] 0 h sz v) = IdxKey h \<and>
     bucket_data (new_bucket [] 0 h sz v) = Some v \<and> b_h (new_bucket [] 0 h sz v) = h"
  by (auto simp: new_bucket_def init_data_def bucket_ok_def bkey_def bucket_data_def)

lemma bucket_of_None_iff: "represents ht ps es \<Longrightarrow> bucket_of ps es k = None \<longleftrightarrow> k \<notin> fst ` set es"
  using bucket_of_eq_None [of ps es k] by (simp add: represents_length map_of_eq_None_iff)

lemma add_or_update_spec:
  assumes rep: "represents ht ps es" and n: "n \<noteq> 0" "unat n \<le> length key" and k: "k = StrKey (take (unat n) key)"
  shows "k \<in> fst ` set es \<Longrightarrow> flag AND HASH_ADD \<noteq> 0 \<Longrightarrow>
      zend_hash_add_or_update ht key n v sz flag = Some (FAILURE, None, ht)"
    "\<not> (k \<in> fst ` set es \<and> flag AND HASH_ADD \<noteq> 0) \<Longrightarrow>
      \<exists>a ht'. zend_hash_add_or_update ht key n v sz flag = Some (SUCCESS, Some a, ht') \<and>
        inserted ht ps es k v ht' a \<and> nNextFreeElement ht' = nNextFreeElement ht"
proof -
  let ?h = "djb_hash (take (unat n) key)" and ?i = "slot (nTableMask ht) (djb_hash (take (unat n) key))"
  have h: "zend_inline_hash_func key n = Some ?h" using n by (simp add: inline_hash_eq)
  obtain head where head: "bucket_head ht ?i = Some head"
    "chain_search (str_match ?h key n) (ht_mem ht) head = Some (bucket_of ps es k)"
    using string_lookup [OF rep n(2) refl] n(1) k by (auto simp: arg_key_def)
  note start = zend_hash_add_or_update_def h head Let_def word_le_0_iff n(1)
  show "zend_hash_add_or_update ht key n v sz flag = Some (FAILURE, None, ht)"
    if "k \<in> fst ` set es" "flag AND HASH_ADD \<noteq> 0"
    using that bucket_of_None_iff [OF rep, of k] by (auto simp: start)
  show "\<exists>a ht'. zend_hash_add_or_update ht key n v sz flag = Some (SUCCESS, Some a, ht') \<and>
        inserted ht ps es k v ht' a \<and> nNextFreeElement ht' = nNextFreeElement ht"
    if "\<not> (k \<in> fst ` set es \<and> flag AND HASH_ADD \<noteq> 0)"
  proof (cases "bucket_of ps es k")
    case (Some a)
    with that bucket_of_None_iff [OF rep, of k] have "flag AND HASH_ADD = 0" by auto
    with overwrite_spec [OF rep Some, of sz v] Some show ?thesis by (auto simp: start)
  next
    case None
    then have new: "k \<notin> fst ` set es" using bucket_of_None_iff [OF rep] by blast
    note nb = new_bucket_str [OF n refl, of sz v]
    from insert_tail [OF rep, of "new_bucket (take (unat n) key) n ?h sz v" k v, OF _ _ _ new refl refl refl] nb k
    obtain ht1 ht2 H where t:
      "connect_to_bucket_dllist (fresh (ht_mem ht)) ?i (ht\<lparr>ht_mem := new_cell (new_bucket (take (unat n) key) n ?h sz v) (ht_mem ht)\<rparr>) = Some ht1"
      "connect_to_global_dllist (fresh (ht_mem ht)) ht1 = Some ht2"
      "set_bucket_head ?i (Some (fresh (ht_mem ht))) ht2 = Some (ht2\<lparr>arBuckets := H\<rparr>)"
      "nNextFreeElement ht2 = nNextFreeElement ht" "nNumOfElements ht2 = nNumOfElements ht"
      "\<forall>nf. \<exists>ht'. if_full_do_resize (ht2\<lparr>arBuckets := H, nNextFreeElement := nf, nNumOfElements := nNumOfElements ht + 1\<rparr>) = Some ht' \<and>
         inserted ht ps es k v ht' (fresh (ht_mem ht)) \<and> nNextFreeElement ht' = nf" by auto
    have same: "ht2\<lparr>arBuckets := H, nNextFreeElement := nNextFreeElement ht\<rparr> = ht2\<lparr>arBuckets := H\<rparr>"
      using t(4) by (cases ht2) simp
    obtain ht' where ht': "if_full_do_resize (ht2\<lparr>arBuckets := H, nNumOfElements := nNumOfElements ht + 1\<rparr>) = Some ht'"
      "inserted ht ps es k v ht' (fresh (ht_mem ht))" "nNextFreeElement ht' = nNextFreeElement ht"
      using t(6) [rule_format, of "nNextFreeElement ht"] unfolding same by blast
    show ?thesis using None t(1,2,3,5) ht' by (auto simp: start)
  qed
qed

lemma quick_add_or_update_spec:
  assumes rep: "represents ht ps es" and n: "n \<noteq> 0" "unat n \<le> length key" and k: "k = StrKey (take (unat n) key)"
    and h: "h = djb_hash (take (unat n) key)"
  shows "k \<in> fst ` set es \<Longrightarrow> flag AND HASH_ADD \<noteq> 0 \<Longrightarrow>
      zend_hash_quick_add_or_update ht key n h v sz flag = Some (FAILURE, None, ht)"
    "\<not> (k \<in> fst ` set es \<and> flag AND HASH_ADD \<noteq> 0) \<Longrightarrow>
      \<exists>a ht'. zend_hash_quick_add_or_update ht key n h v sz flag = Some (SUCCESS, Some a, ht') \<and>
        inserted ht ps es k v ht' a \<and> nNextFreeElement ht' = nNextFreeElement ht"
proof -
  let ?i = "slot (nTableMask ht) h"
  obtain head where head: "bucket_head ht ?i = Some head"
    "chain_search (str_match h key n) (ht_mem ht) head = Some (bucket_of ps es k)"
    using string_lookup [OF rep n(2) h] n(1) k by (auto simp: arg_key_def)
  note start = zend_hash_quick_add_or_update_def head Let_def n(1)
  show "zend_hash_quick_add_or_update ht key n h v sz flag = Some (FAILURE, None, ht)"
    if "k \<in> fst ` set es" "flag AND HASH_ADD \<noteq> 0"
    using that bucket_of_None_iff [OF rep, of k] by (auto simp: start)
  show "\<exists>a ht'. zend_hash_quick_add_or_update ht key n h v sz flag = Some (SUCCESS, Some a, ht') \<and>
        inserted ht ps es k v ht' a \<and> nNextFreeElement ht' = nNextFreeElement ht"
    if "\<not> (k \<in> fst ` set es \<and> flag AND HASH_ADD \<noteq> 0)"
  proof (cases "bucket_of ps es k")
    case (Some a)
    with that bucket_of_None_iff [OF rep, of k] have "flag AND HASH_ADD = 0" by auto
    with overwrite_spec [OF rep Some, of sz v] Some show ?thesis by (auto simp: start)
  next
    case None
    then have new: "k \<notin> fst ` set es" using bucket_of_None_iff [OF rep] by blast
    note nb = new_bucket_str [OF n h, of sz v]
    from insert_tail [OF rep, of "new_bucket (take (unat n) key) n h sz v" k v, OF _ _ _ new refl refl refl] nb k
    obtain ht1 ht2 H where t:
      "connect_to_bucket_dllist (fresh (ht_mem ht)) ?i (ht\<lparr>ht_mem := new_cell (new_bucket (take (unat n) key) n h sz v) (ht_mem ht)\<rparr>) = Some ht1"
      "set_bucket_head ?i (Some (fresh (ht_mem ht))) ht1 = Some (ht1\<lparr>arBuckets := H\<rparr>)"
      "connect_to_global_dllist (fresh (ht_mem ht)) (ht1\<lparr>arBuckets := H\<rparr>) = Some (ht2\<lparr>arBuckets := H\<rparr>)"
      "nNextFreeElement ht2 = nNextFreeElement ht" "nNumOfElements ht2 = nNumOfElements ht"
      "\<forall>nf. \<exists>ht'. if_full_do_resize (ht2\<lparr>arBuckets := H, nNextFreeElement := nf, nNumOfElements := nNumOfElements ht + 1\<rparr>) = Some ht' \<and>
         inserted ht ps es k v ht' (fresh (ht_mem ht)) \<and> nNextFreeElement ht' = nf" by auto
    have same: "ht2\<lparr>arBuckets := H, nNextFreeElement := nNextFreeElement ht\<rparr> = ht2\<lparr>arBuckets := H\<rparr>"
      using t(4) by (cases ht2) simp
    obtain ht' where ht': "if_full_do_resize (ht2\<lparr>arBuckets := H, nNumOfElements := nNumOfElements ht + 1\<rparr>) = Some ht'"
      "inserted ht ps es k v ht' (fresh (ht_mem ht))" "nNextFreeElement ht' = nNextFreeElement ht"
      using t(6) [rule_format, of "nNextFreeElement ht"] unfolding same by blast
    show ?thesis using None t(1,2,3,5) ht' by (auto simp: start)
  qed
qed

definition next_free_after :: "u64 \<Rightarrow> u64 \<Rightarrow> u64" where
  "next_free_after h nf = (if sint h \<ge> sint nf then (if h < LONG_MAX then h + 1 else LONG_MAX) else nf)"

lemma bump_next_free_eq: "bump_next_free h ht = ht\<lparr>nNextFreeElement := next_free_after h (nNextFreeElement ht)\<rparr>"
  by (cases ht) (simp add: bump_next_free_def next_free_after_def)

lemma inserted_next_free: "inserted ht ps es k v (ht'\<lparr>nNextFreeElement := x\<rparr>) a = inserted ht ps es k v ht' a"
  by (simp add: inserted_def represents_def config_def)

lemma index_insert_spec:
  assumes rep: "represents ht ps es"
    and h': "h' = (if flag AND HASH_NEXT_INSERT \<noteq> 0 then nNextFreeElement ht else h)"
  shows "IdxKey h' \<in> fst ` set es \<Longrightarrow> flag AND HASH_NEXT_INSERT \<noteq> 0 \<or> flag AND HASH_ADD \<noteq> 0 \<Longrightarrow>
      zend_hash_index_update_or_next_insert ht h v sz flag = Some (FAILURE, None, ht)"
    "\<not> (IdxKey h' \<in> fst ` set es \<and> (flag AND HASH_NEXT_INSERT \<noteq> 0 \<or> flag AND HASH_ADD \<noteq> 0)) \<Longrightarrow>
      \<exists>a ht'. zend_hash_index_update_or_next_insert ht h v sz flag = Some (SUCCESS, Some a, ht') \<and>
        inserted ht ps es (IdxKey h') v ht' a \<and> nNextFreeElement ht' = next_free_after h' (nNextFreeElement ht)"
proof -
  let ?i = "slot (nTableMask ht) h'" and ?k = "IdxKey h'"
  obtain head where head: "bucket_head ht ?i = Some head"
    "chain_search (idx_match h') (ht_mem ht) head = Some (bucket_of ps es ?k)"
    using index_lookup [OF rep] by blast
  show "zend_hash_index_update_or_next_insert ht h v sz flag = Some (FAILURE, None, ht)"
    if "?k \<in> fst ` set es" "flag AND HASH_NEXT_INSERT \<noteq> 0 \<or> flag AND HASH_ADD \<noteq> 0"
    unfolding zend_hash_index_update_or_next_insert_def h' [symmetric] Let_def
    using that bucket_of_None_iff [OF rep, of ?k] by (auto simp: head)
  show "\<exists>a ht'. zend_hash_index_update_or_next_insert ht h v sz flag = Some (SUCCESS, Some a, ht') \<and>
        inserted ht ps es ?k v ht' a \<and> nNextFreeElement ht' = next_free_after h' (nNextFreeElement ht)"
    if c: "\<not> (?k \<in> fst ` set es \<and> (flag AND HASH_NEXT_INSERT \<noteq> 0 \<or> flag AND HASH_ADD \<noteq> 0))"
  proof (cases "bucket_of ps es ?k")
    case (Some a)
    with c bucket_of_None_iff [OF rep, of ?k] have "flag AND HASH_NEXT_INSERT = 0" "flag AND HASH_ADD = 0" by auto
    with overwrite_spec [OF rep Some, of sz v] Some show ?thesis
      unfolding zend_hash_index_update_or_next_insert_def h' [symmetric] Let_def
      by (auto simp: head bump_next_free_eq inserted_next_free)
  next
    case None
    then have new: "?k \<notin> fst ` set es" using bucket_of_None_iff [OF rep] by blast
    note nb = new_bucket_idx [of h' sz v]
    from insert_tail [OF rep, of "new_bucket [] 0 h' sz v" ?k v, OF _ _ _ new refl refl refl] nb
    obtain ht1 ht2 H where t:
      "connect_to_bucket_dllist (fresh (ht_mem ht)) ?i (ht\<lparr>ht_mem := new_cell (new_bucket [] 0 h' sz v) (ht_mem ht)\<rparr>) = Some ht1"
      "set_bucket_head ?i (Some (fresh (ht_mem ht))) ht1 = Some (ht1\<lparr>arBuckets := H\<rparr>)"
      "connect_to_global_dllist (fresh (ht_mem ht)) (ht1\<lparr>arBuckets := H\<rparr>) = Some (ht2\<lparr>arBuckets := H\<rparr>)"
      "nNextFreeElement ht2 = nNextFreeElement ht" "nNumOfElements ht2 = nNumOfElements ht"
      "\<forall>nf. \<exists>ht'. if_full_do_resize (ht2\<lparr>arBuckets := H, nNextFreeElement := nf, nNumOfElements := nNumOfElements ht + 1\<rparr>) = Some ht' \<and>
         inserted ht ps es ?k v ht' (fresh (ht_mem ht)) \<and> nNextFreeElement ht' = nf" by auto
    let ?nf = "next_free_after h' (nNextFreeElement ht)"
    from t(6) obtain ht' where
      "if_full_do_resize (ht2\<lparr>arBuckets := H, nNextFreeElement := ?nf, nNumOfElements := nNumOfElements ht + 1\<rparr>) = Some ht'"
      "inserted ht ps es ?k v ht' (fresh (ht_mem ht))" "nNextFreeElement ht' = ?nf" by blast
    with None t(1-5) show ?thesis
      unfolding zend_hash_index_update_or_next_insert_def h' [symmetric] Let_def
      by (auto simp: head bump_next_free_eq)
  qed
qed

section \<open>The next free integer key\<close>

text \<open>Every integer key is below \<open>nNextFreeElement\<close>, until that has reached \<open>LONG_MAX\<close>.\<close>

definition next_free_ok :: "u64 \<Rightarrow> (hkey \<times> 'v) list \<Rightarrow> bool" where
  "next_free_ok nf es \<longleftrightarrow> (\<forall>k\<in>fst ` set es. case k of IdxKey h \<Rightarrow> sint h < sint nf \<or> nf = LONG_MAX | StrKey _ \<Rightarrow> True)"

lemma sint_LONG_MAX [simp]: "sint LONG_MAX = 0x7FFFFFFFFFFFFFFF"
  by (simp add: LONG_MAX_def)

lemma sint_le_LONG_MAX: "sint (h :: u64) \<le> sint LONG_MAX"
  using sint_lt [of h] by simp

lemma sint_succ: "h < LONG_MAX \<Longrightarrow> sint (h + 1) = sint h + 1"
proof -
  assume "h < LONG_MAX"
  then have u: "uint h < 0x7FFFFFFFFFFFFFFF" by (simp add: LONG_MAX_def word_less_def)
  then have "sint h = uint h" by (simp add: sint_uint signed_take_bit_eq_if_positive bit_iff_odd take_bit_int_eq_self)
  moreover have "uint (h + 1) = uint h + 1" using u by (simp add: uint_word_ariths)
  then have "sint (h + 1) = uint h + 1" using u by (simp add: sint_uint signed_take_bit_eq_if_positive bit_iff_odd take_bit_int_eq_self)
  ultimately show ?thesis by simp
qed

lemma keys_update: "fst ` set (AList.update k v es) = insert k (fst ` set es)"
  using dom_update [of k v es] by (simp add: update_conv' dom_map_of_conv_image_fst [symmetric])

lemma next_free_ok_str: "next_free_ok nf es \<Longrightarrow> next_free_ok nf (AList.update (StrKey s) v es)"
  by (simp add: next_free_ok_def keys_update)

lemma next_free_ok_update:
  assumes "next_free_ok nf es"
  shows "next_free_ok (next_free_after h nf) (AList.update (IdxKey h) v es)"
proof -
  have le: "sint nf \<le> sint (next_free_after h nf) \<or> next_free_after h nf = LONG_MAX"
    by (auto simp: next_free_after_def sint_succ)
  have "sint h < sint (next_free_after h nf) \<or> next_free_after h nf = LONG_MAX"
    by (auto simp: next_free_after_def sint_succ)
  moreover have "nf = LONG_MAX \<Longrightarrow> next_free_after h nf = LONG_MAX"
    using sint_le_LONG_MAX [of "h + 1"] sint_succ [of h] by (auto simp: next_free_after_def)
  ultimately show ?thesis using assms le
    by (auto simp: next_free_ok_def keys_update split: hkey.split) fastforce+
qed

definition list_of_option :: "'a option \<Rightarrow> 'a list" where
  "list_of_option x = (case x of None \<Rightarrow> [] | Some a \<Rightarrow> [a])"

section \<open>Tables built by the operations\<close>

text \<open>A table made by \<open>zend_hash_init\<close> and one update per entry, for the concrete instances.\<close>

definition blank_table :: "'v HashTable" where
  "blank_table = \<lparr>nTableSize = 0, nTableMask = 0, nNumOfElements = 7, nNextFreeElement = 9, pInternalPointer = Some 3,
     pListHead = None, pListTail = None, arBuckets = [], pDestructor = False, persistent = False, nApplyCount = 1,
     bApplyProtection = False, ht_mem = region_empty, ht_dtor_log = [], ht_alloc_ok = (\<lambda>_. True)\<rparr>"

definition hash_put :: "hkey \<times> 'v \<Rightarrow> 'v HashTable \<Rightarrow> 'v HashTable" where
  "hash_put e ht = (case e of
       (StrKey key, v) \<Rightarrow> snd (snd (the (zend_hash_update ht key (of_nat (length key)) v 8)))
     | (IdxKey h, v) \<Rightarrow> snd (snd (the (zend_hash_index_update ht h v 8))))"

definition hash_of :: "(hkey \<times> 'v) list \<Rightarrow> 'v HashTable" where
  "hash_of es = fold hash_put es (snd (the (zend_hash_init blank_table 8 True False)))"

fun key_ok :: "hkey \<Rightarrow> bool" where
  "key_ok (StrKey key) = (key \<noteq> [] \<and> length key < 2 ^ 32)"
| "key_ok (IdxKey _) = True"

lemma str_key_args:
  "key_ok (StrKey key) \<Longrightarrow> (of_nat (length key) :: u32) \<noteq> 0 \<and> unat (of_nat (length key) :: u32) = length key"
proof -
  assume "key_ok (StrKey key)"
  then have k: "key \<noteq> []" "length key < 2 ^ 32" by simp_all
  then have u: "unat (of_nat (length key) :: u32) = length key" by (simp add: unat_of_nat_small)
  have "length key \<noteq> 0" using k by simp
  with u have "(of_nat (length key) :: u32) \<noteq> 0" by force
  with u show ?thesis by simp
qed

lemma inserted_represents: "inserted ht ps es k v ht' a \<Longrightarrow> \<exists>ps'. represents ht' ps' (AList.update k v es)"
  by (auto simp: inserted_def Let_def split: if_splits)

lemma hash_put_spec:
  assumes "represents ht ps es" "key_ok (fst e)" "next_free_ok (nNextFreeElement ht) es"
  shows "\<exists>ps'. represents (hash_put e ht) ps' (AList.update (fst e) (snd e) es) \<and>
    config (hash_put e ht) = config ht \<and>
    next_free_ok (nNextFreeElement (hash_put e ht)) (AList.update (fst e) (snd e) es)"
proof (cases "fst e")
  case (StrKey key)
  with assms have a: "(of_nat (length key) :: u32) \<noteq> 0" "unat (of_nat (length key) :: u32) = length key"
    using str_key_args [of key] by simp_all
  then have le: "unat (of_nat (length key) :: u32) \<le> length key" by simp
  have nf: "\<not> (StrKey key \<in> fst ` set es \<and> HASH_UPDATE AND HASH_ADD \<noteq> 0)" by (simp add: HASH_UPDATE_def HASH_ADD_def)
  have k: "StrKey key = StrKey (take (unat (of_nat (length key) :: u32)) key)" by (simp add: a)
  from add_or_update_spec(2) [OF assms(1) a(1) le k nf, of "snd e" 8] obtain b ht' where
    "zend_hash_add_or_update ht key (of_nat (length key)) (snd e) 8 HASH_UPDATE = Some (SUCCESS, Some b, ht')"
    "inserted ht ps es (StrKey key) (snd e) ht' b" "nNextFreeElement ht' = nNextFreeElement ht" by blast
  moreover from this have "hash_put e ht = ht'" using StrKey
    by (cases e) (simp add: hash_put_def zend_hash_update_def)
  ultimately show ?thesis using assms(3) inserted_represents StrKey
    by (auto simp: inserted_def next_free_ok_str)
next
  case (IdxKey h)
  have h: "h = (if HASH_UPDATE AND HASH_NEXT_INSERT \<noteq> 0 then nNextFreeElement ht else h)"
    by (simp add: HASH_UPDATE_def HASH_NEXT_INSERT_def)
  have nf: "\<not> (IdxKey h \<in> fst ` set es \<and> (HASH_UPDATE AND HASH_NEXT_INSERT \<noteq> 0 \<or> HASH_UPDATE AND HASH_ADD \<noteq> 0))"
    by (simp add: HASH_UPDATE_def HASH_ADD_def HASH_NEXT_INSERT_def)
  from index_insert_spec(2) [OF assms(1) h nf, of "snd e" 8] obtain b ht' where
    "zend_hash_index_update_or_next_insert ht h (snd e) 8 HASH_UPDATE = Some (SUCCESS, Some b, ht')"
    "inserted ht ps es (IdxKey h) (snd e) ht' b" "nNextFreeElement ht' = next_free_after h (nNextFreeElement ht)" by blast
  moreover from this have "hash_put e ht = ht'" using IdxKey
    by (cases e) (simp add: hash_put_def zend_hash_index_update_def)
  ultimately show ?thesis using assms(3) inserted_represents IdxKey
    by (auto simp: inserted_def next_free_ok_update)
qed

lemma fold_put_spec:
  "represents ht ps es0 \<Longrightarrow> next_free_ok (nNextFreeElement ht) es0 \<Longrightarrow> \<forall>k\<in>fst ` set es. key_ok k \<Longrightarrow>
     distinct (map fst (es0 @ es)) \<Longrightarrow>
     \<exists>ps'. represents (fold hash_put es ht) ps' (es0 @ es) \<and> config (fold hash_put es ht) = config ht \<and>
       next_free_ok (nNextFreeElement (fold hash_put es ht)) (es0 @ es)"
proof (induction es arbitrary: ht ps es0)
  case (Cons e es)
  then have "fst e \<notin> fst ` set es0" by auto
  then have up: "AList.update (fst e) (snd e) es0 = es0 @ [e]" by (simp add: alist_update_new)
  from hash_put_spec [OF Cons.prems(1), of e] Cons.prems(2,3) obtain ps1 where
    s: "represents (hash_put e ht) ps1 (es0 @ [e])" "config (hash_put e ht) = config ht"
    "next_free_ok (nNextFreeElement (hash_put e ht)) (es0 @ [e])" unfolding up by auto
  from Cons.IH [OF s(1,3)] Cons.prems(3,4) s(2) show ?case by auto
qed auto

lemma hash_of_represents:
  fixes es :: "(hkey \<times> 'v) list"
  assumes "distinct (map fst es)" "\<forall>k\<in>fst ` set es. key_ok k"
  shows "\<exists>ps. represents (hash_of es) ps es \<and> pDestructor (hash_of es) \<and> nApplyCount (hash_of es) = 0 \<and>
    bApplyProtection (hash_of es) \<and> next_free_ok (nNextFreeElement (hash_of es)) es"
proof -
  obtain res and ht :: "'v HashTable" where "zend_hash_init blank_table 8 True False = Some (res, ht)" "res \<noteq> FAILURE"
    and r: "res = SUCCESS \<longrightarrow> represents ht [] [] \<and> pDestructor ht \<and> nApplyCount ht = 0 \<and> bApplyProtection ht \<and>
      nNextFreeElement ht = 0"
    using init_represents [of blank_table 8 True False] by (auto simp: blank_table_def)
  then have ht: "zend_hash_init blank_table 8 True False = Some (SUCCESS, ht)" "represents ht [] []"
    "config ht = (True, persistent ht, 0, True, ht_alloc_ok ht)" "nNextFreeElement ht = 0"
    by (cases res; simp add: config_def)+
  from fold_put_spec [OF ht(2), of es] assms ht show ?thesis
    by (auto simp: hash_of_def next_free_ok_def config_def)
qed

section \<open>Properties\<close>

text \<open>
  \<open>zend_hash_init\<close> returns for every requested size; unless the allocation of a persistent
  bucket array is refused it leaves an empty table whose array is a power of two, at least 8 and at
  least as large as requested (up to its maximum of 2^31).
\<close>

theorem hash_init_empty:
  "\<exists>res ht'. zend_hash_init ht nSize dtor persist = Some (res, ht') \<and>
     (res = FAILURE \<longleftrightarrow> persist \<and> \<not> ht_alloc_ok ht (nTableSize ht')) \<and>
     (res = FAILURE \<or> represents ht' [] [] \<and> nNextFreeElement ht' = 0 \<and> min nSize 0x80000000 \<le> nTableSize ht')"
proof -
  obtain res ht' where i: "zend_hash_init ht nSize dtor persist = Some (res, ht')"
     "res = FAILURE \<longleftrightarrow> persist \<and> \<not> ht_alloc_ok ht (nTableSize ht')"
     "res = SUCCESS \<longrightarrow> represents ht' [] [] \<and> (nSize \<le> 0x80000000 \<longrightarrow> nSize \<le> nTableSize ht') \<and>
        pDestructor ht' = dtor \<and> bApplyProtection ht' \<and> nApplyCount ht' = 0 \<and> nNextFreeElement ht' = 0"
    using init_represents [of ht nSize dtor persist] by blast
  have "nTableSize ht' = 0x80000000" if "\<not> nSize \<le> 0x80000000"
    using i(1) that by (auto simp: zend_hash_init_def Let_def split: if_splits)
  with i show ?thesis by (cases res) (auto simp: min_def)
qed

text \<open>
  C3: \<open>zend_hash_find\<close> and \<open>zend_hash_exists\<close> are the lookup of the abstract table: they return, read
  only allocated memory, and find exactly the bucket that holds the value of the key.
\<close>

theorem hash_find_refines:
  assumes "represents ht ps es" "unat n \<le> length key"
  shows "(case map_of es (arg_key key n) of
       None \<Rightarrow> zend_hash_find ht key n = Some (FAILURE, None) \<and> zend_hash_exists ht key n = Some False
     | Some v \<Rightarrow> \<exists>a. zend_hash_find ht key n = Some (SUCCESS, Some a) \<and> data_at ht a = Some v \<and>
         zend_hash_exists ht key n = Some True)"
proof (cases "bucket_of ps es (arg_key key n)")
  case None
  then have "map_of es (arg_key key n) = None"
    using assms(1) by (simp add: bucket_of_eq_None represents_length)
  with None show ?thesis using find_spec(3,4) [OF assms] by (simp add: found_result_def)
next
  case (Some a)
  then have "map_of es (arg_key key n) \<noteq> None"
    using bucket_of_eq_None [of ps es "arg_key key n"] assms(1) by (simp add: represents_length)
  with Some bucket_of_data [OF assms(1) Some] show ?thesis
    using find_spec(3,4) [OF assms] by (auto simp: found_result_def)
qed

theorem hash_find_refines_witness:
  "\<exists>a. zend_hash_find (hash_of [(StrKey [104, 105], 7 :: int), (IdxKey 3, 8)]) [104, 105] 2 = Some (SUCCESS, Some a) \<and>
     data_at (hash_of [(StrKey [104, 105], 7 :: int), (IdxKey 3, 8)]) a = Some 7"
proof -
  obtain ps where "represents (hash_of [(StrKey [104, 105], 7 :: int), (IdxKey 3, 8)]) ps [(StrKey [104, 105], 7), (IdxKey 3, 8)]"
    using hash_of_represents [of "[(StrKey [104, 105], 7 :: int), (IdxKey 3, 8)]"] by auto
  from hash_find_refines [OF this, of 2 "[104, 105]"] show ?thesis by (auto simp: arg_key_def)
qed

text \<open>
  C2: adding or updating by string key refuses an empty key, and an \<open>ADD\<close> of a key that is in the
  table, leaving the table as it was; otherwise it keeps the invariant, stores the value in place
  for an old key and at the end for a new one, and hands a replaced value to the destructor. Growth
  and rehash of the bucket array do not change what the table holds.
\<close>

theorem hash_add_or_update_refines:
  assumes "represents ht ps es" "unat n \<le> length key" "k = StrKey (take (unat n) key)"
  shows "(if n = 0 \<or> map_of es k \<noteq> None \<and> flag AND HASH_ADD \<noteq> 0
     then zend_hash_add_or_update ht key n v sz flag = Some (FAILURE, None, ht)
     else \<exists>a ht' ps'. zend_hash_add_or_update ht key n v sz flag = Some (SUCCESS, Some a, ht') \<and>
       represents ht' ps' (AList.update k v es) \<and> data_at ht' a = Some v \<and>
       nNextFreeElement ht' = nNextFreeElement ht \<and>
       ht_dtor_log ht' = ht_dtor_log ht @ (if pDestructor ht then list_of_option (map_of es k) else []))"
proof (cases "n = 0")
  case False
  note s = add_or_update_spec [OF assms(1) False assms(2,3), of flag v sz]
  have k: "k \<in> fst ` set es \<longleftrightarrow> map_of es k \<noteq> None" by (simp add: map_of_eq_None_iff)
  show ?thesis
  proof (cases "map_of es k \<noteq> None \<and> flag AND HASH_ADD \<noteq> 0")
    case True
    with s(1) k show ?thesis by simp
  next
    case c: False
    with s(2) k obtain a ht' where s2: "zend_hash_add_or_update ht key n v sz flag = Some (SUCCESS, Some a, ht')"
      "inserted ht ps es k v ht' a" "nNextFreeElement ht' = nNextFreeElement ht" by auto
    then obtain ps' where p: "represents ht' ps' (AList.update k v es)" "bucket_of ps' (AList.update k v es) k = Some a"
      by (auto simp: inserted_def Let_def split: if_splits)
    from bucket_of_data [OF p] have "data_at ht' a = Some v" by (simp add: update_conv')
    moreover have "ht_dtor_log ht' = ht_dtor_log ht @ (if pDestructor ht then list_of_option (map_of es k) else [])"
      using s2(2) by (auto simp: inserted_def list_of_option_def split: option.splits)
    ultimately show ?thesis using s2 p False c by auto
  qed
qed (simp add: zend_hash_add_or_update_def)

theorem hash_add_or_update_refines_witness:
  "\<exists>a ht' ps'. zend_hash_add_or_update (hash_of [(StrKey [104, 105], 7 :: int), (IdxKey 3, 8)]) [104, 105] 2 9 8 HASH_UPDATE =
      Some (SUCCESS, Some a, ht') \<and> represents ht' ps' [(StrKey [104, 105], 9), (IdxKey 3, 8)]"
proof -
  obtain ps where "represents (hash_of [(StrKey [104, 105], 7 :: int), (IdxKey 3, 8)]) ps [(StrKey [104, 105], 7), (IdxKey 3, 8)]"
    using hash_of_represents [of "[(StrKey [104, 105], 7 :: int), (IdxKey 3, 8)]"] by auto
  from hash_add_or_update_refines [OF this, of 2 "[104, 105]" _ HASH_UPDATE 9 8] show ?thesis
    by (auto simp: HASH_UPDATE_def HASH_ADD_def)
qed

text \<open>
  C6: \<open>zend_hash_next_index_insert\<close> appends the value under \<open>nNextFreeElement\<close>, a key larger than every
  integer key of the table, and keeps it so; it fails, changing nothing, exactly when the counter
  has reached \<open>LONG_MAX\<close> and that key is taken.
\<close>

theorem hash_next_insert_appends:
  assumes "represents ht ps es" "next_free_ok (nNextFreeElement ht) es"
  shows "(if nNextFreeElement ht = LONG_MAX \<and> map_of es (IdxKey LONG_MAX) \<noteq> None
     then zend_hash_next_index_insert ht v sz = Some (FAILURE, None, ht)
     else \<exists>a ht'. zend_hash_next_index_insert ht v sz = Some (SUCCESS, Some a, ht') \<and>
       represents ht' (ps @ [a]) (es @ [(IdxKey (nNextFreeElement ht), v)]) \<and>
       next_free_ok (nNextFreeElement ht') (es @ [(IdxKey (nNextFreeElement ht), v)]))"
proof -
  let ?nf = "nNextFreeElement ht"
  have f: "HASH_NEXT_INSERT AND HASH_NEXT_INSERT \<noteq> 0" by (simp add: HASH_NEXT_INSERT_def)
  then have h: "?nf = (if HASH_NEXT_INSERT AND HASH_NEXT_INSERT \<noteq> 0 then ?nf else 0)" by simp
  note s = index_insert_spec [OF assms(1) h, of v sz]
  have free: "IdxKey ?nf \<notin> fst ` set es" if "?nf \<noteq> LONG_MAX"
    using assms(2) [unfolded next_free_ok_def, THEN bspec, of "IdxKey ?nf"] that by auto
  show ?thesis
  proof (cases "IdxKey ?nf \<in> fst ` set es")
    case True
    with free have "?nf = LONG_MAX" by blast
    with True s(1) f show ?thesis by (simp add: zend_hash_next_index_insert_def map_of_eq_None_iff)
  next
    case False
    with s(2) obtain a ht' where r: "zend_hash_next_index_insert ht v sz = Some (SUCCESS, Some a, ht')"
      "inserted ht ps es (IdxKey ?nf) v ht' a" "nNextFreeElement ht' = next_free_after ?nf ?nf"
      by (auto simp: zend_hash_next_index_insert_def)
    with False have "represents ht' (ps @ [a]) (es @ [(IdxKey ?nf, v)])"
      by (simp add: inserted_def alist_update_new Let_def)
    moreover have "next_free_ok (nNextFreeElement ht') (es @ [(IdxKey ?nf, v)])"
      using next_free_ok_update [OF assms(2), of ?nf v] r(3) by (simp add: alist_update_new [OF False])
    moreover have "\<not> (?nf = LONG_MAX \<and> map_of es (IdxKey LONG_MAX) \<noteq> None)"
      using False by (metis map_of_eq_None_iff)
    ultimately show ?thesis using r(1) by (simp only: if_False) blast
  qed
qed

theorem hash_next_insert_appends_witness:
  "\<exists>ps a ht'. zend_hash_next_index_insert (hash_of [(IdxKey 4, 7 :: int)]) 9 8 = Some (SUCCESS, Some a, ht') \<and>
     represents ht' (ps @ [a]) [(IdxKey 4, 7), (IdxKey (nNextFreeElement (hash_of [(IdxKey 4, 7 :: int)])), 9)]"
proof -
  obtain ps where "represents (hash_of [(IdxKey 4, 7 :: int)]) ps [(IdxKey 4, 7)]"
    "next_free_ok (nNextFreeElement (hash_of [(IdxKey 4, 7 :: int)])) [(IdxKey 4, 7 :: int)]"
    using hash_of_represents [of "[(IdxKey 4, 7 :: int)]"] by auto
  from hash_next_insert_appends [OF this, of 9 8] show ?thesis by (auto simp: LONG_MAX_def split: if_splits)
qed

text \<open>
  \<open>zend_hash_quick_add\<close> honours \<open>HASH_ADD\<close> for string keys only: called with length 0 for an
  integer key that the table has, it replaces the value, destroys the old one and reports success,
  where \<open>zend_hash_quick_add\<close> of a string key that the table has fails and changes nothing.
\<close>

theorem hash_quick_add_integer_overwrites:
  assumes "represents ht ps es" "map_of es (IdxKey h) = Some w"
    "map_of es (StrKey (take (unat n) key)) \<noteq> None" "n \<noteq> 0" "unat n \<le> length key"
  shows "zend_hash_quick_add ht key n (djb_hash (take (unat n) key)) v sz = Some (FAILURE, None, ht) \<and>
    (\<exists>a ht'. zend_hash_quick_add ht key 0 h v sz = Some (SUCCESS, Some a, ht') \<and>
      represents ht' ps (AList.update (IdxKey h) v es) \<and>
      ht_dtor_log ht' = ht_dtor_log ht @ (if pDestructor ht then [w] else []))"
proof
  have a: "HASH_ADD AND HASH_ADD \<noteq> 0" by (simp add: HASH_ADD_def)
  show "zend_hash_quick_add ht key n (djb_hash (take (unat n) key)) v sz = Some (FAILURE, None, ht)"
    using quick_add_or_update_spec(1) [OF assms(1,4,5) refl refl _ a] assms(3)
    by (simp add: zend_hash_quick_add_def map_of_eq_None_iff)
  have h: "h = (if HASH_UPDATE AND HASH_NEXT_INSERT \<noteq> 0 then nNextFreeElement ht else h)"
    by (simp add: HASH_UPDATE_def HASH_NEXT_INSERT_def)
  have nf: "\<not> (IdxKey h \<in> fst ` set es \<and> (HASH_UPDATE AND HASH_NEXT_INSERT \<noteq> 0 \<or> HASH_UPDATE AND HASH_ADD \<noteq> 0))"
    by (simp add: HASH_UPDATE_def HASH_ADD_def HASH_NEXT_INSERT_def)
  have "IdxKey h \<in> fst ` set es" using assms(2) by (force dest: map_of_SomeD)
  with index_insert_spec(2) [OF assms(1) h nf, of v sz] assms(2)
  show "\<exists>a ht'. zend_hash_quick_add ht key 0 h v sz = Some (SUCCESS, Some a, ht') \<and>
      represents ht' ps (AList.update (IdxKey h) v es) \<and>
      ht_dtor_log ht' = ht_dtor_log ht @ (if pDestructor ht then [w] else [])"
    by (auto simp: zend_hash_quick_add_def zend_hash_quick_add_or_update_def inserted_def Let_def)
qed

theorem hash_quick_add_integer_overwrites_witness:
  "\<exists>ps a ht'. zend_hash_quick_add (hash_of [(IdxKey 4, 7 :: int), (StrKey [65], 2)]) [65] 0 4 9 8 = Some (SUCCESS, Some a, ht') \<and>
     represents ht' ps [(IdxKey 4, 9), (StrKey [65], 2)]"
proof -
  obtain ps where "represents (hash_of [(IdxKey 4, 7 :: int), (StrKey [65], 2)]) ps [(IdxKey 4, 7), (StrKey [65], 2)]"
    using hash_of_represents [of "[(IdxKey 4, 7 :: int), (StrKey [65], 2)]"] by auto
  from hash_quick_add_integer_overwrites [OF this, of 4 7 1 "[65]" 9 8] show ?thesis by auto
qed

end
