(* ===== verification/ZendHashDelete.thy ===== *)
theory ZendHashDelete imports ZendHashInsert begin

text \<open>
  Removal from the hash table of \<open>Zend/zend_hash.c\<close>: deletion by key or index, the deleter the
  apply functions use, and the operations that empty or destroy a table.

  The lemmas show that a deletion unlinks the bucket from its chain and from the insertion-order
  list, moves the internal pointer on when it stood on that bucket, calls the destructor once and
  frees the bucket, and that emptying and destroying a table free every bucket and destroy the
  values in the order the code documents.
\<close>

section \<open>Operations\<close>

definition HASH_DEL_KEY :: u32 where "HASH_DEL_KEY = 0"
definition HASH_DEL_INDEX :: u32 where "HASH_DEL_INDEX = 1"
definition HASH_DEL_KEY_QUICK :: u32 where "HASH_DEL_KEY_QUICK = 2"

definition del_match :: "u64 \<Rightarrow> u8 list \<Rightarrow> u32 \<Rightarrow> 'v bucket \<Rightarrow> bool option" where
  "del_match h key n b =
     (if b_h b = h \<and> nKeyLength b = n
      then (if nKeyLength b = 0 then Some True
            else do { d \<leftarrow> memcmp (arKey b) key (unat n); Some (d = 0) })
      else Some False)"

text \<open>
  The part that deletion and the apply deleter have in common: out of the insertion-order list, and
  off the internal pointer.
\<close>

definition disconnect_global :: "addr \<Rightarrow> 'v HashTable \<Rightarrow> 'v HashTable option" where
  "disconnect_global a ht = do {
     (r, head, tail) \<leftarrow> dll_unlink pListNext pListLast set_pListNext set_pListLast a (ht_mem ht) (pListHead ht) (pListTail ht);
     b \<leftarrow> cells r a;
     Some (ht\<lparr>ht_mem := r, pListHead := head, pListTail := tail,
       pInternalPointer := (if pInternalPointer ht = Some a then pListNext b else pInternalPointer ht)\<rparr>)
   }"

definition free_bucket :: "addr \<Rightarrow> 'v HashTable \<Rightarrow> 'v HashTable option" where
  "free_bucket a ht = do { r \<leftarrow> free_cell a (ht_mem ht); Some (ht\<lparr>ht_mem := r\<rparr>) }"

definition zend_hash_del_key_or_index ::
  "'v HashTable \<Rightarrow> u8 list \<Rightarrow> u32 \<Rightarrow> u64 \<Rightarrow> u32 \<Rightarrow> (zend_result \<times> 'v HashTable) option" where
  "zend_hash_del_key_or_index ht key n h flag = do {
     h \<leftarrow> (if flag = HASH_DEL_KEY then zend_inline_hash_func key n else Some h);
     let i = slot (nTableMask ht) h;
     head \<leftarrow> bucket_head ht i;
     p \<leftarrow> chain_search (del_match h key n) (ht_mem ht) head;
     case p of
       None \<Rightarrow> Some (FAILURE, ht)
     | Some a \<Rightarrow> do {
         b \<leftarrow> cells (ht_mem ht) a;
         ht \<leftarrow> (if Some a = head then set_bucket_head i (pNext b) ht
               else do {
                 q \<leftarrow> pLast b;
                 r \<leftarrow> upd_cell q (set_pNext (pNext b)) (ht_mem ht);
                 Some (ht\<lparr>ht_mem := r\<rparr>)
               });
         b \<leftarrow> cells (ht_mem ht) a;
         r \<leftarrow> upd_if (pNext b) (set_pLast (pLast b)) (ht_mem ht);
         ht \<leftarrow> disconnect_global a (ht\<lparr>ht_mem := r\<rparr>);
         ht \<leftarrow> call_destructor a ht;
         ht \<leftarrow> free_bucket a ht;
         Some (SUCCESS, ht\<lparr>nNumOfElements := nNumOfElements ht - 1\<rparr>)
       }
   }"

definition zend_hash_del :: "'v HashTable \<Rightarrow> u8 list \<Rightarrow> u32 \<Rightarrow> (zend_result \<times> 'v HashTable) option" where
  "zend_hash_del ht key n = zend_hash_del_key_or_index ht key n 0 HASH_DEL_KEY"

definition zend_hash_quick_del :: "'v HashTable \<Rightarrow> u8 list \<Rightarrow> u32 \<Rightarrow> u64 \<Rightarrow> (zend_result \<times> 'v HashTable) option" where
  "zend_hash_quick_del ht key n h = zend_hash_del_key_or_index ht key n h HASH_DEL_KEY_QUICK"

definition zend_hash_index_del :: "'v HashTable \<Rightarrow> u64 \<Rightarrow> (zend_result \<times> 'v HashTable) option" where
  "zend_hash_index_del ht h = zend_hash_del_key_or_index ht [] 0 h HASH_DEL_INDEX"

definition zend_hash_apply_deleter :: "'v HashTable \<Rightarrow> addr \<Rightarrow> (ptr \<times> 'v HashTable) option" where
  "zend_hash_apply_deleter ht a = do {
     b \<leftarrow> cells (ht_mem ht) a;
     ht \<leftarrow> (case pLast b of
         Some q \<Rightarrow> do { r \<leftarrow> upd_cell q (set_pNext (pNext b)) (ht_mem ht); Some (ht\<lparr>ht_mem := r\<rparr>) }
       | None \<Rightarrow> set_bucket_head (slot (nTableMask ht) (b_h b)) (pNext b) ht);
     b \<leftarrow> cells (ht_mem ht) a;
     r \<leftarrow> upd_if (pNext b) (set_pLast (pLast b)) (ht_mem ht);
     ht \<leftarrow> disconnect_global a (ht\<lparr>ht_mem := r\<rparr>);
     let ht = ht\<lparr>nNumOfElements := nNumOfElements ht - 1\<rparr>;
     ht \<leftarrow> call_destructor a ht;
     b \<leftarrow> cells (ht_mem ht) a;
     let retval = pListNext b;
     ht \<leftarrow> free_bucket a ht;
     Some (retval, ht)
   }"

text \<open>The loop of \<open>zend_hash_destroy\<close> and \<open>zend_hash_clean\<close>.\<close>

partial_function (option) free_all_loop :: "'v HashTable \<Rightarrow> ptr \<Rightarrow> 'v HashTable option" where
  "free_all_loop ht p =
     (case p of None \<Rightarrow> Some ht
      | Some q \<Rightarrow> do {
          b \<leftarrow> cells (ht_mem ht) q;
          let p = pListNext b;
          ht \<leftarrow> call_destructor q ht;
          ht \<leftarrow> free_bucket q ht;
          free_all_loop ht p
        })"

declare free_all_loop.simps [code]

text \<open>After \<open>pefree(ht->arBuckets)\<close> the array can no longer be indexed.\<close>

definition zend_hash_destroy :: "'v HashTable \<Rightarrow> 'v HashTable option" where
  "zend_hash_destroy ht = do {
     ht \<leftarrow> free_all_loop ht (pListHead ht);
     Some (ht\<lparr>arBuckets := []\<rparr>)
   }"

definition zend_hash_clean :: "'v HashTable \<Rightarrow> 'v HashTable option" where
  "zend_hash_clean ht = do {
     ht \<leftarrow> free_all_loop ht (pListHead ht);
     let n = unat (nTableSize ht);
     heads \<leftarrow> (if n \<le> length (arBuckets ht) then Some (replicate n None @ drop n (arBuckets ht)) else None);
     Some (ht\<lparr>arBuckets := heads, pListHead := None, pListTail := None, nNumOfElements := 0,
       nNextFreeElement := 0, pInternalPointer := None\<rparr>)
   }"

partial_function (option) graceful_loop :: "'v HashTable \<Rightarrow> ptr \<Rightarrow> 'v HashTable option" where
  "graceful_loop ht p =
     (case p of None \<Rightarrow> Some ht
      | Some a \<Rightarrow> do {
          (p, ht) \<leftarrow> zend_hash_apply_deleter ht a;
          graceful_loop ht p
        })"

declare graceful_loop.simps [code]

definition zend_hash_graceful_destroy :: "'v HashTable \<Rightarrow> 'v HashTable option" where
  "zend_hash_graceful_destroy ht = do {
     ht \<leftarrow> graceful_loop ht (pListHead ht);
     Some (ht\<lparr>arBuckets := []\<rparr>)
   }"

partial_function (option) graceful_reverse_loop :: "'v HashTable \<Rightarrow> ptr \<Rightarrow> 'v HashTable option" where
  "graceful_reverse_loop ht p =
     (case p of None \<Rightarrow> Some ht
      | Some a \<Rightarrow> do {
          (_, ht) \<leftarrow> zend_hash_apply_deleter ht a;
          graceful_reverse_loop ht (pListTail ht)
        })"

declare graceful_reverse_loop.simps [code]

definition zend_hash_graceful_reverse_destroy :: "'v HashTable \<Rightarrow> 'v HashTable option" where
  "zend_hash_graceful_reverse_destroy ht = do {
     ht \<leftarrow> graceful_reverse_loop ht (pListTail ht);
     Some (ht\<lparr>arBuckets := []\<rparr>)
   }"

section \<open>Unlinking a bucket from its chain\<close>

lemma upd_if_other: "upd_if p f r = Some r' \<Longrightarrow> p \<noteq> Some x \<Longrightarrow> cells r' x = cells r x"
  by (cases p) (auto dest: cells_upd_cell)

lemma unlink_chain_spec:
  assumes ok: "chains_ok r heads msk A chn" and a: "a \<in> A" "cells r a = Some b"
    and i: "i = slot msk (b_h b)" "i < length heads"
  obtains us vs r1 r2 where "chn i = us @ a # vs" "pNext b = first_ptr vs None" "pLast b = last_ptr None us"
    "heads ! i = first_ptr (us @ [a]) None"
    "upd_if (last_ptr None us) (set_pNext (first_ptr vs None)) r = Some r1" "cells r1 a = Some b"
    "upd_if (first_ptr vs None) (set_pLast (last_ptr None us)) r1 = Some r2"
    "chains_ok r2 (if us = [] then heads[i := first_ptr vs None] else heads) msk (A - {a}) (chn(i := us @ vs))"
    "glinks r2 = glinks r" "view pay r2 = view pay r" "region_wf r \<longrightarrow> region_wf r2"
proof -
  have chi: "heads ! i = first_ptr (chn i) None" "dseg (clinks r) None (chn i) None" "distinct (chn i)"
    and seti: "set (chn i) = {x \<in> A. slot msk (b_h (the (cells r x))) = i}"
    using ok i(2) by (simp_all add: chains_ok_def)
  have "a \<in> set (chn i)" unfolding seti using a i(1) by simp
  then obtain us vs where split: "chn i = us @ a # vs" by (rule in_set_splitE)
  from chi(2) have "clinks r a = Some (first_ptr vs None, last_ptr None us)" unfolding split by (rule dseg_links)
  then have b: "pNext b = first_ptr vs None" "pLast b = last_ptr None us" using a(2) by (auto simp: view_def)
  obtain r1 r2 where u: "upd_if (last_ptr None us) (set_pNext (first_ptr vs None)) r = Some r1"
    "upd_if (first_ptr vs None) (set_pLast (last_ptr None us)) r1 = Some r2"
    "dseg (clinks r2) None (us @ vs) None"
    using ch.unlink_seg [of r us a vs] chi(2,3) unfolding split by blast
  have na: "last_ptr None us \<noteq> Some a" "first_ptr vs None \<noteq> Some a"
    using chi(3) unfolding split by (auto simp: last_ptr_Some_iff first_ptr_Some_iff)
  have pay: "view pay r2 = view pay r" and gl: "glinks r2 = glinks r" using u by (simp_all add: mem_simps)
  have other: "cells r2 x = cells r x" if "x \<notin> set (us @ vs)" for x
  proof -
    have "last_ptr None us \<noteq> Some x" "first_ptr vs None \<noteq> Some x"
      using that by (auto simp: last_ptr_Some_iff first_ptr_Some_iff)
    with u(1,2) show ?thesis by (simp add: upd_if_other)
  qed
  have "chains_ok r2 (if us = [] then heads[i := first_ptr vs None] else heads) msk (A - {a}) (chn(i := us @ vs))"
    unfolding chains_ok_def pay_frame(1) [OF pay]
  proof (intro allI impI)
    let ?H = "if us = [] then heads[i := first_ptr vs None] else heads"
    fix j assume j: "j < length ?H"
    show "?H ! j = first_ptr ((chn(i := us @ vs)) j) None \<and> dseg (clinks r2) None ((chn(i := us @ vs)) j) None \<and>
      distinct ((chn(i := us @ vs)) j) \<and>
      set ((chn(i := us @ vs)) j) = {x \<in> A - {a}. slot msk (b_h (the (cells r x))) = j}"
    proof (cases "j = i")
      case True
      have "set (us @ vs) = set (chn i) - {a}" using chi(3) unfolding split by auto
      then have "set (us @ vs) = {x \<in> A - {a}. slot msk (b_h (the (cells r x))) = i}" unfolding seti by auto
      moreover have "distinct (us @ vs)" using chi(3) unfolding split by simp
      moreover have "?H ! i = first_ptr (us @ vs) None" using chi(1) i(2) unfolding split by (cases us) auto
      ultimately show ?thesis using True u(3) by simp
    next
      case False
      have chj: "heads ! j = first_ptr (chn j) None" "dseg (clinks r) None (chn j) None" "distinct (chn j)"
        and setj: "set (chn j) = {x \<in> A. slot msk (b_h (the (cells r x))) = j}"
        using ok j by (simp_all add: chains_ok_def split: if_splits)
      have "dseg (clinks r2) None (chn j) None = dseg (clinks r) None (chn j) None"
      proof (rule dseg_frame)
        fix x assume "x \<in> set (chn j)"
        with setj False have "x \<notin> set (chn i)" unfolding seti by simp
        then have "x \<notin> set (us @ vs)" unfolding split by auto
        then show "clinks r2 x = clinks r x" by (simp add: view_def other)
      qed
      moreover have "set (chn j) = {x \<in> A - {a}. slot msk (b_h (the (cells r x))) = j}"
        unfolding setj using i(1) a(2) False by auto
      moreover have "?H ! j = heads ! j" using False by simp
      ultimately show ?thesis using False chj by simp
    qed
  qed
  moreover have "cells r1 a = Some b" using upd_if_other [OF u(1) na(1)] a(2) by simp
  moreover have "region_wf r \<longrightarrow> region_wf r2"
    using region_wf_upd_if [OF _ u(1)] region_wf_upd_if [OF _ u(2)] by simp
  moreover have "heads ! i = first_ptr (us @ [a]) None" using chi(1) unfolding split by (cases us) auto
  ultimately show thesis using that [OF split b _ u(1) _ u(2)] gl pay by blast
qed

section \<open>Removing a bucket\<close>

lemma contents_sub:
  assumes "contents_ok r (xs @ a # ys)" "\<And>x. x \<in> set (xs @ ys) \<Longrightarrow> cells r' x = cells r x"
  shows "contents_ok r' (xs @ ys)"
proof -
  have keys: "map (\<lambda>a. bkey (the (cells r' a))) (xs @ ys) = map (\<lambda>a. bkey (the (cells r a))) (xs @ ys)"
    by (rule map_cong [OF refl]) (simp only: assms(2))
  have "distinct (map (\<lambda>a. bkey (the (cells r a))) (xs @ ys))" "\<forall>x\<in>set (xs @ ys). bucket_ok (the (cells r x))"
    using assms(1) by (auto simp: contents_ok_def)
  moreover from this(2) have "\<forall>x\<in>set (xs @ ys). bucket_ok (the (cells r' x))" using assms(2) by simp
  ultimately show ?thesis unfolding contents_ok_def keys by blast
qed

lemma finish_removal:
  assumes inv: "hash_inv ht (xs @ a # ys) chn" and b: "cells (ht_mem ht) a = Some b"
    and r2: "chains_ok r2 H (nTableMask ht) (set (xs @ a # ys) - {a}) chn2" "length H = length (arBuckets ht)"
      "glinks r2 = glinks (ht_mem ht)" "view pay r2 = view pay (ht_mem ht)" "region_wf r2"
  shows "\<exists>r3 h' t' b3 r4. disconnect_global a (ht\<lparr>arBuckets := H, ht_mem := r2\<rparr>) =
       Some (ht\<lparr>arBuckets := H, ht_mem := r3, pListHead := h', pListTail := t',
         pInternalPointer := (if pInternalPointer ht = Some a then first_ptr ys None else pInternalPointer ht)\<rparr>) \<and>
     cells r3 a = Some b3 \<and> bucket_data b3 = bucket_data b \<and> pListNext b3 = first_ptr ys None \<and>
     free_cell a r3 = Some r4 \<and> map (entry r4) (xs @ ys) = map (entry (ht_mem ht)) (xs @ ys) \<and>
     (\<forall>L. hash_inv (ht\<lparr>arBuckets := H, ht_mem := r4, pListHead := h', pListTail := t',
         pInternalPointer := (if pInternalPointer ht = Some a then first_ptr ys None else pInternalPointer ht),
         nNumOfElements := nNumOfElements ht - 1, ht_dtor_log := L\<rparr>) (xs @ ys) chn2)"
proof -
  note d = hash_invD [OF inv]
  have dist: "distinct (xs @ a # ys)" using hash_inv_distinct [OF inv] .
  have L: "dlist (glinks r2) (pListHead ht) (pListTail ht) (xs @ a # ys)" using d(3) r2(3) by simp
  from gl.unlink_dlist [OF L] obtain r3 h' t' where
    u: "dll_unlink pListNext pListLast set_pListNext set_pListLast a r2 (pListHead ht) (pListTail ht) = Some (r3, h', t')"
    "dlist (glinks r3) h' t' (xs @ ys)" "glinks r3 a = glinks r2 a" by blast
  have pay3: "view pay r3 = view pay r2" and cl3: "clinks r3 = clinks r2"
    by (rule gl.unlink_view [OF u(1)]; simp)+
  have pay: "view pay r3 = view pay (ht_mem ht)" using pay3 r2(4) by simp
  have "glinks r3 a = Some (first_ptr ys None, last_ptr None xs)" using u(3) dlist_at [OF L] by simp
  then obtain b3 where b3: "cells r3 a = Some b3" "pListNext b3 = first_ptr ys None" by (auto simp: view_Some_iff)
  have "pay b3 = pay b" using pay_at [OF pay, of a] b3 b by simp
  then have data: "bucket_data b3 = bucket_data b" using pay_eqD by blast
  from free_cell_Some [OF b3(1)] obtain r4 where r4: "free_cell a r3 = Some r4" "cells r4 = (cells r3)(a := None)" by blast
  have same: "cells r4 x = cells r3 x" if "x \<in> set (xs @ ys)" for x using that dist r4(2) by auto
  have ents: "map (entry r4) (xs @ ys) = map (entry (ht_mem ht)) (xs @ ys)"
  proof (rule map_cong [OF refl])
    fix x assume x: "x \<in> set (xs @ ys)"
    have "entry r4 x = entry r3 x" by (simp add: entry_def same [OF x])
    then show "entry r4 x = entry (ht_mem ht) x" using pay_frame(3) [OF pay] by simp
  qed
  have A: "set (xs @ a # ys) - {a} = set (xs @ ys)" using dist by auto
  have "chains_ok r3 H (nTableMask ht) (set (xs @ ys)) chn2"
    using r2(1) chains_frame [OF cl3 pay3] unfolding A by simp
  then have chains: "chains_ok r4 H (nTableMask ht) (set (xs @ ys)) chn2"
    by (rule chains_cong) (simp add: same view_def)
  have "contents_ok r3 (xs @ a # ys)" using d(6) contents_frame [OF pay] by simp
  then have cont: "contents_ok r4 (xs @ ys)" by (rule contents_sub) (rule same)
  have dom: "dom (cells r4) = set (xs @ ys)"
    using pay_frame(5) [OF pay] d(2) r4(2) A by (simp add: Diff_eq)
  have gl4: "dlist (glinks r4) h' t' (xs @ ys)" by (rule dlist_frame [OF u(2)]) (simp add: same view_def)
  have rw: "region_wf r4" using region_wf_free_cell [OF gl.unlink_region_wf [OF u(1) r2(5)] r4(1)] .
  have ip: "(if pInternalPointer ht = Some a then first_ptr ys None else pInternalPointer ht) = None \<or>
     (if pInternalPointer ht = Some a then first_ptr ys None else pInternalPointer ht) \<in> Some ` set (xs @ ys)"
    using d(8) by (cases ys) auto
  have cnt: "nNumOfElements ht - 1 = of_nat (length (xs @ ys))" using d(7) by simp
  have "hash_inv (ht\<lparr>arBuckets := H, ht_mem := r4, pListHead := h', pListTail := t',
         pInternalPointer := (if pInternalPointer ht = Some a then first_ptr ys None else pInternalPointer ht),
         nNumOfElements := nNumOfElements ht - 1, ht_dtor_log := L\<rparr>) (xs @ ys) chn2" for L
    unfolding hash_inv_def using d(4) r2(2) rw dom gl4 chains cont ip cnt by (simp add: size_ok_def)
  moreover have "disconnect_global a (ht\<lparr>arBuckets := H, ht_mem := r2\<rparr>) =
       Some (ht\<lparr>arBuckets := H, ht_mem := r3, pListHead := h', pListTail := t',
         pInternalPointer := (if pInternalPointer ht = Some a then first_ptr ys None else pInternalPointer ht)\<rparr>)"
    by (simp add: disconnect_global_def u(1) b3)
  ultimately show ?thesis using b3 data r4(1) ents by blast
qed

text \<open>
  \<open>removed ht xs a ys ht'\<close>: from a table that held the buckets \<open>xs @ a # ys\<close>, \<open>ht'\<close> was made by
  removing the one at \<open>a\<close>.
\<close>

definition removed :: "'v HashTable \<Rightarrow> addr list \<Rightarrow> addr \<Rightarrow> addr list \<Rightarrow> 'v HashTable \<Rightarrow> bool" where
  "removed ht xs a ys ht' \<longleftrightarrow>
     represents ht' (xs @ ys) (map (entry (ht_mem ht)) (xs @ ys)) \<and>
     config ht' = config ht \<and> nNextFreeElement ht' = nNextFreeElement ht \<and>
     ht_dtor_log ht' = ht_dtor_log ht @ (if pDestructor ht then [snd (entry (ht_mem ht) a)] else []) \<and>
     pInternalPointer ht' = (if pInternalPointer ht = Some a then first_ptr ys None else pInternalPointer ht)"

lemma apply_deleter_spec:
  assumes inv: "hash_inv ht (xs @ a # ys) chn"
  shows "\<exists>ht'. zend_hash_apply_deleter ht a = Some (first_ptr ys None, ht') \<and> removed ht xs a ys ht'"
proof -
  note d = hash_invD [OF inv]
  from hash_inv_live [OF inv, of a] obtain b where b: "cells (ht_mem ht) a = Some b" "bucket_ok b" by auto
  from bucket_ok_data [OF b(2)] obtain v where v: "bucket_data b = Some v" by blast
  let ?i = "slot (nTableMask ht) (b_h b)"
  have i: "?i < length (arBuckets ht)" by (rule slot_less [OF d(4)])
  have am: "a \<in> set (xs @ a # ys)" by simp
  obtain us vs r1 r2 where u: "chn ?i = us @ a # vs" "pNext b = first_ptr vs None" "pLast b = last_ptr None us"
    "upd_if (last_ptr None us) (set_pNext (first_ptr vs None)) (ht_mem ht) = Some r1" "cells r1 a = Some b"
    "upd_if (first_ptr vs None) (set_pLast (last_ptr None us)) r1 = Some r2"
    "chains_ok r2 (if us = [] then (arBuckets ht)[?i := first_ptr vs None] else arBuckets ht) (nTableMask ht)
       (set (xs @ a # ys) - {a}) (chn(?i := us @ vs))"
    "glinks r2 = glinks (ht_mem ht)" "view pay r2 = view pay (ht_mem ht)" "region_wf (ht_mem ht) \<longrightarrow> region_wf r2"
    by (rule unlink_chain_spec [OF d(5) am b(1) refl i]) (rule that; assumption)
  have rw: "region_wf r2" using u(10) d(1) by simp
  let ?H = "if us = [] then (arBuckets ht)[?i := first_ptr vs None] else arBuckets ht"
  have "length ?H = length (arBuckets ht)" by simp
  from finish_removal [OF inv b(1) u(7) this u(8,9) rw] obtain r3 h' t' b3 r4 where
    f: "disconnect_global a (ht\<lparr>arBuckets := ?H, ht_mem := r2\<rparr>) =
       Some (ht\<lparr>arBuckets := ?H, ht_mem := r3, pListHead := h', pListTail := t',
         pInternalPointer := (if pInternalPointer ht = Some a then first_ptr ys None else pInternalPointer ht)\<rparr>)"
     "cells r3 a = Some b3" "bucket_data b3 = bucket_data b" "pListNext b3 = first_ptr ys None"
     "free_cell a r3 = Some r4" "map (entry r4) (xs @ ys) = map (entry (ht_mem ht)) (xs @ ys)"
     "\<And>L. hash_inv (ht\<lparr>arBuckets := ?H, ht_mem := r4, pListHead := h', pListTail := t',
         pInternalPointer := (if pInternalPointer ht = Some a then first_ptr ys None else pInternalPointer ht),
         nNumOfElements := nNumOfElements ht - 1, ht_dtor_log := L\<rparr>) (xs @ ys) (chn(?i := us @ vs))" by blast
  let ?L = "ht_dtor_log ht @ (if pDestructor ht then [v] else [])"
  let ?ht' = "ht\<lparr>arBuckets := ?H, ht_mem := r4, pListHead := h', pListTail := t',
         pInternalPointer := (if pInternalPointer ht = Some a then first_ptr ys None else pInternalPointer ht),
         nNumOfElements := nNumOfElements ht - 1, ht_dtor_log := ?L\<rparr>"
  have v': "snd (entry (ht_mem ht) a) = v" using entry_eq [OF b(1) v] by simp
  have m: "ht_mem ?ht' = r4" by simp
  have "represents ?ht' (xs @ ys) (map (entry (ht_mem ht)) (xs @ ys))"
    by (rule representsI [OF f(7)]) (simp only: m f(6))
  then have "removed ht xs a ys ?ht'" unfolding removed_def v' by (simp add: config_def)
  moreover have start: "(case pLast b of
         Some q \<Rightarrow> do { r \<leftarrow> upd_cell q (set_pNext (pNext b)) (ht_mem ht); Some (ht\<lparr>ht_mem := r\<rparr>) }
       | None \<Rightarrow> set_bucket_head ?i (pNext b) ht) = Some (ht\<lparr>arBuckets := ?H, ht_mem := r1\<rparr>)"
    using u(2,3,4) i by (cases us rule: rev_cases) (auto simp: set_bucket_head_def)
  have "zend_hash_apply_deleter ht a = Some (first_ptr ys None, ?ht')"
    unfolding zend_hash_apply_deleter_def b(1) Option.bind_eq_Some_conv bind.bind_lunit start
    using u f v by (simp add: Let_def call_destructor_def free_bucket_def)
  ultimately show ?thesis by blast
qed

section \<open>Deletion by key\<close>

lemma del_match_eq: "del_match h key n = str_match h key n"
  by (auto simp: del_match_def str_match_def fun_eq_iff)

lemma str_match_0: "str_match h key 0 = idx_match h"
  by (auto simp: str_match_def idx_match_def fun_eq_iff)

lemma del_lookup:
  assumes "represents ht ps es" "quick_args_ok key n h"
  shows "\<exists>head. bucket_head ht (slot (nTableMask ht) h) = Some head \<and>
    chain_search (del_match h key n) (ht_mem ht) head = Some (bucket_of ps es (quick_key key n h))"
proof (cases "n = 0")
  case True
  with index_lookup [OF assms(1), of h] show ?thesis
    by (simp add: del_match_eq str_match_0 quick_key_def)
next
  case False
  with assms(2) string_lookup [OF assms(1), of n key h] show ?thesis
    by (simp add: del_match_eq quick_key_def quick_args_ok_def arg_key_def)
qed

lemma removed_delete:
  assumes rep: "represents ht (xs @ a # ys) es" and k: "bucket_of (xs @ a # ys) es k = Some a"
    and rem: "removed ht xs a ys ht'"
  shows "represents ht' (xs @ ys) (AList.delete k es)" "map_of es k = Some (snd (entry (ht_mem ht) a))"
proof -
  from rep obtain chn where inv: "hash_inv ht (xs @ a # ys) chn" and es: "es = map (entry (ht_mem ht)) (xs @ a # ys)"
    by (auto simp: represents_def)
  have fe: "fst (entry (ht_mem ht) x) = bkey (the (cells (ht_mem ht) x))" for x by (simp add: entry_def)
  have ak: "bkey (the (cells (ht_mem ht) a)) = k"
    using k [unfolded es bucket_of_iff [OF hash_invD(6) [OF inv]]] by simp
  have keys: "bkey (the (cells (ht_mem ht) x)) \<noteq> k" if "x \<in> set (xs @ ys)" for x
  proof
    assume "bkey (the (cells (ht_mem ht) x)) = k"
    moreover have "inj_on (\<lambda>a. bkey (the (cells (ht_mem ht) a))) (set (xs @ a # ys))"
      using hash_invD(6) [OF inv] by (simp only: contents_ok_def distinct_map)
    ultimately have "x = a" using ak that by (auto dest: inj_onD)
    with hash_inv_distinct [OF inv] that show False by auto
  qed
  have "AList.delete k es = map (entry (ht_mem ht)) (xs @ ys)"
  proof -
    have "filter (\<lambda>x. k \<noteq> bkey (the (cells (ht_mem ht) x))) zs = zs" if "set zs \<subseteq> set (xs @ ys)" for zs
    proof (rule filter_True, rule ballI)
      fix x assume "x \<in> set zs"
      with that have "x \<in> set (xs @ ys)" by blast
      then show "k \<noteq> bkey (the (cells (ht_mem ht) x))" using keys by blast
    qed
    then show ?thesis by (simp add: es AList.delete_eq filter_map comp_def fe ak case_prod_beta)
  qed
  with rem show "represents ht' (xs @ ys) (AList.delete k es)" by (simp add: removed_def)
  have "entry (ht_mem ht) a \<in> set es" by (simp add: es)
  then have "(k, snd (entry (ht_mem ht) a)) \<in> set es" by (metis ak fe prod.collapse)
  then show "map_of es k = Some (snd (entry (ht_mem ht) a))" using represents_distinct [OF rep] by simp
qed

lemma del_spec:
  assumes rep: "represents ht ps es" and ok: "quick_args_ok key n h'"
    and h: "(if flag = HASH_DEL_KEY then zend_inline_hash_func key n else Some h) = Some h'"
  shows "bucket_of ps es (quick_key key n h') = None \<Longrightarrow> zend_hash_del_key_or_index ht key n h flag = Some (FAILURE, ht)"
    "bucket_of ps es (quick_key key n h') = Some a \<Longrightarrow>
       \<exists>xs ys ht'. ps = xs @ a # ys \<and> zend_hash_del_key_or_index ht key n h flag = Some (SUCCESS, ht') \<and>
         removed ht xs a ys ht'"
proof -
  obtain head where head: "bucket_head ht (slot (nTableMask ht) h') = Some head"
    "chain_search (del_match h' key n) (ht_mem ht) head = Some (bucket_of ps es (quick_key key n h'))"
    using del_lookup [OF rep ok] by blast
  show "zend_hash_del_key_or_index ht key n h flag = Some (FAILURE, ht)"
    if "bucket_of ps es (quick_key key n h') = None"
    using that head by (simp add: zend_hash_del_key_or_index_def h Let_def)
  show "\<exists>xs ys ht'. ps = xs @ a # ys \<and> zend_hash_del_key_or_index ht key n h flag = Some (SUCCESS, ht') \<and>
         removed ht xs a ys ht'" if k: "bucket_of ps es (quick_key key n h') = Some a"
  proof -
    from rep obtain chn where inv0: "hash_inv ht ps chn" and es: "es = map (entry (ht_mem ht)) ps"
      by (auto simp: represents_def)
    have a: "a \<in> set ps" "bkey (the (cells (ht_mem ht) a)) = quick_key key n h'"
      using k by (simp_all add: es bucket_of_iff [OF hash_invD(6) [OF inv0]])
    from a(1) obtain xs ys where ps: "ps = xs @ a # ys" by (rule in_set_splitE)
    note inv = inv0 [unfolded ps] and am = a(1) [unfolded ps]
    note d = hash_invD [OF inv]
    from hash_inv_live [OF inv am] obtain b where b: "cells (ht_mem ht) a = Some b" "bucket_ok b" by blast
    from bucket_ok_data [OF b(2)] obtain v where v: "bucket_data b = Some v" by blast
    have "b_h b = h'" using key_hash_bkey [OF b(2)] a(2) b(1) ok
      by (cases "n = 0") (auto simp: quick_key_def quick_args_ok_def)
    then have i: "slot (nTableMask ht) h' = slot (nTableMask ht) (b_h b)" by simp
    let ?i = "slot (nTableMask ht) h'"
    have il: "?i < length (arBuckets ht)" by (rule slot_less [OF d(4)])
    obtain us vs r1 r2 where u: "chn ?i = us @ a # vs" "pNext b = first_ptr vs None" "pLast b = last_ptr None us"
      "arBuckets ht ! ?i = first_ptr (us @ [a]) None"
      "upd_if (last_ptr None us) (set_pNext (first_ptr vs None)) (ht_mem ht) = Some r1" "cells r1 a = Some b"
      "upd_if (first_ptr vs None) (set_pLast (last_ptr None us)) r1 = Some r2"
      "chains_ok r2 (if us = [] then (arBuckets ht)[?i := first_ptr vs None] else arBuckets ht) (nTableMask ht)
         (set (xs @ a # ys) - {a}) (chn(?i := us @ vs))"
      "glinks r2 = glinks (ht_mem ht)" "view pay r2 = view pay (ht_mem ht)" "region_wf (ht_mem ht) \<longrightarrow> region_wf r2"
      by (rule unlink_chain_spec [OF d(5) am b(1) i il]) (rule that; assumption)
    have rw: "region_wf r2" using u(11) d(1) by simp
    let ?H = "if us = [] then (arBuckets ht)[?i := first_ptr vs None] else arBuckets ht"
    have "length ?H = length (arBuckets ht)" by simp
    from finish_removal [OF inv b(1) u(8) this u(9,10) rw] obtain r3 p t' b3 r4 where
      f: "disconnect_global a (ht\<lparr>arBuckets := ?H, ht_mem := r2\<rparr>) =
         Some (ht\<lparr>arBuckets := ?H, ht_mem := r3, pListHead := p, pListTail := t',
           pInternalPointer := (if pInternalPointer ht = Some a then first_ptr ys None else pInternalPointer ht)\<rparr>)"
       "cells r3 a = Some b3" "bucket_data b3 = bucket_data b" "pListNext b3 = first_ptr ys None"
       "free_cell a r3 = Some r4" "map (entry r4) (xs @ ys) = map (entry (ht_mem ht)) (xs @ ys)"
       "\<And>L. hash_inv (ht\<lparr>arBuckets := ?H, ht_mem := r4, pListHead := p, pListTail := t',
           pInternalPointer := (if pInternalPointer ht = Some a then first_ptr ys None else pInternalPointer ht),
           nNumOfElements := nNumOfElements ht - 1, ht_dtor_log := L\<rparr>) (xs @ ys) (chn(?i := us @ vs))" by blast
    let ?L = "ht_dtor_log ht @ (if pDestructor ht then [v] else [])"
    let ?ht' = "ht\<lparr>arBuckets := ?H, ht_mem := r4, pListHead := p, pListTail := t',
           pInternalPointer := (if pInternalPointer ht = Some a then first_ptr ys None else pInternalPointer ht),
           nNumOfElements := nNumOfElements ht - 1, ht_dtor_log := ?L\<rparr>"
    have v': "snd (entry (ht_mem ht) a) = v" using entry_eq [OF b(1) v] by simp
    have m: "ht_mem ?ht' = r4" by simp
    have "represents ?ht' (xs @ ys) (map (entry (ht_mem ht)) (xs @ ys))"
      by (rule representsI [OF f(7)]) (simp only: m f(6))
    then have "removed ht xs a ys ?ht'" unfolding removed_def v' by (simp add: config_def)
    moreover have hd: "head = first_ptr (us @ [a]) None" using head(1) u(4) il by (simp add: bucket_head_def)
    have "distinct (us @ a # vs)" using chain_of(3) [OF inv, of h'] u(1) by simp
    then have start: "(if Some a = head then set_bucket_head ?i (pNext b) ht
               else do {
                 q \<leftarrow> pLast b;
                 r \<leftarrow> upd_cell q (set_pNext (pNext b)) (ht_mem ht);
                 Some (ht\<lparr>ht_mem := r\<rparr>)
               }) = Some (ht\<lparr>arBuckets := ?H, ht_mem := r1\<rparr>)"
    proof (cases us)
      case Nil
      with u(2,5) il show ?thesis unfolding hd by (simp add: set_bucket_head_def)
    next
      case (Cons z zs)
      with u(3,5) have "upd_cell (last us) (set_pNext (pNext b)) (ht_mem ht) = Some r1" "pLast b = Some (last us)"
        unfolding u(2) by (simp_all add: last_ptr_def)
      with Cons \<open>distinct (us @ a # vs)\<close> show ?thesis unfolding hd by auto
    qed
    have "zend_hash_del_key_or_index ht key n h flag = Some (SUCCESS, ?ht')"
      unfolding zend_hash_del_key_or_index_def h bind.bind_lunit head Let_def k option.case b(1) start
      using u f v by (simp add: call_destructor_def free_bucket_def)
    ultimately show ?thesis using ps by blast
  qed
qed

text \<open>The whole effect, on the abstract table.\<close>

lemma del_alist:
  assumes rep: "represents ht ps es" and ok: "quick_args_ok key n h'"
    and h: "(if flag = HASH_DEL_KEY then zend_inline_hash_func key n else Some h) = Some h'" and k: "k = quick_key key n h'"
  shows "\<exists>ht' ps'. zend_hash_del_key_or_index ht key n h flag = Some (if map_of es k = None then FAILURE else SUCCESS, ht') \<and>
    represents ht' ps' (AList.delete k es) \<and> config ht' = config ht \<and> nNextFreeElement ht' = nNextFreeElement ht \<and>
    ht_dtor_log ht' = ht_dtor_log ht @ (if pDestructor ht then list_of_option (map_of es k) else [])"
proof (cases "bucket_of ps es k")
  case None
  then have n: "map_of es k = None" using rep by (simp add: bucket_of_eq_None represents_length)
  then have "AList.delete k es = es" by (auto simp: map_of_eq_None_iff intro: delete_idem)
  with del_spec(1) [OF rep ok h] None k rep n show ?thesis by (auto simp: list_of_option_def)
next
  case (Some x)
  from del_spec(2) [OF rep ok h] Some k obtain xs ys ht' where
    d: "ps = xs @ x # ys" "zend_hash_del_key_or_index ht key n h flag = Some (SUCCESS, ht')" "removed ht xs x ys ht'" by blast
  from removed_delete [OF rep [unfolded d(1)] Some [unfolded d(1)] d(3)] d(2,3) show ?thesis
    by (auto simp: list_of_option_def removed_def)
qed

lemma index_del_alist:
  assumes "represents ht ps es"
  shows "\<exists>ht' ps'. zend_hash_index_del ht h = Some (if map_of es (IdxKey h) = None then FAILURE else SUCCESS, ht') \<and>
    represents ht' ps' (AList.delete (IdxKey h) es) \<and> config ht' = config ht \<and> nNextFreeElement ht' = nNextFreeElement ht \<and>
    ht_dtor_log ht' = ht_dtor_log ht @ (if pDestructor ht then list_of_option (map_of es (IdxKey h)) else [])"
  unfolding zend_hash_index_del_def
  by (rule del_alist [OF assms, of _ _ h])
     (simp_all add: quick_args_ok_def quick_key_def HASH_DEL_INDEX_def HASH_DEL_KEY_def)

section \<open>Emptying and destroying a table\<close>

lemma free_all_loop_spec:
  "dseg (glinks (ht_mem ht)) l qs None \<Longrightarrow> distinct qs \<Longrightarrow> dom (cells (ht_mem ht)) = set qs \<Longrightarrow>
   \<forall>a\<in>set qs. bucket_ok (the (cells (ht_mem ht) a)) \<Longrightarrow> region_wf (ht_mem ht) \<Longrightarrow>
   \<exists>r'. free_all_loop ht (first_ptr qs None) = Some (ht\<lparr>ht_mem := r',
       ht_dtor_log := ht_dtor_log ht @ (if pDestructor ht then map (\<lambda>a. snd (entry (ht_mem ht) a)) qs else [])\<rparr>) \<and>
     cells r' = Map.empty \<and> region_wf r'"
proof (induction qs arbitrary: ht l)
  case Nil
  have "free_all_loop ht (first_ptr [] None) = Some (ht\<lparr>ht_mem := ht_mem ht,
       ht_dtor_log := ht_dtor_log ht @ (if pDestructor ht then map (\<lambda>a. snd (entry (ht_mem ht) a)) [] else [])\<rparr>)"
    by (subst free_all_loop.simps) simp
  moreover have "cells (ht_mem ht) = Map.empty" using Nil(3) by simp
  ultimately show ?case using Nil(5) by blast
next
  case (Cons a qs)
  then obtain b where b: "cells (ht_mem ht) a = Some b" "pListNext b = first_ptr qs None" "bucket_ok b"
    by (auto simp: view_Some_iff)
  from bucket_ok_data [OF b(3)] obtain v where v: "bucket_data b = Some v" by blast
  from free_cell_Some [OF b(1)] obtain r1 where r1: "free_cell a (ht_mem ht) = Some r1" "cells r1 = (cells (ht_mem ht))(a := None)" by blast
  let ?ht1 = "ht\<lparr>ht_dtor_log := ht_dtor_log ht @ (if pDestructor ht then [v] else []), ht_mem := r1\<rparr>"
  have same: "cells r1 x = cells (ht_mem ht) x" if "x \<in> set qs" for x using that Cons.prems(2) r1(2) by auto
  have "dseg (glinks r1) (Some a) qs None = dseg (glinks (ht_mem ht)) (Some a) qs None"
    by (rule dseg_frame) (simp add: same view_def)
  then have p1: "dseg (glinks (ht_mem ?ht1)) (Some a) qs None" using Cons.prems(1) by simp
  have p2: "distinct qs" using Cons.prems(2) by simp
  have "a \<notin> set qs" using Cons.prems(2) by simp
  then have p3: "dom (cells (ht_mem ?ht1)) = set qs" using Cons.prems(3) r1(2) by simp
  have p4: "\<forall>a\<in>set qs. bucket_ok (the (cells (ht_mem ?ht1) a))" using Cons.prems(4) same by simp
  have p5: "region_wf (ht_mem ?ht1)" using region_wf_free_cell [OF Cons.prems(5) r1(1)] by simp
  from Cons.IH [OF p1 p2 p3 p4 p5] obtain r' where r': "free_all_loop ?ht1 (first_ptr qs None) = Some (?ht1\<lparr>ht_mem := r',
       ht_dtor_log := ht_dtor_log ?ht1 @ (if pDestructor ?ht1 then map (\<lambda>a. snd (entry (ht_mem ?ht1) a)) qs else [])\<rparr>)"
    "cells r' = Map.empty" "region_wf r'" by blast
  have e: "map (\<lambda>a. snd (entry r1 a)) qs = map (\<lambda>a. snd (entry (ht_mem ht) a)) qs"
    using same by (simp add: entry_def)
  have v': "snd (entry (ht_mem ht) a) = v" using entry_eq [OF b(1) v] by simp
  have step: "free_all_loop ht (first_ptr (a # qs) None) = free_all_loop ?ht1 (first_ptr qs None)"
    using b v r1(1) by (subst free_all_loop.simps) (simp add: call_destructor_def free_bucket_def Let_def)
  have "free_all_loop ht (first_ptr (a # qs) None) = Some (ht\<lparr>ht_mem := r',
       ht_dtor_log := ht_dtor_log ht @ (if pDestructor ht then map (\<lambda>a. snd (entry (ht_mem ht) a)) (a # qs) else [])\<rparr>)"
    unfolding step r'(1) by (simp add: e v')
  with r'(2,3) show ?case by blast
qed

lemma free_all_spec:
  assumes "represents ht ps es"
  shows "\<exists>r'. free_all_loop ht (pListHead ht) = Some (ht\<lparr>ht_mem := r',
       ht_dtor_log := ht_dtor_log ht @ (if pDestructor ht then map snd es else [])\<rparr>) \<and>
     cells r' = Map.empty \<and> region_wf r'"
proof -
  from assms obtain chn where inv: "hash_inv ht ps chn" and es: "es = map (entry (ht_mem ht)) ps"
    by (auto simp: represents_def)
  note d = hash_invD [OF inv]
  have h: "pListHead ht = first_ptr ps None" "dseg (glinks (ht_mem ht)) None ps None" "distinct ps"
    using d(3) by (simp_all add: dlist_def)
  have ok: "\<forall>a\<in>set ps. bucket_ok (the (cells (ht_mem ht) a))" using d(6) by (simp add: contents_ok_def)
  have vals: "map (\<lambda>a. snd (entry (ht_mem ht) a)) ps = map snd es" by (simp add: es)
  from free_all_loop_spec [OF h(2,3) d(2) ok d(1)] show ?thesis unfolding h(1) vals .
qed

text \<open>Both graceful loops take the buckets out one at a time, through valid tables.\<close>

lemma removed_step:
  assumes "removed ht xs a ys ht'"
  obtains chn where "hash_inv ht' (xs @ ys) chn" "\<And>x. x \<in> set (xs @ ys) \<Longrightarrow> entry (ht_mem ht') x = entry (ht_mem ht) x"
    "pDestructor ht' = pDestructor ht"
proof -
  from assms obtain chn where c: "hash_inv ht' (xs @ ys) chn"
    and e: "map (entry (ht_mem ht)) (xs @ ys) = map (entry (ht_mem ht')) (xs @ ys)"
    unfolding removed_def represents_def by blast
  have "entry (ht_mem ht') x = entry (ht_mem ht) x" if "x \<in> set (xs @ ys)" for x
    using e that by (simp only: map_eq_conv)
  with c assms that show thesis by (auto simp: removed_def config_def)
qed

lemma graceful_loop_spec:
  "hash_inv ht ps chn \<Longrightarrow> \<exists>ht'. graceful_loop ht (first_ptr ps None) = Some ht' \<and> cells (ht_mem ht') = Map.empty \<and>
     ht_dtor_log ht' = ht_dtor_log ht @ (if pDestructor ht then map (\<lambda>a. snd (entry (ht_mem ht) a)) ps else [])"
proof (induction ps arbitrary: ht chn)
  case Nil
  then show ?case by (subst graceful_loop.simps) (auto simp: hash_inv_def)
next
  case (Cons a ps)
  from apply_deleter_spec [of ht "[]" a ps] Cons.prems obtain ht1 where
    d: "zend_hash_apply_deleter ht a = Some (first_ptr ps None, ht1)" "removed ht [] a ps ht1" by auto
  from removed_step [OF d(2)] obtain chn1 where s: "hash_inv ht1 ps chn1"
    "\<And>x. x \<in> set ps \<Longrightarrow> entry (ht_mem ht1) x = entry (ht_mem ht) x" "pDestructor ht1 = pDestructor ht" by auto
  have "graceful_loop ht (first_ptr (a # ps) None) = graceful_loop ht1 (first_ptr ps None)"
    using d(1) by (subst graceful_loop.simps) simp
  with Cons.IH [OF s(1)] d(2) s(2,3) show ?case by (auto simp: removed_def cong: map_cong)
qed

lemma graceful_reverse_loop_spec:
  "hash_inv ht ps chn \<Longrightarrow> \<exists>ht'. graceful_reverse_loop ht (pListTail ht) = Some ht' \<and> cells (ht_mem ht') = Map.empty \<and>
     ht_dtor_log ht' = ht_dtor_log ht @ (if pDestructor ht then map (\<lambda>a. snd (entry (ht_mem ht) a)) (rev ps) else [])"
proof (induction ps arbitrary: ht chn rule: rev_induct)
  case Nil
  then show ?case by (subst graceful_reverse_loop.simps) (auto simp: hash_inv_def)
next
  case (snoc a ps)
  have tail: "pListTail ht = Some a" using snoc.prems by (auto simp: hash_inv_def dlist_def)
  from apply_deleter_spec [of ht ps a "[]"] snoc.prems obtain ht1 where
    d: "zend_hash_apply_deleter ht a = Some (None, ht1)" "removed ht ps a [] ht1" by auto
  from removed_step [OF d(2)] obtain chn1 where s: "hash_inv ht1 ps chn1"
    "\<And>x. x \<in> set ps \<Longrightarrow> entry (ht_mem ht1) x = entry (ht_mem ht) x" "pDestructor ht1 = pDestructor ht" by auto
  have "graceful_reverse_loop ht (pListTail ht) = graceful_reverse_loop ht1 (pListTail ht1)"
    unfolding tail using d(1) by (subst graceful_reverse_loop.simps) simp
  with snoc.IH [OF s(1)] d(2) s(2,3) show ?case by (auto simp: removed_def cong: map_cong)
qed

section \<open>Properties\<close>

text \<open>
  C4: deleting by string key, by key with its hash or by integer key fails, changing nothing, when
  the table has no such key; otherwise it removes exactly that entry, keeps the order of the others
  and the invariant, calls the destructor on the value, and moves the internal pointer to the next
  bucket when it stood on the removed one.
\<close>

theorem hash_del_refines:
  assumes "represents ht ps es" "quick_args_ok key n h'" "k = quick_key key n h'"
    "(if flag = HASH_DEL_KEY then zend_inline_hash_func key n else Some h) = Some h'"
  shows "(case map_of es k of
       None \<Rightarrow> zend_hash_del_key_or_index ht key n h flag = Some (FAILURE, ht)
     | Some v \<Rightarrow> \<exists>xs a ys ht'. ps = xs @ a # ys \<and>
         zend_hash_del_key_or_index ht key n h flag = Some (SUCCESS, ht') \<and>
         represents ht' (xs @ ys) (AList.delete k es) \<and> nNextFreeElement ht' = nNextFreeElement ht \<and>
         ht_dtor_log ht' = ht_dtor_log ht @ (if pDestructor ht then [v] else []) \<and>
         pInternalPointer ht' = (if pInternalPointer ht = Some a then first_ptr ys None else pInternalPointer ht))"
proof (cases "bucket_of ps es k")
  case None
  then have "map_of es k = None" using assms(1) by (simp add: bucket_of_eq_None represents_length)
  with None del_spec(1) [OF assms(1,2,4)] assms(3) show ?thesis by simp
next
  case (Some a)
  with del_spec(2) [OF assms(1,2,4)] assms(3) obtain xs ys ht' where r: "ps = xs @ a # ys"
    "zend_hash_del_key_or_index ht key n h flag = Some (SUCCESS, ht')" "removed ht xs a ys ht'" by blast
  from removed_delete [OF assms(1) [unfolded r(1)] Some [unfolded r(1)] r(3)] r show ?thesis
    by (auto simp: removed_def)
qed

theorem hash_del_refines_witness:
  "\<exists>ht' ps. zend_hash_del_key_or_index (hash_of [(StrKey [104], 7 :: int), (IdxKey 3, 8)]) [104] 1 0 HASH_DEL_KEY =
     Some (SUCCESS, ht') \<and> represents ht' ps [(IdxKey 3, 8)]"
proof -
  obtain ps where r: "represents (hash_of [(StrKey [104], 7 :: int), (IdxKey 3, 8)]) ps [(StrKey [104], 7), (IdxKey 3, 8)]"
    using hash_of_represents [of "[(StrKey [104], 7 :: int), (IdxKey 3, 8)]"] by auto
  from hash_del_refines [OF r, of "[104]" 1 "djb_hash [104]" "StrKey [104]" HASH_DEL_KEY 0]
  show ?thesis by (auto simp: quick_args_ok_def quick_key_def inline_hash_eq)
qed

text \<open>
  C5: \<open>zend_hash_clean\<close> frees every bucket, destroys the values in order and leaves an empty table
  that can be used again; \<open>zend_hash_destroy\<close> and \<open>zend_hash_graceful_destroy\<close> do so in insertion
  order, \<open>zend_hash_graceful_reverse_destroy\<close> in reverse order, and all return having freed all
  buckets and accessed none after it was freed.
\<close>

theorem hash_clean_destroy:
  assumes "represents ht ps es"
  shows "(\<exists>ht'. zend_hash_clean ht = Some ht' \<and> represents ht' [] [] \<and> nNextFreeElement ht' = 0 \<and>
      ht_dtor_log ht' = ht_dtor_log ht @ (if pDestructor ht then map snd es else [])) \<and>
    (\<exists>ht'. zend_hash_destroy ht = Some ht' \<and> cells (ht_mem ht') = Map.empty \<and>
      ht_dtor_log ht' = ht_dtor_log ht @ (if pDestructor ht then map snd es else [])) \<and>
    (\<exists>ht'. zend_hash_graceful_destroy ht = Some ht' \<and> cells (ht_mem ht') = Map.empty \<and>
      ht_dtor_log ht' = ht_dtor_log ht @ (if pDestructor ht then map snd es else [])) \<and>
    (\<exists>ht'. zend_hash_graceful_reverse_destroy ht = Some ht' \<and> cells (ht_mem ht') = Map.empty \<and>
      ht_dtor_log ht' = ht_dtor_log ht @ (if pDestructor ht then rev (map snd es) else []))"
    (is "?clean \<and> ?destroy \<and> ?graceful \<and> ?reverse")
proof -
  from assms obtain chn where inv: "hash_inv ht ps chn" and es: "es = map (entry (ht_mem ht)) ps"
    by (auto simp: represents_def)
  note d = hash_invD [OF inv]
  have h: "pListHead ht = first_ptr ps None" using d(3) by (simp add: dlist_def)
  obtain r' where r': "free_all_loop ht (pListHead ht) = Some (ht\<lparr>ht_mem := r',
       ht_dtor_log := ht_dtor_log ht @ (if pDestructor ht then map snd es else [])\<rparr>)"
     "cells r' = Map.empty" "region_wf r'" using free_all_spec [OF assms] by blast
  have len: "length (arBuckets ht) = unat (nTableSize ht)" using d(4) by (simp add: size_ok_def)
  let ?ht' = "ht\<lparr>ht_mem := r', ht_dtor_log := ht_dtor_log ht @ (if pDestructor ht then map snd es else []),
    arBuckets := replicate (unat (nTableSize ht)) None, pListHead := None, pListTail := None, nNumOfElements := 0,
    nNextFreeElement := 0, pInternalPointer := None\<rparr>"
  have "hash_inv ?ht' [] (\<lambda>_. [])"
    using d(4) r'(2,3) by (simp add: hash_inv_def size_ok_def chains_ok_def contents_ok_def)
  then have "represents ?ht' [] []" by (rule representsI) simp
  moreover have "zend_hash_clean ht = Some ?ht'"
    by (simp add: zend_hash_clean_def r'(1) Let_def len)
  ultimately have ?clean by (intro exI [of _ ?ht']) simp
  moreover have ?destroy using r' by (simp add: zend_hash_destroy_def)
  moreover have ?graceful
    using graceful_loop_spec [OF inv] h by (auto simp: zend_hash_graceful_destroy_def es comp_def)
  moreover have ?reverse
    using graceful_reverse_loop_spec [OF inv] by (auto simp: zend_hash_graceful_reverse_destroy_def es comp_def rev_map)
  ultimately show ?thesis by blast
qed

theorem hash_clean_destroy_witness:
  "\<exists>ht'. zend_hash_clean (hash_of [(StrKey [104], 7 :: int), (IdxKey 3, 8)]) = Some ht' \<and> represents ht' [] []"
proof -
  obtain ps where "represents (hash_of [(StrKey [104], 7 :: int), (IdxKey 3, 8)]) ps [(StrKey [104], 7), (IdxKey 3, 8)]"
    using hash_of_represents [of "[(StrKey [104], 7 :: int), (IdxKey 3, 8)]"] by auto
  from hash_clean_destroy [OF this] show ?thesis by blast
qed

text \<open>
  \<open>zend_hash_del\<close> and \<open>zend_hash_find\<close> do not refuse an empty string key, which no insertion
  accepts: with length 0 they act on the entry of the integer key 5381, the hash of the empty string.
\<close>

theorem hash_empty_key_is_5381:
  assumes "represents ht ps es" "map_of es (IdxKey 5381) = Some v"
  shows "(\<exists>a. zend_hash_find ht key 0 = Some (SUCCESS, Some a) \<and> data_at ht a = Some v) \<and>
    (\<exists>ht' ps'. zend_hash_del ht key 0 = Some (SUCCESS, ht') \<and> represents ht' ps' (AList.delete (IdxKey 5381) es)) \<and>
    zend_hash_update ht key 0 w sz = Some (FAILURE, None, ht)"
proof -
  have key: "arg_key key 0 = IdxKey 5381" by (simp add: arg_key_def djb_hash_def)
  obtain a where a: "bucket_of ps es (IdxKey 5381) = Some a"
    using bucket_of_eq_None [of ps es "IdxKey 5381"] assms represents_length [OF assms(1)] by fastforce
  have f: "zend_hash_find ht key 0 = Some (SUCCESS, Some a)"
    using find_spec(3) [OF assms(1), of 0 key] a by (simp add: key found_result_def)
  have "data_at ht a = Some v" using bucket_of_data [OF assms(1) a] assms(2) by simp
  moreover have "quick_args_ok key 0 5381" "quick_key key 0 5381 = IdxKey 5381"
    "(if HASH_DEL_KEY = HASH_DEL_KEY then zend_inline_hash_func key 0 else Some 0) = Some 5381"
    by (simp_all add: quick_args_ok_def quick_key_def inline_hash_eq djb_hash_def)
  with del_spec(2) [OF assms(1), of key 0 5381 HASH_DEL_KEY 0 a] a obtain xs ys ht' where
    r: "ps = xs @ a # ys" "zend_hash_del ht key 0 = Some (SUCCESS, ht')" "removed ht xs a ys ht'"
    by (auto simp: zend_hash_del_def)
  moreover have "represents ht' (xs @ ys) (AList.delete (IdxKey 5381) es)"
    by (rule removed_delete(1) [OF assms(1) [unfolded r(1)] a [unfolded r(1)] r(3)])
  moreover have "zend_hash_update ht key 0 w sz = Some (FAILURE, None, ht)"
    by (simp add: zend_hash_update_def zend_hash_add_or_update_def)
  ultimately show ?thesis using f by blast
qed

theorem hash_empty_key_is_5381_witness:
  "\<exists>ht' ps. zend_hash_del (hash_of [(IdxKey 5381, 7 :: int), (IdxKey 3, 8)]) [] 0 = Some (SUCCESS, ht') \<and>
     represents ht' ps [(IdxKey 3, 8)]"
proof -
  obtain ps where "represents (hash_of [(IdxKey 5381, 7 :: int), (IdxKey 3, 8)]) ps [(IdxKey 5381, 7), (IdxKey 3, 8)]"
    using hash_of_represents [of "[(IdxKey 5381, 7 :: int), (IdxKey 3, 8)]"] by auto
  from hash_empty_key_is_5381 [OF this, of 7 "[]"] show ?thesis by auto
qed

end
