(* ===== verification/ZendHashApply.thy ===== *)
theory ZendHashApply imports ZendHashDelete begin

text \<open>
  The apply functions of \<open>Zend/zend_hash.c\<close>: a callback is called on the data of every entry, in
  insertion order or in reverse, and may change the data, ask for the entry to be removed and stop
  the walk; a counter in the table limits how deep walks of the same table nest.

  A callback is a function of the data and of a state of its own (what it changes outside the table)
  and returns its flags, the data it leaves and its new state. A callback that itself changes the
  table it is called from is not modelled. \<open>zend_error(E_ERROR)\<close> does not return: it is the left
  summand of the result, with the table as it is then.

  The lemmas show that a walk calls the callback once per entry in order, up to the entry where it
  stopped, keeps and removes what the callback asks for, and keeps the invariant.
\<close>

section \<open>Operations\<close>

definition ZEND_HASH_APPLY_REMOVE :: u32 where "ZEND_HASH_APPLY_REMOVE = 1"
definition ZEND_HASH_APPLY_STOP :: u32 where "ZEND_HASH_APPLY_STOP = 2"

record zend_hash_key =
  hk_arKey :: "u8 list"
  hk_nKeyLength :: u32
  hk_h :: u64

type_synonym ('v, 's) apply_func = "'v \<Rightarrow> 's \<Rightarrow> u32 \<times> 'v \<times> 's"

datatype 'v fatal_error = Nesting_level_too_deep "'v HashTable"

definition hash_protect_recursion :: "'v HashTable \<Rightarrow> 'v fatal_error + 'v HashTable" where
  "hash_protect_recursion ht =
     (if bApplyProtection ht
      then let ht' = ht\<lparr>nApplyCount := nApplyCount ht + 1\<rparr>
           in if 3 \<le> nApplyCount ht then Inl (Nesting_level_too_deep ht') else Inr ht'
      else Inr ht)"

definition hash_unprotect_recursion :: "'v HashTable \<Rightarrow> 'v HashTable" where
  "hash_unprotect_recursion ht =
     (if bApplyProtection ht then ht\<lparr>nApplyCount := nApplyCount ht - 1\<rparr> else ht)"

text \<open>What the callback leaves in \<open>*pData\<close>.\<close>

definition write_data :: "'v \<Rightarrow> 'v bucket \<Rightarrow> 'v bucket" where
  "write_data v b = (case pData b of DataPtr \<Rightarrow> b\<lparr>pDataPtr := Some v\<rparr> | Block _ \<Rightarrow> b\<lparr>pData := Block v\<rparr>)"

definition call_on :: "(zend_hash_key \<Rightarrow> ('v, 's) apply_func) \<Rightarrow> addr \<Rightarrow> 'v HashTable \<Rightarrow> 's \<Rightarrow> (u32 \<times> 'v HashTable \<times> 's) option" where
  "call_on func a ht s = do {
     b \<leftarrow> cells (ht_mem ht) a;
     v \<leftarrow> bucket_data b;
     let (result, v', s') = func \<lparr>hk_arKey = arKey b, hk_nKeyLength = nKeyLength b, hk_h = b_h b\<rparr> v s;
     r \<leftarrow> upd_cell a (write_data v') (ht_mem ht);
     Some (result, ht\<lparr>ht_mem := r\<rparr>, s')
   }"

partial_function (option) hash_apply_loop ::
  "(zend_hash_key \<Rightarrow> ('v, 's) apply_func) \<Rightarrow> 'v HashTable \<Rightarrow> ptr \<Rightarrow> 's \<Rightarrow> ('v HashTable \<times> 's) option" where
  "hash_apply_loop func ht p s =
     (case p of None \<Rightarrow> Some (ht, s)
      | Some a \<Rightarrow> do {
          (result, ht, s) \<leftarrow> call_on func a ht s;
          (p, ht) \<leftarrow> (if result AND ZEND_HASH_APPLY_REMOVE \<noteq> 0 then zend_hash_apply_deleter ht a
                      else do { b \<leftarrow> cells (ht_mem ht) a; Some (pListNext b, ht) });
          if result AND ZEND_HASH_APPLY_STOP \<noteq> 0 then Some (ht, s) else hash_apply_loop func ht p s
        })"

declare hash_apply_loop.simps [code]

type_synonym ('v, 's) apply_result = "('v fatal_error + 'v HashTable \<times> 's) option"

definition zend_hash_apply :: "'v HashTable \<Rightarrow> ('v, 's) apply_func \<Rightarrow> 's \<Rightarrow> ('v, 's) apply_result" where
  "zend_hash_apply ht apply_func s = (case hash_protect_recursion ht of
       Inl e \<Rightarrow> Some (Inl e)
     | Inr ht \<Rightarrow> do {
         (ht, s) \<leftarrow> hash_apply_loop (\<lambda>_. apply_func) ht (pListHead ht) s;
         Some (Inr (hash_unprotect_recursion ht, s))
       })"

definition zend_hash_apply_with_argument ::
  "'v HashTable \<Rightarrow> ('v \<Rightarrow> 'a \<Rightarrow> 's \<Rightarrow> u32 \<times> 'v \<times> 's) \<Rightarrow> 'a \<Rightarrow> 's \<Rightarrow> ('v, 's) apply_result" where
  "zend_hash_apply_with_argument ht apply_func argument s = (case hash_protect_recursion ht of
       Inl e \<Rightarrow> Some (Inl e)
     | Inr ht \<Rightarrow> do {
         (ht, s) \<leftarrow> hash_apply_loop (\<lambda>_ v. apply_func v argument) ht (pListHead ht) s;
         Some (Inr (hash_unprotect_recursion ht, s))
       })"

definition zend_hash_apply_with_arguments ::
  "'v HashTable \<Rightarrow> ('v \<Rightarrow> 'a list \<Rightarrow> zend_hash_key \<Rightarrow> 's \<Rightarrow> u32 \<times> 'v \<times> 's) \<Rightarrow> 'a list \<Rightarrow> 's \<Rightarrow> ('v, 's) apply_result" where
  "zend_hash_apply_with_arguments ht apply_func args s = (case hash_protect_recursion ht of
       Inl e \<Rightarrow> Some (Inl e)
     | Inr ht \<Rightarrow> do {
         (ht, s) \<leftarrow> hash_apply_loop (\<lambda>hash_key v. apply_func v args hash_key) ht (pListHead ht) s;
         Some (Inr (hash_unprotect_recursion ht, s))
       })"

text \<open>The reverse walk takes \<open>pListLast\<close> after the callback and before the deletion.\<close>

partial_function (option) reverse_apply_loop ::
  "('v, 's) apply_func \<Rightarrow> 'v HashTable \<Rightarrow> ptr \<Rightarrow> 's \<Rightarrow> ('v HashTable \<times> 's) option" where
  "reverse_apply_loop func ht p s =
     (case p of None \<Rightarrow> Some (ht, s)
      | Some q \<Rightarrow> do {
          (result, ht, s) \<leftarrow> call_on (\<lambda>_. func) q ht s;
          b \<leftarrow> cells (ht_mem ht) q;
          let p = pListLast b;
          ht \<leftarrow> (if result AND ZEND_HASH_APPLY_REMOVE \<noteq> 0 then map_option snd (zend_hash_apply_deleter ht q) else Some ht);
          if result AND ZEND_HASH_APPLY_STOP \<noteq> 0 then Some (ht, s) else reverse_apply_loop func ht p s
        })"

declare reverse_apply_loop.simps [code]

definition zend_hash_reverse_apply :: "'v HashTable \<Rightarrow> ('v, 's) apply_func \<Rightarrow> 's \<Rightarrow> ('v, 's) apply_result" where
  "zend_hash_reverse_apply ht apply_func s = (case hash_protect_recursion ht of
       Inl e \<Rightarrow> Some (Inl e)
     | Inr ht \<Rightarrow> do {
         (ht, s) \<leftarrow> reverse_apply_loop apply_func ht (pListTail ht) s;
         Some (Inr (hash_unprotect_recursion ht, s))
       })"

section \<open>The walk on the abstract table\<close>

fun apply_entries :: "(hkey \<Rightarrow> ('v, 's) apply_func) \<Rightarrow> (hkey \<times> 'v) list \<Rightarrow> 's \<Rightarrow> (hkey \<times> 'v) list \<times> 'v list \<times> 's" where
  "apply_entries func [] s = ([], [], s)"
| "apply_entries func ((k, v) # es) s =
     (let (result, v', s1) = func k v s;
          (keep, gone, s2) = (if result AND ZEND_HASH_APPLY_STOP \<noteq> 0 then (es, [], s1) else apply_entries func es s1)
      in if result AND ZEND_HASH_APPLY_REMOVE \<noteq> 0 then (keep, v' # gone, s2) else ((k, v') # keep, gone, s2))"

text \<open>The key a \<open>zend_hash_key\<close> stands for: \<open>arKey\<close> has no meaning when \<open>nKeyLength\<close> is 0.\<close>

definition hk_key :: "zend_hash_key \<Rightarrow> hkey" where
  "hk_key hk = (if hk_nKeyLength hk = 0 then IdxKey (hk_h hk) else StrKey (hk_arKey hk))"

lemma write_data_ok:
  "bucket_ok b \<Longrightarrow> bucket_ok (write_data v b) \<and> bkey (write_data v b) = bkey b \<and>
     bucket_data (write_data v b) = Some v \<and> b_h (write_data v b) = b_h b \<and>
     pListNext (write_data v b) = pListNext b \<and> pListLast (write_data v b) = pListLast b \<and>
     pNext (write_data v b) = pNext b \<and> pLast (write_data v b) = pLast b"
  by (auto simp: write_data_def bucket_ok_def bkey_def bucket_data_def split: data_ref.splits)

lemma call_on_spec:
  assumes inv: "hash_inv ht ps chn" and a: "a \<in> set ps" and e: "entry (ht_mem ht) a = (k, v)"
    and f: "func k v s = (result, v', s')"
  shows "\<exists>r'. call_on (\<lambda>hk. func (hk_key hk)) a ht s = Some (result, ht\<lparr>ht_mem := r'\<rparr>, s') \<and>
    hash_inv (ht\<lparr>ht_mem := r'\<rparr>) ps chn \<and> entry r' a = (k, v') \<and>
    (\<forall>x. x \<noteq> a \<longrightarrow> entry r' x = entry (ht_mem ht) x)"
proof -
  from hash_inv_live [OF inv a] obtain b where b: "cells (ht_mem ht) a = Some b" "bucket_ok b" by blast
  from bucket_ok_data [OF b(2)] obtain w where w: "bucket_data b = Some w" by blast
  have kv: "bkey b = k" "w = v" using entry_eq [OF b(1) w] e by simp_all
  note u = write_data_ok [OF b(2), of v']
  from data_write_inv [OF inv b(1) a, of "write_data v'"] u obtain r' where
    r': "upd_cell a (write_data v') (ht_mem ht) = Some r'" "cells r' = (cells (ht_mem ht))(a \<mapsto> write_data v' b)"
    "hash_inv (ht\<lparr>ht_mem := r'\<rparr>) ps chn" by auto
  have "hk_key \<lparr>hk_arKey = arKey b, hk_nKeyLength = nKeyLength b, hk_h = b_h b\<rparr> = k"
    using kv(1) by (simp add: hk_key_def bkey_def split: if_splits)
  then have "call_on (\<lambda>hk. func (hk_key hk)) a ht s = Some (result, ht\<lparr>ht_mem := r'\<rparr>, s')"
    using b w kv f r'(1) by (simp add: call_on_def)
  moreover have "entry r' a = (k, v')" using r'(2) u kv by (simp add: entry_def)
  moreover have "\<forall>x. x \<noteq> a \<longrightarrow> entry r' x = entry (ht_mem ht) x" using r'(2) by (simp add: entry_def)
  ultimately show ?thesis using r'(3) by blast
qed

text \<open>A write through a pointer to the data of a bucket: \<open>f\<close> is what is done to \<open>*pData\<close>.\<close>

definition hash_write :: "addr \<Rightarrow> ('v \<Rightarrow> 'v) \<Rightarrow> 'v HashTable \<Rightarrow> 'v HashTable option" where
  "hash_write a f ht = do {
     b \<leftarrow> cells (ht_mem ht) a;
     v \<leftarrow> bucket_data b;
     r \<leftarrow> upd_cell a (write_data (f v)) (ht_mem ht);
     Some (ht\<lparr>ht_mem := r\<rparr>)
   }"

lemma hash_write_spec:
  assumes rep: "represents ht ps es" and a: "bucket_of ps es k = Some a" and v: "map_of es k = Some v"
  shows "\<exists>r'. hash_write a f ht = Some (ht\<lparr>ht_mem := r'\<rparr>) \<and>
    represents (ht\<lparr>ht_mem := r'\<rparr>) ps (AList.update k (f v) es)"
proof -
  obtain chn where inv: "hash_inv ht ps chn" and es: "es = map (entry (ht_mem ht)) ps"
    using rep by (auto simp: represents_def)
  have ak: "a \<in> set ps" "bkey (the (cells (ht_mem ht) a)) = k"
    using a bucket_of_iff [OF hash_invD(6) [OF inv]] unfolding es by blast+
  from hash_inv_live [OF inv ak(1)] obtain b where b: "cells (ht_mem ht) a = Some b" "bucket_ok b" by blast
  have "data_at ht a = Some v" using bucket_of_data [OF rep a] v by simp
  with b have d: "bucket_data b = Some v" by (simp add: data_at_def)
  note u = write_data_ok [OF b(2), of "f v"]
  from data_write_inv [OF inv b(1) ak(1), of "write_data (f v)"] u obtain r' where
    r': "upd_cell a (write_data (f v)) (ht_mem ht) = Some r'" "cells r' = (cells (ht_mem ht))(a \<mapsto> write_data (f v) b)"
    "hash_inv (ht\<lparr>ht_mem := r'\<rparr>) ps chn" by auto
  have kin: "k \<in> fst ` set es" using v by (force dest: map_of_SomeD)
  have "entry r' x = (if fst (entry (ht_mem ht) x) = k then (k, f v) else entry (ht_mem ht) x)" if x: "x \<in> set ps" for x
  proof (cases "x = a")
    case True
    with r'(2) u b ak show ?thesis by (simp add: entry_def)
  next
    case False
    have "bkey (the (cells (ht_mem ht) x)) \<noteq> k"
      using hash_invD(6) [OF inv] x ak False by (auto simp: contents_ok_def distinct_map inj_on_def)
    with False r'(2) show ?thesis by (simp add: entry_def)
  qed
  then have "map (entry r') ps = AList.update k (f v) es"
    by (simp add: alist_update_old [OF represents_distinct [OF rep] kin]) (simp add: es)
  with r' b d show ?thesis by (auto simp: hash_write_def represents_def)
qed

lemma hash_apply_loop_spec:
  "hash_inv ht (xs @ ys) chn \<Longrightarrow> apply_entries func (map (entry (ht_mem ht)) ys) s = (keep, gone, s') \<Longrightarrow>
   \<exists>ht' zs. hash_apply_loop (\<lambda>hk. func (hk_key hk)) ht (first_ptr ys None) s = Some (ht', s') \<and>
     represents ht' (xs @ zs) (map (entry (ht_mem ht)) xs @ keep) \<and> config ht' = config ht \<and>
     ht_dtor_log ht' = ht_dtor_log ht @ (if pDestructor ht then gone else []) \<and>
     nNextFreeElement ht' = nNextFreeElement ht"
proof (induction ys arbitrary: ht xs chn s keep gone s')
  case Nil
  then show ?case by (subst hash_apply_loop.simps) (auto simp: represents_def intro!: exI [of _ "[]"])
next
  case (Cons a ys)
  obtain k v where e: "entry (ht_mem ht) a = (k, v)" by fastforce
  obtain result v1 s1 where f: "func k v s = (result, v1, s1)" by (metis prod_cases3)
  have am: "a \<in> set (xs @ a # ys)" by simp
  from call_on_spec [OF Cons.prems(1) am e, of func s result v1 s1, OF f] obtain r1 where r1:
    "call_on (\<lambda>hk. func (hk_key hk)) a ht s = Some (result, ht\<lparr>ht_mem := r1\<rparr>, s1)"
    "hash_inv (ht\<lparr>ht_mem := r1\<rparr>) (xs @ a # ys) chn" "entry r1 a = (k, v1)"
    "\<And>x. x \<noteq> a \<Longrightarrow> entry r1 x = entry (ht_mem ht) x" by blast
  let ?ht1 = "ht\<lparr>ht_mem := r1\<rparr>"
  have dist: "a \<notin> set xs" "a \<notin> set ys" using hash_inv_distinct [OF r1(2)] by auto
  have same: "map (entry r1) xs = map (entry (ht_mem ht)) xs" "map (entry r1) ys = map (entry (ht_mem ht)) ys"
    using dist r1(4) by (metis (no_types, lifting) map_cong)+
  let ?stop = "result AND ZEND_HASH_APPLY_STOP \<noteq> 0" and ?rem = "result AND ZEND_HASH_APPLY_REMOVE \<noteq> 0"
  obtain keep1 gone1 where kg: "(if ?stop then (map (entry (ht_mem ht)) ys, [], s1)
      else apply_entries func (map (entry (ht_mem ht)) ys) s1) = (keep1, gone1, s')"
    and res: "keep = (if ?rem then keep1 else (k, v1) # keep1)" "gone = (if ?rem then v1 # gone1 else gone1)"
    using Cons.prems(2) e f by (auto simp: Let_def split: prod.splits if_splits)
  obtain ht2 xs2 chn2 where s2: "(if ?rem then zend_hash_apply_deleter ?ht1 a
      else do { b \<leftarrow> cells (ht_mem ?ht1) a; Some (pListNext b, ?ht1) }) = Some (first_ptr ys None, ht2)"
    "hash_inv ht2 (xs2 @ ys) chn2" "map (entry (ht_mem ht2)) xs2 = map (entry (ht_mem ht)) xs @ (if ?rem then [] else [(k, v1)])"
    "map (entry (ht_mem ht2)) ys = map (entry (ht_mem ht)) ys" "config ht2 = config ht"
    "ht_dtor_log ht2 = ht_dtor_log ht @ (if pDestructor ht \<and> ?rem then [v1] else [])"
    "nNextFreeElement ht2 = nNextFreeElement ht" "\<exists>us. xs2 = xs @ us"
  proof (cases ?rem)
    case True
    from apply_deleter_spec [OF r1(2)] obtain ht2 where d: "zend_hash_apply_deleter ?ht1 a = Some (first_ptr ys None, ht2)"
      "removed ?ht1 xs a ys ht2" by blast
    from removed_step [OF d(2)] obtain chn2 where c: "hash_inv ht2 (xs @ ys) chn2"
      "\<And>x. x \<in> set (xs @ ys) \<Longrightarrow> entry (ht_mem ht2) x = entry r1 x" by auto
    have "map (entry (ht_mem ht2)) xs = map (entry (ht_mem ht)) xs" "map (entry (ht_mem ht2)) ys = map (entry (ht_mem ht)) ys"
      using c(2) same by (simp_all add: map_eq_conv)
    with d c(1) True r1(3) show thesis by (intro that [of ht2 xs chn2]) (simp_all add: removed_def config_def)
  next
    case False
    from hash_inv_live [OF r1(2) am] obtain b where b: "cells r1 a = Some b" by auto
    have "glinks r1 a = Some (first_ptr ys None, last_ptr None xs)"
      using dlist_at hash_invD(3) [OF r1(2)] by simp
    with b have "pListNext b = first_ptr ys None" by (simp add: view_def)
    with b False same r1(2,3) show thesis
      by (intro that [of ?ht1 "xs @ [a]" chn]) (simp_all add: config_def)
  qed
  have step: "hash_apply_loop (\<lambda>hk. func (hk_key hk)) ht (first_ptr (a # ys) None) s =
     (if ?stop then Some (ht2, s1) else hash_apply_loop (\<lambda>hk. func (hk_key hk)) ht2 (first_ptr ys None) s1)"
    by (subst hash_apply_loop.simps) (simp add: r1(1) s2(1))
  have ents: "map (entry (ht_mem ht2)) xs2 @ keep1 = map (entry (ht_mem ht)) xs @ keep"
    by (simp add: s2(3) res)
  have log: "ht_dtor_log ht2 @ (if pDestructor ht2 then gone1 else []) = ht_dtor_log ht @ (if pDestructor ht then gone else [])"
    using s2(5,6) by (simp add: res config_def)
  show ?case
  proof (cases ?stop)
    case True
    with kg s2(4) have "keep1 = map (entry (ht_mem ht2)) ys" "gone1 = []" "s' = s1" by simp_all
    with True s2 ents log obtain us where "xs2 = xs @ us" "represents ht2 (xs2 @ ys) (map (entry (ht_mem ht)) xs @ keep)"
      by (metis map_append representsI)
    with True step s2 log \<open>gone1 = []\<close> \<open>s' = s1\<close> show ?thesis by auto
  next
    case False
    with kg have "apply_entries func (map (entry (ht_mem ht2)) ys) s1 = (keep1, gone1, s')" by (simp only: s2(4) if_False)
    from Cons.IH [OF s2(2) this] obtain ht' zs where
      "hash_apply_loop (\<lambda>hk. func (hk_key hk)) ht2 (first_ptr ys None) s1 = Some (ht', s')"
      "represents ht' (xs2 @ zs) (map (entry (ht_mem ht2)) xs2 @ keep1)" "config ht' = config ht2"
      "ht_dtor_log ht' = ht_dtor_log ht2 @ (if pDestructor ht2 then gone1 else [])"
      "nNextFreeElement ht' = nNextFreeElement ht2" by blast
    with False step ents log s2(5,7,8) show ?thesis by auto
  qed
qed

lemma reverse_apply_loop_spec:
  "hash_inv ht (xs @ ys) chn \<Longrightarrow> apply_entries (\<lambda>_. func) (rev (map (entry (ht_mem ht)) xs)) s = (keep, gone, s') \<Longrightarrow>
   \<exists>ht' zs. reverse_apply_loop func ht (last_ptr None xs) s = Some (ht', s') \<and>
     represents ht' zs (rev keep @ map (entry (ht_mem ht)) ys) \<and> config ht' = config ht \<and>
     ht_dtor_log ht' = ht_dtor_log ht @ (if pDestructor ht then gone else []) \<and>
     nNextFreeElement ht' = nNextFreeElement ht"
proof (induction xs arbitrary: ht ys chn s keep gone s' rule: rev_induct)
  case Nil
  then show ?case by (subst reverse_apply_loop.simps) (auto simp: represents_def)
next
  case (snoc a xs)
  obtain k v where e: "entry (ht_mem ht) a = (k, v)" by fastforce
  obtain result v1 s1 where f: "func v s = (result, v1, s1)" by (metis prod_cases3)
  have inv: "hash_inv ht (xs @ a # ys) chn" using snoc.prems(1) by simp
  have am: "a \<in> set (xs @ a # ys)" by simp
  from call_on_spec [OF inv am e, of "\<lambda>_. func" s result v1 s1, OF f] obtain r1 where r1:
    "call_on (\<lambda>_. func) a ht s = Some (result, ht\<lparr>ht_mem := r1\<rparr>, s1)"
    "hash_inv (ht\<lparr>ht_mem := r1\<rparr>) (xs @ a # ys) chn" "entry r1 a = (k, v1)"
    "\<And>x. x \<noteq> a \<Longrightarrow> entry r1 x = entry (ht_mem ht) x" by blast
  let ?ht1 = "ht\<lparr>ht_mem := r1\<rparr>"
  have dist: "a \<notin> set xs" "a \<notin> set ys" using hash_inv_distinct [OF r1(2)] by auto
  have same: "map (entry r1) xs = map (entry (ht_mem ht)) xs" "map (entry r1) ys = map (entry (ht_mem ht)) ys"
    using dist r1(4) by (metis (no_types, lifting) map_cong)+
  let ?stop = "result AND ZEND_HASH_APPLY_STOP \<noteq> 0" and ?rem = "result AND ZEND_HASH_APPLY_REMOVE \<noteq> 0"
  obtain keep1 gone1 where kg: "(if ?stop then (rev (map (entry (ht_mem ht)) xs), [], s1)
      else apply_entries (\<lambda>_. func) (rev (map (entry (ht_mem ht)) xs)) s1) = (keep1, gone1, s')"
    and res: "keep = (if ?rem then keep1 else (k, v1) # keep1)" "gone = (if ?rem then v1 # gone1 else gone1)"
    using snoc.prems(2) e f by (auto simp: Let_def split: prod.splits if_splits)
  from hash_inv_live [OF r1(2) am] obtain b where b: "cells r1 a = Some b" by auto
  have "glinks r1 a = Some (first_ptr ys None, last_ptr None xs)"
    using dlist_at hash_invD(3) [OF r1(2)] by simp
  with b have last: "pListLast b = last_ptr None xs" by (simp add: view_def)
  obtain ht2 ys2 chn2 where s2: "(if ?rem then map_option snd (zend_hash_apply_deleter ?ht1 a) else Some ?ht1) = Some ht2"
    "hash_inv ht2 (xs @ ys2) chn2" "map (entry (ht_mem ht2)) ys2 = (if ?rem then [] else [(k, v1)]) @ map (entry (ht_mem ht)) ys"
    "map (entry (ht_mem ht2)) xs = map (entry (ht_mem ht)) xs" "config ht2 = config ht"
    "ht_dtor_log ht2 = ht_dtor_log ht @ (if pDestructor ht \<and> ?rem then [v1] else [])"
    "nNextFreeElement ht2 = nNextFreeElement ht" "\<exists>us. ys2 = us @ ys"
  proof (cases ?rem)
    case True
    from apply_deleter_spec [OF r1(2)] obtain ht2 where d: "zend_hash_apply_deleter ?ht1 a = Some (first_ptr ys None, ht2)"
      "removed ?ht1 xs a ys ht2" by blast
    from removed_step [OF d(2)] obtain chn2 where c: "hash_inv ht2 (xs @ ys) chn2"
      "\<And>x. x \<in> set (xs @ ys) \<Longrightarrow> entry (ht_mem ht2) x = entry r1 x" by auto
    have "map (entry (ht_mem ht2)) xs = map (entry (ht_mem ht)) xs" "map (entry (ht_mem ht2)) ys = map (entry (ht_mem ht)) ys"
      using c(2) same by (simp_all add: map_eq_conv)
    with d c(1) True r1(3) show thesis by (intro that [of ht2 ys chn2]) (simp_all add: removed_def config_def)
  next
    case False
    with same r1(2,3) show thesis by (intro that [of ?ht1 "a # ys" chn]) (simp_all add: config_def)
  qed
  have step: "reverse_apply_loop func ht (last_ptr None (xs @ [a])) s =
     (if ?stop then Some (ht2, s1) else reverse_apply_loop func ht2 (last_ptr None xs) s1)"
    using r1(1) s2(1) b last by (subst reverse_apply_loop.simps) (simp add: Let_def)
  have ents: "rev keep1 @ map (entry (ht_mem ht2)) ys2 = rev keep @ map (entry (ht_mem ht)) ys"
    by (simp add: s2(3) res)
  have log: "ht_dtor_log ht2 @ (if pDestructor ht2 then gone1 else []) = ht_dtor_log ht @ (if pDestructor ht then gone else [])"
    using s2(5,6) by (simp add: res config_def)
  obtain us where us: "ys2 = us @ ys" using s2(8) by blast
  show ?case
  proof (cases ?stop)
    case True
    with kg have k1: "keep1 = rev (map (entry (ht_mem ht)) xs)" "gone1 = []" "s' = s1" by simp_all
    then have "rev keep1 = map (entry (ht_mem ht2)) xs" by (simp only: s2(4) rev_rev_ident)
    then have "represents ht2 ((xs @ us) @ ys) (rev keep @ map (entry (ht_mem ht)) ys)"
      using s2(2) unfolding ents [symmetric] us by (auto intro: representsI)
    with True step s2(5,7) log \<open>gone1 = []\<close> \<open>s' = s1\<close> show ?thesis by auto
  next
    case False
    with kg have "apply_entries (\<lambda>_. func) (rev (map (entry (ht_mem ht2)) xs)) s1 = (keep1, gone1, s')"
      by (simp only: s2(4) if_False)
    from snoc.IH [OF s2(2) this] obtain ht' zs where
      "reverse_apply_loop func ht2 (last_ptr None xs) s1 = Some (ht', s')"
      "represents ht' zs (rev keep1 @ map (entry (ht_mem ht2)) ys2)" "config ht' = config ht2"
      "ht_dtor_log ht' = ht_dtor_log ht2 @ (if pDestructor ht2 then gone1 else [])"
      "nNextFreeElement ht' = nNextFreeElement ht2" by blast
    with False step ents log s2(5,7) show ?thesis by auto
  qed
qed

section \<open>Properties\<close>

lemma hash_inv_apply_count [simp]: "hash_inv (ht\<lparr>nApplyCount := x\<rparr>) ps chn = hash_inv ht ps chn"
  by (simp add: hash_inv_def)

lemma protect_inv:
  assumes "represents ht ps es" "hash_protect_recursion ht = Inr ht1"
  shows "\<exists>chn. hash_inv ht1 ps chn \<and> es = map (entry (ht_mem ht1)) ps" "pDestructor ht1 = pDestructor ht"
    "ht_dtor_log ht1 = ht_dtor_log ht" "nNextFreeElement ht1 = nNextFreeElement ht"
    "config ht2 = config ht1 \<Longrightarrow> config (hash_unprotect_recursion ht2) = config ht"
  using assms
  by (auto simp: hash_protect_recursion_def hash_unprotect_recursion_def config_def represents_def Let_def
           split: if_splits)

lemma unprotect_frame:
  "represents (hash_unprotect_recursion ht) ps es = represents ht ps es"
  "ht_dtor_log (hash_unprotect_recursion ht) = ht_dtor_log ht"
  "nNextFreeElement (hash_unprotect_recursion ht) = nNextFreeElement ht"
  by (simp_all add: hash_unprotect_recursion_def represents_def)

text \<open>When a walk is refused.\<close>

definition nested_too_deep :: "'v HashTable \<Rightarrow> bool" where
  "nested_too_deep ht \<longleftrightarrow> bApplyProtection ht \<and> 3 \<le> nApplyCount ht"

lemma protect_cases:
  "hash_protect_recursion ht =
     (if nested_too_deep ht then Inl (Nesting_level_too_deep (ht\<lparr>nApplyCount := nApplyCount ht + 1\<rparr>))
      else Inr (if bApplyProtection ht then ht\<lparr>nApplyCount := nApplyCount ht + 1\<rparr> else ht))"
  by (simp add: hash_protect_recursion_def nested_too_deep_def Let_def)

text \<open>
  C18: \<open>zend_hash_apply_with_arguments\<close> (of which \<open>zend_hash_apply\<close> and \<open>zend_hash_apply_with_argument\<close>
  are the cases without key) raises the fatal error when three walks of a protected table are
  active, before it calls the callback; otherwise it calls the callback on every entry in order up to
  the first that stops the walk, removes and destroys exactly the entries whose flags ask for it, and
  restores the nesting counter.
\<close>

theorem hash_apply_with_arguments_refines:
  assumes "represents ht ps es"
    "apply_entries (\<lambda>k v. func v args k) es s = (keep, gone, s')"
  shows "(if nested_too_deep ht
     then zend_hash_apply_with_arguments ht (\<lambda>v args hk. func v args (hk_key hk)) args s =
       Some (Inl (Nesting_level_too_deep (ht\<lparr>nApplyCount := nApplyCount ht + 1\<rparr>)))
     else \<exists>ht' ps'. zend_hash_apply_with_arguments ht (\<lambda>v args hk. func v args (hk_key hk)) args s = Some (Inr (ht', s')) \<and>
       represents ht' ps' keep \<and> config ht' = config ht \<and>
       ht_dtor_log ht' = ht_dtor_log ht @ (if pDestructor ht then gone else []))"
proof (cases "nested_too_deep ht")
  case False
  then obtain ht1 where p: "hash_protect_recursion ht = Inr ht1" by (simp add: protect_cases)
  note pi = protect_inv [OF assms(1) p]
  from pi(1) obtain chn where inv: "hash_inv ht1 ([] @ ps) chn" and es: "es = map (entry (ht_mem ht1)) ps" by auto
  have h: "pListHead ht1 = first_ptr ps None" using hash_invD(3) [OF inv] by (simp add: dlist_def)
  from hash_apply_loop_spec [OF inv, of "\<lambda>k v. func v args k" s keep gone s'] assms(2) obtain ht2 zs where
    "hash_apply_loop (\<lambda>hk v. func v args (hk_key hk)) ht1 (pListHead ht1) s = Some (ht2, s')"
    "represents ht2 zs keep" "config ht2 = config ht1"
    "ht_dtor_log ht2 = ht_dtor_log ht1 @ (if pDestructor ht1 then gone else [])" by (auto simp: es h)
  with False p pi show ?thesis
    by (auto simp: zend_hash_apply_with_arguments_def unprotect_frame)
qed (simp add: zend_hash_apply_with_arguments_def protect_cases)

theorem hash_apply_with_arguments_refines_witness:
  "\<exists>ht' ps. zend_hash_apply_with_arguments (hash_of [(StrKey [104], 7 :: int), (IdxKey 3, 8)])
       (\<lambda>v args hk s. (if hk_key hk = IdxKey 3 then 1 else 0, v + hd args, s + v)) [10] 0 = Some (Inr (ht', 15)) \<and>
     represents ht' ps [(StrKey [104], 17)]"
proof -
  obtain ps where r: "represents (hash_of [(StrKey [104], 7 :: int), (IdxKey 3, 8)]) ps [(StrKey [104], 7), (IdxKey 3, 8)]"
    and c: "nApplyCount (hash_of [(StrKey [104], 7 :: int), (IdxKey 3, 8)]) = 0"
    using hash_of_represents [of "[(StrKey [104], 7 :: int), (IdxKey 3, 8)]"] by auto
  have n: "\<not> nested_too_deep (hash_of [(StrKey [104], 7 :: int), (IdxKey 3, 8)])" by (simp add: nested_too_deep_def c)
  have "apply_entries (\<lambda>k v. (\<lambda>v args k s. (if k = IdxKey 3 then 1 else 0, v + hd args, s + v)) v [10] k)
      [(StrKey [104], 7 :: int), (IdxKey 3, 8)] 0 = ([(StrKey [104], 17)], [18], 15)"
    by (simp add: ZEND_HASH_APPLY_STOP_def ZEND_HASH_APPLY_REMOVE_def)
  from hash_apply_with_arguments_refines [OF r, of "\<lambda>v args k s. (if k = IdxKey 3 then 1 else 0, v + hd args, s + v)", OF this] n
  show ?thesis by auto
qed

lemma apply_arg_spec:
  assumes "represents ht ps es" "\<not> nested_too_deep ht" "apply_entries (\<lambda>_ v. func v arg) es s = (keep, gone, s')"
  shows "\<exists>ht' ps'. zend_hash_apply_with_argument ht func arg s = Some (Inr (ht', s')) \<and>
       zend_hash_apply ht (\<lambda>v. func v arg) s = Some (Inr (ht', s')) \<and>
       represents ht' ps' keep \<and> config ht' = config ht \<and> nNextFreeElement ht' = nNextFreeElement ht \<and>
       ht_dtor_log ht' = ht_dtor_log ht @ (if pDestructor ht then gone else [])"
proof -
  obtain ht1 where p: "hash_protect_recursion ht = Inr ht1" using assms(2) by (simp add: protect_cases)
  note pi = protect_inv [OF assms(1) p]
  from pi(1) obtain chn where inv: "hash_inv ht1 ([] @ ps) chn" and es: "es = map (entry (ht_mem ht1)) ps" by auto
  have h: "pListHead ht1 = first_ptr ps None" using hash_invD(3) [OF inv] by (simp add: dlist_def)
  from hash_apply_loop_spec [OF inv, of "\<lambda>_ v. func v arg" s keep gone s'] assms(3) obtain ht2 zs where
    "hash_apply_loop (\<lambda>hk v. func v arg) ht1 (pListHead ht1) s = Some (ht2, s')"
    "represents ht2 zs keep" "config ht2 = config ht1" "nNextFreeElement ht2 = nNextFreeElement ht1"
    "ht_dtor_log ht2 = ht_dtor_log ht1 @ (if pDestructor ht1 then gone else [])" by (auto simp: es h)
  with p pi show ?thesis
    by (auto simp: zend_hash_apply_def zend_hash_apply_with_argument_def unprotect_frame)
qed

text \<open>
  \<open>zend_hash_apply\<close> and \<open>zend_hash_apply_with_argument\<close> do the same without the key, and
  \<open>zend_hash_reverse_apply\<close> walks the entries from the last to the first, keeping their order.
\<close>

theorem hash_apply_and_reverse:
  assumes "represents ht ps es" "\<not> nested_too_deep ht"
    "apply_entries (\<lambda>_ v. func v arg) es s = (keep, gone, s')"
    "apply_entries (\<lambda>_ v. func v arg) (rev es) s = (keep_r, gone_r, s_r)"
  shows "(\<exists>ht' ps'. zend_hash_apply_with_argument ht func arg s = Some (Inr (ht', s')) \<and>
       zend_hash_apply ht (\<lambda>v. func v arg) s = Some (Inr (ht', s')) \<and>
       represents ht' ps' keep \<and> config ht' = config ht \<and>
       ht_dtor_log ht' = ht_dtor_log ht @ (if pDestructor ht then gone else [])) \<and>
    (\<exists>ht' ps'. zend_hash_reverse_apply ht (\<lambda>v. func v arg) s = Some (Inr (ht', s_r)) \<and>
       represents ht' ps' (rev keep_r) \<and> config ht' = config ht \<and>
       ht_dtor_log ht' = ht_dtor_log ht @ (if pDestructor ht then gone_r else []))"
proof
  obtain ht1 where p: "hash_protect_recursion ht = Inr ht1" using assms(2) by (simp add: protect_cases)
  note pi = protect_inv [OF assms(1) p]
  from pi(1) obtain chn where inv: "hash_inv ht1 ([] @ ps) chn" and es: "es = map (entry (ht_mem ht1)) ps" by auto
  have h: "pListHead ht1 = first_ptr ps None" "pListTail ht1 = last_ptr None ps"
    using hash_invD(3) [OF inv] by (simp_all add: dlist_def)
  from apply_arg_spec [of ht ps es func arg, OF assms(1-3)] show "\<exists>ht' ps'. zend_hash_apply_with_argument ht func arg s = Some (Inr (ht', s')) \<and>
       zend_hash_apply ht (\<lambda>v. func v arg) s = Some (Inr (ht', s')) \<and>
       represents ht' ps' keep \<and> config ht' = config ht \<and>
       ht_dtor_log ht' = ht_dtor_log ht @ (if pDestructor ht then gone else [])" by blast
  have inv': "hash_inv ht1 (ps @ []) chn" using inv by simp
  from reverse_apply_loop_spec [OF inv', of "\<lambda>v. func v arg" s keep_r gone_r s_r] assms(4) obtain ht2 zs where
    "reverse_apply_loop (\<lambda>v. func v arg) ht1 (pListTail ht1) s = Some (ht2, s_r)"
    "represents ht2 zs (rev keep_r)" "config ht2 = config ht1"
    "ht_dtor_log ht2 = ht_dtor_log ht1 @ (if pDestructor ht1 then gone_r else [])" by (auto simp: es h)
  with p pi show "\<exists>ht' ps'. zend_hash_reverse_apply ht (\<lambda>v. func v arg) s = Some (Inr (ht', s_r)) \<and>
       represents ht' ps' (rev keep_r) \<and> config ht' = config ht \<and>
       ht_dtor_log ht' = ht_dtor_log ht @ (if pDestructor ht then gone_r else [])"
    by (auto simp: zend_hash_reverse_apply_def unprotect_frame)
qed

theorem hash_apply_and_reverse_witness:
  "\<exists>ht' ps. zend_hash_reverse_apply (hash_of [(StrKey [104], 7 :: int), (IdxKey 3, 8)])
       (\<lambda>v s. (3, v, s @ [v])) [] = Some (Inr (ht', [8])) \<and> represents ht' ps [(StrKey [104], 7)]"
proof -
  obtain ps where r: "represents (hash_of [(StrKey [104], 7 :: int), (IdxKey 3, 8)]) ps [(StrKey [104], 7), (IdxKey 3, 8)]"
    and c: "nApplyCount (hash_of [(StrKey [104], 7 :: int), (IdxKey 3, 8)]) = 0"
    using hash_of_represents [of "[(StrKey [104], 7 :: int), (IdxKey 3, 8)]"] by auto
  have n: "\<not> nested_too_deep (hash_of [(StrKey [104], 7 :: int), (IdxKey 3, 8)])" by (simp add: nested_too_deep_def c)
  have w: "apply_entries (\<lambda>_ v. (\<lambda>v (_ :: nat) s. (3, v, s @ [v])) v 0) [(StrKey [104], 7 :: int), (IdxKey 3, 8)] [] =
      ([(IdxKey 3, 8)], [7], [7])"
    "apply_entries (\<lambda>_ v. (\<lambda>v (_ :: nat) s. (3, v, s @ [v])) v 0) (rev [(StrKey [104], 7 :: int), (IdxKey 3, 8)]) [] =
      ([(StrKey [104], 7)], [8], [8])"
    by (simp_all add: ZEND_HASH_APPLY_STOP_def ZEND_HASH_APPLY_REMOVE_def)
  from hash_apply_and_reverse [OF r n, of "\<lambda>v (_ :: nat) s. (3, v, s @ [v])" 0, OF w] show ?thesis by auto
qed

end
