(* ===== verification/ZendHashTraverse.thy ===== *)
theory ZendHashTraverse imports ZendHashApply begin

text \<open>
  Walking and reading a hash table of \<open>Zend/zend_hash.c\<close>: the internal pointer and external
  positions, the key and the data at a position, saved positions (\<open>HashPointer\<close>), the minimum and
  maximum, and the comparison of two tables.

  A position argument is an optional pointer variable: \<open>None\<close> is the null argument, for which the
  functions use the internal pointer of the table. Operations return the table and the position as
  they leave them.
\<close>

section \<open>Operations\<close>

definition current_pos :: "'v HashTable \<Rightarrow> ptr option \<Rightarrow> ptr" where
  "current_pos ht pos = (case pos of Some p \<Rightarrow> p | None \<Rightarrow> pInternalPointer ht)"

definition store_pos :: "ptr \<Rightarrow> 'v HashTable \<Rightarrow> ptr option \<Rightarrow> 'v HashTable \<times> ptr option" where
  "store_pos p ht pos = (case pos of Some _ \<Rightarrow> (ht, Some p) | None \<Rightarrow> (ht\<lparr>pInternalPointer := p\<rparr>, None))"

definition zend_hash_internal_pointer_reset_ex :: "'v HashTable \<Rightarrow> ptr option \<Rightarrow> 'v HashTable \<times> ptr option" where
  "zend_hash_internal_pointer_reset_ex ht pos = store_pos (pListHead ht) ht pos"

definition zend_hash_internal_pointer_end_ex :: "'v HashTable \<Rightarrow> ptr option \<Rightarrow> 'v HashTable \<times> ptr option" where
  "zend_hash_internal_pointer_end_ex ht pos = store_pos (pListTail ht) ht pos"

definition zend_hash_move_forward_ex ::
  "'v HashTable \<Rightarrow> ptr option \<Rightarrow> (zend_result \<times> 'v HashTable \<times> ptr option) option" where
  "zend_hash_move_forward_ex ht pos = (case current_pos ht pos of
       Some a \<Rightarrow> do { b \<leftarrow> cells (ht_mem ht) a; Some (SUCCESS, store_pos (pListNext b) ht pos) }
     | None \<Rightarrow> Some (FAILURE, ht, pos))"

definition zend_hash_move_backwards_ex ::
  "'v HashTable \<Rightarrow> ptr option \<Rightarrow> (zend_result \<times> 'v HashTable \<times> ptr option) option" where
  "zend_hash_move_backwards_ex ht pos = (case current_pos ht pos of
       Some a \<Rightarrow> do { b \<leftarrow> cells (ht_mem ht) a; Some (SUCCESS, store_pos (pListLast b) ht pos) }
     | None \<Rightarrow> Some (FAILURE, ht, pos))"

text \<open>
  The three results of the key functions; the string is the bytes \<open>str_index\<close> points at and its
  \<open>str_length\<close>.
\<close>

datatype current_key = HASH_KEY_IS_STRING "u8 list" u32 | HASH_KEY_IS_LONG u64 | HASH_KEY_NON_EXISTANT

text \<open>\<open>estrndup(s, length)\<close> copies \<open>length\<close> bytes and adds a terminating null byte.\<close>

definition estrndup :: "u8 list \<Rightarrow> nat \<Rightarrow> u8 list option" where
  "estrndup s n = (if n \<le> length s then Some (take n s @ [0]) else None)"

definition zend_hash_get_current_key_ex :: "'v HashTable \<Rightarrow> bool \<Rightarrow> ptr option \<Rightarrow> current_key option" where
  "zend_hash_get_current_key_ex ht duplicate pos = (case current_pos ht pos of
       Some a \<Rightarrow> do {
         b \<leftarrow> cells (ht_mem ht) a;
         if nKeyLength b \<noteq> 0 then
           if duplicate then do { s \<leftarrow> estrndup (arKey b) (unat (nKeyLength b - 1)); Some (HASH_KEY_IS_STRING s (nKeyLength b)) }
           else Some (HASH_KEY_IS_STRING (arKey b) (nKeyLength b))
         else Some (HASH_KEY_IS_LONG (b_h b))
       }
     | None \<Rightarrow> Some HASH_KEY_NON_EXISTANT)"

text \<open>The type alone: 1, 2 or 3.\<close>

definition zend_hash_get_current_key_type_ex :: "'v HashTable \<Rightarrow> ptr option \<Rightarrow> int option" where
  "zend_hash_get_current_key_type_ex ht pos = (case current_pos ht pos of
       Some a \<Rightarrow> do { b \<leftarrow> cells (ht_mem ht) a; Some (if nKeyLength b \<noteq> 0 then 1 else 2) }
     | None \<Rightarrow> Some 3)"

definition zend_hash_get_current_data_ex :: "'v HashTable \<Rightarrow> ptr option \<Rightarrow> zend_result \<times> ptr" where
  "zend_hash_get_current_data_ex ht pos = (case current_pos ht pos of
       Some a \<Rightarrow> (SUCCESS, Some a) | None \<Rightarrow> (FAILURE, None))"

record HashPointer =
  hp_pos :: ptr
  hp_h :: u64

definition zend_hash_get_pointer :: "'v HashTable \<Rightarrow> (bool \<times> HashPointer) option" where
  "zend_hash_get_pointer ht = (case pInternalPointer ht of
       Some a \<Rightarrow> do { b \<leftarrow> cells (ht_mem ht) a; Some (True, \<lparr>hp_pos = Some a, hp_h = b_h b\<rparr>) }
     | None \<Rightarrow> Some (False, \<lparr>hp_pos = None, hp_h = 0\<rparr>))"

partial_function (option) chain_has :: "addr \<Rightarrow> 'v bucket region \<Rightarrow> ptr \<Rightarrow> bool option" where
  "chain_has target r p =
     (case p of None \<Rightarrow> Some False
      | Some a \<Rightarrow> if a = target then Some True else do { b \<leftarrow> cells r a; chain_has target r (pNext b) })"

declare chain_has.simps [code]

definition zend_hash_set_pointer :: "'v HashTable \<Rightarrow> HashPointer \<Rightarrow> (bool \<times> 'v HashTable) option" where
  "zend_hash_set_pointer ht hp = (case hp_pos hp of
       None \<Rightarrow> Some (True, ht\<lparr>pInternalPointer := None\<rparr>)
     | Some a \<Rightarrow>
         if pInternalPointer ht \<noteq> Some a then do {
           head \<leftarrow> bucket_head ht (slot (nTableMask ht) (hp_h hp));
           found \<leftarrow> chain_has a (ht_mem ht) head;
           if found then Some (True, ht\<lparr>pInternalPointer := Some a\<rparr>) else Some (False, ht)
         } else Some (True, ht))"

partial_function (option) minmax_loop ::
  "('v bucket \<Rightarrow> 'v bucket \<Rightarrow> int) \<Rightarrow> bool \<Rightarrow> 'v bucket region \<Rightarrow> addr \<Rightarrow> addr \<Rightarrow> addr option" where
  "minmax_loop compar flag r res p = do {
     b \<leftarrow> cells r p;
     (case pListNext b of None \<Rightarrow> Some res
      | Some q \<Rightarrow> do {
          br \<leftarrow> cells r res;
          bq \<leftarrow> cells r q;
          minmax_loop compar flag r
            (if flag then (if compar br bq < 0 then q else res) else (if compar br bq > 0 then q else res)) q
        })
   }"

declare minmax_loop.simps [code]

definition zend_hash_minmax :: "'v HashTable \<Rightarrow> ('v bucket \<Rightarrow> 'v bucket \<Rightarrow> int) \<Rightarrow> bool \<Rightarrow> (zend_result \<times> ptr) option" where
  "zend_hash_minmax ht compar flag =
     (if nNumOfElements ht = 0 then Some (FAILURE, None)
      else do {
        p \<leftarrow> pListHead ht;
        res \<leftarrow> minmax_loop compar flag (ht_mem ht) p p;
        Some (SUCCESS, Some res)
      })"

text \<open>
  The comparison of two different tables. \<open>result\<close> is an \<open>int\<close>: the differences of the unsigned
  counts, key lengths and hashes are truncated to 32 bits and read as signed numbers.
\<close>

definition int_of_uint :: "u32 \<Rightarrow> int" where "int_of_uint x = sint x"
definition int_of_ulong :: "u64 \<Rightarrow> int" where "int_of_ulong x = sint (ucast x :: u32)"

text \<open>The key comparison of the ordered case.\<close>

definition compare_keys :: "'v bucket \<Rightarrow> 'v bucket \<Rightarrow> int option" where
  "compare_keys b1 b2 =
     (if nKeyLength b1 = 0 \<and> nKeyLength b2 = 0 then Some (int_of_ulong (b_h b1 - b_h b2))
      else (let result = int_of_uint (nKeyLength b1 - nKeyLength b2) in
            if result \<noteq> 0 then Some result else memcmp (arKey b1) (arKey b2) (unat (nKeyLength b1))))"

partial_function (option) compare_loop ::
  "('v \<Rightarrow> 'v \<Rightarrow> int) \<Rightarrow> bool \<Rightarrow> 'v HashTable \<Rightarrow> 'v HashTable \<Rightarrow> ptr \<Rightarrow> ptr \<Rightarrow> int option" where
  "compare_loop compar ordered ht1 ht2 p1 p2 =
     (case p1 of None \<Rightarrow> Some 0
      | Some a1 \<Rightarrow> do {
          b1 \<leftarrow> cells (ht_mem ht1) a1;
          (result, pData2) \<leftarrow>
            (if ordered then
               (case p2 of None \<Rightarrow> Some (1, None)
                | Some a2 \<Rightarrow> do { b2 \<leftarrow> cells (ht_mem ht2) a2; r \<leftarrow> compare_keys b1 b2; Some (r, Some a2) })
             else do {
               (found, d) \<leftarrow> (if nKeyLength b1 = 0 then zend_hash_index_find ht2 (b_h b1)
                              else zend_hash_quick_find ht2 (arKey b1) (nKeyLength b1) (b_h b1));
               Some (if found = FAILURE then 1 else 0, d)
             });
          if result \<noteq> 0 then Some result
          else do {
            a2 \<leftarrow> pData2;
            v1 \<leftarrow> bucket_data b1;
            v2 \<leftarrow> data_at ht2 a2;
            let result = compar v1 v2;
            if result \<noteq> 0 then Some result
            else do {
              p2 \<leftarrow> (if ordered then do { b2 \<leftarrow> cells (ht_mem ht2) a2; Some (pListNext b2) } else Some None);
              compare_loop compar ordered ht1 ht2 (pListNext b1) p2
            }
          }
        })"

declare compare_loop.simps [code]

definition zend_hash_compare ::
  "'v HashTable \<Rightarrow> 'v HashTable \<Rightarrow> ('v \<Rightarrow> 'v \<Rightarrow> int) \<Rightarrow> bool \<Rightarrow>
     ('v fatal_error + int \<times> 'v HashTable \<times> 'v HashTable) option" where
  "zend_hash_compare ht1 ht2 compar ordered = (case hash_protect_recursion ht1 of
       Inl e \<Rightarrow> Some (Inl e)
     | Inr ht1 \<Rightarrow> (case hash_protect_recursion ht2 of
         Inl e \<Rightarrow> Some (Inl e)
       | Inr ht2 \<Rightarrow> do {
           let result = int_of_uint (nNumOfElements ht1 - nNumOfElements ht2);
           result \<leftarrow> (if result \<noteq> 0 then Some result
                     else compare_loop compar ordered ht1 ht2 (pListHead ht1) (if ordered then pListHead ht2 else None));
           Some (Inr (result, hash_unprotect_recursion ht1, hash_unprotect_recursion ht2))
         }))"

section \<open>Positions\<close>

lemma represents_inv: "represents ht ps es \<Longrightarrow> \<exists>chn. hash_inv ht ps chn \<and> es = map (entry (ht_mem ht)) ps"
  by (auto simp: represents_def)

lemma position_links:
  assumes rep: "represents ht ps es" and i: "i < length ps"
  obtains b where "cells (ht_mem ht) (ps ! i) = Some b" "bucket_ok b" "bkey b = fst (es ! i)"
    "bucket_data b = Some (snd (es ! i))"
    "pListNext b = (if Suc i < length ps then Some (ps ! Suc i) else None)"
    "pListLast b = (if i = 0 then None else Some (ps ! (i - 1)))"
proof -
  obtain b where b: "cells (ht_mem ht) (ps ! i) = Some b" "bucket_ok b" "bkey b = fst (es ! i)"
    "bucket_data b = Some (snd (es ! i))" using represents_at [OF rep i] by blast
  from represents_inv [OF rep] obtain chn where inv: "hash_inv ht ps chn" by blast
  have "dlist (glinks (ht_mem ht)) (pListHead ht) (pListTail ht) (take i ps @ ps ! i # drop (Suc i) ps)"
    using hash_invD(3) [OF inv] by (simp add: id_take_nth_drop [OF i, symmetric])
  from dlist_at [OF this] b have "pListNext b = first_ptr (drop (Suc i) ps) None" "pListLast b = last_ptr None (take i ps)"
    by (auto simp: view_def)
  moreover have "first_ptr (drop (Suc i) ps) None = (if Suc i < length ps then Some (ps ! Suc i) else None)"
    by (simp add: first_ptr_def Cons_nth_drop_Suc [symmetric] split: list.split)
  moreover have "last_ptr None (take i ps) = (if i = 0 then None else Some (ps ! (i - 1)))"
    using i by (auto simp: last_ptr_def last_conv_nth)
  ultimately show thesis using that b by simp
qed

lemma represents_ends:
  assumes "represents ht ps es"
  shows "pListHead ht = first_ptr ps None" "pListTail ht = last_ptr None ps"
  using assms by (auto simp: represents_def hash_inv_def dlist_def)

lemma represents_pointer:
  "represents ht ps es \<Longrightarrow> p = None \<or> p \<in> Some ` set ps \<Longrightarrow> represents (ht\<lparr>pInternalPointer := p\<rparr>) ps es"
  by (auto simp: represents_def hash_inv_def)

lemma chain_has_spec:
  "dseg (clinks r) l xs None \<Longrightarrow> chain_has a r (first_ptr xs None) = Some (a \<in> set xs)"
proof (induction xs arbitrary: l)
  case Nil
  show ?case by (subst chain_has.simps) simp
next
  case (Cons x xs)
  then obtain b where "cells r x = Some b" "pNext b = first_ptr xs None" by (auto simp: view_Some_iff)
  with Cons show ?case by (subst chain_has.simps) auto
qed

section \<open>Minimum and maximum\<close>

definition minmax_step :: "('v bucket \<Rightarrow> 'v bucket \<Rightarrow> int) \<Rightarrow> bool \<Rightarrow> 'v bucket region \<Rightarrow> addr \<Rightarrow> addr \<Rightarrow> addr" where
  "minmax_step compar flag r res q =
     (let c = compar (the (cells r res)) (the (cells r q)) in
      if flag then (if c < 0 then q else res) else (if c > 0 then q else res))"

lemma minmax_loop_spec:
  "dseg (glinks r) l (a # rest) None \<Longrightarrow> cells r res \<noteq> None \<Longrightarrow>
     minmax_loop compar flag r res a = Some (foldl (minmax_step compar flag r) res rest)"
proof (induction rest arbitrary: a l res)
  case Nil
  then obtain b where "cells r a = Some b" "pListNext b = None" by (auto simp: view_Some_iff)
  then show ?case by (subst minmax_loop.simps) simp
next
  case (Cons q rest)
  then obtain b bq br where b: "cells r a = Some b" "pListNext b = Some q" "cells r q = Some bq" "cells r res = Some br"
    by (auto simp: view_Some_iff)
  have live: "cells r (minmax_step compar flag r res q) \<noteq> None"
    using b(3,4) by (simp add: minmax_step_def Let_def)
  have seg: "dseg (glinks r) (Some a) (q # rest) None" using Cons.prems(1) by simp
  note Cons.IH [OF seg live]
  moreover have "minmax_step compar flag r res q =
      (if flag then (if compar br bq < 0 then q else res) else (if compar br bq > 0 then q else res))"
    using b by (simp add: minmax_step_def Let_def)
  ultimately show ?case using b by (subst minmax_loop.simps) simp
qed

lemma foldl_minmax:
  assumes pre: "preorder_compare compar" and sym: "\<And>u v. compar u v < 0 \<longleftrightarrow> compar v u > 0"
  shows "foldl (minmax_step compar flag r) res xs \<in> insert res (set xs) \<and>
    (\<forall>x\<in>insert res (set xs). let m = the (cells r (foldl (minmax_step compar flag r) res xs)); b = the (cells r x)
       in if flag then below compar b m else below compar m b)"
proof (induction xs arbitrary: res)
  case Nil
  have "below compar u u" for u using pre unfolding preorder_compare_def asym_compare_def below_def by blast
  then show ?case by (simp add: Let_def)
next
  case (Cons q xs)
  let ?s = "minmax_step compar flag r res q"
  let ?m = "the (cells r (foldl (minmax_step compar flag r) ?s xs))"
  have s: "?s \<in> {res, q}" by (simp add: minmax_step_def Let_def)
  have dir: "if flag then below compar (the (cells r x)) (the (cells r ?s)) else below compar (the (cells r ?s)) (the (cells r x))"
    if "x \<in> {res, q}" for x
  proof -
    have asym: "compar u v > 0 \<Longrightarrow> \<not> compar v u > 0" for u v
      using pre unfolding preorder_compare_def asym_compare_def by blast
    let ?r = "the (cells r res)" and ?q = "the (cells r q)"
    show ?thesis using that sym [of ?r ?q] asym [of ?r ?q] asym [of ?q ?r] asym [of ?r ?r] asym [of ?q ?q]
      by (cases flag) (auto simp: minmax_step_def Let_def below_def)
  qed
  have trans: "below compar u v \<Longrightarrow> below compar v w \<Longrightarrow> below compar u w" for u v w
    using pre unfolding preorder_compare_def by blast
  from Cons.IH [of ?s] have ih: "foldl (minmax_step compar flag r) ?s xs \<in> insert ?s (set xs)"
    "\<And>x. x \<in> insert ?s (set xs) \<Longrightarrow> if flag then below compar (the (cells r x)) ?m else below compar ?m (the (cells r x))"
    using Cons.IH [of ?s, unfolded Let_def] by blast+
  have new: "if flag then below compar (the (cells r x)) ?m else below compar ?m (the (cells r x))"
    if "x \<in> {res, q}" for x
    using dir [OF that] ih(2) [of ?s] trans by (cases flag) auto
  have "foldl (minmax_step compar flag r) ?s xs \<in> insert res (set (q # xs))" using ih(1) s by auto
  moreover have "\<forall>x\<in>insert res (set (q # xs)). if flag then below compar (the (cells r x)) ?m else below compar ?m (the (cells r x))"
  proof
    fix x assume "x \<in> insert res (set (q # xs))"
    then consider "x \<in> {res, q}" | "x \<in> insert ?s (set xs)" by auto
    then show "if flag then below compar (the (cells r x)) ?m else below compar ?m (the (cells r x))"
      using new ih(2) by cases
  qed
  ultimately show ?case unfolding foldl.simps(2) Let_def by (rule conjI)
qed

section \<open>Comparison\<close>

lemma memcmp_eq_0: "memcmp xs ys n = Some 0 \<Longrightarrow> take n xs = take n ys"
  by (induction xs ys n rule: memcmp.induct) (auto split: if_splits simp: word_uint_eq_iff)

text \<open>Two keys the ordered comparison takes for equal.\<close>

fun same_key :: "hkey \<Rightarrow> hkey \<Rightarrow> bool" where
  "same_key (IdxKey g) (IdxKey h) = (ucast g = (ucast h :: u32))"
| "same_key (StrKey s) (StrKey t) = (s = t)"
| "same_key _ _ = False"

lemma int_of_ulong_0: "int_of_ulong (g - h) = 0 \<longleftrightarrow> ucast g = (ucast h :: u32)"
proof -
  have "int_of_ulong (g - h) = 0 \<longleftrightarrow> (ucast (g - h) :: u32) = 0" by (simp add: int_of_ulong_def signed_eq_0_iff)
  also have "(ucast (g - h) :: u32) = ucast g - ucast h"
  proof -
    have "g - h = word_of_int (uint g - uint h)" by (simp flip: wi_hom_sub)
    moreover have "is_down (ucast :: u64 \<Rightarrow> u32)" by (simp add: is_down)
    ultimately have "(ucast (g - h) :: u32) = word_of_int (uint g - uint h)" by (simp only: ucast_down_wi)
    then show ?thesis by (simp only: ucast_eq wi_hom_sub)
  qed
  finally show ?thesis by simp
qed

lemma compare_keys_spec:
  assumes "bucket_ok b1" "bucket_ok b2"
  shows "\<exists>d. compare_keys b1 b2 = Some d \<and> (d = 0 \<longleftrightarrow> same_key (bkey b1) (bkey b2))"
proof (cases "nKeyLength b1 = 0 \<and> nKeyLength b2 = 0")
  case True
  then show ?thesis by (simp add: compare_keys_def bkey_def int_of_ulong_0)
next
  case nz: False
  have d0: "int_of_uint (nKeyLength b1 - nKeyLength b2) = 0 \<longleftrightarrow> nKeyLength b1 = nKeyLength b2"
    by (simp add: int_of_uint_def signed_eq_0_iff)
  show ?thesis
  proof (cases "nKeyLength b1 = nKeyLength b2")
    case True
    with nz assms have "length (arKey b1) = unat (nKeyLength b1)" "length (arKey b2) = unat (nKeyLength b1)"
      by (auto simp: bucket_ok_def)
    with memcmp_total [of "unat (nKeyLength b1)" "arKey b1" "arKey b2"] nz True d0 show ?thesis
      by (auto simp: compare_keys_def bkey_def Let_def)
  next
    case False
    with assms have "\<not> same_key (bkey b1) (bkey b2)"
      by (auto simp: bkey_def bucket_ok_def word_unat_eq_iff)
    with False nz d0 show ?thesis by (auto simp: compare_keys_def Let_def)
  qed
qed

fun ordered_equal :: "('v \<Rightarrow> 'v \<Rightarrow> int) \<Rightarrow> (hkey \<times> 'v) list \<Rightarrow> (hkey \<times> 'v) list \<Rightarrow> bool" where
  "ordered_equal compar [] es2 = True"
| "ordered_equal compar (e1 # es1) [] = False"
| "ordered_equal compar (e1 # es1) (e2 # es2) =
     (same_key (fst e1) (fst e2) \<and> compar (snd e1) (snd e2) = 0 \<and> ordered_equal compar es1 es2)"

definition live_ok :: "'v bucket region \<Rightarrow> addr list \<Rightarrow> bool" where
  "live_ok r xs \<longleftrightarrow> (\<forall>a\<in>set xs. \<exists>b. cells r a = Some b \<and> bucket_ok b)"

lemma live_ok_Cons:
  assumes "live_ok r (x # xs)" "dseg (glinks r) l (x # xs) None"
  obtains b v where "cells r x = Some b" "bucket_ok b" "pListNext b = first_ptr xs None" "bucket_data b = Some v"
    "entry r x = (bkey b, v)" "live_ok r xs" "dseg (glinks r) (Some x) xs None"
proof -
  from assms obtain b where b: "cells r x = Some b" "bucket_ok b" "pListNext b = first_ptr xs None"
    by (auto simp: live_ok_def view_Some_iff)
  from bucket_ok_data [OF b(2)] obtain v where v: "bucket_data b = Some v" by blast
  show thesis by (rule that [OF b v entry_eq [OF b(1) v]]) (use assms in \<open>auto simp: live_ok_def\<close>)
qed

lemma compare_ordered_spec:
  "live_ok (ht_mem ht1) xs \<Longrightarrow> dseg (glinks (ht_mem ht1)) l1 xs None \<Longrightarrow>
   live_ok (ht_mem ht2) ys \<Longrightarrow> dseg (glinks (ht_mem ht2)) l2 ys None \<Longrightarrow>
   \<exists>d. compare_loop compar True ht1 ht2 (first_ptr xs None) (first_ptr ys None) = Some d \<and>
     (d = 0 \<longleftrightarrow> ordered_equal compar (map (entry (ht_mem ht1)) xs) (map (entry (ht_mem ht2)) ys))"
proof (induction xs arbitrary: ys l1 l2)
  case Nil
  show ?case by (subst compare_loop.simps) simp
next
  case (Cons x xs)
  from live_ok_Cons [OF Cons.prems(1,2)] obtain b v where b: "cells (ht_mem ht1) x = Some b" "bucket_ok b"
    "pListNext b = first_ptr xs None" "bucket_data b = Some v" "entry (ht_mem ht1) x = (bkey b, v)"
    "live_ok (ht_mem ht1) xs" "dseg (glinks (ht_mem ht1)) (Some x) xs None" by metis
  show ?case
  proof (cases ys)
    case Nil
    with b show ?thesis by (subst compare_loop.simps) simp
  next
    case (Cons y zs)
    from live_ok_Cons [OF Cons.prems(3,4) [unfolded Cons]] obtain c w where c: "cells (ht_mem ht2) y = Some c" "bucket_ok c"
      "pListNext c = first_ptr zs None" "bucket_data c = Some w" "entry (ht_mem ht2) y = (bkey c, w)"
      "live_ok (ht_mem ht2) zs" "dseg (glinks (ht_mem ht2)) (Some y) zs None" by metis
    from compare_keys_spec [OF b(2) c(2)] obtain d where d: "compare_keys b c = Some d"
      "d = 0 \<longleftrightarrow> same_key (bkey b) (bkey c)" by blast
    have w: "data_at ht2 y = Some w" using c by (simp add: data_at_def)
    from Cons.IH [OF b(6,7) c(6,7)] obtain d' where
      "compare_loop compar True ht1 ht2 (first_ptr xs None) (first_ptr zs None) = Some d'"
      "d' = 0 \<longleftrightarrow> ordered_equal compar (map (entry (ht_mem ht1)) xs) (map (entry (ht_mem ht2)) zs)" by blast
    then show ?thesis using b(1,3,4,5) c(1,3,5) d w Cons
      by (subst compare_loop.simps) (auto simp: Let_def)
  qed
qed

lemma compare_unordered_spec:
  assumes rep2: "represents ht2 ps2 es2"
  shows "live_ok (ht_mem ht1) xs \<Longrightarrow> dseg (glinks (ht_mem ht1)) l1 xs None \<Longrightarrow>
   \<exists>d. compare_loop compar False ht1 ht2 (first_ptr xs None) None = Some d \<and>
     (d = 0 \<longleftrightarrow> (\<forall>(k, v)\<in>set (map (entry (ht_mem ht1)) xs). \<exists>w. map_of es2 k = Some w \<and> compar v w = 0))"
proof (induction xs arbitrary: l1)
  case Nil
  show ?case by (subst compare_loop.simps) simp
next
  case (Cons x xs)
  from live_ok_Cons [OF Cons.prems(1,2)] obtain b v where b: "cells (ht_mem ht1) x = Some b" "bucket_ok b"
    "pListNext b = first_ptr xs None" "bucket_data b = Some v" "entry (ht_mem ht1) x = (bkey b, v)"
    "live_ok (ht_mem ht1) xs" "dseg (glinks (ht_mem ht1)) (Some x) xs None" by metis
  have find: "(if nKeyLength b = 0 then zend_hash_index_find ht2 (b_h b)
      else zend_hash_quick_find ht2 (arKey b) (nKeyLength b) (b_h b)) = Some (found_result (bucket_of ps2 es2 (bkey b)))"
  proof (cases "nKeyLength b = 0")
    case True
    then show ?thesis using find_spec(1) [OF rep2] by (simp add: bkey_def)
  next
    case False
    with b(2) have "quick_args_ok (arKey b) (nKeyLength b) (b_h b)" "quick_key (arKey b) (nKeyLength b) (b_h b) = bkey b"
      by (simp_all add: quick_args_ok_def quick_key_def bkey_def bucket_ok_def)
    with find_spec(5) [OF rep2] False show ?thesis by simp
  qed
  from Cons.IH [OF b(6,7)] obtain d' where d': "compare_loop compar False ht1 ht2 (first_ptr xs None) None = Some d'"
    "d' = 0 \<longleftrightarrow> (\<forall>(k, v)\<in>set (map (entry (ht_mem ht1)) xs). \<exists>w. map_of es2 k = Some w \<and> compar v w = 0)" by blast
  show ?case
  proof (cases "bucket_of ps2 es2 (bkey b)")
    case None
    moreover have "map_of es2 (bkey b) = None"
      using None bucket_of_eq_None [of ps2 es2] represents_length [OF rep2] by simp
    ultimately show ?thesis using b find by (subst compare_loop.simps) (simp add: found_result_def)
  next
    case (Some y)
    have "map_of es2 (bkey b) \<noteq> None"
      using Some bucket_of_eq_None [of ps2 es2 "bkey b"] represents_length [OF rep2] by simp
    then obtain w where w: "map_of es2 (bkey b) = Some w" by blast
    with bucket_of_data [OF rep2 Some] have "data_at ht2 y = Some w" by simp
    with d' Some w b find show ?thesis
      by (subst compare_loop.simps) (simp add: found_result_def Let_def)
  qed
qed

lemma count_diff:
  "m < 2 ^ 32 \<Longrightarrow> n < 2 ^ 32 \<Longrightarrow> int_of_uint (of_nat m - of_nat n) = 0 \<longleftrightarrow> m = n"
proof -
  assume "m < 2 ^ 32" "n < 2 ^ 32"
  then have u: "unat (of_nat m :: u32) = m" "unat (of_nat n :: u32) = n" by (simp_all add: unat_of_nat_small)
  have "int_of_uint (of_nat m - of_nat n) = 0 \<longleftrightarrow> (of_nat m :: u32) = of_nat n"
    by (simp add: int_of_uint_def signed_eq_0_iff)
  also have "\<dots> \<longleftrightarrow> m = n" using u by metis
  finally show ?thesis .
qed

lemma represents_live:
  assumes "represents ht ps es"
  shows "live_ok (ht_mem ht) ps" "dseg (glinks (ht_mem ht)) None ps None" "map (entry (ht_mem ht)) ps = es"
    "nNumOfElements ht = of_nat (length es)"
proof -
  from represents_inv [OF assms] obtain chn where inv: "hash_inv ht ps chn" and es: "es = map (entry (ht_mem ht)) ps" by blast
  show "live_ok (ht_mem ht) ps" using hash_inv_live [OF inv] by (auto simp: live_ok_def)
  show "dseg (glinks (ht_mem ht)) None ps None" using hash_invD(3) [OF inv] by (simp add: dlist_def)
  show "map (entry (ht_mem ht)) ps = es" "nNumOfElements ht = of_nat (length es)" using es hash_invD(7) [OF inv] by simp_all
qed

section \<open>Properties\<close>

text \<open>
  C19: from the start or the end of a table the move functions step a position through the buckets in
  insertion order and back, ending with a null position; at every position the key and the data read
  are those of the entry, and a duplicated string key ends with a null byte.
\<close>

theorem hash_positions:
  assumes "represents ht ps es"
  shows "zend_hash_internal_pointer_reset_ex ht (Some p) = (ht, Some (first_ptr ps None)) \<and>
    zend_hash_internal_pointer_end_ex ht (Some p) = (ht, Some (last_ptr None ps)) \<and>
    (\<forall>i<length es.
       zend_hash_move_forward_ex ht (Some (Some (ps ! i))) =
         Some (SUCCESS, ht, Some (if Suc i < length es then Some (ps ! Suc i) else None)) \<and>
       zend_hash_move_backwards_ex ht (Some (Some (ps ! i))) =
         Some (SUCCESS, ht, Some (if i = 0 then None else Some (ps ! (i - 1)))) \<and>
       zend_hash_get_current_data_ex ht (Some (Some (ps ! i))) = (SUCCESS, Some (ps ! i)) \<and>
       data_at ht (ps ! i) = Some (snd (es ! i)) \<and>
       (case fst (es ! i) of
          IdxKey h \<Rightarrow> zend_hash_get_current_key_ex ht dup (Some (Some (ps ! i))) = Some (HASH_KEY_IS_LONG h) \<and>
            zend_hash_get_current_key_type_ex ht (Some (Some (ps ! i))) = Some 2
        | StrKey key \<Rightarrow> zend_hash_get_current_key_ex ht False (Some (Some (ps ! i))) =
            Some (HASH_KEY_IS_STRING key (of_nat (length key))) \<and>
            zend_hash_get_current_key_ex ht True (Some (Some (ps ! i))) =
            Some (HASH_KEY_IS_STRING (butlast key @ [0]) (of_nat (length key))) \<and>
            zend_hash_get_current_key_type_ex ht (Some (Some (ps ! i))) = Some 1))"
proof -
  have len: "length es = length ps" using represents_length [OF assms] .
  have at: "\<exists>b. cells (ht_mem ht) (ps ! i) = Some b \<and> bucket_data b = Some (snd (es ! i)) \<and>
      pListNext b = (if Suc i < length ps then Some (ps ! Suc i) else None) \<and>
      pListLast b = (if i = 0 then None else Some (ps ! (i - 1))) \<and>
      (case fst (es ! i) of IdxKey h \<Rightarrow> nKeyLength b = 0 \<and> b_h b = h
       | StrKey key \<Rightarrow> nKeyLength b \<noteq> 0 \<and> arKey b = key \<and> nKeyLength b = of_nat (length key) \<and>
           unat (nKeyLength b - 1) = length key - 1 \<and> key \<noteq> [])" if "i < length es" for i
  proof -
    from that have i: "i < length ps" by (simp add: len)
    obtain b where b: "cells (ht_mem ht) (ps ! i) = Some b" "bucket_ok b" "bkey b = fst (es ! i)"
      "bucket_data b = Some (snd (es ! i))"
      "pListNext b = (if Suc i < length ps then Some (ps ! Suc i) else None)"
      "pListLast b = (if i = 0 then None else Some (ps ! (i - 1)))" using position_links [OF assms i] by blast
    have key: "case fst (es ! i) of IdxKey h \<Rightarrow> nKeyLength b = 0 \<and> b_h b = h
      | StrKey key \<Rightarrow> nKeyLength b \<noteq> 0 \<and> arKey b = key \<and> nKeyLength b = of_nat (length key) \<and>
          unat (nKeyLength b - 1) = length key - 1 \<and> key \<noteq> []"
    proof (cases "nKeyLength b = 0")
      case True
      with b(3) show ?thesis by (simp add: bkey_def flip: b(3))
    next
      case False
      with b(2) have l: "length (arKey b) = unat (nKeyLength b)" by (simp add: bucket_ok_def)
      have "unat (nKeyLength b - 1) = unat (nKeyLength b) - 1"
        using False by (simp add: unat_minus_one)
      moreover have "unat (nKeyLength b) \<noteq> 0" using False by (simp add: unat_eq_0)
      then have "arKey b \<noteq> []" using l by auto
      ultimately show ?thesis using False l by (simp add: bkey_def flip: b(3))
    qed
    with b show ?thesis by blast
  qed
  show ?thesis
  proof (intro conjI allI impI)
    fix i assume i: "i < length es"
    from at [OF i] show "zend_hash_move_forward_ex ht (Some (Some (ps ! i))) =
         Some (SUCCESS, ht, Some (if Suc i < length es then Some (ps ! Suc i) else None))"
      by (auto simp: zend_hash_move_forward_ex_def current_pos_def store_pos_def len)
    from at [OF i] show "zend_hash_move_backwards_ex ht (Some (Some (ps ! i))) =
         Some (SUCCESS, ht, Some (if i = 0 then None else Some (ps ! (i - 1))))"
      by (auto simp: zend_hash_move_backwards_ex_def current_pos_def store_pos_def)
    from at [OF i] show "data_at ht (ps ! i) = Some (snd (es ! i))" by (auto simp: data_at_def)
    from at [OF i] show "case fst (es ! i) of
          IdxKey h \<Rightarrow> zend_hash_get_current_key_ex ht dup (Some (Some (ps ! i))) = Some (HASH_KEY_IS_LONG h) \<and>
            zend_hash_get_current_key_type_ex ht (Some (Some (ps ! i))) = Some 2
        | StrKey key \<Rightarrow> zend_hash_get_current_key_ex ht False (Some (Some (ps ! i))) =
            Some (HASH_KEY_IS_STRING key (of_nat (length key))) \<and>
            zend_hash_get_current_key_ex ht True (Some (Some (ps ! i))) =
            Some (HASH_KEY_IS_STRING (butlast key @ [0]) (of_nat (length key))) \<and>
            zend_hash_get_current_key_type_ex ht (Some (Some (ps ! i))) = Some 1"
      by (auto simp: zend_hash_get_current_key_ex_def zend_hash_get_current_key_type_ex_def current_pos_def
            estrndup_def butlast_conv_take split: hkey.splits)
  qed (simp_all add: zend_hash_internal_pointer_reset_ex_def zend_hash_internal_pointer_end_ex_def store_pos_def
        represents_ends [OF assms] zend_hash_get_current_data_ex_def current_pos_def)
qed

theorem hash_positions_witness:
  "\<exists>ps. length ps = 2 \<and> zend_hash_move_forward_ex (hash_of [(StrKey [104, 0], 7 :: int), (IdxKey 3, 8)]) (Some (Some (ps ! 0))) =
     Some (SUCCESS, hash_of [(StrKey [104, 0], 7), (IdxKey 3, 8)], Some (Some (ps ! 1)))"
proof -
  obtain ps where r: "represents (hash_of [(StrKey [104, 0], 7 :: int), (IdxKey 3, 8)]) ps [(StrKey [104, 0], 7), (IdxKey 3, 8)]"
    using hash_of_represents [of "[(StrKey [104, 0], 7 :: int), (IdxKey 3, 8)]"] by auto
  then have "length ps = 2" using represents_length by fastforce
  with hash_positions [OF r, of None True] show ?thesis by (intro exI [of _ ps]) auto
qed

text \<open>
  a position saved with \<open>zend_hash_get_pointer\<close> and restored with \<open>zend_hash_set_pointer\<close> on a
  later state of the table is accepted only when a bucket of the table stands at that address in the
  chain of the saved hash (or the internal pointer is already there); the table stays valid and the
  internal pointer never ends on a bucket that was freed.
\<close>

theorem hash_saved_pointer:
  assumes "represents ht' ps' es'" "zend_hash_get_pointer ht = Some (valid, hp)"
  shows "valid = (pInternalPointer ht \<noteq> None) \<and> hp_pos hp = pInternalPointer ht \<and>
    (\<exists>found ht2. zend_hash_set_pointer ht' hp = Some (found, ht2) \<and> represents ht2 ps' es' \<and>
       (found \<longleftrightarrow> (case hp_pos hp of None \<Rightarrow> True
          | Some a \<Rightarrow> pInternalPointer ht' = Some a \<or>
              a \<in> set ps' \<and> slot (nTableMask ht') (b_h (the (cells (ht_mem ht') a))) = slot (nTableMask ht') (hp_h hp))) \<and>
       pInternalPointer ht2 = (if found then hp_pos hp else pInternalPointer ht'))"
proof -
  have hp: "valid = (pInternalPointer ht \<noteq> None)" "hp_pos hp = pInternalPointer ht"
    using assms(2) by (auto simp: zend_hash_get_pointer_def split: option.splits Option.bind_splits)
  from represents_inv [OF assms(1)] obtain chn where inv: "hash_inv ht' ps' chn" by blast
  show ?thesis
  proof (cases "hp_pos hp")
    case None
    with represents_pointer [OF assms(1), of None] hp show ?thesis by (auto simp: zend_hash_set_pointer_def)
  next
    case (Some a)
    note c = chain_of [OF inv, of "hp_h hp"]
    from chain_has_spec [OF c(2)] c(1) have
      "do { head \<leftarrow> bucket_head ht' (slot (nTableMask ht') (hp_h hp)); chain_has a (ht_mem ht') head } =
       Some (a \<in> set ps' \<and> slot (nTableMask ht') (b_h (the (cells (ht_mem ht') a))) = slot (nTableMask ht') (hp_h hp))"
      by (simp add: c(4))
    with Some represents_pointer [OF assms(1), of "Some a"] assms(1) hp show ?thesis
      by (auto simp: zend_hash_set_pointer_def split: Option.bind_splits)
  qed
qed

theorem hash_saved_pointer_witness:
  "\<exists>hp. zend_hash_get_pointer (hash_of [(IdxKey 3, 8 :: int)]) = Some (True, hp) \<and>
     (\<exists>found ht2. zend_hash_set_pointer (hash_of [(IdxKey 4, 9 :: int)]) hp = Some (found, ht2) \<and> (\<exists>ps. represents ht2 ps [(IdxKey 4, 9)]))"
proof -
  obtain ps where r: "represents (hash_of [(IdxKey 4, 9 :: int)]) ps [(IdxKey 4, 9)]"
    using hash_of_represents [of "[(IdxKey 4, 9 :: int)]"] by auto
  obtain qs where "represents (hash_of [(IdxKey 3, 8 :: int)]) qs [(IdxKey 3, 8)]"
    using hash_of_represents [of "[(IdxKey 3, 8 :: int)]"] by auto
  then obtain chn where inv: "hash_inv (hash_of [(IdxKey 3, 8 :: int)]) qs chn" by (auto simp: represents_def)
  have "pInternalPointer (hash_of [(IdxKey 3, 8 :: int)]) \<noteq> None" by code_simp
  with hash_invD(8) [OF inv] obtain a where a: "pInternalPointer (hash_of [(IdxKey 3, 8 :: int)]) = Some a" "a \<in> set qs"
    by auto
  from a(1) hash_inv_live [OF inv a(2)] have "\<exists>hp. zend_hash_get_pointer (hash_of [(IdxKey 3, 8 :: int)]) = Some (True, hp)"
    by (auto simp: zend_hash_get_pointer_def)
  then obtain hp where hp: "zend_hash_get_pointer (hash_of [(IdxKey 3, 8 :: int)]) = Some (True, hp)" by blast
  from hash_saved_pointer [OF r hp] hp show ?thesis by blast
qed

text \<open>
  \<open>zend_hash_minmax\<close> fails on an empty table; otherwise, for a comparison that is a total preorder,
  it returns an entry that is a maximum (or minimum) of all entries.
\<close>

theorem hash_minmax_extreme:
  assumes "represents ht ps es" "length es < 2 ^ 32" "preorder_compare compar"
    "\<And>u v. compar u v < 0 \<longleftrightarrow> compar v u > 0"
  shows "(if es = [] then zend_hash_minmax ht compar flag = Some (FAILURE, None)
     else \<exists>m\<in>set ps. zend_hash_minmax ht compar flag = Some (SUCCESS, Some m) \<and>
       (\<forall>x\<in>set ps. let bm = the (cells (ht_mem ht) m); bx = the (cells (ht_mem ht) x) in
          if flag then below compar bx bm else below compar bm bx))"
proof -
  note l = represents_live [OF assms(1)]
  have n: "nNumOfElements ht = 0 \<longleftrightarrow> es = []"
    using l(4) assms(2) unat_of_nat_small [where 'a = 32, of "length es"] by (auto simp flip: unat_eq_0)
  show ?thesis
  proof (cases ps)
    case Nil
    with n l(3) show ?thesis by (auto simp: zend_hash_minmax_def)
  next
    case (Cons a rest)
    then have "es \<noteq> []" using l(3) by auto
    have "cells (ht_mem ht) a \<noteq> None" using l(1) Cons by (auto simp: live_ok_def)
    from minmax_loop_spec [OF l(2) [unfolded Cons] this]
    have "zend_hash_minmax ht compar flag = Some (SUCCESS, Some (foldl (minmax_step compar flag (ht_mem ht)) a rest))"
      using n \<open>es \<noteq> []\<close> represents_ends(1) [OF assms(1)] Cons by (simp add: zend_hash_minmax_def)
    with foldl_minmax [OF assms(3,4), of flag "ht_mem ht" a rest] \<open>es \<noteq> []\<close> show ?thesis
      by (auto simp: Cons)
  qed
qed

theorem hash_minmax_extreme_witness:
  "\<exists>m. zend_hash_minmax (hash_of [(IdxKey 3, 8 :: int), (IdxKey 4, 9)])
     (\<lambda>x y. the (bucket_data x) - the (bucket_data y)) True = Some (SUCCESS, m)"
proof -
  obtain ps where r: "represents (hash_of [(IdxKey 3, 8 :: int), (IdxKey 4, 9)]) ps [(IdxKey 3, 8), (IdxKey 4, 9)]"
    using hash_of_represents [of "[(IdxKey 3, 8 :: int), (IdxKey 4, 9)]"] by auto
  have "preorder_compare (\<lambda>x y :: int bucket. the (bucket_data x) - the (bucket_data y))"
    by (auto simp: preorder_compare_def asym_compare_def below_def)
  from hash_minmax_extreme [OF r _ this, of True] show ?thesis by auto
qed

text \<open>
  \<open>zend_hash_compare\<close> in unordered mode returns 0 exactly when the tables have the same number of
  entries and every key of the first is in the second with a value that compares equal.
\<close>

theorem hash_compare_unordered:
  assumes "represents ht1 ps1 es1" "represents ht2 ps2 es2" "\<not> nested_too_deep ht1" "\<not> nested_too_deep ht2"
    "length es1 < 2 ^ 32" "length es2 < 2 ^ 32"
  shows "\<exists>d. zend_hash_compare ht1 ht2 compar False = Some (Inr (d, ht1, ht2)) \<and>
    (d = 0 \<longleftrightarrow> length es1 = length es2 \<and> (\<forall>(k, v)\<in>set es1. \<exists>w. map_of es2 k = Some w \<and> compar v w = 0))"
proof -
  obtain h1 h2 where p: "hash_protect_recursion ht1 = Inr h1" "hash_protect_recursion ht2 = Inr h2"
    using assms(3,4) by (simp add: protect_cases)
  have r: "represents h1 ps1 es1" "represents h2 ps2 es2"
    using protect_inv(1) [OF assms(1) p(1)] protect_inv(1) [OF assms(2) p(2)] by (auto simp: represents_def)
  have u: "hash_unprotect_recursion h1 = ht1" "hash_unprotect_recursion h2 = ht2"
    using p by (auto simp: hash_protect_recursion_def hash_unprotect_recursion_def Let_def split: if_splits)
  note l1 = represents_live [OF r(1)] and l2 = represents_live [OF r(2)]
  have diff: "int_of_uint (nNumOfElements h1 - nNumOfElements h2) = 0 \<longleftrightarrow> length es1 = length es2"
    unfolding l1(4) l2(4) by (rule count_diff [OF assms(5,6)])
  from compare_unordered_spec [OF r(2) l1(1,2), of compar] obtain d where
    "compare_loop compar False h1 h2 (pListHead h1) None = Some d"
    "d = 0 \<longleftrightarrow> (\<forall>(k, v)\<in>set es1. \<exists>w. map_of es2 k = Some w \<and> compar v w = 0)"
    unfolding represents_ends(1) [OF r(1)] l1(3) by blast
  with diff show ?thesis by (auto simp: zend_hash_compare_def p u Let_def)
qed

theorem hash_compare_unordered_witness:
  "\<exists>d. zend_hash_compare (hash_of [(IdxKey 3, 8 :: int), (IdxKey 4, 9)]) (hash_of [(IdxKey 4, 9), (IdxKey 3, 8)]) (-) False =
     Some (Inr (0, hash_of [(IdxKey 3, 8), (IdxKey 4, 9)], hash_of [(IdxKey 4, 9), (IdxKey 3, 8)]))"
proof -
  obtain ps where r: "represents (hash_of [(IdxKey 3, 8 :: int), (IdxKey 4, 9)]) ps [(IdxKey 3, 8), (IdxKey 4, 9)]"
    and c: "nApplyCount (hash_of [(IdxKey 3, 8 :: int), (IdxKey 4, 9)]) = 0"
    using hash_of_represents [of "[(IdxKey 3, 8 :: int), (IdxKey 4, 9)]"] by auto
  obtain ps' where r': "represents (hash_of [(IdxKey 4, 9 :: int), (IdxKey 3, 8)]) ps' [(IdxKey 4, 9), (IdxKey 3, 8)]"
    and c': "nApplyCount (hash_of [(IdxKey 4, 9 :: int), (IdxKey 3, 8)]) = 0"
    using hash_of_represents [of "[(IdxKey 4, 9 :: int), (IdxKey 3, 8)]"] by auto
  from hash_compare_unordered [OF r r', of "(-)"] show ?thesis by (auto simp: nested_too_deep_def c c')
qed

text \<open>
  C19: in ordered mode \<open>zend_hash_compare\<close> returns 0 exactly when the entries agree position by
  position, where two integer keys count as equal when their low 32 bits are: the difference of the
  hashes is truncated to \<open>int\<close>, so that the keys 0 and 2^32 are not told apart.
\<close>

theorem hash_compare_ordered:
  assumes "represents ht1 ps1 es1" "represents ht2 ps2 es2" "\<not> nested_too_deep ht1" "\<not> nested_too_deep ht2"
    "length es1 < 2 ^ 32" "length es2 < 2 ^ 32"
  shows "(\<exists>d. zend_hash_compare ht1 ht2 compar True = Some (Inr (d, ht1, ht2)) \<and>
      (d = 0 \<longleftrightarrow> length es1 = length es2 \<and> ordered_equal compar es1 es2)) \<and>
    same_key (IdxKey 0) (IdxKey (2 ^ 32))"
proof
  show "same_key (IdxKey 0) (IdxKey (2 ^ 32))" by simp
  obtain h1 h2 where p: "hash_protect_recursion ht1 = Inr h1" "hash_protect_recursion ht2 = Inr h2"
    using assms(3,4) by (simp add: protect_cases)
  have r: "represents h1 ps1 es1" "represents h2 ps2 es2"
    using protect_inv(1) [OF assms(1) p(1)] protect_inv(1) [OF assms(2) p(2)] by (auto simp: represents_def)
  have u: "hash_unprotect_recursion h1 = ht1" "hash_unprotect_recursion h2 = ht2"
    using p by (auto simp: hash_protect_recursion_def hash_unprotect_recursion_def Let_def split: if_splits)
  note l1 = represents_live [OF r(1)] and l2 = represents_live [OF r(2)]
  have diff: "int_of_uint (nNumOfElements h1 - nNumOfElements h2) = 0 \<longleftrightarrow> length es1 = length es2"
    unfolding l1(4) l2(4) by (rule count_diff [OF assms(5,6)])
  from compare_ordered_spec [OF l1(1,2) l2(1,2), of compar] obtain d where
    "compare_loop compar True h1 h2 (pListHead h1) (pListHead h2) = Some d" "d = 0 \<longleftrightarrow> ordered_equal compar es1 es2"
    unfolding represents_ends(1) [OF r(1)] represents_ends(1) [OF r(2)] l1(3) l2(3) by blast
  with diff show "\<exists>d. zend_hash_compare ht1 ht2 compar True = Some (Inr (d, ht1, ht2)) \<and>
      (d = 0 \<longleftrightarrow> length es1 = length es2 \<and> ordered_equal compar es1 es2)"
    by (auto simp: zend_hash_compare_def p u Let_def)
qed

theorem hash_compare_ordered_witness:
  "zend_hash_compare (hash_of [(IdxKey 0, 8 :: int)]) (hash_of [(IdxKey 0x100000000, 8)]) (-) True =
     Some (Inr (0, hash_of [(IdxKey 0, 8)], hash_of [(IdxKey 0x100000000, 8)]))"
proof -
  obtain ps where r: "represents (hash_of [(IdxKey 0, 8 :: int)]) ps [(IdxKey 0, 8)]"
    and c: "nApplyCount (hash_of [(IdxKey 0, 8 :: int)]) = 0"
    using hash_of_represents [of "[(IdxKey 0, 8 :: int)]"] by auto
  obtain ps' where r': "represents (hash_of [(IdxKey 0x100000000, 8 :: int)]) ps' [(IdxKey 0x100000000, 8)]"
    and c': "nApplyCount (hash_of [(IdxKey 0x100000000, 8 :: int)]) = 0"
    using hash_of_represents [of "[(IdxKey 0x100000000, 8 :: int)]"] by auto
  from hash_compare_ordered [OF r r', of "(-)"] show ?thesis by (auto simp: nested_too_deep_def c c')
qed

end
