(* ===== verification/ZendHashBulk.thy ===== *)
theory ZendHashBulk imports ZendHashTraverse begin

text \<open>
  Copying and merging of hash tables, \<open>Zend/zend_hash.c\<close>: every entry of a source table is put into
  a target table, in the order of the source, and a copy constructor may then change the stored data.

  The three functions walk the source in the same way; what differs is the body of the walk, here a
  function of the source bucket and the target. The source and the target are different tables. The
  copy constructor is a function of the data (\<open>None\<close> for a null pointer); the checker of
  \<open>zend_hash_merge_ex\<close> sees the target as it is when the entry's turn comes.

  The lemmas show that the target is changed as a fold of \<open>AList.update\<close> over the entries of the
  source, and what becomes of the target's internal pointer.
\<close>

section \<open>Operations\<close>

text \<open>\<open>for (p = source->pListHead; p; p = p->pListNext) body(p)\<close>\<close>

partial_function (option) source_loop ::
  "(addr \<Rightarrow> 'v bucket \<Rightarrow> 'v HashTable \<Rightarrow> 'v HashTable option) \<Rightarrow> 'v bucket region \<Rightarrow> ptr \<Rightarrow> 'v HashTable \<Rightarrow> 'v HashTable option" where
  "source_loop body r p target =
     (case p of None \<Rightarrow> Some target
      | Some a \<Rightarrow> do {
          b \<leftarrow> cells r a;
          target \<leftarrow> body a b target;
          source_loop body r (pListNext b) target
        })"

declare source_loop.simps [code]

text \<open>\<open>if (pCopyConstructor) pCopyConstructor(dest);\<close>\<close>

definition copy_construct :: "('v \<Rightarrow> 'v) option \<Rightarrow> ptr \<Rightarrow> 'v HashTable \<Rightarrow> 'v HashTable option" where
  "copy_construct ctor dest ht = (case ctor of
       None \<Rightarrow> Some ht
     | Some f \<Rightarrow> do { a \<leftarrow> dest; hash_write a f ht })"

definition copy_body ::
  "('v \<Rightarrow> 'v) option \<Rightarrow> u32 \<Rightarrow> bool \<Rightarrow> ptr \<Rightarrow> addr \<Rightarrow> 'v bucket \<Rightarrow> 'v HashTable \<Rightarrow> 'v HashTable option" where
  "copy_body ctor sz setTargetPointer source_pointer a b target = do {
     let target = (if setTargetPointer \<and> source_pointer = Some a then target\<lparr>pInternalPointer := None\<rparr> else target);
     v \<leftarrow> bucket_data b;
     (_, new_entry, target) \<leftarrow>
       (if nKeyLength b \<noteq> 0 then zend_hash_quick_update target (arKey b) (nKeyLength b) (b_h b) v sz
        else zend_hash_index_update target (b_h b) v sz);
     copy_construct ctor new_entry target
   }"

definition zend_hash_copy ::
  "'v HashTable \<Rightarrow> 'v HashTable \<Rightarrow> ('v \<Rightarrow> 'v) option \<Rightarrow> u32 \<Rightarrow> 'v HashTable option" where
  "zend_hash_copy target source ctor sz = do {
     let setTargetPointer = (pInternalPointer target = None);
     target \<leftarrow> source_loop (copy_body ctor sz setTargetPointer (pInternalPointer source)) (ht_mem source) (pListHead source) target;
     Some (if pInternalPointer target = None then target\<lparr>pInternalPointer := pListHead target\<rparr> else target)
   }"

definition merge_body ::
  "('v \<Rightarrow> 'v) option \<Rightarrow> u32 \<Rightarrow> u32 \<Rightarrow> addr \<Rightarrow> 'v bucket \<Rightarrow> 'v HashTable \<Rightarrow> 'v HashTable option" where
  "merge_body ctor sz mode a b target = do {
     v \<leftarrow> bucket_data b;
     if 0 < nKeyLength b then do {
       (res, t, target) \<leftarrow> zend_hash_quick_add_or_update target (arKey b) (nKeyLength b) (b_h b) v sz mode;
       if res = SUCCESS then copy_construct ctor t target else Some target
     } else do {
       absent \<leftarrow> (if mode = HASH_UPDATE then Some True else map_option Not (zend_hash_index_exists target (b_h b)));
       if absent then do {
         (res, t, target) \<leftarrow> zend_hash_index_update target (b_h b) v sz;
         if res = SUCCESS then copy_construct ctor t target else Some target
       } else Some target
     }
   }"

definition zend_hash_merge ::
  "'v HashTable \<Rightarrow> 'v HashTable \<Rightarrow> ('v \<Rightarrow> 'v) option \<Rightarrow> u32 \<Rightarrow> bool \<Rightarrow> 'v HashTable option" where
  "zend_hash_merge target source ctor sz replace = do {
     let mode = (if replace then HASH_UPDATE else HASH_ADD);
     target \<leftarrow> source_loop (merge_body ctor sz mode) (ht_mem source) (pListHead source) target;
     Some (target\<lparr>pInternalPointer := pListHead target\<rparr>)
   }"

type_synonym ('v, 'p) merge_checker = "'v HashTable \<Rightarrow> 'v \<Rightarrow> zend_hash_key \<Rightarrow> 'p \<Rightarrow> bool"

definition zend_hash_replace_checker_wrapper ::
  "'v HashTable \<Rightarrow> 'v \<Rightarrow> 'v bucket \<Rightarrow> 'p \<Rightarrow> ('v, 'p) merge_checker \<Rightarrow> bool" where
  "zend_hash_replace_checker_wrapper target source_data b param checker =
     checker target source_data \<lparr>hk_arKey = arKey b, hk_nKeyLength = nKeyLength b, hk_h = b_h b\<rparr> param"

definition merge_ex_body ::
  "('v \<Rightarrow> 'v) option \<Rightarrow> u32 \<Rightarrow> ('v, 'p) merge_checker \<Rightarrow> 'p \<Rightarrow> addr \<Rightarrow> 'v bucket \<Rightarrow> 'v HashTable \<Rightarrow> 'v HashTable option" where
  "merge_ex_body ctor sz checker param a b target = do {
     v \<leftarrow> bucket_data b;
     if zend_hash_replace_checker_wrapper target v b param checker then do {
       (res, t, target) \<leftarrow> zend_hash_quick_update target (arKey b) (nKeyLength b) (b_h b) v sz;
       if res = SUCCESS then copy_construct ctor t target else Some target
     } else Some target
   }"

definition zend_hash_merge_ex ::
  "'v HashTable \<Rightarrow> 'v HashTable \<Rightarrow> ('v \<Rightarrow> 'v) option \<Rightarrow> u32 \<Rightarrow> ('v, 'p) merge_checker \<Rightarrow> 'p \<Rightarrow> 'v HashTable option" where
  "zend_hash_merge_ex target source ctor sz checker param = do {
     target \<leftarrow> source_loop (merge_ex_body ctor sz checker param) (ht_mem source) (pListHead source) target;
     Some (target\<lparr>pInternalPointer := pListHead target\<rparr>)
   }"

section \<open>The abstract merge\<close>

text \<open>
  Entries that the test accepts are stored, in order; the second component collects the values they
  displaced. The test sees the entries of the target so far, the key and the value.
\<close>

definition merge_entry ::
  "((hkey \<times> 'v) list \<Rightarrow> hkey \<Rightarrow> 'v \<Rightarrow> bool) \<Rightarrow> ('v \<Rightarrow> 'v) \<Rightarrow> (hkey \<times> 'v) list \<times> 'v list \<Rightarrow> hkey \<times> 'v \<Rightarrow> (hkey \<times> 'v) list \<times> 'v list" where
  "merge_entry P f st e = (case (st, e) of ((es, gone), (k, v)) \<Rightarrow>
     if P es k v then (AList.update k (f v) es, gone @ list_of_option (map_of es k)) else st)"

definition merge_entries ::
  "((hkey \<times> 'v) list \<Rightarrow> hkey \<Rightarrow> 'v \<Rightarrow> bool) \<Rightarrow> ('v \<Rightarrow> 'v) \<Rightarrow> (hkey \<times> 'v) list \<Rightarrow> (hkey \<times> 'v) list \<Rightarrow> (hkey \<times> 'v) list \<times> 'v list" where
  "merge_entries P f es new = foldl (merge_entry P f) (es, []) new"

definition ctor_fun :: "('v \<Rightarrow> 'v) option \<Rightarrow> 'v \<Rightarrow> 'v" where
  "ctor_fun ctor = (case ctor of None \<Rightarrow> (\<lambda>v. v) | Some f \<Rightarrow> f)"

text \<open>What every step keeps, \<open>target\<close> being the table before the walk.\<close>

definition merged :: "'v HashTable \<Rightarrow> (hkey \<times> 'v) list \<Rightarrow> (hkey \<times> 'v) list \<times> 'v list \<Rightarrow> 'v HashTable \<Rightarrow> addr list \<Rightarrow> bool" where
  "merged target es st t ps \<longleftrightarrow> represents t ps (fst st) \<and> config t = config target \<and>
     ht_dtor_log t = ht_dtor_log target @ (if pDestructor target then snd st else []) \<and>
     (next_free_ok (nNextFreeElement target) es \<longrightarrow> next_free_ok (nNextFreeElement t) (fst st))"

lemma next_free_ok_keys: "fst ` set es = fst ` set es' \<Longrightarrow> next_free_ok nf es = next_free_ok nf es'"
  by (simp add: next_free_ok_def)

lemma alist_update_twice: "AList.update k w (AList.update k v es) = AList.update k w es"
  by (induction es) auto

section \<open>One step\<close>

lemma source_loop_spec:
  assumes src: "represents source sps ses"
    and step: "\<And>i b t. i < length sps \<Longrightarrow> bucket_ok b \<Longrightarrow> bkey b = fst (ses ! i) \<Longrightarrow>
      bucket_data b = Some (snd (ses ! i)) \<Longrightarrow> I i t \<Longrightarrow> \<exists>t'. body (sps ! i) b t = Some t' \<and> I (Suc i) t'"
  shows "i \<le> length sps \<Longrightarrow> I i t \<Longrightarrow>
    \<exists>t'. source_loop body (ht_mem source) (if i < length sps then Some (sps ! i) else None) t = Some t' \<and> I (length sps) t'"
proof (induction "length sps - i" arbitrary: i t)
  case 0
  then show ?case by (subst source_loop.simps) simp
next
  case (Suc n)
  then have i: "i < length sps" by simp
  obtain b where b: "cells (ht_mem source) (sps ! i) = Some b" "bucket_ok b" "bkey b = fst (ses ! i)"
    "bucket_data b = Some (snd (ses ! i))" "pListNext b = (if Suc i < length sps then Some (sps ! Suc i) else None)"
    using position_links [OF src i] by blast
  from step [OF i b(2-4) Suc.prems(2)] obtain t1 where t1: "body (sps ! i) b t = Some t1" "I (Suc i) t1" by blast
  have "n = length sps - Suc i" "Suc i \<le> length sps" using Suc.hyps(2) i by simp_all
  from Suc.hyps(1) [OF this t1(2)] obtain t' where
    "source_loop body (ht_mem source) (if Suc i < length sps then Some (sps ! Suc i) else None) t1 = Some t'" "I (length sps) t'"
    by blast
  with i b(1,5) t1(1) show ?case by (subst source_loop.simps) auto
qed

text \<open>Storing the entry of a source bucket.\<close>

lemma bucket_insert_spec:
  assumes rep: "represents ht ps es" and b: "bucket_ok b" and k: "bkey b = k"
  shows "\<exists>a ht'. zend_hash_quick_update ht (arKey b) (nKeyLength b) (b_h b) v sz = Some (SUCCESS, Some a, ht') \<and>
      inserted ht ps es k v ht' a \<and>
      nNextFreeElement ht' = (case k of IdxKey h \<Rightarrow> next_free_after h (nNextFreeElement ht) | StrKey _ \<Rightarrow> nNextFreeElement ht)"
    "nKeyLength b = 0 \<Longrightarrow> zend_hash_index_update ht (b_h b) v sz = zend_hash_quick_update ht (arKey b) (nKeyLength b) (b_h b) v sz"
proof -
  have flags: "HASH_UPDATE AND HASH_ADD = 0" "HASH_UPDATE AND HASH_NEXT_INSERT = 0"
    by (simp_all add: HASH_UPDATE_def HASH_ADD_def HASH_NEXT_INSERT_def)
  show "\<exists>a ht'. zend_hash_quick_update ht (arKey b) (nKeyLength b) (b_h b) v sz = Some (SUCCESS, Some a, ht') \<and>
      inserted ht ps es k v ht' a \<and>
      nNextFreeElement ht' = (case k of IdxKey h \<Rightarrow> next_free_after h (nNextFreeElement ht) | StrKey _ \<Rightarrow> nNextFreeElement ht)"
  proof (cases "nKeyLength b = 0")
    case True
    with k have kk: "k = IdxKey (b_h b)" by (simp add: bkey_def)
    have hh: "b_h b = (if HASH_UPDATE AND HASH_NEXT_INSERT \<noteq> 0 then nNextFreeElement ht else b_h b)" by (simp add: flags)
    from index_insert_spec(2) [OF rep hh, of v sz] flags show ?thesis
      by (simp add: kk True zend_hash_quick_update_def zend_hash_quick_add_or_update_def)
  next
    case False
    with b have l: "unat (nKeyLength b) \<le> length (arKey b)" "take (unat (nKeyLength b)) (arKey b) = arKey b"
      "b_h b = djb_hash (take (unat (nKeyLength b)) (arKey b))" by (simp_all add: bucket_ok_def)
    have kk: "k = StrKey (take (unat (nKeyLength b)) (arKey b))" using k False l(2) by (simp add: bkey_def)
    from quick_add_or_update_spec(2) [OF rep False l(1) kk l(3), of HASH_UPDATE v sz] flags show ?thesis
      by (simp add: kk zend_hash_quick_update_def)
  qed
  show "zend_hash_index_update ht (b_h b) v sz = zend_hash_quick_update ht (arKey b) (nKeyLength b) (b_h b) v sz"
    if "nKeyLength b = 0"
    by (simp add: that zend_hash_quick_update_def zend_hash_quick_add_or_update_def zend_hash_index_update_def)
qed

lemma copy_construct_spec:
  assumes rep: "represents ht ps es" and a: "bucket_of ps es k = Some a" and v: "map_of es k = Some v"
  shows "\<exists>r'. copy_construct ctor (Some a) ht = Some (ht\<lparr>ht_mem := r'\<rparr>) \<and>
    represents (ht\<lparr>ht_mem := r'\<rparr>) ps (AList.update k (ctor_fun ctor v) es)"
proof (cases ctor)
  case None
  have "AList.update k v es = es" using v represents_distinct [OF rep]
    by (induction es) (auto split: if_splits)
  with None rep show ?thesis by (auto simp: copy_construct_def ctor_fun_def intro!: exI [of _ "ht_mem ht"])
next
  case (Some f)
  with hash_write_spec [OF assms, of f] show ?thesis by (simp add: copy_construct_def ctor_fun_def)
qed

lemma store_step:
  assumes m: "merged target es st t ps" and b: "bucket_ok b" "bkey b = k" and P: "P (fst st) k v"
  shows "\<exists>a t1 t'. zend_hash_quick_update t (arKey b) (nKeyLength b) (b_h b) v sz = Some (SUCCESS, Some a, t1) \<and>
    copy_construct ctor (Some a) t1 = Some t' \<and>
    merged target es (merge_entry P (ctor_fun ctor) st (k, v)) t' (if k \<in> fst ` set (fst st) then ps else ps @ [a]) \<and>
    pInternalPointer t' = (if pInternalPointer t = None \<and> k \<notin> fst ` set (fst st) then Some a else pInternalPointer t)"
proof -
  obtain es1 gone where st: "st = (es1, gone)" by fastforce
  from m have rep: "represents t ps es1" and cfg: "config t = config target"
    and log: "ht_dtor_log t = ht_dtor_log target @ (if pDestructor target then gone else [])"
    and nf: "next_free_ok (nNextFreeElement target) es \<Longrightarrow> next_free_ok (nNextFreeElement t) es1"
    by (simp_all add: merged_def st)
  from cfg have dt: "pDestructor t = pDestructor target" by (simp add: config_def)
  from bucket_insert_spec(1) [OF rep b, of v sz] obtain a t1 where
    t1: "zend_hash_quick_update t (arKey b) (nKeyLength b) (b_h b) v sz = Some (SUCCESS, Some a, t1)"
    and ins: "inserted t ps es1 k v t1 a"
    and nf1: "nNextFreeElement t1 = (case k of IdxKey h \<Rightarrow> next_free_after h (nNextFreeElement t) | StrKey _ \<Rightarrow> nNextFreeElement t)"
    by blast
  let ?ps = "if k \<in> fst ` set es1 then ps else ps @ [a]" and ?new = "AList.update k (ctor_fun ctor v) es1"
  have rep1: "represents t1 ?ps (AList.update k v es1)" and bo: "bucket_of ?ps (AList.update k v es1) k = Some a"
    using ins unfolding inserted_def Let_def by blast+
  have at: "map_of (AList.update k v es1) k = Some v" by (simp add: update_conv)
  from copy_construct_spec [OF rep1 bo at, of ctor] obtain r' where
    r': "copy_construct ctor (Some a) t1 = Some (t1\<lparr>ht_mem := r'\<rparr>)" "represents (t1\<lparr>ht_mem := r'\<rparr>) ?ps ?new"
    unfolding alist_update_twice by blast
  have "next_free_ok (nNextFreeElement t1) (AList.update k v es1)" if "next_free_ok (nNextFreeElement t) es1"
    using that by (cases k) (simp_all add: nf1 next_free_ok_str next_free_ok_update)
  moreover have "fst ` set (AList.update k v es1) = fst ` set ?new" by (simp add: keys_update)
  ultimately have nf2: "next_free_ok (nNextFreeElement t1) ?new" if "next_free_ok (nNextFreeElement target) es"
    using nf [OF that] next_free_ok_keys by metis
  have log1: "ht_dtor_log t1 = ht_dtor_log target @ (if pDestructor target then gone @ list_of_option (map_of es1 k) else [])"
    using ins log dt by (auto simp: inserted_def list_of_option_def split: option.splits)
  have "config t1 = config target" using ins cfg by (simp add: inserted_def)
  then have "merged target es (merge_entry P (ctor_fun ctor) st (k, v)) (t1\<lparr>ht_mem := r'\<rparr>) ?ps"
    using P r'(2) log1 nf2 by (simp add: merged_def merge_entry_def st config_def)
  moreover have "pInternalPointer t1 = (if pInternalPointer t = None \<and> k \<notin> fst ` set es1 then Some a else pInternalPointer t)"
    using ins by (simp add: inserted_def)
  ultimately show ?thesis using t1 r'(1) by (simp add: st)
qed

lemma foldl_take_Suc: "i < length xs \<Longrightarrow> foldl f a (take (Suc i) xs) = f (foldl f a (take i xs)) (xs ! i)"
  by (simp add: take_Suc_conv_app_nth)

text \<open>A walk whose body performs \<open>merge_entry\<close> performs \<open>merge_entries\<close>.\<close>

lemma merge_loop_spec:
  assumes src: "represents source sps ses" and tgt: "represents target ps es"
    and step: "\<And>a b t ps1 st v. bucket_ok b \<Longrightarrow> bucket_data b = Some v \<Longrightarrow> merged target es st t ps1 \<Longrightarrow>
      \<exists>t' ps2. body a b t = Some t' \<and> merged target es (merge_entry P f st (bkey b, v)) t' ps2"
  shows "\<exists>t' ps2. source_loop body (ht_mem source) (pListHead source) target = Some t' \<and>
    merged target es (merge_entries P f es ses) t' ps2"
proof -
  let ?st = "\<lambda>i. foldl (merge_entry P f) (es, []) (take i ses)"
  let ?I = "\<lambda>i t. \<exists>ps1. merged target es (?st i) t ps1"
  have len: "length ses = length sps" by (rule represents_length [OF src])
  have "?I 0 target" using tgt by (auto simp: merged_def)
  moreover have "\<exists>t'. body (sps ! i) b t = Some t' \<and> ?I (Suc i) t'"
    if "i < length sps" "bucket_ok b" "bkey b = fst (ses ! i)" "bucket_data b = Some (snd (ses ! i))" "?I i t" for i b t
  proof -
    have e: "(bkey b, snd (ses ! i)) = ses ! i" using that(3) by simp
    from that(5) obtain ps1 where "merged target es (?st i) t ps1" by blast
    from step [OF that(2,4) this, of "sps ! i"] show ?thesis
      unfolding e using that(1) len by (auto simp: foldl_take_Suc)
  qed
  ultimately have "\<exists>t'. source_loop body (ht_mem source) (if 0 < length sps then Some (sps ! 0) else None) target = Some t' \<and>
      ?I (length sps) t'"
    using source_loop_spec [OF src, of ?I body 0 target] by blast
  moreover have "pListHead source = (if 0 < length sps then Some (sps ! 0) else None)"
    using represents_ends(1) [OF src] by (cases sps) auto
  ultimately show ?thesis using len by (simp add: merge_entries_def)
qed

lemma merged_pointer:
  "merged target es st t ps \<Longrightarrow> p = None \<or> p \<in> Some ` set ps \<Longrightarrow> merged target es st (t\<lparr>pInternalPointer := p\<rparr>) ps"
  by (auto simp: merged_def represents_pointer config_def)

lemma head_pointer:
  "merged target es st t ps \<Longrightarrow> pListHead t = first_ptr ps None \<and> (pListHead t = None \<or> pListHead t \<in> Some ` set ps)"
  by (cases ps) (auto simp: merged_def dest: represents_ends(1))

lemma merged_head:
  assumes "merged target es st t ps"
  shows "merged target es st (t\<lparr>pInternalPointer := pListHead t\<rparr>) ps" "pListHead t = first_ptr ps None"
  using merged_pointer [OF assms, of "pListHead t"] head_pointer [OF assms] by blast+

section \<open>The bodies\<close>

lemma copy_body_spec:
  assumes b: "bucket_ok b" "bucket_data b = Some v" and m: "merged target es st t ps"
    and p: "p = (if setp \<and> sp = Some a then None else pInternalPointer t)"
  shows "\<exists>t' n. copy_body ctor sz setp sp a b t = Some t' \<and>
    merged target es (merge_entry (\<lambda>_ _ _. True) (ctor_fun ctor) st (bkey b, v)) t' (if bkey b \<in> fst ` set (fst st) then ps else ps @ [n]) \<and>
    pInternalPointer t' = (if p = None \<and> bkey b \<notin> fst ` set (fst st) then Some n else p)"
proof -
  let ?t = "if setp \<and> sp = Some a then t\<lparr>pInternalPointer := None\<rparr> else t"
  have m': "merged target es st ?t ps" using m merged_pointer [OF m, of None] by simp
  have p': "pInternalPointer ?t = p" by (simp add: p)
  have eq: "(if nKeyLength b \<noteq> 0 then zend_hash_quick_update ?t (arKey b) (nKeyLength b) (b_h b) v sz
      else zend_hash_index_update ?t (b_h b) v sz) = zend_hash_quick_update ?t (arKey b) (nKeyLength b) (b_h b) v sz" for v
    using bucket_insert_spec(2) [OF _ b(1) refl] m' by (auto simp: merged_def)
  from store_step [OF m' b(1) refl, of "\<lambda>_ _ _. True" v sz ctor] obtain n t1 t' where s:
    "zend_hash_quick_update ?t (arKey b) (nKeyLength b) (b_h b) v sz = Some (SUCCESS, Some n, t1)"
    "copy_construct ctor (Some n) t1 = Some t'"
    "merged target es (merge_entry (\<lambda>_ _ _. True) (ctor_fun ctor) st (bkey b, v)) t' (if bkey b \<in> fst ` set (fst st) then ps else ps @ [n])"
    "pInternalPointer t' = (if p = None \<and> bkey b \<notin> fst ` set (fst st) then Some n else p)"
    unfolding p' by blast
  have "copy_body ctor sz setp sp a b t = Some t'"
    unfolding copy_body_def Let_def eq b(2) using s(1,2) by simp
  with s(3,4) show ?thesis by blast
qed

lemma merge_body_spec:
  assumes b: "bucket_ok b" "bucket_data b = Some v" and m: "merged target es st t ps"
  shows "\<exists>t' ps'. merge_body ctor sz (if replace then HASH_UPDATE else HASH_ADD) a b t = Some t' \<and>
    merged target es (merge_entry (\<lambda>es k v. replace \<or> k \<notin> fst ` set es) (ctor_fun ctor) st (bkey b, v)) t' ps'"
proof -
  let ?P = "\<lambda>es k v. replace \<or> k \<notin> fst ` set es" and ?mode = "if replace then HASH_UPDATE else HASH_ADD"
  let ?q = "zend_hash_quick_update t (arKey b) (nKeyLength b) (b_h b) v sz"
  have rep: "represents t ps (fst st)" using m by (simp add: merged_def)
  have flags: "HASH_UPDATE AND HASH_ADD = 0" "HASH_ADD AND HASH_ADD \<noteq> 0" "HASH_ADD \<noteq> HASH_UPDATE"
    by (simp_all add: HASH_UPDATE_def HASH_ADD_def)
  show ?thesis
  proof (cases "?P (fst st) (bkey b) v")
    case True
    from store_step [OF m b(1) refl, of ?P v sz ctor, OF True] obtain n t1 t' ps' where s:
      "?q = Some (SUCCESS, Some n, t1)" "copy_construct ctor (Some n) t1 = Some t'"
      "merged target es (merge_entry ?P (ctor_fun ctor) st (bkey b, v)) t' ps'" by blast
    have "merge_body ctor sz ?mode a b t = Some t'"
    proof (cases "nKeyLength b = 0")
      case z: True
      then have "bkey b = IdxKey (b_h b)" by (simp add: bkey_def)
      then have "(if ?mode = HASH_UPDATE then Some True else map_option Not (zend_hash_index_exists t (b_h b))) = Some True"
        using True find_spec(2) [OF rep, of "b_h b"] by (auto simp: map_of_eq_None_iff)
      with z s(1,2) b(2) bucket_insert_spec(2) [OF rep b(1) refl z, of v sz] show ?thesis
        by (simp add: merge_body_def)
    next
      case nz: False
      then have l: "unat (nKeyLength b) \<le> length (arKey b)" "take (unat (nKeyLength b)) (arKey b) = arKey b"
        "b_h b = djb_hash (take (unat (nKeyLength b)) (arKey b))" using b(1) by (simp_all add: bucket_ok_def)
      have k: "bkey b = StrKey (take (unat (nKeyLength b)) (arKey b))" using nz l(2) by (simp add: bkey_def)
      have "zend_hash_quick_add_or_update t (arKey b) (nKeyLength b) (b_h b) v sz ?mode = ?q"
      proof (cases replace)
        case True
        then show ?thesis by (simp add: zend_hash_quick_update_def)
      next
        case False
        with True have "bkey b \<notin> fst ` set (fst st)" by simp
        then have "bucket_of ps (fst st) (bkey b) = None" using bucket_of_None_iff [OF rep] by blast
        moreover obtain head where "bucket_head t (slot (nTableMask t) (b_h b)) = Some head"
          "chain_search (str_match (b_h b) (arKey b) (nKeyLength b)) (ht_mem t) head = Some (bucket_of ps (fst st) (bkey b))"
          using string_lookup [OF rep l(1,3)] nz k by (auto simp: arg_key_def)
        ultimately show ?thesis by (simp add: zend_hash_quick_update_def zend_hash_quick_add_or_update_def nz)
      qed
      with nz s(1,2) b(2) show ?thesis by (simp add: merge_body_def word_gt_0)
    qed
    with s(3) show ?thesis by blast
  next
    case False
    then have nr: "\<not> replace" "bkey b \<in> fst ` set (fst st)" by simp_all
    have "merge_body ctor sz ?mode a b t = Some t"
    proof (cases "nKeyLength b = 0")
      case z: True
      then have "bkey b = IdxKey (b_h b)" by (simp add: bkey_def)
      then have "zend_hash_index_exists t (b_h b) = Some True"
        using nr find_spec(2) [OF rep, of "b_h b"] by (metis map_of_eq_None_iff)
      with z b(2) nr(1) flags show ?thesis by (simp add: merge_body_def)
    next
      case nz: False
      then have l: "unat (nKeyLength b) \<le> length (arKey b)" "take (unat (nKeyLength b)) (arKey b) = arKey b"
        "b_h b = djb_hash (take (unat (nKeyLength b)) (arKey b))" using b(1) by (simp_all add: bucket_ok_def)
      have k: "bkey b = StrKey (take (unat (nKeyLength b)) (arKey b))" using nz l(2) by (simp add: bkey_def)
      from quick_add_or_update_spec(1) [OF rep nz l(1) k l(3) nr(2) flags(2), of v sz] nz b(2) nr(1)
      show ?thesis by (simp add: merge_body_def word_gt_0)
    qed
    moreover have "merge_entry ?P (ctor_fun ctor) st (bkey b, v) = st"
      using False by (cases st) (simp add: merge_entry_def)
    ultimately show ?thesis using m by auto
  qed
qed

lemma merge_ex_body_spec:
  assumes b: "bucket_ok b" "bucket_data b = Some v" and m: "merged target es st t ps"
    and chk: "\<And>ht ps es v hk. represents ht ps es \<Longrightarrow> checker ht v hk param = chk es (hk_key hk) v"
  shows "\<exists>t' ps'. merge_ex_body ctor sz checker param a b t = Some t' \<and>
    merged target es (merge_entry chk (ctor_fun ctor) st (bkey b, v)) t' ps'"
proof -
  have rep: "represents t ps (fst st)" using m by (simp add: merged_def)
  have key: "hk_key \<lparr>hk_arKey = arKey b, hk_nKeyLength = nKeyLength b, hk_h = b_h b\<rparr> = bkey b"
    by (simp add: hk_key_def bkey_def)
  have c: "zend_hash_replace_checker_wrapper t v b param checker = chk (fst st) (bkey b) v"
    unfolding zend_hash_replace_checker_wrapper_def chk [OF rep] key ..
  show ?thesis
  proof (cases "chk (fst st) (bkey b) v")
    case True
    from store_step [OF m b(1) refl, of chk v sz ctor, OF True] obtain n t1 t' ps' where s:
      "zend_hash_quick_update t (arKey b) (nKeyLength b) (b_h b) v sz = Some (SUCCESS, Some n, t1)"
      "copy_construct ctor (Some n) t1 = Some t'"
      "merged target es (merge_entry chk (ctor_fun ctor) st (bkey b, v)) t' ps'" by blast
    with True c b(2) have "merge_ex_body ctor sz checker param a b t = Some t'" by (simp add: merge_ex_body_def)
    with s(3) show ?thesis by blast
  next
    case False
    then have "merge_entry chk (ctor_fun ctor) st (bkey b, v) = st" by (cases st) (simp add: merge_entry_def)
    moreover have "merge_ex_body ctor sz checker param a b t = Some t"
      using False c b(2) by (simp add: merge_ex_body_def)
    ultimately show ?thesis using m by auto
  qed
qed

section \<open>Properties\<close>

lemma merge_all_new:
  "distinct (map fst (es @ new)) \<Longrightarrow>
     foldl (merge_entry (\<lambda>_ _ _. True) f) (es, gone) new = (es @ map (\<lambda>(k, v). (k, f v)) new, gone)"
proof (induction new arbitrary: es)
  case (Cons e new)
  obtain k v where e: "e = (k, v)" by fastforce
  with Cons.prems have k: "k \<notin> fst ` set es" by auto
  then have "map_of es k = None" by (simp add: map_of_eq_None_iff)
  with k e have "merge_entry (\<lambda>_ _ _. True) f (es, gone) e = (es @ [(k, f v)], gone)"
    by (simp add: merge_entry_def alist_update_new list_of_option_def)
  with Cons.IH [of "es @ [(k, f v)]"] Cons.prems e show ?case by simp
qed simp

text \<open>Where the internal pointer of an empty target is when the copy ends.\<close>

lemma copy_pointer_loop:
  assumes src: "represents source sps ses" and tgt: "represents target [] []"
  shows "\<exists>t ps. source_loop (copy_body ctor sz True (pInternalPointer source)) (ht_mem source) (pListHead source) target = Some t \<and>
    merged target [] (map (\<lambda>(k, v). (k, ctor_fun ctor v)) ses, []) t ps \<and>
    (\<forall>j<length sps. pInternalPointer source = Some (sps ! j) \<longrightarrow> pInternalPointer t = Some (ps ! j)) \<and>
    (pInternalPointer source = None \<longrightarrow> pInternalPointer t = first_ptr ps None)"
proof -
  let ?P = "\<lambda>_ _ _. True" and ?f = "ctor_fun ctor" and ?sp = "pInternalPointer source"
  let ?es = "\<lambda>i. map (\<lambda>(k, v). (k, ?f v)) (take i ses)"
  obtain schn where sinv: "hash_inv source sps schn" using represents_inv [OF src] by blast
  have dist: "distinct sps" by (rule hash_inv_distinct [OF sinv])
  have len: "length ses = length sps" by (rule represents_length [OF src])
  obtain c where c: "?sp = None \<and> c = 0 \<or> c < length sps \<and> ?sp = Some (sps ! c)"
    using hash_invD(8) [OF sinv] by (fastforce simp: in_set_conv_nth)
  let ?cur = "\<lambda>i. if c < i then c else 0"
  let ?I = "\<lambda>i t. \<exists>ps. merged target [] (?es i, []) t ps \<and> length ps = i \<and>
    pInternalPointer t = (if i = 0 then None else Some (ps ! ?cur i))"
  have null: "pInternalPointer target = None"
    using tgt by (auto simp: represents_def hash_inv_def)
  have "?I 0 target" using tgt null by (auto simp: merged_def)
  moreover have "\<exists>t'. copy_body ctor sz True ?sp (sps ! i) b t = Some t' \<and> ?I (Suc i) t'"
    if i: "i < length sps" and b: "bucket_ok b" "bkey b = fst (ses ! i)" "bucket_data b = Some (snd (ses ! i))" and I: "?I i t" for i b t
  proof -
    obtain ps where ps: "merged target [] (?es i, []) t ps" "length ps = i"
      "pInternalPointer t = (if i = 0 then None else Some (ps ! ?cur i))" using I by blast
    have sub: "distinct (map fst (take i ses @ [ses ! i]))"
      using represents_distinct [OF src] i len by (metis distinct_take take_Suc_conv_app_nth take_map)
    have "fst ` set (?es i) = fst ` set (take i ses)" by force
    with sub have new: "bkey b \<notin> fst ` set (?es i)" by (simp add: b(2))
    let ?p = "if True \<and> ?sp = Some (sps ! i) then None else pInternalPointer t"
    from copy_body_spec [OF b(1,3) ps(1), of ?p True ?sp "sps ! i" ctor sz] new obtain t' n where t':
      "copy_body ctor sz True ?sp (sps ! i) b t = Some t'"
      "merged target [] (merge_entry ?P ?f (?es i, []) (bkey b, snd (ses ! i))) t' (ps @ [n])"
      "pInternalPointer t' = (if ?p = None then Some n else ?p)" by auto
    have "map_of (?es i) (bkey b) = None" using new by (simp only: map_of_eq_None_iff not_False_eq_True)
    then have "merge_entry ?P ?f (?es i, []) (bkey b, snd (ses ! i)) = (?es i @ [(bkey b, ?f (snd (ses ! i)))], [])"
      using new unfolding merge_entry_def by (simp add: alist_update_new list_of_option_def del: map_of_eq_None_iff)
    moreover have "?es (Suc i) = ?es i @ [(bkey b, ?f (snd (ses ! i)))]"
      using i len b(2) by (simp add: take_Suc_conv_app_nth split: prod.split)
    ultimately have m: "merged target [] (?es (Suc i), []) t' (ps @ [n])" using t'(2) by simp
    have "?sp = Some (sps ! i) \<longleftrightarrow> ?sp \<noteq> None \<and> c = i"
      using c dist i by (auto simp: nth_eq_iff_index_eq)
    then have "pInternalPointer t' = Some ((ps @ [n]) ! ?cur (Suc i))"
      using t'(3) ps(2,3) c by (auto simp: nth_append less_Suc_eq)
    with t'(1) m ps(2) show ?thesis by auto
  qed
  ultimately have "\<exists>t'. source_loop (copy_body ctor sz True ?sp) (ht_mem source) (if 0 < length sps then Some (sps ! 0) else None) target = Some t' \<and>
      ?I (length sps) t'"
    using source_loop_spec [OF src, of ?I "copy_body ctor sz True ?sp" 0 target] by blast
  moreover have "pListHead source = (if 0 < length sps then Some (sps ! 0) else None)"
    using represents_ends(1) [OF src] by (cases sps) auto
  ultimately obtain t ps where t: "source_loop (copy_body ctor sz True ?sp) (ht_mem source) (pListHead source) target = Some t"
    "merged target [] (map (\<lambda>(k, v). (k, ?f v)) ses, []) t ps" "length ps = length sps"
    "pInternalPointer t = (if length sps = 0 then None else Some (ps ! ?cur (length sps)))"
    using len by auto
  have "\<forall>j<length sps. ?sp = Some (sps ! j) \<longrightarrow> pInternalPointer t = Some (ps ! j)"
    using c t(4) dist by (auto simp: nth_eq_iff_index_eq)
  moreover have "?sp = None \<longrightarrow> pInternalPointer t = first_ptr ps None"
    using c t(3,4) by (cases ps) auto
  ultimately show ?thesis using t(1,2) by (intro exI conjI)
qed

text \<open>
  C20: \<open>zend_hash_copy\<close> returns and stores every entry of the source in the target, each value as the
  copy constructor leaves it: a key the target has keeps its place and its old value goes to the
  destructor, a new key is appended. Copied into an empty table it gives the entries of the source
  in their order, with the internal pointer at the copy of the entry the source's pointer is at (at
  the first one when that is unset).
\<close>
theorem hash_copy_refines:
  assumes "represents source sps ses" "represents target ps es"
  shows "\<exists>t ps'. zend_hash_copy target source ctor sz = Some t \<and>
    merged target es (merge_entries (\<lambda>_ _ _. True) (ctor_fun ctor) es ses) t ps' \<and>
    (es = [] \<longrightarrow> represents t ps' (map (\<lambda>(k, v). (k, ctor_fun ctor v)) ses) \<and>
      (\<forall>j<length sps. pInternalPointer source = Some (sps ! j) \<longrightarrow> pInternalPointer t = Some (ps' ! j)) \<and>
      (pInternalPointer source = None \<longrightarrow> pInternalPointer t = first_ptr ps' None))"
proof (cases "es = []")
  case False
  let ?body = "copy_body ctor sz (pInternalPointer target = None) (pInternalPointer source)"
  have "\<exists>t' ps2. ?body a b t = Some t' \<and> merged target es (merge_entry (\<lambda>_ _ _. True) (ctor_fun ctor) st (bkey b, v)) t' ps2"
    if "bucket_ok b" "bucket_data b = Some v" "merged target es st t ps1" for a b t ps1 st v
    using copy_body_spec [OF that refl, of ctor sz "pInternalPointer target = None" "pInternalPointer source" a] by blast
  then have "\<exists>t ps'. source_loop ?body (ht_mem source) (pListHead source) target = Some t \<and>
      merged target es (merge_entries (\<lambda>_ _ _. True) (ctor_fun ctor) es ses) t ps'"
    by (intro merge_loop_spec [OF assms])
  then obtain t ps' where
    t: "source_loop ?body (ht_mem source) (pListHead source) target = Some t"
    "merged target es (merge_entries (\<lambda>_ _ _. True) (ctor_fun ctor) es ses) t ps'" by blast
  from merged_head [OF t(2)] t False show ?thesis
    unfolding zend_hash_copy_def Let_def by (auto intro!: exI [of _ ps'])
next
  case True
  have p0: "ps = []" using represents_length [OF assms(2)] True by simp
  have null: "pInternalPointer target = None"
    using assms(2) unfolding p0 by (auto simp: represents_def hash_inv_def)
  have tgt: "represents target [] []" using assms(2) True p0 by simp
  from copy_pointer_loop [OF assms(1) tgt, of ctor sz] obtain t ps' where t:
    "source_loop (copy_body ctor sz True (pInternalPointer source)) (ht_mem source) (pListHead source) target = Some t"
    "merged target [] (map (\<lambda>(k, v). (k, ctor_fun ctor v)) ses, []) t ps'"
    "\<forall>j<length sps. pInternalPointer source = Some (sps ! j) \<longrightarrow> pInternalPointer t = Some (ps' ! j)"
    "pInternalPointer source = None \<longrightarrow> pInternalPointer t = first_ptr ps' None"
    by (elim exE conjE) (rule that; assumption)
  obtain schn where sinv: "hash_inv source sps schn" using represents_inv [OF assms(1)] by blast
  have l: "length ps' = length sps"
    using t(2) represents_length [OF assms(1)] by (auto simp: merged_def dest: represents_length)
  have "pInternalPointer t = None \<Longrightarrow> ps' = []"
    using t(3,4) hash_invD(8) [OF sinv] l by (fastforce simp: in_set_conv_nth)
  then have same: "(if pInternalPointer t = None then t\<lparr>pInternalPointer := pListHead t\<rparr> else t) = t"
    using head_pointer [OF t(2)] by (cases t) auto
  have "merge_entries (\<lambda>_ _ _. True) (ctor_fun ctor) [] ses = (map (\<lambda>(k, v). (k, ctor_fun ctor v)) ses, [])"
    using merge_all_new [of "[]" ses "ctor_fun ctor" "[]"] represents_distinct [OF assms(1)] by (simp add: merge_entries_def)
  moreover have "zend_hash_copy target source ctor sz = Some t"
    unfolding zend_hash_copy_def Let_def null using t(1) same by simp
  ultimately show ?thesis using t(2-4) True unfolding merged_def by auto
qed

theorem hash_copy_refines_witness:
  "\<exists>t ps'. zend_hash_copy (hash_of []) (hash_of [(StrKey [97], 7 :: nat), (IdxKey 4, 2)]) (Some Suc) 8 = Some t \<and>
     represents t ps' [(StrKey [97], 8), (IdxKey 4, 3)]"
proof -
  obtain ps where s: "represents (hash_of [(StrKey [97], 7 :: nat), (IdxKey 4, 2)]) ps [(StrKey [97], 7), (IdxKey 4, 2)]"
    using hash_of_represents [of "[(StrKey [97], 7 :: nat), (IdxKey 4, 2)]"] by auto
  obtain ps0 where t: "represents (hash_of ([] :: (hkey \<times> nat) list)) ps0 []"
    using hash_of_represents [of "[] :: (hkey \<times> nat) list"] by auto
  from hash_copy_refines [OF s t, of "Some Suc" 8] show ?thesis by (auto simp: ctor_fun_def)
qed

lemma hash_merge_refines_parts:
  assumes "represents source sps ses" "represents target ps es"
    and "\<And>ht ps es v hk. represents ht ps es \<Longrightarrow> checker ht v hk param = chk es (hk_key hk) v"
  shows "\<exists>t ps'. zend_hash_merge target source ctor sz replace = Some t \<and>
      merged target es (merge_entries (\<lambda>es k v. replace \<or> k \<notin> fst ` set es) (ctor_fun ctor) es ses) t ps' \<and>
      pInternalPointer t = first_ptr ps' None"
    "\<exists>t ps'. zend_hash_merge_ex target source ctor sz checker param = Some t \<and>
      merged target es (merge_entries chk (ctor_fun ctor) es ses) t ps' \<and> pInternalPointer t = first_ptr ps' None"
proof -
  let ?body = "merge_body ctor sz (if replace then HASH_UPDATE else HASH_ADD)" and ?bodyx = "merge_ex_body ctor sz checker param"
  let ?P = "\<lambda>es k v. replace \<or> k \<notin> fst ` set es"
  have "\<exists>t' ps2. ?body a b t = Some t' \<and> merged target es (merge_entry ?P (ctor_fun ctor) st (bkey b, v)) t' ps2"
    if "bucket_ok b" "bucket_data b = Some v" "merged target es st t ps1" for a b t ps1 st v
    using merge_body_spec [OF that] by blast
  then have "\<exists>t ps'. source_loop ?body (ht_mem source) (pListHead source) target = Some t \<and>
      merged target es (merge_entries ?P (ctor_fun ctor) es ses) t ps'"
    by (intro merge_loop_spec [OF assms(1,2)])
  then obtain t ps' where
    t: "source_loop ?body (ht_mem source) (pListHead source) target = Some t"
    "merged target es (merge_entries ?P (ctor_fun ctor) es ses) t ps'" by blast
  from merged_head [OF t(2)] t
  show "\<exists>t ps'. zend_hash_merge target source ctor sz replace = Some t \<and>
      merged target es (merge_entries ?P (ctor_fun ctor) es ses) t ps' \<and> pInternalPointer t = first_ptr ps' None"
    unfolding zend_hash_merge_def Let_def by (auto intro!: exI [of _ ps'])
  have "\<exists>t' ps2. ?bodyx a b t = Some t' \<and> merged target es (merge_entry chk (ctor_fun ctor) st (bkey b, v)) t' ps2"
    if "bucket_ok b" "bucket_data b = Some v" "merged target es st t ps1" for a b t ps1 st v
    using merge_ex_body_spec [OF that, of checker param chk ctor sz a] assms(3) by blast
  then have "\<exists>t ps'. source_loop ?bodyx (ht_mem source) (pListHead source) target = Some t \<and>
      merged target es (merge_entries chk (ctor_fun ctor) es ses) t ps'"
    by (intro merge_loop_spec [OF assms(1,2)])
  then obtain t ps' where
    t: "source_loop ?bodyx (ht_mem source) (pListHead source) target = Some t"
    "merged target es (merge_entries chk (ctor_fun ctor) es ses) t ps'" by blast
  from merged_head [OF t(2)] t
  show "\<exists>t ps'. zend_hash_merge_ex target source ctor sz checker param = Some t \<and>
      merged target es (merge_entries chk (ctor_fun ctor) es ses) t ps' \<and> pInternalPointer t = first_ptr ps' None"
    unfolding zend_hash_merge_ex_def by (auto intro!: exI [of _ ps'])
qed

text \<open>
  C21: \<open>_zend_hash_merge\<close> returns and stores the entries of the source in the target, all of them when
  it overwrites and otherwise those with a key the target does not have;
  \<open>zend_hash_merge_ex\<close> stores those its checker accepts, the checker seeing the entries merged so
  far. Both leave the internal pointer at the first entry, and displaced values go to the destructor.
\<close>
theorem hash_merge_refines:
  assumes "represents source sps ses" "represents target ps es"
    and "\<And>ht ps es v hk. represents ht ps es \<Longrightarrow> checker ht v hk param = chk es (hk_key hk) v"
  shows "(\<exists>t ps'. zend_hash_merge target source ctor sz replace = Some t \<and>
      merged target es (merge_entries (\<lambda>es k v. replace \<or> k \<notin> fst ` set es) (ctor_fun ctor) es ses) t ps' \<and>
      pInternalPointer t = first_ptr ps' None) \<and>
    (\<exists>t ps'. zend_hash_merge_ex target source ctor sz checker param = Some t \<and>
      merged target es (merge_entries chk (ctor_fun ctor) es ses) t ps' \<and> pInternalPointer t = first_ptr ps' None)"
  by (rule conjI [OF hash_merge_refines_parts(1) [OF assms(1,2), of checker param chk] hash_merge_refines_parts(2) [OF assms(1,2)]];
    erule assms(3))

theorem hash_merge_refines_witness:
  "\<exists>t ps'. zend_hash_merge (hash_of [(StrKey [97], 6 :: nat)]) (hash_of [(StrKey [97], 5), (IdxKey 4, 2)]) (Some Suc) 8 False = Some t \<and>
      represents t ps' [(StrKey [97], 6), (IdxKey 4, 3)] \<and> pInternalPointer t = first_ptr ps' None"
proof -
  obtain ps where s: "represents (hash_of [(StrKey [97], 5 :: nat), (IdxKey 4, 2)]) ps [(StrKey [97], 5), (IdxKey 4, 2)]"
    using hash_of_represents [of "[(StrKey [97], 5 :: nat), (IdxKey 4, 2)]"] by auto
  obtain ps0 where t: "represents (hash_of [(StrKey [97], 6 :: nat)]) ps0 [(StrKey [97], 6)]"
    using hash_of_represents [of "[(StrKey [97], 6 :: nat)]"] by auto
  let ?checker = "\<lambda>_ v hk _. hk_nKeyLength hk \<noteq> 0 \<and> v < 9"
  let ?chk = "\<lambda>_ k v. (case k of StrKey _ \<Rightarrow> v < 9 | _ \<Rightarrow> False)"
  have "?checker ht v hk () = ?chk es (hk_key hk) v" for ht :: "nat HashTable" and es v hk
    by (simp add: hk_key_def)
  from hash_merge_refines [of _ _ _ _ _ _ ?checker "()" ?chk "Some Suc" 8 False, OF s t this, THEN conjunct1] show ?thesis
    by (auto simp: merged_def merge_entries_def merge_entry_def ctor_fun_def list_of_option_def)
qed

end
