(* ===== verification/ZendHashSort.thy ===== *)
theory ZendHashSort imports ZendHashTraverse begin

text \<open>
  \<open>zend_hash_sort\<close> of \<open>Zend/zend_hash.c\<close>: the buckets are collected in an array, sorted through a
  function pointer, linked in the new order and, on request, renumbered from 0, which turns every
  key into an integer key and rebuilds the collision chains.

  The sort function is an argument of the model, as it is of the code. What the operation needs of
  it is the locale \<open>node_sorter\<close>; \<open>zend_qsort\<close>, which the callers pass, provides it. A comparison
  function reads the key and the data of two buckets.
\<close>

section \<open>Operations\<close>

text \<open>The array of bucket pointers; it has room for \<open>nNumOfElements\<close> of them.\<close>

definition collect_buckets :: "'v HashTable \<Rightarrow> (addr \<times> 'v bucket) list option" where
  "collect_buckets ht = do {
     nodes \<leftarrow> collect_nodes pListNext (ht_mem ht) (pListHead ht);
     if length nodes \<le> unat (nNumOfElements ht) then Some nodes else None
   }"

text \<open>\<open>arTmp[j]->pListLast = arTmp[j-1]; arTmp[j]->pListNext = arTmp[j+1];\<close> with \<open>NULL\<close> at the ends.\<close>

fun hash_relink :: "ptr \<Rightarrow> addr list \<Rightarrow> 'v bucket region \<Rightarrow> 'v bucket region option" where
  "hash_relink prev [] r = Some r"
| "hash_relink prev (a # as) r = do {
     r \<leftarrow> upd_cell a (set_pListLast prev) r;
     r \<leftarrow> upd_cell a (set_pListNext (first_ptr as None)) r;
     hash_relink (Some a) as r
   }"

partial_function (option) renumber_loop :: "nat \<Rightarrow> 'v bucket region \<Rightarrow> ptr \<Rightarrow> (nat \<times> 'v bucket region) option" where
  "renumber_loop i r p =
     (case p of None \<Rightarrow> Some (i, r)
      | Some a \<Rightarrow> do {
          r \<leftarrow> upd_cell a (\<lambda>b. b\<lparr>nKeyLength := 0, b_h := of_nat i\<rparr>) r;
          b \<leftarrow> cells r a;
          renumber_loop (i + 1) r (pListNext b)
        })"

declare renumber_loop.simps [code]

type_synonym 'v node_sort = "(addr \<times> 'v bucket) list \<Rightarrow> (addr \<times> 'v bucket) compare \<Rightarrow> (addr \<times> 'v bucket) list option"

definition zend_hash_sort ::
  "'v HashTable \<Rightarrow> 'v node_sort \<Rightarrow> 'v bucket compare \<Rightarrow> bool \<Rightarrow> (zend_result \<times> 'v HashTable) option" where
  "zend_hash_sort ht sort_func compar renumber =
     (if \<not> 1 < nNumOfElements ht \<and> \<not> (renumber \<and> 0 < nNumOfElements ht) then Some (SUCCESS, ht)
      else if persistent ht \<and> \<not> ht_alloc_ok ht (nNumOfElements ht) then Some (FAILURE, ht)
      else do {
        nodes \<leftarrow> collect_buckets ht;
        sorted \<leftarrow> sort_func nodes (\<lambda>x y. compar (snd x) (snd y));
        case map fst sorted of
          [] \<Rightarrow> None
        | a0 # as \<Rightarrow> do {
            r \<leftarrow> hash_relink None (a0 # as) (ht_mem ht);
            let ht = ht\<lparr>ht_mem := r, pListHead := Some a0, pListTail := Some (last (a0 # as)), pInternalPointer := Some a0\<rparr>;
            if renumber then do {
              (i, r) \<leftarrow> renumber_loop 0 (ht_mem ht) (pListHead ht);
              ht \<leftarrow> zend_hash_rehash (ht\<lparr>ht_mem := r, nNextFreeElement := of_nat i\<rparr>);
              Some (SUCCESS, ht)
            } else Some (SUCCESS, ht)
          }
      })"

section \<open>The loops\<close>

lemma hash_relink_spec:
  "distinct as \<Longrightarrow> set as \<subseteq> dom (cells r) \<Longrightarrow> region_wf r \<Longrightarrow>
     \<exists>r'. hash_relink prev as r = Some r' \<and> dseg (glinks r') prev as None \<and>
       (\<forall>a. a \<notin> set as \<longrightarrow> glinks r' a = glinks r a) \<and> view pay r' = view pay r \<and>
       clinks r' = clinks r \<and> region_wf r'"
proof (induction as arbitrary: prev r)
  case (Cons a as)
  then have "glinks r a \<noteq> None" by auto
  then obtain n p where "glinks r a = Some (n, p)" by fastforce
  from gl.links_upd_pv [OF this, of prev] obtain r1 where
    r1: "upd_cell a (set_pListLast prev) r = Some r1" "glinks r1 = (glinks r)(a \<mapsto> (n, prev))" by blast
  then have "glinks r1 a = Some (n, prev)" by simp
  from gl.links_upd_nx [OF this, of "first_ptr as None"] obtain r2 where
    r2: "upd_cell a (set_pListNext (first_ptr as None)) r1 = Some r2"
    "glinks r2 = (glinks r1)(a \<mapsto> (first_ptr as None, prev))" by blast
  have frame: "view pay r2 = view pay r" "clinks r2 = clinks r"
    using view_upd_cell_same [OF r1(1), of pay] view_upd_cell_same [OF r2(1), of pay]
      view_upd_cell_same [OF r1(1), of "\<lambda>b. (pNext b, pLast b)"] view_upd_cell_same [OF r2(1), of "\<lambda>b. (pNext b, pLast b)"]
    by simp_all
  have wf: "region_wf r2" "set as \<subseteq> dom (cells r2)"
    using region_wf_upd_cell [OF region_wf_upd_cell [OF Cons.prems(3) r1(1)] r2(1)] dom_upd_cell [OF r1(1)]
      dom_upd_cell [OF r2(1)] Cons.prems(2) by auto
  from Cons.IH [of r2 "Some a"] Cons.prems(1) wf obtain r' where
    r': "hash_relink (Some a) as r2 = Some r'" "dseg (glinks r') (Some a) as None"
      "\<forall>x. x \<notin> set as \<longrightarrow> glinks r' x = glinks r2 x" "view pay r' = view pay r2" "clinks r' = clinks r2" "region_wf r'"
    by auto
  with Cons.prems(1) r1 r2 frame show ?case by (intro exI [of _ r']) auto
qed auto

definition renumbered_bucket :: "nat \<Rightarrow> 'v bucket \<Rightarrow> 'v bucket" where
  "renumbered_bucket i b = b\<lparr>nKeyLength := 0, b_h := of_nat i\<rparr>"

lemma renumber_loop_spec:
  "dseg (glinks r) prev xs None \<Longrightarrow> distinct xs \<Longrightarrow> region_wf r \<Longrightarrow>
     \<exists>r'. renumber_loop i r (first_ptr xs None) = Some (i + length xs, r') \<and> glinks r' = glinks r \<and>
       (\<forall>j<length xs. cells r' (xs ! j) = Some (renumbered_bucket (i + j) (the (cells r (xs ! j))))) \<and>
       (\<forall>a. a \<notin> set xs \<longrightarrow> cells r' a = cells r a) \<and> region_wf r'"
proof (induction xs arbitrary: i r prev)
  case Nil
  show ?case by (subst renumber_loop.simps) (use Nil in auto)
next
  case (Cons x xs)
  then obtain b where b: "cells r x = Some b" "pListNext b = first_ptr xs None" by (auto simp: view_Some_iff)
  let ?f = "\<lambda>b. b\<lparr>nKeyLength := 0, b_h := of_nat i\<rparr>"
  from upd_cell_eq [OF b(1)] obtain r1 where
    r1: "upd_cell x ?f r = Some r1" "cells r1 = (cells r)(x \<mapsto> ?f b)" by fastforce
  have g: "glinks r1 = glinks r" using view_upd_cell_same [OF r1(1), of "\<lambda>b. (pListNext b, pListLast b)"] by simp
  have seg: "dseg (glinks r1) (Some x) xs None" unfolding g using Cons.prems(1) by simp
  have d: "x \<notin> set xs" "distinct xs" using Cons.prems(2) by auto
  from Cons.IH [OF seg d(2) region_wf_upd_cell [OF Cons.prems(3) r1(1)], of "i + 1"] obtain r' where r':
    "renumber_loop (i + 1) r1 (first_ptr xs None) = Some (i + 1 + length xs, r')" "glinks r' = glinks r1"
    "\<forall>j<length xs. cells r' (xs ! j) = Some (renumbered_bucket (i + 1 + j) (the (cells r1 (xs ! j))))"
    "\<forall>a. a \<notin> set xs \<longrightarrow> cells r' a = cells r1 a" "region_wf r'" by blast
  have "renumber_loop i r (first_ptr (x # xs) None) = Some (i + length (x # xs), r')"
    using r1 b r'(1) by (subst renumber_loop.simps) simp
  moreover have "cells r' ((x # xs) ! j) = Some (renumbered_bucket (i + j) (the (cells r ((x # xs) ! j))))"
    if "j < length (x # xs)" for j
  proof (cases j)
    case 0
    with r'(4) d r1(2) b show ?thesis by (simp add: renumbered_bucket_def)
  next
    case (Suc k)
    with that have "k < length xs" "xs ! k \<noteq> x" using d by auto
    with Suc r'(3) r1(2) show ?thesis by simp
  qed
  moreover have "cells r' a = cells r a" if "a \<notin> set (x # xs)" for a using that r'(4) r1(2) by simp
  ultimately show ?case using r'(2,5) unfolding g by (intro exI [of _ r'] conjI allI impI)
qed

section \<open>The invariant after relinking and renumbering\<close>

definition renumbered :: "(hkey \<times> 'v) list \<Rightarrow> (hkey \<times> 'v) list" where
  "renumbered es = map (\<lambda>i. (IdxKey (of_nat i), snd (es ! i))) [0..<length es]"

lemma relinked_inv:
  assumes inv: "hash_inv ht ps chn" and ys: "ys = a0 # as" "set ys = set ps" "distinct ys" "length ys = length ps"
  shows "\<exists>r'. hash_relink None ys (ht_mem ht) = Some r' \<and>
    hash_inv (ht\<lparr>ht_mem := r', pListHead := Some a0, pListTail := Some (last ys), pInternalPointer := Some a0\<rparr>) ys chn \<and>
    map (entry r') ys = map (entry (ht_mem ht)) ys"
proof -
  note d = hash_invD [OF inv]
  from hash_relink_spec [of ys "ht_mem ht" None] ys d(1,2) obtain r' where r':
    "hash_relink None ys (ht_mem ht) = Some r'" "dseg (glinks r') None ys None" "view pay r' = view pay (ht_mem ht)"
    "clinks r' = clinks (ht_mem ht)" "region_wf r'" by auto
  have same: "entry r' a = entry (ht_mem ht) a" for a by (rule pay_frame(3) [OF r'(3)])
  have "contents_ok (ht_mem ht) ys"
    using d(6) ys(2,3) unfolding contents_ok_def distinct_map by simp
  then have c: "contents_ok r' ys" using contents_frame [OF r'(3)] by blast
  have ch: "chains_ok r' (arBuckets ht) (nTableMask ht) (set ys) chn"
    using d(5) chains_frame [OF r'(4,3)] unfolding ys(2) by blast
  have a0: "a0 \<in> set ps" using ys(1,2) by auto
  have L: "dlist (glinks r') (Some a0) (Some (last ys)) ys"
    using r'(2) ys(1,3) by (simp add: dlist_def last_ptr_def)
  have "hash_inv (ht\<lparr>ht_mem := r', pListHead := Some a0, pListTail := Some (last ys), pInternalPointer := Some a0\<rparr>) ys chn"
    unfolding hash_inv_def using r'(5) pay_frame(5) [OF r'(3)] d(2,4,7) ys(2-) L c ch a0 by simp
  with r'(1) show ?thesis by (intro exI [of _ r']) (simp add: same)
qed

lemma renumber_inv:
  assumes inv: "hash_inv ht ps chn" and len: "length ps < 2 ^ 32"
  shows "\<exists>r ht'. renumber_loop 0 (ht_mem ht) (pListHead ht) = Some (length ps, r) \<and>
    zend_hash_rehash (ht\<lparr>ht_mem := r, nNextFreeElement := nf\<rparr>) = Some ht' \<and>
    represents ht' ps (renumbered (map (entry (ht_mem ht)) ps)) \<and> config ht' = config ht \<and>
    ht_dtor_log ht' = ht_dtor_log ht \<and> nNextFreeElement ht' = nf \<and> pInternalPointer ht' = pInternalPointer ht"
proof -
  note d = hash_invD [OF inv]
  let ?r = "ht_mem ht"
  have seg: "dseg (glinks ?r) None ps None" and h: "pListHead ht = first_ptr ps None" and dist: "distinct ps"
    using d(3) by (simp_all add: dlist_def)
  from renumber_loop_spec [OF seg dist d(1), of 0] obtain r1 where r1:
    "renumber_loop 0 ?r (first_ptr ps None) = Some (0 + length ps, r1)" "glinks r1 = glinks ?r"
    "\<forall>j<length ps. cells r1 (ps ! j) = Some (renumbered_bucket (0 + j) (the (cells ?r (ps ! j))))"
    "\<forall>a. a \<notin> set ps \<longrightarrow> cells r1 a = cells ?r a" "region_wf r1" by blast
  let ?ht1 = "ht\<lparr>ht_mem := r1, nNextFreeElement := nf\<rparr>"
  have L: "dlist (glinks (ht_mem ?ht1)) (pListHead ?ht1) (pListTail ?ht1) ps" using d(3) by (simp add: r1(2))
  have s: "size_ok (nTableSize ?ht1) (nTableMask ?ht1) (arBuckets ?ht1)" using d(4) by simp
  from rehash_spec [OF L s] obtain r2 heads chn2 where r2:
    "zend_hash_rehash ?ht1 = Some (?ht1\<lparr>ht_mem := r2, arBuckets := heads\<rparr>)"
    "chains_ok r2 heads (nTableMask ht) (set ps) chn2" "size_ok (nTableSize ht) (nTableMask ht) heads"
    "glinks r2 = glinks r1" "view pay r2 = view pay r1" "region_wf r2" using r1(5) by auto
  have dom1: "dom (cells r1) = set ps"
  proof (intro equalityI subsetI)
    fix a assume "a \<in> dom (cells r1)"
    then show "a \<in> set ps" using r1(4) d(2) by fastforce
  next
    fix a assume "a \<in> set ps"
    then show "a \<in> dom (cells r1)" using r1(3) by (auto simp: in_set_conv_nth)
  qed
  have at: "bucket_ok (the (cells r1 (ps ! j))) \<and> bkey (the (cells r1 (ps ! j))) = IdxKey (of_nat j) \<and>
      bucket_data (the (cells r1 (ps ! j))) = bucket_data (the (cells ?r (ps ! j)))" if "j < length ps" for j
  proof -
    from hash_inv_live [OF inv, of "ps ! j"] that have "bucket_ok (the (cells ?r (ps ! j)))" by auto
    with that r1(3) show ?thesis
      by (auto simp: renumbered_bucket_def bucket_ok_def bkey_def bucket_data_def split: data_ref.split)
  qed
  have keys: "map (\<lambda>a. bkey (the (cells r1 a))) ps = map (\<lambda>i. IdxKey (of_nat i)) [0..<length ps]"
    using at by (intro nth_equalityI) simp_all
  have inj: "inj_on (\<lambda>i. IdxKey (of_nat i)) (set [0..<length ps])"
  proof (rule inj_onI)
    fix i j assume a: "i \<in> set [0..<length ps]" "j \<in> set [0..<length ps]" "IdxKey (of_nat i) = IdxKey (of_nat j)"
    then have lt: "i < 2 ^ LENGTH(64)" "j < 2 ^ LENGTH(64)" using len by simp_all
    from a(3) have "unat (of_nat i :: u64) = unat (of_nat j :: u64)" by simp
    then show "i = j" using unat_of_nat_small [OF lt(1)] unat_of_nat_small [OF lt(2)] by simp
  qed
  have "contents_ok r1 ps"
    unfolding contents_ok_def keys distinct_map using at inj by (auto simp: in_set_conv_nth)
  then have "contents_ok r2 ps" using contents_frame [OF r2(5)] by blast
  then have inv2: "hash_inv (?ht1\<lparr>ht_mem := r2, arBuckets := heads\<rparr>) ps chn2"
    unfolding hash_inv_def using r2 L d(7,8) dom1 pay_frame(5) [OF r2(5)] by (simp add: r2(4))
  have "map (entry r2) ps = renumbered (map (entry ?r) ps)"
    unfolding pay_frame(3) [OF r2(5)] renumbered_def using at by (intro nth_equalityI) (simp_all add: entry_def)
  with inv2 have "represents (?ht1\<lparr>ht_mem := r2, arBuckets := heads\<rparr>) ps (renumbered (map (entry ?r) ps))"
    by (intro representsI) simp_all
  with r1(1) r2(1) h show ?thesis
    by (intro exI [of _ r1] exI [of _ "?ht1\<lparr>ht_mem := r2, arBuckets := heads\<rparr>"]) (simp add: config_def)
qed

definition bucket_entry :: "'v bucket \<Rightarrow> hkey \<times> 'v" where
  "bucket_entry b = (bkey b, the (bucket_data b))"

lemma entry_bucket: "entry r a = bucket_entry (the (cells r a))"
  by (simp add: entry_def bucket_entry_def)

section \<open>Sorting, for any sorter of nodes\<close>

locale bucket_sorter = node_sorter srt for srt :: "'v node_sort"
begin

lemma hash_sort_spec:
  assumes rep: "represents ht ps es" and len: "length ps < 2 ^ 32"
    and alloc: "persistent ht \<longrightarrow> ht_alloc_ok ht (nNumOfElements ht)"
  shows "\<exists>ht' ps' sorted. zend_hash_sort ht srt (\<lambda>x y. cmp (bucket_entry x) (bucket_entry y)) renumber = Some (SUCCESS, ht') \<and>
    mset sorted = mset es \<and> (preorder_compare cmp \<longrightarrow> sorted_wrt (below cmp) sorted) \<and>
    represents ht' ps' (if renumber then renumbered sorted else sorted) \<and> set ps' = set ps \<and>
    config ht' = config ht \<and> ht_dtor_log ht' = ht_dtor_log ht \<and>
    nNextFreeElement ht' = (if renumber \<and> es \<noteq> [] then of_nat (length es) else nNextFreeElement ht) \<and>
    (1 < length es \<longrightarrow> pInternalPointer ht' = first_ptr ps' None)"
proof -
  obtain chn where inv: "hash_inv ht ps chn" and es: "es = map (entry (ht_mem ht)) ps" using represents_inv [OF rep] by blast
  note d = hash_invD [OF inv]
  have n: "unat (nNumOfElements ht) = length ps" using d(7) len by (simp add: unat_of_nat_small)
  show ?thesis
  proof (cases "1 < length ps \<or> renumber \<and> 0 < length ps")
    case False
    then have "zend_hash_sort ht srt (\<lambda>x y. cmp (bucket_entry x) (bucket_entry y)) renumber = Some (SUCCESS, ht)"
      by (auto simp: zend_hash_sort_def word_less_nat_alt n)
    moreover have small: "length es \<le> 1" "renumber \<Longrightarrow> es = []" using False by (auto simp: es)
    then have "sorted_wrt (below cmp) es" "renumber \<Longrightarrow> renumbered es = es"
      by (cases es; simp add: renumbered_def)+
    ultimately show ?thesis using rep small by (intro exI [of _ ht] exI [of _ ps] exI [of _ es]) auto
  next
    case True
    let ?r = "ht_mem ht" and ?g = "\<lambda>a. the (cells (ht_mem ht) a)"
    let ?c = "\<lambda>(x :: addr \<times> 'v bucket) y. cmp (bucket_entry (snd x)) (bucket_entry (snd y))"
    have dist: "distinct ps" and seg: "dseg (glinks ?r) None ps None" and h: "pListHead ht = first_ptr ps None"
      using d(3) by (simp_all add: dlist_def)
    have col: "collect_buckets ht = Some (map (\<lambda>a. (a, ?g a)) ps)"
      using gl.collect_dseg [OF seg] n by (simp add: collect_buckets_def h)
    have l64: "length ps < 2 ^ 64" using len by simp
    obtain ys where ys: "srt (map (\<lambda>a. (a, ?g a)) ps) ?c = Some (map (\<lambda>a. (a, ?g a)) ys)"
      "mset ys = mset ps" "distinct ys" "set ys = set ps" "length ys = length ps"
      "preorder_compare ?c \<longrightarrow> sorted_wrt (\<lambda>a b. below ?c (a, ?g a) (b, ?g b)) ys"
      using sort_nodes [OF l64 dist, of ?g ?c] by blast
    obtain a0 as where ye: "ys = a0 # as" using ys(5) True by (cases ys) auto
    from relinked_inv [OF inv ye ys(4,3,5)] obtain r' where r': "hash_relink None ys ?r = Some r'"
      "hash_inv (ht\<lparr>ht_mem := r', pListHead := Some a0, pListTail := Some (last ys), pInternalPointer := Some a0\<rparr>) ys chn"
      "map (entry r') ys = map (entry ?r) ys" by blast
    let ?ht1 = "ht\<lparr>ht_mem := r', pListHead := Some a0, pListTail := Some (last ys), pInternalPointer := Some a0\<rparr>"
    let ?sorted = "map (entry ?r) ys"
    have m: "mset ?sorted = mset es" using ys(2) by (simp add: es)
    have "preorder_compare ?c" if "preorder_compare cmp"
      using preorder_compare_map [OF that, of "\<lambda>x. bucket_entry (snd x)"] by simp
    then have srt: "preorder_compare cmp \<longrightarrow> sorted_wrt (below cmp) ?sorted"
      using ys(6) by (auto simp: sorted_wrt_map entry_bucket below_def)
    have start: "\<not> (\<not> 1 < nNumOfElements ht \<and> \<not> (renumber \<and> 0 < nNumOfElements ht))"
      "\<not> (persistent ht \<and> \<not> ht_alloc_ok ht (nNumOfElements ht))"
      using True alloc by (auto simp: word_less_nat_alt n)
    have fst_ys: "map fst (map (\<lambda>a. (a, ?g a)) ys) = a0 # as" using ye by (simp add: comp_def)
    have run: "zend_hash_sort ht srt (\<lambda>x y. cmp (bucket_entry x) (bucket_entry y)) renumber =
      (if renumber then do {
          (i, r) \<leftarrow> renumber_loop 0 (ht_mem ?ht1) (pListHead ?ht1);
          ht \<leftarrow> zend_hash_rehash (?ht1\<lparr>ht_mem := r, nNextFreeElement := of_nat i\<rparr>);
          Some (SUCCESS, ht)
        } else Some (SUCCESS, ?ht1))"
      unfolding zend_hash_sort_def if_not_P [OF start(1)] if_not_P [OF start(2)] col Let_def bind.bind_lunit ys(1)
        fst_ys list.case r'(1) [unfolded ye] unfolding ye [symmetric] ..
    have first: "pInternalPointer ?ht1 = first_ptr ys None" by (simp add: ye)
    have "es \<noteq> []" using True by (auto simp: es)
    show ?thesis
    proof (cases renumber)
      case False
      have "represents ?ht1 ys ?sorted" using r'(2,3) by (intro representsI) simp_all
      with False run m srt ys(4) first show ?thesis
        by (intro exI [of _ ?ht1] exI [of _ ys] exI [of _ ?sorted]) (simp add: config_def)
    next
      case True
      have "length ys < 2 ^ 32" using len ys(5) by simp
      from renumber_inv [OF r'(2) this, of "of_nat (length ys)"] obtain r2 ht2 where r2:
        "renumber_loop 0 (ht_mem ?ht1) (pListHead ?ht1) = Some (length ys, r2)"
        "zend_hash_rehash (?ht1\<lparr>ht_mem := r2, nNextFreeElement := of_nat (length ys)\<rparr>) = Some ht2"
        "represents ht2 ys (renumbered (map (entry (ht_mem ?ht1)) ys))" "config ht2 = config ?ht1"
        "ht_dtor_log ht2 = ht_dtor_log ?ht1" "nNextFreeElement ht2 = of_nat (length ys)"
        "pInternalPointer ht2 = pInternalPointer ?ht1" by blast
      have "zend_hash_sort ht srt (\<lambda>x y. cmp (bucket_entry x) (bucket_entry y)) renumber = Some (SUCCESS, ht2)"
        unfolding run if_P [OF True] r2(1) bind.bind_lunit prod.case r2(2) ..
      moreover have "represents ht2 ys (renumbered ?sorted)" using r2(3) r'(3) by simp
      moreover have "length ys = length es" using ys(5) by (simp add: es)
      ultimately show ?thesis using True m srt ys(4) first r2(4-7) \<open>es \<noteq> []\<close>
        by (intro exI [of _ ht2] exI [of _ ys] exI [of _ ?sorted]) (simp add: config_def)
    qed
  qed
qed

end

interpretation bs: bucket_sorter "\<lambda>xs. zend_qsort xs 8"
  by unfold_locales

section \<open>Properties\<close>



end
