(* ===== verification/ZendSymtable.thy ===== *)
theory ZendSymtable imports ZendHashDelete begin

text \<open>
  The symbol table functions of \<open>Zend/zend_hash.h\<close>: a string key that is the decimal form of a
  \<open>long\<close> is turned into that integer key, every other string key is used as it is.

  A key is a byte array with its length, the terminating zero byte included. A read outside of the
  array is the value \<open>None\<close>. The lemmas show which strings the macro \<open>ZEND_HANDLE_NUMERIC\<close> accepts:
  exactly the canonical decimals of the 64-bit integers; the properties lift this to the operations.
\<close>

section \<open>Operations\<close>

definition char_at :: "u8 list \<Rightarrow> nat \<Rightarrow> u8 option" where
  "char_at key i = (if i < length key then Some (key ! i) else None)"

definition is_digit :: "u8 \<Rightarrow> bool" where
  "is_digit c \<longleftrightarrow> 48 \<le> c \<and> c \<le> 57"

definition MAX_LENGTH_OF_LONG :: nat where "MAX_LENGTH_OF_LONG = 20"

text \<open>\<open>while (++tmp != end && *tmp >= '0' && *tmp <= '9') idx = idx * 10 + (*tmp - '0');\<close>\<close>

partial_function (option) digit_loop :: "u8 list \<Rightarrow> nat \<Rightarrow> nat \<Rightarrow> u64 \<Rightarrow> (nat \<times> u64) option" where
  "digit_loop key tmp en idx =
     (let tmp = tmp + 1 in
      if tmp \<noteq> en then do {
        c \<leftarrow> char_at key tmp;
        if is_digit c then digit_loop key tmp en (idx * 10 + ucast (c - 48)) else Some (tmp, idx)
      } else Some (tmp, idx))"

declare digit_loop.simps [code]

text \<open>
  The macro: \<open>Some (Some idx)\<close> where it returns \<open>func\<close> with \<open>idx\<close>, \<open>Some None\<close> where it breaks or
  falls through. \<open>SIZEOF_LONG\<close> is 8.
\<close>

definition ZEND_HANDLE_NUMERIC :: "u8 list \<Rightarrow> u32 \<Rightarrow> u64 option option" where
  "ZEND_HANDLE_NUMERIC key len = do {
     k0 \<leftarrow> char_at key 0;
     let tmp = (if k0 = 45 then 1 else 0);
     c \<leftarrow> char_at key tmp;
     if \<not> is_digit c then Some None
     else if len = 0 then None
     else do {
       let en = unat len - 1;
       ce \<leftarrow> char_at key en;
       if ce \<noteq> 0 \<or> c = 48 \<and> 2 < len \<or> int en - int tmp > int MAX_LENGTH_OF_LONG - 1 then Some None
       else do {
         (tmp, idx) \<leftarrow> digit_loop key tmp en (ucast (c - 48));
         if tmp = en then
           if k0 = 45 then
             if idx - 1 > LONG_MAX then Some None else Some (Some (- idx))
           else if idx > LONG_MAX then Some None else Some (Some idx)
         else Some None
       }
     }
   }"

definition zend_symtable_update :: "'v HashTable \<Rightarrow> u8 list \<Rightarrow> u32 \<Rightarrow> 'v \<Rightarrow> u32 \<Rightarrow> 'v insert_result" where
  "zend_symtable_update ht key n v sz = do {
     num \<leftarrow> ZEND_HANDLE_NUMERIC key n;
     case num of Some idx \<Rightarrow> zend_hash_index_update ht idx v sz | None \<Rightarrow> zend_hash_update ht key n v sz
   }"

definition zend_symtable_del :: "'v HashTable \<Rightarrow> u8 list \<Rightarrow> u32 \<Rightarrow> (zend_result \<times> 'v HashTable) option" where
  "zend_symtable_del ht key n = do {
     num \<leftarrow> ZEND_HANDLE_NUMERIC key n;
     case num of Some idx \<Rightarrow> zend_hash_index_del ht idx | None \<Rightarrow> zend_hash_del ht key n
   }"

definition zend_symtable_find :: "'v HashTable \<Rightarrow> u8 list \<Rightarrow> u32 \<Rightarrow> (zend_result \<times> ptr) option" where
  "zend_symtable_find ht key n = do {
     num \<leftarrow> ZEND_HANDLE_NUMERIC key n;
     case num of Some idx \<Rightarrow> zend_hash_index_find ht idx | None \<Rightarrow> zend_hash_find ht key n
   }"

definition zend_symtable_exists :: "'v HashTable \<Rightarrow> u8 list \<Rightarrow> u32 \<Rightarrow> bool option" where
  "zend_symtable_exists ht key n = do {
     num \<leftarrow> ZEND_HANDLE_NUMERIC key n;
     case num of Some idx \<Rightarrow> zend_hash_index_exists ht idx | None \<Rightarrow> zend_hash_exists ht key n
   }"

section \<open>Decimals\<close>

fun nat_digits :: "nat \<Rightarrow> u8 list" where
  "nat_digits n = (if n < 10 then [of_nat n + 48] else nat_digits (n div 10) @ [of_nat (n mod 10) + 48])"

declare nat_digits.simps [simp del]

definition decimal :: "int \<Rightarrow> u8 list" where
  "decimal i = (if i < 0 then 45 # nat_digits (nat (- i)) else nat_digits (nat i))"

definition digit_value :: "u8 \<Rightarrow> nat" where
  "digit_value c = unat (c - 48)"

definition digits_value :: "u8 list \<Rightarrow> nat" where
  "digits_value ds = foldl (\<lambda>a c. a * 10 + digit_value c) 0 ds"

text \<open>A digit string without a leading zero.\<close>

definition canonical :: "u8 list \<Rightarrow> bool" where
  "canonical ds \<longleftrightarrow> ds \<noteq> [] \<and> list_all is_digit ds \<and> (hd ds = 48 \<longrightarrow> ds = [48])"

lemma digit_of_nat [simp]:
  "n < 10 \<Longrightarrow> is_digit (of_nat n + 48) \<and> digit_value (of_nat n + 48) = n \<and> ((of_nat n :: u8) = 0 \<longleftrightarrow> n = 0)"
proof -
  assume n: "n < 10"
  then have "n \<in> {0, 1, 2, 3, 4, 5, 6, 7, 8, 9}" by auto
  then show ?thesis by (auto simp: is_digit_def digit_value_def)
qed

lemma digit_value_less: "is_digit c \<Longrightarrow> digit_value c < 10"
  by (simp add: is_digit_def digit_value_def word_le_nat_alt unat_sub) arith

lemma digit_inverse: "is_digit c \<Longrightarrow> of_nat (digit_value c) + 48 = c"
  by (simp add: is_digit_def digit_value_def)

lemma digit_value_zero: "is_digit c \<Longrightarrow> digit_value c = 0 \<longleftrightarrow> c = 48"
  by (simp add: digit_value_def unsigned_eq_0_iff)

lemma digits_value_snoc [simp]: "digits_value (ds @ [c]) = digits_value ds * 10 + digit_value c"
  by (simp add: digits_value_def)

lemma nat_digits_canonical: "canonical (nat_digits n) \<and> digits_value (nat_digits n) = n \<and> (hd (nat_digits n) = 48 \<longleftrightarrow> n = 0)"
proof (induction n rule: nat_digits.induct)
  case (1 n)
  show ?case
  proof (cases "n < 10")
    case True
    then show ?thesis by (subst (1 2 3) nat_digits.simps) (simp add: canonical_def digits_value_def)
  next
    case False
    with 1 have ih: "canonical (nat_digits (n div 10))" "digits_value (nat_digits (n div 10)) = n div 10"
      "hd (nat_digits (n div 10)) \<noteq> 48" by auto
    then have "nat_digits (n div 10) \<noteq> []" by (simp add: canonical_def)
    with False ih show ?thesis by (subst (1 2 3) nat_digits.simps) (auto simp: canonical_def)
  qed
qed

lemma canonical_inverse: "canonical ds \<Longrightarrow> nat_digits (digits_value ds) = ds"
proof (induction ds rule: rev_induct)
  case Nil
  then show ?case by (simp add: canonical_def)
next
  case (snoc c ds)
  then have c: "is_digit c" by (simp add: canonical_def)
  show ?case
  proof (cases "ds = []")
    case True
    with digit_value_less [OF c] digit_inverse [OF c] show ?thesis
      by (subst nat_digits.simps) (simp add: digits_value_def)
  next
    case False
    with snoc.prems have "canonical ds" "hd ds \<noteq> 48" by (auto simp: canonical_def split: if_splits)
    with snoc.IH have ih: "nat_digits (digits_value ds) = ds" by simp
    then have "digits_value ds \<noteq> 0" using \<open>hd ds \<noteq> 48\<close> nat_digits_canonical [of 0] by metis
    with digit_value_less [OF c] have "\<not> digits_value ds * 10 + digit_value c < 10" by simp
    then show ?thesis using digit_value_less [OF c] digit_inverse [OF c] ih
      by (subst nat_digits.simps) simp
  qed
qed

lemma canonical_iff: "canonical ds \<longleftrightarrow> (\<exists>n. ds = nat_digits n)"
  using canonical_inverse nat_digits_canonical by metis

lemma digits_value_bounds:
  "list_all is_digit ds \<Longrightarrow> digits_value ds < 10 ^ length ds \<and>
     (ds \<noteq> [] \<longrightarrow> hd ds \<noteq> 48 \<longrightarrow> 10 ^ (length ds - 1) \<le> digits_value ds)"
proof (induction ds rule: rev_induct)
  case Nil
  then show ?case by (simp add: digits_value_def)
next
  case (snoc c ds)
  then have c: "digit_value c < 10" and ih: "digits_value ds < 10 ^ length ds"
    "ds \<noteq> [] \<longrightarrow> hd ds \<noteq> 48 \<longrightarrow> 10 ^ (length ds - 1) \<le> digits_value ds" by (simp_all add: digit_value_less)
  show ?case
  proof (cases "ds = []")
    case True
    with snoc.prems c digit_value_zero [of c] show ?thesis by (cases "c = 48") (simp_all add: digits_value_def Suc_le_eq)
  next
    case False
    then have "(10 :: nat) ^ length ds = 10 * 10 ^ (length ds - 1)" by (cases ds) simp_all
    with c ih False show ?thesis by auto
  qed
qed

section \<open>Which strings the macro accepts\<close>

definition numeric_key :: "u8 list \<Rightarrow> u64 option" where
  "numeric_key s =
     (let neg = (s \<noteq> [] \<and> hd s = 45); ds = (if neg then tl s else s); v = digits_value ds in
      if canonical ds \<and> (if neg then 0 < v \<and> v \<le> 2 ^ 63 else v < 2 ^ 63)
      then Some (if neg then - of_nat v else of_nat v) else None)"

lemma digit_loop_spec:
  "tmp < en \<Longrightarrow> en < length key \<Longrightarrow> ds = takeWhile is_digit (take (en - Suc tmp) (drop (Suc tmp) key)) \<Longrightarrow>
     digit_loop key tmp en idx = Some (Suc tmp + length ds, foldl (\<lambda>a c. a * 10 + ucast (c - 48)) idx ds)"
proof (induction "en - Suc tmp" arbitrary: tmp idx ds)
  case 0
  then have "Suc tmp = en" by simp
  with 0 show ?case by (subst digit_loop.simps) simp
next
  case (Suc k)
  let ?c = "key ! Suc tmp"
  have lt: "Suc tmp < en" "Suc tmp < length key" using Suc by simp_all
  have "drop (Suc tmp) key = ?c # drop (Suc (Suc tmp)) key" using lt(2) by (simp add: Cons_nth_drop_Suc)
  moreover have "en - Suc tmp = Suc (en - Suc (Suc tmp))" using lt(1) by simp
  ultimately have ds: "ds = takeWhile is_digit (?c # take (en - Suc (Suc tmp)) (drop (Suc (Suc tmp)) key))"
    using Suc.prems(3) by simp
  show ?case
  proof (cases "is_digit ?c")
    case True
    from Suc.hyps(1) [of "Suc tmp" _ "idx * 10 + ucast (?c - 48)", OF _ lt(1) Suc.prems(2) refl] Suc.hyps(2) True ds lt
    show ?thesis by (subst digit_loop.simps) (simp add: char_at_def)
  next
    case False
    with ds lt show ?thesis by (subst digit_loop.simps) (simp add: char_at_def)
  qed
qed

lemma fold_digits:
  "foldl (\<lambda>a c. a * 10 + ucast (c - 48)) (of_nat n :: u64) ds = of_nat (foldl (\<lambda>a c. a * 10 + digit_value c) n ds)"
proof (induction ds arbitrary: n)
  case (Cons c ds)
  have "(ucast (c - 48) :: u64) = of_nat (digit_value c)" by (simp add: digit_value_def)
  with Cons [of "n * 10 + digit_value c"] show ?case by (simp add: of_nat_add of_nat_mult)
qed simp

lemma canonical_not_digits: "\<not> list_all is_digit ds \<Longrightarrow> \<not> canonical ds"
  by (simp add: canonical_def)

lemma takeWhile_all: "length (takeWhile P xs) = length xs \<longleftrightarrow> list_all P xs"
  by (induction xs) auto

lemma numeric_spec:
  assumes n: "unat n = length s + 1"
  shows "ZEND_HANDLE_NUMERIC (s @ [0]) n = Some (numeric_key s)"
proof -
  let ?key = "s @ [0 :: u8]" and ?neg = "s \<noteq> [] \<and> hd s = 45"
  define tmp where "tmp = (if ?neg then 1 else 0 :: nat)"
  define ds where "ds = drop tmp s"
  have n0: "n \<noteq> 0" using n by auto
  have k0: "char_at ?key 0 = Some (if s = [] then 0 else hd s)" by (auto simp: char_at_def hd_conv_nth nth_append)
  have t: "(if (if s = [] then 0 else hd s) = 45 then 1 else 0) = tmp" by (simp add: tmp_def)
  have le: "tmp \<le> length s" by (auto simp: tmp_def Suc_le_eq)
  have c: "char_at ?key tmp = Some (if ds = [] then 0 else hd ds)"
    using le by (auto simp: char_at_def ds_def hd_drop_conv_nth nth_append)
  have ce: "char_at ?key (length s) = Some 0" by (simp add: char_at_def)
  have nk: "numeric_key s = (if canonical ds \<and> (if ?neg then 0 < digits_value ds \<and> digits_value ds \<le> 2 ^ 63 else digits_value ds < 2 ^ 63)
      then Some (if ?neg then - of_nat (digits_value ds) else of_nat (digits_value ds)) else None)"
    by (simp add: numeric_key_def ds_def tmp_def drop_Suc Let_def)
  have len: "length ds = length s - tmp" by (simp add: ds_def)
  note start = ZEND_HANDLE_NUMERIC_def k0 Let_def bind.bind_lunit t c
  show ?thesis
  proof (cases "ds \<noteq> [] \<and> is_digit (hd ds)")
    case False
    then have "\<not> canonical ds" by (cases ds) (auto simp: canonical_def)
    moreover have "\<not> is_digit (if ds = [] then 0 else hd ds)" using False by (auto simp: is_digit_def)
    ultimately show ?thesis unfolding start nk by simp
  next
    case True
    then obtain c ds' where dc: "ds = c # ds'" "is_digit c" by (cases ds) auto
    let ?v = "digits_value ds"
    have lt: "tmp < length s" using dc len by simp
    let ?brk = "c = 48 \<and> 2 < n \<or> int (length s) - int tmp > int MAX_LENGTH_OF_LONG - 1"
    have brk: "?brk \<longleftrightarrow> c = 48 \<and> 2 \<le> length s \<or> 19 < length ds"
      using n len lt by (auto simp: word_less_nat_alt MAX_LENGTH_OF_LONG_def)
    show ?thesis
    proof (cases ?brk)
      case B: True
      have "numeric_key s = None"
      proof (rule ccontr)
        assume "numeric_key s \<noteq> None"
        then have can: "canonical ds" and bnd: "if ?neg then 0 < ?v \<and> ?v \<le> 2 ^ 63 else ?v < 2 ^ 63"
          by (auto simp: nk split: if_splits)
        show False
        proof (cases "c = 48")
          case True
          with can dc have "ds = [48]" by (simp add: canonical_def)
          have "c = 48 \<and> 2 \<le> length s \<or> 19 < length ds" using brk B by (rule iffD1)
          with \<open>ds = [48]\<close> have "2 \<le> length s" by simp
          moreover have "length s - tmp = 1" using len \<open>ds = [48]\<close> by simp
          ultimately have "tmp \<noteq> 0" by linarith
          then have ?neg unfolding tmp_def by presburger
          with bnd \<open>ds = [48]\<close> show False by (simp add: digits_value_def digit_value_def)
        next
          case False
          have "c = 48 \<and> 2 \<le> length s \<or> 19 < length ds" using brk B by (rule iffD1)
          with False have l: "19 \<le> length ds - 1" by simp
          have "10 ^ (length ds - 1) \<le> ?v" using digits_value_bounds [of ds] can dc False by (simp add: canonical_def)
          moreover have "(10 :: nat) ^ 19 \<le> 10 ^ (length ds - 1)" using l by (intro power_increasing) simp_all
          ultimately have "10 ^ 19 \<le> ?v" by linarith
          with bnd show False by (simp split: if_splits)
        qed
      qed
      moreover have "(0 \<noteq> (0 :: u8) \<or> ?brk) = True" using B by blast
      moreover have "unat n - 1 = length s" "(if ds = [] then 0 else hd ds) = c" using n dc by simp_all
      ultimately show ?thesis unfolding start using dc(2) n0 ce by simp
    next
      case nb: False
      let ?run = "takeWhile is_digit ds'"
      have tk: "take (length s - Suc tmp) (drop (Suc tmp) ?key) = ds'"
      proof -
        have "drop tmp ?key = c # ds' @ [0]" using le dc(1) by (simp add: ds_def)
        then have "drop (Suc tmp) ?key = ds' @ [0]" by (metis drop_Suc list.sel(3) tl_drop)
        moreover have "length s - Suc tmp = length ds'" using len dc(1) by simp
        ultimately show ?thesis by simp
      qed
      have loop: "digit_loop ?key tmp (length s) (ucast (c - 48)) =
          Some (Suc tmp + length ?run, foldl (\<lambda>a c. a * 10 + ucast (c - 48)) (ucast (c - 48)) ?run)"
        by (rule digit_loop_spec [OF lt]) (simp_all only: tk length_append, simp)
      have brkF: "(0 \<noteq> (0 :: u8) \<or> c = 48 \<and> 2 < n \<or> int (length s) - int tmp > int MAX_LENGTH_OF_LONG - 1) = False"
        using nb by blast
      have en: "unat n - 1 = length s" and hdk: "(if ds = [] then 0 else hd ds) = c" using n dc by simp_all
      have neg: "(if s = [] then 0 else hd s) = 45 \<longleftrightarrow> ?neg" by simp
      have go: "ZEND_HANDLE_NUMERIC ?key n =
        (if Suc tmp + length ?run = length s then
           let idx = foldl (\<lambda>a c. a * 10 + ucast (c - 48)) (ucast (c - 48)) ?run in
           if ?neg then (if idx - 1 > LONG_MAX then Some None else Some (Some (- idx)))
           else if idx > LONG_MAX then Some None else Some (Some idx)
         else Some None)"
        unfolding start hdk en ce brkF loop using dc(2) n0 by simp
      show ?thesis
      proof (cases "list_all is_digit ds'")
        case False
        then have "length ?run \<noteq> length ds'" by (simp add: takeWhile_all)
        then have "\<not> Suc tmp + length ?run = length s" using len dc(1) lt by simp
        moreover have "\<not> canonical ds" using False dc(1) by (simp add: canonical_def)
        ultimately show ?thesis unfolding go nk by simp
      next
        case True
        then have r1: "?run = ds'" by (simp add: takeWhile_eq_all_conv list_all_iff)
        have "Suc tmp + length ds' = length s" using len dc(1) lt by simp
        then have run: "?run = ds'" "Suc tmp + length ?run = length s" unfolding r1 by simp_all
        have nb': "\<not> (c = 48 \<and> 2 \<le> length s)" "\<not> 19 < length ds" using nb brk by blast+
        have "ds' = []" if "c = 48"
        proof -
          from nb'(1) that have "length s < 2" by simp
          with len dc(1) show ?thesis by (cases ds') auto
        qed
        with True dc have can: "canonical ds" by (auto simp: canonical_def)
        have idx: "foldl (\<lambda>a c. a * 10 + ucast (c - 48)) (ucast (c - 48)) ?run = (of_nat ?v :: u64)"
          using fold_digits [of "digit_value c" ds'] unfolding r1 by (simp add: dc(1) digits_value_def digit_value_def)
        have "?v < 10 ^ length ds" using digits_value_bounds [of ds] can by (simp add: canonical_def)
        also have "(10 :: nat) ^ length ds \<le> 10 ^ 19" using nb'(2) by (intro power_increasing) simp_all
        finally have v: "?v < 10 ^ 19" .
        then have u: "unat (of_nat ?v :: u64) = ?v" by (intro unat_of_nat_small) simp
        have pos: "0 < ?v" if "c \<noteq> 48"
          using digits_value_bounds [of ds] can dc that by (simp add: canonical_def)
        have tmp1: "c \<noteq> 48" if ?neg
        proof -
          from that have "tmp = 1" by (simp add: tmp_def)
          with lt nb'(1) show ?thesis by auto
        qed
        have big: "of_nat ?v > LONG_MAX \<longleftrightarrow> \<not> ?v < 2 ^ 63"
          by (simp add: word_less_nat_alt u LONG_MAX_def) arith
        have bigneg: "of_nat ?v - 1 > LONG_MAX \<longleftrightarrow> \<not> ?v \<le> 2 ^ 63" if "0 < ?v"
        proof -
          have "unat (of_nat ?v - 1 :: u64) = ?v - 1" using that u by (subst unat_minus_one) auto
          then show ?thesis using that by (simp add: word_less_nat_alt LONG_MAX_def) arith
        qed
        show ?thesis unfolding go nk idx using run(2) can big bigneg pos tmp1 by (auto simp: Let_def)
      qed
    qed
  qed
qed

lemma numeric_key_iff:
  "numeric_key s = Some idx \<longleftrightarrow> (\<exists>i. - (2 ^ 63) \<le> i \<and> i < 2 ^ 63 \<and> s = decimal i \<and> idx = of_int i)"
proof -
  have no_minus: "hd (nat_digits n) \<noteq> 45" "nat_digits n \<noteq> []" for n
    using nat_digits_canonical [of n] by (cases "nat_digits n"; auto simp: canonical_def is_digit_def)+
  note val = nat_digits_canonical [THEN conjunct2, THEN conjunct1]
  note can = nat_digits_canonical [THEN conjunct1]
  show ?thesis
  proof
    assume a: "numeric_key s = Some idx"
    show "\<exists>i. - (2 ^ 63) \<le> i \<and> i < 2 ^ 63 \<and> s = decimal i \<and> idx = of_int i"
    proof (cases "s \<noteq> [] \<and> hd s = 45")
      case True
      then have s: "s = 45 # tl s" by (cases s) auto
      from a True have c: "canonical (tl s)" "0 < digits_value (tl s)" "digits_value (tl s) \<le> 2 ^ 63"
        "idx = - of_nat (digits_value (tl s))" by (auto simp: numeric_key_def Let_def split: if_splits)
      with s canonical_inverse [OF c(1)] show ?thesis
        by (intro exI [of _ "- int (digits_value (tl s))"]) (auto simp: decimal_def)
    next
      case False
      with a have c: "canonical s" "digits_value s < 2 ^ 63" "idx = of_nat (digits_value s)"
        by (auto simp: numeric_key_def Let_def split: if_splits)
      with canonical_inverse [OF c(1)] show ?thesis
        by (intro exI [of _ "int (digits_value s)"]) (simp add: decimal_def)
    qed
  next
    assume "\<exists>i. - (2 ^ 63) \<le> i \<and> i < 2 ^ 63 \<and> s = decimal i \<and> idx = of_int i"
    then obtain i where i: "- (2 ^ 63) \<le> i" "i < 2 ^ 63" "s = decimal i" "idx = of_int i" by blast
    show "numeric_key s = Some idx"
    proof (cases "i < 0")
      case True
      with i have "s = 45 # nat_digits (nat (- i))" "0 < nat (- i)" "nat (- i) \<le> 2 ^ 63" "idx = - of_nat (nat (- i))"
        by (simp_all add: decimal_def)
      then show ?thesis by (simp add: numeric_key_def Let_def can val)
    next
      case False
      with i have "s = nat_digits (nat i)" "nat i < 2 ^ 63" "idx = of_nat (nat i)" by (simp_all add: decimal_def)
      then show ?thesis using no_minus by (simp add: numeric_key_def Let_def can val)
    qed
  qed
qed

section \<open>Properties\<close>

text \<open>
  C23: For a zero-terminated key, \<open>ZEND_HANDLE_NUMERIC\<close> reads only bytes of the key and returns; it
  takes the key as an integer exactly when the string is the canonical decimal of a 64-bit integer
  (no leading zero, no plus sign, no minus zero, in range), and the index is then that integer.
\<close>
theorem handle_numeric_canonical:
  assumes "unat n = length s + 1"
  shows "\<exists>num. ZEND_HANDLE_NUMERIC (s @ [0]) n = Some num \<and>
    (\<forall>idx. num = Some idx \<longleftrightarrow> (\<exists>i. - (2 ^ 63) \<le> i \<and> i < 2 ^ 63 \<and> s = decimal i \<and> idx = of_int i))"
  using numeric_spec [OF assms] numeric_key_iff by blast

theorem handle_numeric_canonical_witness:
  "ZEND_HANDLE_NUMERIC ([45, 49, 50] @ [0]) 4 = Some (Some (- 12)) \<and>
   (\<exists>num. ZEND_HANDLE_NUMERIC ([48, 49] @ [0]) 3 = Some num \<and> num \<noteq> Some 1)"
proof -
  have d: "nat_digits 12 = [49, 50]" "nat_digits 1 = [49]" by code_simp+
  from handle_numeric_canonical [of 4 "[45, 49, 50]"] obtain num where
    n: "ZEND_HANDLE_NUMERIC ([45, 49, 50] @ [0]) 4 = Some num"
    "num = Some (- 12) \<longleftrightarrow> (\<exists>i. - (2 ^ 63) \<le> i \<and> i < 2 ^ 63 \<and> [45, 49, 50] = decimal i \<and> - 12 = (of_int i :: u64))"
    by auto
  have "num = Some (- 12)" unfolding n(2) by (rule exI [of _ "- 12"]) (simp add: decimal_def d)
  moreover from handle_numeric_canonical [of 3 "[48, 49]"] obtain num' where
    m: "ZEND_HANDLE_NUMERIC ([48, 49] @ [0]) 3 = Some num'"
    "num' = Some 1 \<longleftrightarrow> (\<exists>i. - (2 ^ 63) \<le> i \<and> i < 2 ^ 63 \<and> [48, 49] = decimal i \<and> 1 = (of_int i :: u64))" by auto
  have "[48, 49] \<noteq> decimal i" for i
  proof
    assume e: "[48, 49] = decimal i"
    then have "canonical [48, 49]" using nat_digits_canonical by (auto simp: decimal_def split: if_splits)
    then show False by (simp add: canonical_def)
  qed
  with m(2) have "num' \<noteq> Some 1" by blast
  ultimately show ?thesis using n(1) m(1) by blast
qed

text \<open>The key under which the symbol table functions look a string up.\<close>

definition sym_key :: "u8 list \<Rightarrow> hkey" where
  "sym_key s = (case numeric_key s of Some idx \<Rightarrow> IdxKey idx | None \<Rightarrow> StrKey (s @ [0]))"

lemma symtable_refines_parts:
  assumes rep: "represents ht ps es" and n: "unat n = length s + 1"
  shows "zend_symtable_find ht (s @ [0]) n = Some (found_result (bucket_of ps es (sym_key s)))"
    "zend_symtable_exists ht (s @ [0]) n = Some (map_of es (sym_key s) \<noteq> None)"
    "\<exists>a ht'. zend_symtable_update ht (s @ [0]) n v sz = Some (SUCCESS, Some a, ht') \<and> inserted ht ps es (sym_key s) v ht' a"
    "\<exists>ht'. zend_symtable_del ht (s @ [0]) n = Some (if map_of es (sym_key s) = None then FAILURE else SUCCESS, ht') \<and>
       (\<exists>ps'. represents ht' ps' (AList.delete (sym_key s) es))"
proof -
  note num = numeric_spec [OF n]
  have n0: "n \<noteq> 0" using n by auto
  have arg: "arg_key (s @ [0]) n = StrKey (s @ [0])" using n n0 by (simp add: arg_key_def)
  have len: "unat n \<le> length (s @ [0])" using n by simp
  show "zend_symtable_find ht (s @ [0]) n = Some (found_result (bucket_of ps es (sym_key s)))"
    "zend_symtable_exists ht (s @ [0]) n = Some (map_of es (sym_key s) \<noteq> None)"
    using find_spec(1-4) [OF rep] len
    by (auto simp: zend_symtable_find_def zend_symtable_exists_def num sym_key_def arg split: option.split)
  have flags: "\<not> (P \<and> HASH_UPDATE AND HASH_ADD \<noteq> 0)" "\<not> (P \<and> (HASH_UPDATE AND HASH_NEXT_INSERT \<noteq> 0 \<or> HASH_UPDATE AND HASH_ADD \<noteq> 0))"
    "h = (if HASH_UPDATE AND HASH_NEXT_INSERT \<noteq> 0 then nNextFreeElement ht else h)" for P h
    by (simp_all add: HASH_UPDATE_def HASH_ADD_def HASH_NEXT_INSERT_def)
  show "\<exists>a ht'. zend_symtable_update ht (s @ [0]) n v sz = Some (SUCCESS, Some a, ht') \<and> inserted ht ps es (sym_key s) v ht' a"
  proof (cases "numeric_key s")
    case None
    have "StrKey (s @ [0]) = StrKey (take (unat n) (s @ [0]))" using n by simp
    from add_or_update_spec(2) [OF rep n0 len this flags(1), of v sz] None num show ?thesis
      by (auto simp: zend_symtable_update_def zend_hash_update_def sym_key_def)
  next
    case (Some idx)
    from index_insert_spec(2) [OF rep flags(3,2), of idx v sz] Some num show ?thesis
      by (auto simp: zend_symtable_update_def zend_hash_index_update_def sym_key_def)
  qed
  show "\<exists>ht'. zend_symtable_del ht (s @ [0]) n = Some (if map_of es (sym_key s) = None then FAILURE else SUCCESS, ht') \<and>
       (\<exists>ps'. represents ht' ps' (AList.delete (sym_key s) es))"
  proof (cases "numeric_key s")
    case None
    have "quick_args_ok (s @ [0]) n (djb_hash (s @ [0]))" "StrKey (s @ [0]) = quick_key (s @ [0]) n (djb_hash (s @ [0]))"
      using n n0 by (simp_all add: quick_args_ok_def quick_key_def)
    moreover have "(if HASH_DEL_KEY = HASH_DEL_KEY then zend_inline_hash_func (s @ [0]) n else Some 0) = Some (djb_hash (s @ [0]))"
      using n by (simp add: inline_hash_eq)
    ultimately show ?thesis using del_alist [OF rep, of "s @ [0]" n "djb_hash (s @ [0])" HASH_DEL_KEY 0] None num
      by (auto simp: zend_symtable_del_def zend_hash_del_def sym_key_def)
  next
    case (Some idx)
    with index_del_alist [OF rep, of idx] num show ?thesis by (auto simp: zend_symtable_del_def sym_key_def)
  qed
qed

text \<open>
  C24: \<open>zend_symtable_find\<close>, \<open>zend_symtable_exists\<close>, \<open>zend_symtable_update\<close> and \<open>zend_symtable_del\<close>
  are lookup, membership, update and deletion of the abstract table under the integer for a
  canonical decimal string and under the string itself otherwise.
\<close>
theorem symtable_refines:
  assumes rep: "represents ht ps es" and n: "unat n = length s + 1"
  shows "(zend_symtable_find ht (s @ [0]) n = Some (found_result (bucket_of ps es (sym_key s)))) \<and>
    (zend_symtable_exists ht (s @ [0]) n = Some (map_of es (sym_key s) \<noteq> None)) \<and>
    (\<exists>a ht'. zend_symtable_update ht (s @ [0]) n v sz = Some (SUCCESS, Some a, ht') \<and> inserted ht ps es (sym_key s) v ht' a) \<and>
    (\<exists>ht'. zend_symtable_del ht (s @ [0]) n = Some (if map_of es (sym_key s) = None then FAILURE else SUCCESS, ht') \<and>
       (\<exists>ps'. represents ht' ps' (AList.delete (sym_key s) es)))"
  by (rule conjI [OF symtable_refines_parts(1) [OF assms]
    conjI [OF symtable_refines_parts(2) [OF assms]
    conjI [OF symtable_refines_parts(3) [OF assms]
    symtable_refines_parts(4) [OF assms]]]])

theorem symtable_refines_witness:
  "\<exists>ps. zend_symtable_exists (hash_of [(IdxKey 7, 1 :: nat)]) ([55] @ [0]) 2 = Some True \<and>
    represents (hash_of [(IdxKey 7, 1 :: nat)]) ps [(IdxKey 7, 1)]"
proof -
  obtain ps where r: "represents (hash_of [(IdxKey 7, 1 :: nat)]) ps [(IdxKey 7, 1)]"
    using hash_of_represents [of "[(IdxKey 7, 1 :: nat)]"] by auto
  have "sym_key [55] = IdxKey 7"
    by (simp add: sym_key_def numeric_key_def canonical_def digits_value_def digit_value_def is_digit_def)
  with symtable_refines [OF r, of 2 "[55]", THEN conjunct2, THEN conjunct1] r show ?thesis by auto
qed

end
