(* ===== verification/ZendRsrcList.thy ===== *)
theory ZendRsrcList imports ZendHashTraverse begin

text \<open>
  Resources, \<open>Zend/zend_list.c\<close>: reference-counted entries under integer ids in the hash table
  \<open>EG(regular_list)\<close> (and the persistent list), with a table of destructors per resource type.

  A pointer that the code only passes on (\<open>le.ptr\<close>, the function pointers) is a 64-bit value, 0 for
  \<open>NULL\<close>. The hash table records the values its destructor is called on; \<open>list_entry_destructor\<close> and
  \<open>plist_entry_destructor\<close> say which registered function that call runs. A C string is a list of
  characters without the terminating zero. Reference counts are unbounded integers here.

  The lemmas rest on those of the hash table: the lists are changed as the abstract table is.
\<close>

section \<open>State\<close>

record rsrc_entry =
  le_ptr :: u64
  le_type :: int
  le_refcount :: int

datatype rsrc_list_type = ZEND_RESOURCE_LIST_TYPE_STD | ZEND_RESOURCE_LIST_TYPE_EX

record dtors_entry =
  list_dtor :: u64
  plist_dtor :: u64
  list_dtor_ex :: u64
  plist_dtor_ex :: u64
  type_name :: "string option"
  module_number :: int
  resource_id :: int
  ld_type :: rsrc_list_type

record rsrc_lists =
  regular_list :: "rsrc_entry HashTable"
  persistent_list :: "rsrc_entry HashTable"
  list_destructors :: "dtors_entry HashTable"

text \<open>The conversion of an \<open>int\<close> argument to the \<open>ulong\<close> of the hash functions.\<close>

definition ulong_of_int :: "int \<Rightarrow> u64" where "ulong_of_int i = of_int i"

section \<open>Entries\<close>

definition zend_list_insert :: "rsrc_lists \<Rightarrow> u64 \<Rightarrow> int \<Rightarrow> (int \<times> rsrc_lists) option" where
  "zend_list_insert g p typ = do {
     let le = \<lparr>le_ptr = p, le_type = typ, le_refcount = 1\<rparr>;
     let index = int_of_ulong (zend_hash_next_free_element (regular_list g));
     (_, _, ht) \<leftarrow> zend_hash_index_update (regular_list g) (ulong_of_int index) le 16;
     Some (index, g\<lparr>regular_list := ht\<rparr>)
   }"

definition zend_list_delete :: "rsrc_lists \<Rightarrow> int \<Rightarrow> (zend_result \<times> rsrc_lists) option" where
  "zend_list_delete g rid = do {
     (res, p) \<leftarrow> zend_hash_index_find (regular_list g) (ulong_of_int rid);
     if res = SUCCESS then do {
       a \<leftarrow> p;
       ht \<leftarrow> hash_write a (\<lambda>le. le\<lparr>le_refcount := le_refcount le - 1\<rparr>) (regular_list g);
       le \<leftarrow> data_at ht a;
       if le_refcount le \<le> 0 then do {
         (res, ht) \<leftarrow> zend_hash_index_del ht (ulong_of_int rid);
         Some (res, g\<lparr>regular_list := ht\<rparr>)
       } else Some (SUCCESS, g\<lparr>regular_list := ht\<rparr>)
     } else Some (FAILURE, g)
   }"

text \<open>The resource and its type; \<open>NULL\<close> and \<open>-1\<close> when there is none.\<close>

definition zend_list_find :: "rsrc_lists \<Rightarrow> int \<Rightarrow> (u64 \<times> int) option" where
  "zend_list_find g rid = do {
     (res, p) \<leftarrow> zend_hash_index_find (regular_list g) (ulong_of_int rid);
     if res = SUCCESS then do { a \<leftarrow> p; le \<leftarrow> data_at (regular_list g) a; Some (le_ptr le, le_type le) }
     else Some (0, -1)
   }"

definition zend_list_addref :: "rsrc_lists \<Rightarrow> int \<Rightarrow> (zend_result \<times> rsrc_lists) option" where
  "zend_list_addref g rid = do {
     (res, p) \<leftarrow> zend_hash_index_find (regular_list g) (ulong_of_int rid);
     if res = SUCCESS then do {
       a \<leftarrow> p;
       ht \<leftarrow> hash_write a (\<lambda>le. le\<lparr>le_refcount := le_refcount le + 1\<rparr>) (regular_list g);
       Some (SUCCESS, g\<lparr>regular_list := ht\<rparr>)
     } else Some (FAILURE, g)
   }"

text \<open>The part of a \<open>zval\<close> that is used: the type tag and the \<open>long\<close> of its value.\<close>

record zval =
  zv_type :: int
  zv_lval :: int

definition IS_RESOURCE :: int where "IS_RESOURCE = 7"

definition zend_register_resource ::
  "rsrc_lists \<Rightarrow> zval option \<Rightarrow> u64 \<Rightarrow> int \<Rightarrow> (int \<times> zval option \<times> rsrc_lists) option" where
  "zend_register_resource g rsrc_result p typ = do {
     (rsrc_id, g) \<leftarrow> zend_list_insert g p typ;
     let rsrc_result = map_option (\<lambda>z. z\<lparr>zv_lval := rsrc_id, zv_type := IS_RESOURCE\<rparr>) rsrc_result;
     Some (rsrc_id, rsrc_result, g)
   }"

datatype rsrc_warning = No_resource_supplied | Argument_not_a_resource | Id_not_valid int | Resource_not_valid

text \<open>
  \<open>zend_fetch_resource\<close> returns the resource or \<open>NULL\<close>, what it stores in \<open>*found_resource_type\<close>
  (\<open>None\<close> where it stores nothing) and the warning it raises. \<open>(int) lval\<close> keeps the low 32 bits.
\<close>

definition zend_fetch_resource ::
  "rsrc_lists \<Rightarrow> zval option \<Rightarrow> int \<Rightarrow> string option \<Rightarrow> int list \<Rightarrow> (u64 \<times> int option \<times> rsrc_warning option) option" where
  "zend_fetch_resource g passed_id default_id resource_type_name resource_types =
     (let warn = (\<lambda>w. if resource_type_name = None then None else Some w) in
      let lookup = (\<lambda>rid. do {
        (resource, actual_resource_type) \<leftarrow> zend_list_find g rid;
        if resource = 0 then Some (0, None, warn (Id_not_valid rid))
        else if actual_resource_type \<in> set resource_types then Some (resource, Some actual_resource_type, None)
        else Some (0, None, warn Resource_not_valid)
      }) in
      if default_id = -1 then
        (case passed_id of
           None \<Rightarrow> Some (0, None, warn No_resource_supplied)
         | Some z \<Rightarrow> if zv_type z \<noteq> IS_RESOURCE then Some (0, None, warn Argument_not_a_resource)
             else lookup (int_of_ulong (of_int (zv_lval z))))
      else lookup default_id)"

section \<open>Destructors\<close>

datatype dtor_call = Call_dtor u64 u64 | Call_dtor_ex u64 rsrc_entry | No_dtor | Unknown_list_entry_type int

definition list_entry_destructor :: "dtors_entry HashTable \<Rightarrow> rsrc_entry \<Rightarrow> dtor_call option" where
  "list_entry_destructor dtors le = do {
     (res, p) \<leftarrow> zend_hash_index_find dtors (ulong_of_int (le_type le));
     if res = SUCCESS then do {
       a \<leftarrow> p;
       ld \<leftarrow> data_at dtors a;
       Some (case ld_type ld of
           ZEND_RESOURCE_LIST_TYPE_STD \<Rightarrow> if list_dtor ld \<noteq> 0 then Call_dtor (list_dtor ld) (le_ptr le) else No_dtor
         | ZEND_RESOURCE_LIST_TYPE_EX \<Rightarrow> if list_dtor_ex ld \<noteq> 0 then Call_dtor_ex (list_dtor_ex ld) le else No_dtor)
     } else Some (Unknown_list_entry_type (le_type le))
   }"

definition plist_entry_destructor :: "dtors_entry HashTable \<Rightarrow> rsrc_entry \<Rightarrow> dtor_call option" where
  "plist_entry_destructor dtors le = do {
     (res, p) \<leftarrow> zend_hash_index_find dtors (ulong_of_int (le_type le));
     if res = SUCCESS then do {
       a \<leftarrow> p;
       ld \<leftarrow> data_at dtors a;
       Some (case ld_type ld of
           ZEND_RESOURCE_LIST_TYPE_STD \<Rightarrow> if plist_dtor ld \<noteq> 0 then Call_dtor (plist_dtor ld) (le_ptr le) else No_dtor
         | ZEND_RESOURCE_LIST_TYPE_EX \<Rightarrow> if plist_dtor_ex ld \<noteq> 0 then Call_dtor_ex (plist_dtor_ex ld) le else No_dtor)
     } else Some (Unknown_list_entry_type (le_type le))
   }"

definition zend_init_rsrc_list :: "rsrc_lists \<Rightarrow> (zend_result \<times> rsrc_lists) option" where
  "zend_init_rsrc_list g = do {
     (res, ht) \<leftarrow> zend_hash_init (regular_list g) 0 True False;
     if res = SUCCESS then Some (SUCCESS, g\<lparr>regular_list := ht\<lparr>nNextFreeElement := 1\<rparr>\<rparr>)
     else Some (FAILURE, g\<lparr>regular_list := ht\<rparr>)
   }"

definition zend_init_rsrc_plist :: "rsrc_lists \<Rightarrow> (zend_result \<times> rsrc_lists) option" where
  "zend_init_rsrc_plist g = do {
     (res, ht) \<leftarrow> zend_hash_init_ex (persistent_list g) 0 True True False;
     Some (res, g\<lparr>persistent_list := ht\<rparr>)
   }"

definition zend_destroy_rsrc_list :: "rsrc_entry HashTable \<Rightarrow> rsrc_entry HashTable option" where
  "zend_destroy_rsrc_list ht = zend_hash_graceful_reverse_destroy ht"

definition clean_module_resource :: "rsrc_entry \<Rightarrow> int \<Rightarrow> u32" where
  "clean_module_resource le rid = (if le_type le = rid then 1 else 0)"

text \<open>
  The callback on the destructor table cleans the persistent list, which is its state: \<open>None\<close> when
  that walk made an invalid access, \<open>Inl\<close> when it ended in the fatal error, after which nothing runs.
\<close>

type_synonym plist_state = "(rsrc_entry fatal_error + rsrc_entry HashTable) option"

definition zend_clean_module_rsrc_dtors_cb :: "dtors_entry \<Rightarrow> int \<Rightarrow> plist_state \<Rightarrow> u32 \<times> dtors_entry \<times> plist_state" where
  "zend_clean_module_rsrc_dtors_cb ld module_no st =
     (if module_number ld = module_no then
        (case st of
           Some (Inr pl) \<Rightarrow>
             (case zend_hash_apply_with_argument pl (\<lambda>le rid (_ :: unit). (clean_module_resource le rid, le, ())) (resource_id ld) () of
                Some (Inr (pl, _)) \<Rightarrow> (1, ld, Some (Inr pl))
              | Some (Inl e) \<Rightarrow> (ZEND_HASH_APPLY_STOP, ld, Some (Inl e))
              | None \<Rightarrow> (ZEND_HASH_APPLY_STOP, ld, None))
         | _ \<Rightarrow> (ZEND_HASH_APPLY_STOP, ld, st))
      else (0, ld, st))"

datatype rsrc_fatal = Fatal_in_destructors "dtors_entry fatal_error" | Fatal_in_plist "rsrc_entry fatal_error"

definition zend_clean_module_rsrc_dtors :: "rsrc_lists \<Rightarrow> int \<Rightarrow> (rsrc_fatal + rsrc_lists) option" where
  "zend_clean_module_rsrc_dtors g module_no = do {
     r \<leftarrow> zend_hash_apply_with_argument (list_destructors g) zend_clean_module_rsrc_dtors_cb module_no (Some (Inr (persistent_list g)));
     case r of
       Inl e \<Rightarrow> Some (Inl (Fatal_in_destructors e))
     | Inr (dtors, st) \<Rightarrow> do {
         pl \<leftarrow> st;
         Some (case pl of Inl e \<Rightarrow> Inl (Fatal_in_plist e)
           | Inr pl \<Rightarrow> Inr (g\<lparr>list_destructors := dtors, persistent_list := pl\<rparr>))
       }
   }"

definition zend_register_list_destructors :: "rsrc_lists \<Rightarrow> u64 \<Rightarrow> u64 \<Rightarrow> int \<Rightarrow> (int \<times> rsrc_lists) option" where
  "zend_register_list_destructors g ld pld module_no = do {
     let lde = \<lparr>list_dtor = ld, plist_dtor = pld, list_dtor_ex = 0, plist_dtor_ex = 0, type_name = None,
       module_number = module_no, resource_id = int_of_ulong (nNextFreeElement (list_destructors g)),
       ld_type = ZEND_RESOURCE_LIST_TYPE_STD\<rparr>;
     (res, _, ht) \<leftarrow> zend_hash_next_index_insert (list_destructors g) lde 56;
     let g = g\<lparr>list_destructors := ht\<rparr>;
     if res = FAILURE then Some (-1, g) else Some (int_of_ulong (nNextFreeElement ht - 1), g)
   }"

definition zend_register_list_destructors_ex ::
  "rsrc_lists \<Rightarrow> u64 \<Rightarrow> u64 \<Rightarrow> string option \<Rightarrow> int \<Rightarrow> (int \<times> rsrc_lists) option" where
  "zend_register_list_destructors_ex g ld pld name module_no = do {
     let lde = \<lparr>list_dtor = 0, plist_dtor = 0, list_dtor_ex = ld, plist_dtor_ex = pld, type_name = name,
       module_number = module_no, resource_id = int_of_ulong (nNextFreeElement (list_destructors g)),
       ld_type = ZEND_RESOURCE_LIST_TYPE_EX\<rparr>;
     (res, _, ht) \<leftarrow> zend_hash_next_index_insert (list_destructors g) lde 56;
     let g = g\<lparr>list_destructors := ht\<rparr>;
     if res = FAILURE then Some (-1, g) else Some (int_of_ulong (nNextFreeElement ht - 1), g)
   }"

partial_function (option) fetch_id_loop :: "dtors_entry HashTable \<Rightarrow> string \<Rightarrow> ptr option \<Rightarrow> int option" where
  "fetch_id_loop ht name pos =
     (case zend_hash_get_current_data_ex ht pos of
        (SUCCESS, p) \<Rightarrow> do {
          a \<leftarrow> p;
          lde \<leftarrow> data_at ht a;
          if type_name lde = Some name then Some (resource_id lde)
          else do { (_, ht, pos) \<leftarrow> zend_hash_move_forward_ex ht pos; fetch_id_loop ht name pos }
        }
      | (FAILURE, _) \<Rightarrow> Some 0)"

declare fetch_id_loop.simps [code]

definition zend_fetch_list_dtor_id :: "rsrc_lists \<Rightarrow> string \<Rightarrow> int option" where
  "zend_fetch_list_dtor_id g name =
     (case zend_hash_internal_pointer_reset_ex (list_destructors g) (Some None) of
        (ht, pos) \<Rightarrow> fetch_id_loop ht name pos)"

definition zend_init_rsrc_list_dtors :: "rsrc_lists \<Rightarrow> (zend_result \<times> rsrc_lists) option" where
  "zend_init_rsrc_list_dtors g = do {
     (res, ht) \<leftarrow> zend_hash_init (list_destructors g) 50 False True;
     Some (res, g\<lparr>list_destructors := ht\<lparr>nNextFreeElement := 1\<rparr>\<rparr>)
   }"

definition zend_destroy_rsrc_list_dtors :: "rsrc_lists \<Rightarrow> rsrc_lists option" where
  "zend_destroy_rsrc_list_dtors g = do { ht \<leftarrow> zend_hash_destroy (list_destructors g); Some (g\<lparr>list_destructors := ht\<rparr>) }"

definition zend_rsrc_list_get_rsrc_type :: "rsrc_lists \<Rightarrow> int \<Rightarrow> string option option" where
  "zend_rsrc_list_get_rsrc_type g resource = do {
     (p, rsrc_type) \<leftarrow> zend_list_find g resource;
     if p = 0 then Some None
     else do {
       (res, q) \<leftarrow> zend_hash_index_find (list_destructors g) (ulong_of_int rsrc_type);
       if res = SUCCESS then do { a \<leftarrow> q; lde \<leftarrow> data_at (list_destructors g) a; Some (type_name lde) } else Some None
     }
   }"

section \<open>Access through an id\<close>

abbreviation rsrc_key :: "int \<Rightarrow> hkey" where "rsrc_key rid \<equiv> IdxKey (ulong_of_int rid)"

lemma index_get:
  assumes "represents ht ps es"
  shows "map_of es (IdxKey h) = None \<Longrightarrow> zend_hash_index_find ht h = Some (FAILURE, None)"
    "map_of es (IdxKey h) = Some v \<Longrightarrow> \<exists>a. zend_hash_index_find ht h = Some (SUCCESS, Some a) \<and>
       bucket_of ps es (IdxKey h) = Some a \<and> data_at ht a = Some v"
proof -
  note f = find_spec(1) [OF assms, of h]
  have n: "bucket_of ps es (IdxKey h) = None \<longleftrightarrow> map_of es (IdxKey h) = None"
    using represents_length [OF assms] by (simp add: bucket_of_eq_None)
  show "zend_hash_index_find ht h = Some (FAILURE, None)" if "map_of es (IdxKey h) = None"
    using f n that by (simp add: found_result_def)
  show "\<exists>a. zend_hash_index_find ht h = Some (SUCCESS, Some a) \<and> bucket_of ps es (IdxKey h) = Some a \<and> data_at ht a = Some v"
    if v: "map_of es (IdxKey h) = Some v"
  proof -
    from n v obtain a where a: "bucket_of ps es (IdxKey h) = Some a" by (cases "bucket_of ps es (IdxKey h)") auto
    with f bucket_of_data [OF assms a] v show ?thesis by (simp add: found_result_def)
  qed
qed

lemma list_find_spec:
  assumes "represents (regular_list g) ps es"
  shows "zend_list_find g rid = Some (case map_of es (rsrc_key rid) of None \<Rightarrow> (0, -1) | Some le \<Rightarrow> (le_ptr le, le_type le))"
  using index_get [OF assms, of "ulong_of_int rid"]
  by (cases "map_of es (rsrc_key rid)") (auto simp: zend_list_find_def)

text \<open>What an id leads to after a call, and the values that went to the destructor.\<close>

definition rsrc_state :: "rsrc_lists \<Rightarrow> (hkey \<times> rsrc_entry) list \<Rightarrow> rsrc_entry list \<Rightarrow> bool" where
  "rsrc_state g es gone \<longleftrightarrow> (\<exists>ps. represents (regular_list g) ps es) \<and> ht_dtor_log (regular_list g) = gone"

lemma list_addref_spec:
  assumes "represents (regular_list g) ps es"
  shows "\<exists>g'. zend_list_addref g rid = Some (if map_of es (rsrc_key rid) = None then FAILURE else SUCCESS, g') \<and>
    rsrc_state g' (case map_of es (rsrc_key rid) of None \<Rightarrow> es
      | Some le \<Rightarrow> AList.update (rsrc_key rid) (le\<lparr>le_refcount := le_refcount le + 1\<rparr>) es) (ht_dtor_log (regular_list g))"
proof (cases "map_of es (rsrc_key rid)")
  case None
  with index_get(1) [OF assms None] assms show ?thesis by (auto simp: zend_list_addref_def rsrc_state_def)
next
  case (Some le)
  from index_get(2) [OF assms Some] obtain a where a: "zend_hash_index_find (regular_list g) (ulong_of_int rid) = Some (SUCCESS, Some a)"
    "bucket_of ps es (rsrc_key rid) = Some a" by blast
  from hash_write_spec [OF assms a(2) Some, of "\<lambda>le. le\<lparr>le_refcount := le_refcount le + 1\<rparr>"] a(1) Some
  show ?thesis by (auto simp: zend_list_addref_def rsrc_state_def)
qed

lemma list_delete_spec:
  assumes rep: "represents (regular_list g) ps es"
  shows "\<exists>g'. zend_list_delete g rid = Some (if map_of es (rsrc_key rid) = None then FAILURE else SUCCESS, g') \<and>
    (case map_of es (rsrc_key rid) of
       None \<Rightarrow> g' = g
     | Some le \<Rightarrow>
         let le' = le\<lparr>le_refcount := le_refcount le - 1\<rparr>; log = ht_dtor_log (regular_list g) in
         if 1 < le_refcount le then rsrc_state g' (AList.update (rsrc_key rid) le' es) log
         else rsrc_state g' (AList.delete (rsrc_key rid) es) (log @ (if pDestructor (regular_list g) then [le'] else [])))"
proof (cases "map_of es (rsrc_key rid)")
  case None
  with index_get(1) [OF rep None] show ?thesis by (simp add: zend_list_delete_def)
next
  case (Some le)
  let ?ht = "regular_list g" and ?h = "ulong_of_int rid"
  let ?dec = "\<lambda>le :: rsrc_entry. le\<lparr>le_refcount := le_refcount le - 1\<rparr>"
  from index_get(2) [OF rep Some] obtain a where a: "zend_hash_index_find ?ht ?h = Some (SUCCESS, Some a)"
    "bucket_of ps es (rsrc_key rid) = Some a" by blast
  from hash_write_spec [OF rep a(2) Some, of ?dec] obtain r' where w: "hash_write a ?dec ?ht = Some (?ht\<lparr>ht_mem := r'\<rparr>)"
    "represents (?ht\<lparr>ht_mem := r'\<rparr>) ps (AList.update (rsrc_key rid) (?dec le) es)" by blast
  let ?ht1 = "?ht\<lparr>ht_mem := r'\<rparr>" and ?es1 = "AList.update (rsrc_key rid) (?dec le) es"
  have m: "map_of ?es1 (rsrc_key rid) = Some (?dec le)" by (simp add: update_conv)
  have "distinct (map fst es)" "rsrc_key rid \<in> fst ` set es"
    using represents_distinct [OF rep] Some by (auto dest: map_of_SomeD intro: rev_image_eqI)
  then have "bucket_of ps ?es1 = bucket_of ps es"
    by (simp add: bucket_of_def update_keys)
  then have d: "data_at ?ht1 a = Some (?dec le)" using bucket_of_data [OF w(2), of "rsrc_key rid" a] a(2) m by simp
  show ?thesis
  proof (cases "1 < le_refcount le")
    case True
    with a(1) w d Some show ?thesis by (auto simp: zend_list_delete_def rsrc_state_def)
  next
    case False
    from index_del_alist [OF w(2), of ?h] m obtain ht' ps' where r: "zend_hash_index_del ?ht1 ?h = Some (SUCCESS, ht')"
      "represents ht' ps' (AList.delete (rsrc_key rid) ?es1)"
      "ht_dtor_log ht' = ht_dtor_log ?ht @ (if pDestructor ?ht then [?dec le] else [])"
      by (auto simp: list_of_option_def)
    have "AList.delete (rsrc_key rid) ?es1 = AList.delete (rsrc_key rid) es" by (induction es) auto
    with False a(1) w(1) d Some r show ?thesis by (auto simp: zend_list_delete_def rsrc_state_def)
  qed
qed

lemma list_insert_spec:
  assumes rep: "represents (regular_list g) ps es"
  defines "nf \<equiv> nNextFreeElement (regular_list g)"
  shows "\<exists>g'. zend_list_insert g p typ = Some (int_of_ulong nf, g') \<and>
    rsrc_state g' (AList.update (rsrc_key (int_of_ulong nf)) \<lparr>le_ptr = p, le_type = typ, le_refcount = 1\<rparr> es)
      (ht_dtor_log (regular_list g) @ (if pDestructor (regular_list g) then list_of_option (map_of es (rsrc_key (int_of_ulong nf))) else [])) \<and>
    config (regular_list g') = config (regular_list g) \<and>
    nNextFreeElement (regular_list g') = next_free_after (ulong_of_int (int_of_ulong nf)) nf"
proof -
  let ?h = "ulong_of_int (int_of_ulong nf)" and ?le = "\<lparr>le_ptr = p, le_type = typ, le_refcount = 1\<rparr>"
  have hh: "?h = (if HASH_UPDATE AND HASH_NEXT_INSERT \<noteq> 0 then nNextFreeElement (regular_list g) else ?h)"
    by (simp add: HASH_UPDATE_def HASH_NEXT_INSERT_def)
  from index_insert_spec(2) [OF rep hh, of ?le 16] obtain a ht' where
    r: "zend_hash_index_update_or_next_insert (regular_list g) ?h ?le 16 HASH_UPDATE = Some (SUCCESS, Some a, ht')"
    "inserted (regular_list g) ps es (IdxKey ?h) ?le ht' a" "nNextFreeElement ht' = next_free_after ?h nf"
    by (auto simp: HASH_UPDATE_def HASH_ADD_def HASH_NEXT_INSERT_def nf_def)
  have "ht_dtor_log ht' = ht_dtor_log (regular_list g) @ (if pDestructor (regular_list g) then list_of_option (map_of es (IdxKey ?h)) else [])"
    using r(2) by (auto simp: inserted_def list_of_option_def split: option.splits)
  with r inserted_represents [OF r(2)] show ?thesis
    by (auto simp: zend_list_insert_def zend_hash_next_free_element_def zend_hash_index_update_def rsrc_state_def inserted_def
             simp flip: nf_def)
qed

lemma small_id:
  assumes "unat nf < 2 ^ 31"
  shows "int_of_ulong nf = int (unat nf)" "ulong_of_int (int_of_ulong nf) = nf" "next_free_after nf nf = nf + 1"
proof -
  have "int (unat nf) < int (2 ^ 31)" using assms by (simp only: of_nat_less_iff)
  then have b: "uint nf < 2 ^ 31" by simp
  then have "uint (ucast nf :: u32) = uint nf" by (simp add: unsigned_ucast_eq take_bit_int_eq_self)
  then have u: "sint (ucast nf :: u32) = uint nf" using b signed_take_bit_int_eq_self [of 31 "uint nf"] uint_ge_0 [of nf]
    by (simp add: sint_uint)
  show "int_of_ulong nf = int (unat nf)" by (simp add: int_of_ulong_def u)
  show "ulong_of_int (int_of_ulong nf) = nf" by (simp add: int_of_ulong_def ulong_of_int_def u)
  show "next_free_after nf nf = nf + 1"
    using assms by (simp add: next_free_after_def LONG_MAX_def word_less_nat_alt)
qed

section \<open>Destructors\<close>

definition list_call :: "dtors_entry \<Rightarrow> rsrc_entry \<Rightarrow> dtor_call" where
  "list_call ld le = (case ld_type ld of
     ZEND_RESOURCE_LIST_TYPE_STD \<Rightarrow> if list_dtor ld \<noteq> 0 then Call_dtor (list_dtor ld) (le_ptr le) else No_dtor
   | ZEND_RESOURCE_LIST_TYPE_EX \<Rightarrow> if list_dtor_ex ld \<noteq> 0 then Call_dtor_ex (list_dtor_ex ld) le else No_dtor)"

definition plist_call :: "dtors_entry \<Rightarrow> rsrc_entry \<Rightarrow> dtor_call" where
  "plist_call ld le = (case ld_type ld of
     ZEND_RESOURCE_LIST_TYPE_STD \<Rightarrow> if plist_dtor ld \<noteq> 0 then Call_dtor (plist_dtor ld) (le_ptr le) else No_dtor
   | ZEND_RESOURCE_LIST_TYPE_EX \<Rightarrow> if plist_dtor_ex ld \<noteq> 0 then Call_dtor_ex (plist_dtor_ex ld) le else No_dtor)"

definition dtor_for :: "(dtors_entry \<Rightarrow> rsrc_entry \<Rightarrow> dtor_call) \<Rightarrow> (hkey \<times> dtors_entry) list \<Rightarrow> rsrc_entry \<Rightarrow> dtor_call" where
  "dtor_for call ds le = (case map_of ds (rsrc_key (le_type le)) of
     None \<Rightarrow> Unknown_list_entry_type (le_type le) | Some ld \<Rightarrow> call ld le)"

lemma entry_destructor_spec:
  assumes "represents dtors ps ds"
  shows "list_entry_destructor dtors le = Some (dtor_for list_call ds le)"
    "plist_entry_destructor dtors le = Some (dtor_for plist_call ds le)"
  using index_get [OF assms, of "ulong_of_int (le_type le)"]
  by (cases "map_of ds (rsrc_key (le_type le))";
      auto simp: list_entry_destructor_def plist_entry_destructor_def dtor_for_def list_call_def plist_call_def)+

lemma next_insert_fresh:
  assumes rep: "represents ht ps es" and ok: "next_free_ok (nNextFreeElement ht) es" and nf: "unat (nNextFreeElement ht) < 2 ^ 31"
  shows "\<exists>a ht' ps'. zend_hash_next_index_insert ht v sz = Some (SUCCESS, Some a, ht') \<and>
    represents ht' ps' (es @ [(IdxKey (nNextFreeElement ht), v)]) \<and> map_of es (IdxKey (nNextFreeElement ht)) = None \<and>
    nNextFreeElement ht' = nNextFreeElement ht + 1 \<and> config ht' = config ht"
proof -
  let ?nf = "nNextFreeElement ht"
  have "?nf \<noteq> LONG_MAX" using nf by (auto simp: LONG_MAX_def)
  with ok have new: "IdxKey ?nf \<notin> fst ` set es" by (fastforce simp: next_free_ok_def)
  have hh: "?nf = (if HASH_NEXT_INSERT AND HASH_NEXT_INSERT \<noteq> 0 then nNextFreeElement ht else 0)"
    by (simp add: HASH_NEXT_INSERT_def)
  from index_insert_spec(2) [OF rep hh, of v sz] new obtain a ht' where
    r: "zend_hash_index_update_or_next_insert ht 0 v sz HASH_NEXT_INSERT = Some (SUCCESS, Some a, ht')"
    "inserted ht ps es (IdxKey ?nf) v ht' a" "nNextFreeElement ht' = next_free_after ?nf ?nf" by blast
  with inserted_represents [OF r(2)] new small_id(3) [OF nf] show ?thesis
    by (auto simp: zend_hash_next_index_insert_def alist_update_new map_of_eq_None_iff inserted_def)
qed

lemma register_spec:
  assumes rep: "represents (list_destructors g) ps ds" and ok: "next_free_ok (nNextFreeElement (list_destructors g)) ds"
    and nf: "nNextFreeElement (list_destructors g) = n" "unat n < 2 ^ 31"
  shows "\<exists>g' ps'. zend_register_list_destructors g ld pld m = Some (int (unat n), g') \<and>
      represents (list_destructors g') ps' (ds @ [(rsrc_key (int (unat n)), \<lparr>list_dtor = ld, plist_dtor = pld,
        list_dtor_ex = 0, plist_dtor_ex = 0, type_name = None, module_number = m, resource_id = int (unat n),
        ld_type = ZEND_RESOURCE_LIST_TYPE_STD\<rparr>)]) \<and> nNextFreeElement (list_destructors g') = n + 1"
    "\<exists>g' ps'. zend_register_list_destructors_ex g ld pld name m = Some (int (unat n), g') \<and>
      represents (list_destructors g') ps' (ds @ [(rsrc_key (int (unat n)), \<lparr>list_dtor = 0, plist_dtor = 0,
        list_dtor_ex = ld, plist_dtor_ex = pld, type_name = name, module_number = m, resource_id = int (unat n),
        ld_type = ZEND_RESOURCE_LIST_TYPE_EX\<rparr>)]) \<and> nNextFreeElement (list_destructors g') = n + 1"
    "map_of ds (rsrc_key (int (unat n))) = None"
proof -
  have u: "unat (nNextFreeElement (list_destructors g)) < 2 ^ 31" using nf by simp
  note i = next_insert_fresh [OF rep ok u, unfolded nf(1)] and s = small_id [OF nf(2)]
  have k: "rsrc_key (int (unat n)) = IdxKey n" using s(1,2) by simp
  show "\<exists>g' ps'. zend_register_list_destructors g ld pld m = Some (int (unat n), g') \<and>
      represents (list_destructors g') ps' (ds @ [(rsrc_key (int (unat n)), \<lparr>list_dtor = ld, plist_dtor = pld,
        list_dtor_ex = 0, plist_dtor_ex = 0, type_name = None, module_number = m, resource_id = int (unat n),
        ld_type = ZEND_RESOURCE_LIST_TYPE_STD\<rparr>)]) \<and> nNextFreeElement (list_destructors g') = n + 1"
    using i [of "\<lparr>list_dtor = ld, plist_dtor = pld, list_dtor_ex = 0, plist_dtor_ex = 0, type_name = None,
      module_number = m, resource_id = int (unat n), ld_type = ZEND_RESOURCE_LIST_TYPE_STD\<rparr>" 56]
    unfolding k by (auto simp: zend_register_list_destructors_def nf(1) s(1))
  show "\<exists>g' ps'. zend_register_list_destructors_ex g ld pld name m = Some (int (unat n), g') \<and>
      represents (list_destructors g') ps' (ds @ [(rsrc_key (int (unat n)), \<lparr>list_dtor = 0, plist_dtor = 0,
        list_dtor_ex = ld, plist_dtor_ex = pld, type_name = name, module_number = m, resource_id = int (unat n),
        ld_type = ZEND_RESOURCE_LIST_TYPE_EX\<rparr>)]) \<and> nNextFreeElement (list_destructors g') = n + 1"
    using i [of "\<lparr>list_dtor = 0, plist_dtor = 0, list_dtor_ex = ld, plist_dtor_ex = pld, type_name = name,
      module_number = m, resource_id = int (unat n), ld_type = ZEND_RESOURCE_LIST_TYPE_EX\<rparr>" 56]
    unfolding k by (auto simp: zend_register_list_destructors_ex_def nf(1) s(1))
  show "map_of ds (rsrc_key (int (unat n))) = None" using i unfolding k by blast
qed

lemma fetch_id_loop_spec:
  assumes rep: "represents ht ps ds" and i: "i \<le> length ps"
  shows "fetch_id_loop ht name (Some (if i < length ps then Some (ps ! i) else None)) =
    Some (case List.find (\<lambda>e. type_name (snd e) = Some name) (drop i ds) of None \<Rightarrow> 0 | Some e \<Rightarrow> resource_id (snd e))"
  using i
proof (induction "length ps - i" arbitrary: i)
  case 0
  then show ?case using represents_length [OF rep]
    by (subst fetch_id_loop.simps) (simp add: zend_hash_get_current_data_ex_def current_pos_def)
next
  case (Suc k)
  then have i: "i < length ps" by simp
  obtain b where b: "cells (ht_mem ht) (ps ! i) = Some b" "bucket_data b = Some (snd (ds ! i))"
    "pListNext b = (if Suc i < length ps then Some (ps ! Suc i) else None)" using position_links [OF rep i] by blast
  have d: "drop i ds = ds ! i # drop (Suc i) ds" using i represents_length [OF rep] by (simp add: Cons_nth_drop_Suc)
  from Suc.hyps(1) [of "Suc i"] Suc.hyps(2) i have
    "fetch_id_loop ht name (Some (if Suc i < length ps then Some (ps ! Suc i) else None)) =
     Some (case List.find (\<lambda>e. type_name (snd e) = Some name) (drop (Suc i) ds) of None \<Rightarrow> 0 | Some e \<Rightarrow> resource_id (snd e))"
    by simp
  with i b d show ?case
    by (subst fetch_id_loop.simps)
       (simp add: zend_hash_get_current_data_ex_def current_pos_def data_at_def zend_hash_move_forward_ex_def store_pos_def)
qed

text \<open>Cleaning the persistent list of one type, then of all types of a module.\<close>

definition module_types :: "int \<Rightarrow> (hkey \<times> dtors_entry) list \<Rightarrow> int list" where
  "module_types m ds = map (resource_id \<circ> snd) (filter (\<lambda>e. module_number (snd e) = m) ds)"

lemma clean_entries:
  "apply_entries (\<lambda>_ le s. (clean_module_resource le t, le, ())) es () =
     (filter (\<lambda>e. le_type (snd e) \<noteq> t) es, map snd (filter (\<lambda>e. le_type (snd e) = t) es), ())"
  by (induction es) (auto simp: clean_module_resource_def ZEND_HASH_APPLY_STOP_def ZEND_HASH_APPLY_REMOVE_def)

fun clean_log :: "int list \<Rightarrow> (hkey \<times> rsrc_entry) list \<Rightarrow> rsrc_entry list" where
  "clean_log [] pes = []"
| "clean_log (t # ts) pes = map snd (filter (\<lambda>e. le_type (snd e) = t) pes) @ clean_log ts (filter (\<lambda>e. le_type (snd e) \<noteq> t) pes)"

lemma not_nested_config: "config ht' = config ht \<Longrightarrow> nested_too_deep ht' = nested_too_deep ht"
  by (simp add: config_def nested_too_deep_def)

lemma clean_module_entries:
  assumes "represents pl ps pes" "\<not> nested_too_deep pl"
  shows "\<exists>pl' ps'. apply_entries (\<lambda>_ ld. zend_clean_module_rsrc_dtors_cb ld m) ds (Some (Inr pl)) =
      (filter (\<lambda>e. module_number (snd e) \<noteq> m) ds, map snd (filter (\<lambda>e. module_number (snd e) = m) ds), Some (Inr pl')) \<and>
    represents pl' ps' (filter (\<lambda>e. le_type (snd e) \<notin> set (module_types m ds)) pes) \<and>
    config pl' = config pl \<and>
    ht_dtor_log pl' = ht_dtor_log pl @
      (if pDestructor pl then clean_log (module_types m ds) pes else [])"
  using assms
proof (induction ds arbitrary: pl ps pes)
  case Nil
  then show ?case by (auto simp: module_types_def)
next
  case (Cons e ds)
  obtain k ld where e: "e = (k, ld)" by fastforce
  show ?case
  proof (cases "module_number ld = m")
    case False
    from Cons.IH [OF Cons.prems] obtain pl' ps' where
      r: "apply_entries (\<lambda>_ ld. zend_clean_module_rsrc_dtors_cb ld m) ds (Some (Inr pl)) =
        (filter (\<lambda>e. module_number (snd e) \<noteq> m) ds, map snd (filter (\<lambda>e. module_number (snd e) = m) ds), Some (Inr pl'))"
      "represents pl' ps' (filter (\<lambda>e. le_type (snd e) \<notin> set (module_types m ds)) pes)"
      "config pl' = config pl" "ht_dtor_log pl' = ht_dtor_log pl @
        (if pDestructor pl then clean_log (module_types m ds) pes else [])" by blast
    have "zend_clean_module_rsrc_dtors_cb ld m (Some (Inr pl)) = (0, ld, Some (Inr pl))"
      using False by (simp add: zend_clean_module_rsrc_dtors_cb_def)
    then show ?thesis using False e r
      by (intro exI [of _ pl'] exI [of _ ps']) (simp add: module_types_def ZEND_HASH_APPLY_STOP_def ZEND_HASH_APPLY_REMOVE_def)
  next
    case True
    let ?t = "resource_id ld"
    let ?pes1 = "filter (\<lambda>e. le_type (snd e) \<noteq> ?t) pes"
    from apply_arg_spec [OF Cons.prems, of "\<lambda>le rid (_ :: unit). (clean_module_resource le rid, le, ())" ?t "()", OF clean_entries]
    obtain pl1 ps1 where s: "zend_hash_apply_with_argument pl (\<lambda>le rid (_ :: unit). (clean_module_resource le rid, le, ())) ?t () = Some (Inr (pl1, ()))"
      "represents pl1 ps1 ?pes1" "config pl1 = config pl"
      "ht_dtor_log pl1 = ht_dtor_log pl @ (if pDestructor pl then map snd (filter (\<lambda>e. le_type (snd e) = ?t) pes) else [])" by blast
    have n1: "\<not> nested_too_deep pl1" using Cons.prems(2) not_nested_config [OF s(3)] by simp
    from Cons.IH [OF s(2) n1] obtain pl' ps' where
      r: "apply_entries (\<lambda>_ ld. zend_clean_module_rsrc_dtors_cb ld m) ds (Some (Inr pl1)) =
        (filter (\<lambda>e. module_number (snd e) \<noteq> m) ds, map snd (filter (\<lambda>e. module_number (snd e) = m) ds), Some (Inr pl'))"
      "represents pl' ps' (filter (\<lambda>e. le_type (snd e) \<notin> set (module_types m ds)) ?pes1)"
      "config pl' = config pl1" "ht_dtor_log pl' = ht_dtor_log pl1 @
        (if pDestructor pl1 then clean_log (module_types m ds) ?pes1 else [])" by blast
    have mt: "module_types m (e # ds) = ?t # module_types m ds" using e True by (simp add: module_types_def)
    have f: "filter (\<lambda>x. le_type (snd x) \<notin> set (module_types m (e # ds))) pes =
        filter (\<lambda>x. le_type (snd x) \<notin> set (module_types m ds)) ?pes1"
      by (simp add: mt conj_commute)
    have cb: "zend_clean_module_rsrc_dtors_cb ld m (Some (Inr pl)) = (1, ld, Some (Inr pl1))"
      using True s(1) by (simp add: zend_clean_module_rsrc_dtors_cb_def)
    have d1: "pDestructor pl1 = pDestructor pl" using s(3) by (simp add: config_def)
    show ?thesis
      unfolding f mt using True e r s(3,4) d1
      by (intro exI [of _ pl'] exI [of _ ps'])
         (simp add: cb mt ZEND_HASH_APPLY_STOP_def ZEND_HASH_APPLY_REMOVE_def)
  qed
qed

section \<open>Properties\<close>

lemma rsrc_list_refines_parts:
  assumes rep: "represents (regular_list g) ps es"
  defines "ht \<equiv> regular_list g" and "nf \<equiv> nNextFreeElement (regular_list g)"
  shows "zend_list_find g rid = Some (case map_of es (rsrc_key rid) of None \<Rightarrow> (0, -1) | Some le \<Rightarrow> (le_ptr le, le_type le))"
    "\<exists>g'. zend_list_addref g rid = Some (if map_of es (rsrc_key rid) = None then FAILURE else SUCCESS, g') \<and>
      rsrc_state g' (case map_of es (rsrc_key rid) of None \<Rightarrow> es
        | Some le \<Rightarrow> AList.update (rsrc_key rid) (le\<lparr>le_refcount := le_refcount le + 1\<rparr>) es) (ht_dtor_log ht)"
    "\<exists>g'. zend_list_delete g rid = Some (if map_of es (rsrc_key rid) = None then FAILURE else SUCCESS, g') \<and>
      (case map_of es (rsrc_key rid) of
         None \<Rightarrow> g' = g
       | Some le \<Rightarrow>
           let le' = le\<lparr>le_refcount := le_refcount le - 1\<rparr> in
           if 1 < le_refcount le then rsrc_state g' (AList.update (rsrc_key rid) le' es) (ht_dtor_log ht)
           else rsrc_state g' (AList.delete (rsrc_key rid) es) (ht_dtor_log ht @ (if pDestructor ht then [le'] else [])))"
    "\<exists>g'. zend_list_insert g p typ = Some (int_of_ulong nf, g') \<and>
      rsrc_state g' (AList.update (rsrc_key (int_of_ulong nf)) \<lparr>le_ptr = p, le_type = typ, le_refcount = 1\<rparr> es)
        (ht_dtor_log ht @ (if pDestructor ht then list_of_option (map_of es (rsrc_key (int_of_ulong nf))) else [])) \<and>
      (unat nf < 2 ^ 31 \<and> next_free_ok nf es \<longrightarrow> int_of_ulong nf = int (unat nf) \<and>
        map_of es (rsrc_key (int_of_ulong nf)) = None \<and> nNextFreeElement (regular_list g') = nf + 1)"
proof -
  show "zend_list_find g rid = Some (case map_of es (rsrc_key rid) of None \<Rightarrow> (0, -1) | Some le \<Rightarrow> (le_ptr le, le_type le))"
    by (rule list_find_spec [OF rep])
  show "\<exists>g'. zend_list_addref g rid = Some (if map_of es (rsrc_key rid) = None then FAILURE else SUCCESS, g') \<and>
      rsrc_state g' (case map_of es (rsrc_key rid) of None \<Rightarrow> es
        | Some le \<Rightarrow> AList.update (rsrc_key rid) (le\<lparr>le_refcount := le_refcount le + 1\<rparr>) es) (ht_dtor_log ht)"
    using list_addref_spec [OF rep] by (simp add: ht_def)
  show "\<exists>g'. zend_list_delete g rid = Some (if map_of es (rsrc_key rid) = None then FAILURE else SUCCESS, g') \<and>
      (case map_of es (rsrc_key rid) of
         None \<Rightarrow> g' = g
       | Some le \<Rightarrow>
           let le' = le\<lparr>le_refcount := le_refcount le - 1\<rparr> in
           if 1 < le_refcount le then rsrc_state g' (AList.update (rsrc_key rid) le' es) (ht_dtor_log ht)
           else rsrc_state g' (AList.delete (rsrc_key rid) es) (ht_dtor_log ht @ (if pDestructor ht then [le'] else [])))"
    using list_delete_spec [OF rep, of rid] unfolding ht_def Let_def .
  have "map_of es (rsrc_key (int_of_ulong nf)) = None" if "unat nf < 2 ^ 31" "next_free_ok nf es"
  proof -
    have "nf \<noteq> LONG_MAX" using that(1) by (auto simp: LONG_MAX_def)
    with that(2) have "IdxKey nf \<notin> fst ` set es" by (fastforce simp: next_free_ok_def)
    then show ?thesis by (simp add: small_id(2) [OF that(1)] map_of_eq_None_iff)
  qed
  then show "\<exists>g'. zend_list_insert g p typ = Some (int_of_ulong nf, g') \<and>
      rsrc_state g' (AList.update (rsrc_key (int_of_ulong nf)) \<lparr>le_ptr = p, le_type = typ, le_refcount = 1\<rparr> es)
        (ht_dtor_log ht @ (if pDestructor ht then list_of_option (map_of es (rsrc_key (int_of_ulong nf))) else [])) \<and>
      (unat nf < 2 ^ 31 \<and> next_free_ok nf es \<longrightarrow> int_of_ulong nf = int (unat nf) \<and>
        map_of es (rsrc_key (int_of_ulong nf)) = None \<and> nNextFreeElement (regular_list g') = nf + 1)"
    using list_insert_spec [OF rep, of p "typ"] small_id [of nf] by (auto simp: ht_def simp flip: nf_def)
qed


definition lists_of :: "(hkey \<times> rsrc_entry) list \<Rightarrow> (hkey \<times> dtors_entry) list \<Rightarrow> rsrc_lists" where
  "lists_of es ds = \<lparr>regular_list = hash_of es, persistent_list = hash_of es, list_destructors = hash_of ds\<rparr>"


text \<open>
  C27: \<open>zend_fetch_resource\<close> returns a resource exactly when the id, taken from the \<open>zval\<close> unless a
  default id is given, names an entry whose pointer is not \<open>NULL\<close> and whose type is one of those
  asked for; every other call returns \<open>NULL\<close>, and warns once when a type name is given.
\<close>
theorem rsrc_fetch_checks:
  fixes passed :: "zval option" and default_id :: int
  assumes "represents (regular_list g) ps es"
  defines "rid \<equiv> (if default_id = -1 then int_of_ulong (of_int (zv_lval (the passed))) else default_id)"
  defines "is_rsrc \<equiv> (default_id = -1 \<longrightarrow> passed \<noteq> None \<and> zv_type (the passed) = IS_RESOURCE)"
  shows "\<exists>p found w. zend_fetch_resource g passed default_id name types = Some (p, found, w) \<and>
    (p \<noteq> 0 \<longleftrightarrow> is_rsrc \<and> (\<exists>le. map_of es (rsrc_key rid) = Some le \<and> le_ptr le \<noteq> 0 \<and> le_type le \<in> set types)) \<and>
    (p \<noteq> 0 \<longrightarrow> map_option le_ptr (map_of es (rsrc_key rid)) = Some p \<and>
       found = map_option le_type (map_of es (rsrc_key rid)) \<and> w = None) \<and>
    (p = 0 \<longrightarrow> found = None \<and> (w \<noteq> None \<longleftrightarrow> name \<noteq> None))"
  using list_find_spec [OF assms(1)]
  by (cases passed; cases "map_of es (rsrc_key rid)")
     (auto simp: zend_fetch_resource_def rid_def is_rsrc_def Let_def split: if_splits)

theorem rsrc_fetch_checks_witness:
  "\<exists>w. zend_fetch_resource (lists_of [(rsrc_key 3, \<lparr>le_ptr = 8, le_type = 5, le_refcount = 1\<rparr>)] [])
     (Some \<lparr>zv_type = 7, zv_lval = 3\<rparr>) (-1) (Some ''stream'') [4, 5] = Some (8, Some 5, w)"
proof -
  let ?es = "[(rsrc_key 3, \<lparr>le_ptr = 8, le_type = 5, le_refcount = 1\<rparr>)]"
  obtain ps where r: "represents (regular_list (lists_of ?es [])) ps ?es"
    using hash_of_represents [of ?es] by (auto simp: lists_of_def)
  have k: "int_of_ulong 3 = 3" by (simp add: int_of_ulong_def)
  from rsrc_fetch_checks [OF r, of "Some \<lparr>zv_type = 7, zv_lval = 3\<rparr>" "-1" "Some ''stream''" "[4, 5]"]
  show ?thesis by (auto simp: IS_RESOURCE_def k)
qed

lemma rsrc_destructor_registry_parts:
  assumes rep: "represents (list_destructors g) ps ds" and ok: "next_free_ok (nNextFreeElement (list_destructors g)) ds"
    and nf: "nNextFreeElement (list_destructors g) = n" "unat n < 2 ^ 31"
  defines "t \<equiv> int (unat n)"
  shows "\<exists>g'. zend_register_list_destructors g ld pld m = Some (t, g') \<and>
      (\<forall>le. list_entry_destructor (list_destructors g') le = Some (if rsrc_key (le_type le) = rsrc_key t
          then if ld \<noteq> 0 then Call_dtor ld (le_ptr le) else No_dtor else dtor_for list_call ds le) \<and>
        plist_entry_destructor (list_destructors g') le = Some (if rsrc_key (le_type le) = rsrc_key t
          then if pld \<noteq> 0 then Call_dtor pld (le_ptr le) else No_dtor else dtor_for plist_call ds le))"
    "\<exists>g'. zend_register_list_destructors_ex g ld pld name m = Some (t, g') \<and>
      (\<forall>le. list_entry_destructor (list_destructors g') le = Some (if rsrc_key (le_type le) = rsrc_key t
          then if ld \<noteq> 0 then Call_dtor_ex ld le else No_dtor else dtor_for list_call ds le) \<and>
        plist_entry_destructor (list_destructors g') le = Some (if rsrc_key (le_type le) = rsrc_key t
          then if pld \<noteq> 0 then Call_dtor_ex pld le else No_dtor else dtor_for plist_call ds le))"
    "zend_fetch_list_dtor_id g s = Some (case List.find (\<lambda>e. type_name (snd e) = Some s) ds of
       None \<Rightarrow> 0 | Some e \<Rightarrow> resource_id (snd e))"
proof -
  note reg = register_spec [OF rep ok nf, folded t_def]
  have "map_of (ds @ [(rsrc_key t, v)]) k = (if k = rsrc_key t then Some v else map_of ds k)" for k v
    using reg(3) by (auto simp: map_add_def split: option.splits)
  then have dl: "dtor_for call (ds @ [(rsrc_key t, v)]) le =
      (if rsrc_key (le_type le) = rsrc_key t then call v le else dtor_for call ds le)" for call v le
    unfolding dtor_for_def by simp
  from reg(1) [of ld pld m] obtain g' ps' where g': "zend_register_list_destructors g ld pld m = Some (t, g')"
    and rep': "represents (list_destructors g') ps' (ds @ [(rsrc_key t, \<lparr>list_dtor = ld, plist_dtor = pld,
      list_dtor_ex = 0, plist_dtor_ex = 0, type_name = None, module_number = m, resource_id = t,
      ld_type = ZEND_RESOURCE_LIST_TYPE_STD\<rparr>)])" by blast
  show "\<exists>g'. zend_register_list_destructors g ld pld m = Some (t, g') \<and>
      (\<forall>le. list_entry_destructor (list_destructors g') le = Some (if rsrc_key (le_type le) = rsrc_key t
          then if ld \<noteq> 0 then Call_dtor ld (le_ptr le) else No_dtor else dtor_for list_call ds le) \<and>
        plist_entry_destructor (list_destructors g') le = Some (if rsrc_key (le_type le) = rsrc_key t
          then if pld \<noteq> 0 then Call_dtor pld (le_ptr le) else No_dtor else dtor_for plist_call ds le))"
    by (rule exI [of _ g']) (simp add: g' entry_destructor_spec [OF rep'] dl list_call_def plist_call_def)
  from reg(2) [of ld pld name m] obtain g2 ps2 where g2: "zend_register_list_destructors_ex g ld pld name m = Some (t, g2)"
    and rep2: "represents (list_destructors g2) ps2 (ds @ [(rsrc_key t, \<lparr>list_dtor = 0, plist_dtor = 0,
      list_dtor_ex = ld, plist_dtor_ex = pld, type_name = name, module_number = m, resource_id = t,
      ld_type = ZEND_RESOURCE_LIST_TYPE_EX\<rparr>)])" by blast
  show "\<exists>g'. zend_register_list_destructors_ex g ld pld name m = Some (t, g') \<and>
      (\<forall>le. list_entry_destructor (list_destructors g') le = Some (if rsrc_key (le_type le) = rsrc_key t
          then if ld \<noteq> 0 then Call_dtor_ex ld le else No_dtor else dtor_for list_call ds le) \<and>
        plist_entry_destructor (list_destructors g') le = Some (if rsrc_key (le_type le) = rsrc_key t
          then if pld \<noteq> 0 then Call_dtor_ex pld le else No_dtor else dtor_for plist_call ds le))"
    by (rule exI [of _ g2]) (simp add: g2 entry_destructor_spec [OF rep2] dl list_call_def plist_call_def)
  have "(if 0 < length ps then Some (ps ! 0) else None) = pListHead (list_destructors g)"
    using represents_ends(1) [OF rep] by (cases ps) auto
  with fetch_id_loop_spec [OF rep, of 0 s] show "zend_fetch_list_dtor_id g s =
      Some (case List.find (\<lambda>e. type_name (snd e) = Some s) ds of None \<Rightarrow> 0 | Some e \<Rightarrow> resource_id (snd e))"
    by (simp add: zend_fetch_list_dtor_id_def zend_hash_internal_pointer_reset_ex_def store_pos_def)
qed

text \<open>
  Registering destructors gives the next type number, for which \<open>list_entry_destructor\<close> and
  \<open>plist_entry_destructor\<close> from then on call the registered functions (none where \<open>NULL\<close> was given),
  while every other type is treated as before; an entry of an unregistered type only gives a warning.
  \<open>zend_fetch_list_dtor_id\<close> returns the type number of the first type of the name, 0 if there is none.
\<close>
theorem rsrc_destructor_registry:
  assumes rep: "represents (list_destructors g) ps ds" and ok: "next_free_ok (nNextFreeElement (list_destructors g)) ds"
    and nf: "nNextFreeElement (list_destructors g) = n" "unat n < 2 ^ 31"
  shows "(\<exists>g'. zend_register_list_destructors g ld pld m = Some (int (unat n), g') \<and>
      (\<forall>le. list_entry_destructor (list_destructors g') le = Some (if rsrc_key (le_type le) = rsrc_key (int (unat n))
          then if ld \<noteq> 0 then Call_dtor ld (le_ptr le) else No_dtor else dtor_for list_call ds le) \<and>
        plist_entry_destructor (list_destructors g') le = Some (if rsrc_key (le_type le) = rsrc_key (int (unat n))
          then if pld \<noteq> 0 then Call_dtor pld (le_ptr le) else No_dtor else dtor_for plist_call ds le))) \<and>
    (\<exists>g'. zend_register_list_destructors_ex g ld pld name m = Some (int (unat n), g') \<and>
      (\<forall>le. list_entry_destructor (list_destructors g') le = Some (if rsrc_key (le_type le) = rsrc_key (int (unat n))
          then if ld \<noteq> 0 then Call_dtor_ex ld le else No_dtor else dtor_for list_call ds le) \<and>
        plist_entry_destructor (list_destructors g') le = Some (if rsrc_key (le_type le) = rsrc_key (int (unat n))
          then if pld \<noteq> 0 then Call_dtor_ex pld le else No_dtor else dtor_for plist_call ds le))) \<and>
    (zend_fetch_list_dtor_id g s = Some (case List.find (\<lambda>e. type_name (snd e) = Some s) ds of
       None \<Rightarrow> 0 | Some e \<Rightarrow> resource_id (snd e)))"
  by (rule conjI [OF rsrc_destructor_registry_parts(1) [OF rep ok nf]
    conjI [OF rsrc_destructor_registry_parts(2) [OF rep ok nf]
    rsrc_destructor_registry_parts(3) [OF rep ok nf]]])

theorem rsrc_destructor_registry_witness:
  "\<exists>g'. zend_register_list_destructors (lists_of [] [(IdxKey 1, \<lparr>list_dtor = 4, plist_dtor = 0, list_dtor_ex = 0,
      plist_dtor_ex = 0, type_name = None, module_number = 2, resource_id = 1, ld_type = ZEND_RESOURCE_LIST_TYPE_STD\<rparr>)]) 9 0 3 = Some (2, g') \<and>
    list_entry_destructor (list_destructors g') \<lparr>le_ptr = 77, le_type = 2, le_refcount = 0\<rparr> = Some (Call_dtor 9 77)"
proof -
  let ?ds = "[(IdxKey 1, \<lparr>list_dtor = 4, plist_dtor = 0, list_dtor_ex = 0,
      plist_dtor_ex = 0, type_name = None, module_number = 2, resource_id = 1, ld_type = ZEND_RESOURCE_LIST_TYPE_STD\<rparr>)]"
  obtain ps where r: "represents (list_destructors (lists_of [] ?ds)) ps ?ds"
    and o: "next_free_ok (nNextFreeElement (list_destructors (lists_of [] ?ds))) ?ds"
    using hash_of_represents [of ?ds] by (auto simp: lists_of_def)
  have n: "nNextFreeElement (list_destructors (lists_of [] ?ds)) = 2" by code_simp
  have "unat (2 :: u64) < 2 ^ 31" by simp
  from rsrc_destructor_registry [OF r o n this, of 9 0 3, THEN conjunct1] show ?thesis by auto
qed

text \<open>
  \<open>zend_clean_module_rsrc_dtors\<close> removes from the persistent list exactly the entries whose type
  was registered by the module, giving them to the destructor, and then the module's types from the
  destructor table; the other entries and types keep their order.
\<close>
theorem rsrc_clean_module:
  assumes "represents (list_destructors g) dps ds" "represents (persistent_list g) ps pes"
    "\<not> nested_too_deep (list_destructors g)" "\<not> nested_too_deep (persistent_list g)"
  shows "\<exists>g' dps' ps'. zend_clean_module_rsrc_dtors g m = Some (Inr g') \<and>
    represents (list_destructors g') dps' (filter (\<lambda>e. module_number (snd e) \<noteq> m) ds) \<and>
    represents (persistent_list g') ps'
      (filter (\<lambda>e. le_type (snd e) \<notin> set (module_types m ds)) pes) \<and>
    regular_list g' = regular_list g \<and>
    ht_dtor_log (persistent_list g') = ht_dtor_log (persistent_list g) @
      (if pDestructor (persistent_list g)
       then clean_log (module_types m ds) pes else [])"
proof -
  from clean_module_entries [OF assms(2,4), of m ds] obtain pl' ps' where
    r: "apply_entries (\<lambda>_ ld. zend_clean_module_rsrc_dtors_cb ld m) ds (Some (Inr (persistent_list g))) =
      (filter (\<lambda>e. module_number (snd e) \<noteq> m) ds, map snd (filter (\<lambda>e. module_number (snd e) = m) ds), Some (Inr pl'))"
    "represents pl' ps' (filter (\<lambda>e. le_type (snd e) \<notin> set (module_types m ds)) pes)"
    "ht_dtor_log pl' = ht_dtor_log (persistent_list g) @ (if pDestructor (persistent_list g)
      then clean_log (module_types m ds) pes else [])" by blast
  from apply_arg_spec [of _ _ _ zend_clean_module_rsrc_dtors_cb m, OF assms(1,3) r(1)] obtain dt' dps' where
    "zend_hash_apply_with_argument (list_destructors g) zend_clean_module_rsrc_dtors_cb m (Some (Inr (persistent_list g))) =
      Some (Inr (dt', Some (Inr pl')))" "represents dt' dps' (filter (\<lambda>e. module_number (snd e) \<noteq> m) ds)" by blast
  with r(2,3) show ?thesis
    by (intro exI [of _ "g\<lparr>list_destructors := dt', persistent_list := pl'\<rparr>"] exI [of _ dps'] exI [of _ ps'])
       (simp add: zend_clean_module_rsrc_dtors_def)
qed

theorem rsrc_clean_module_witness:
  "\<exists>g'. zend_clean_module_rsrc_dtors (lists_of [(rsrc_key 5, \<lparr>le_ptr = 8, le_type = 1, le_refcount = 1\<rparr>)]
      [(IdxKey 1, \<lparr>list_dtor = 4, plist_dtor = 0, list_dtor_ex = 0, plist_dtor_ex = 0, type_name = None,
        module_number = 2, resource_id = 1, ld_type = ZEND_RESOURCE_LIST_TYPE_STD\<rparr>)]) 2 = Some (Inr g') \<and>
    (\<exists>ps. represents (persistent_list g') ps [])"
proof -
  let ?es = "[(rsrc_key 5, \<lparr>le_ptr = 8, le_type = 1, le_refcount = 1\<rparr>)]"
  let ?ds = "[(IdxKey 1, \<lparr>list_dtor = 4, plist_dtor = 0, list_dtor_ex = 0,
      plist_dtor_ex = 0, type_name = None, module_number = 2, resource_id = 1, ld_type = ZEND_RESOURCE_LIST_TYPE_STD\<rparr>)]"
  let ?g = "lists_of ?es ?ds"
  obtain dps where d: "represents (list_destructors ?g) dps ?ds" "\<not> nested_too_deep (list_destructors ?g)"
    using hash_of_represents [of ?ds] by (auto simp: lists_of_def nested_too_deep_def)
  obtain ps where p: "represents (persistent_list ?g) ps ?es" "\<not> nested_too_deep (persistent_list ?g)"
    using hash_of_represents [of ?es] by (auto simp: lists_of_def nested_too_deep_def)
  from rsrc_clean_module [OF d(1) p(1) d(2) p(2), of 2] show ?thesis by (auto simp: module_types_def)
qed

end
