(* ===== verification/ZendStack.thy ===== *)
theory ZendStack imports Prelude begin

text \<open>
  The two stacks of the engine: \<open>Zend/zend_stack.c\<close>, a growing array of pointers to copies of the
  pushed elements, and \<open>Zend/zend_ptr_stack.c\<close>, a growing array of pointers with a pointer to the
  first free slot.

  The array of a stack is a list with one element per allocated slot; \<open>None\<close> is a slot that was never
  written, and an access outside of the array or to a freed block is the value \<open>None\<close>. \<open>emalloc\<close> and
  \<open>erealloc\<close> do not return when memory is short, so they always succeed here. The counters are
  unbounded integers.

  The locale \<open>lifo\<close> is what a caller relies on: pushing appends, popping gives back the last element.
  Both stacks provide it, and its lemmas on series of pushes and pops hold for both.
\<close>

section \<open>The interface of a stack\<close>

fun push_all :: "('a \<Rightarrow> 's \<Rightarrow> 's option) \<Rightarrow> 'a list \<Rightarrow> 's \<Rightarrow> 's option" where
  "push_all push [] s = Some s"
| "push_all push (x # xs) s = do { s \<leftarrow> push x s; push_all push xs s }"

fun pop_many :: "('s \<Rightarrow> ('a \<times> 's) option) \<Rightarrow> nat \<Rightarrow> 's \<Rightarrow> ('a list \<times> 's) option" where
  "pop_many pop 0 s = Some ([], s)"
| "pop_many pop (Suc n) s = do { (x, s) \<leftarrow> pop s; (xs, s) \<leftarrow> pop_many pop n s; Some (x # xs, s) }"

locale lifo =
  fixes holds :: "'s \<Rightarrow> 'a list \<Rightarrow> bool" and push :: "'a \<Rightarrow> 's \<Rightarrow> 's option" and pop :: "'s \<Rightarrow> ('a \<times> 's) option"
  assumes push_holds: "holds s xs \<Longrightarrow> \<exists>s'. push x s = Some s' \<and> holds s' (xs @ [x])"
    and pop_holds: "holds s (xs @ [x]) \<Longrightarrow> \<exists>s'. pop s = Some (x, s') \<and> holds s' xs"
begin

lemma push_all_holds: "holds s xs \<Longrightarrow> \<exists>s'. push_all push ys s = Some s' \<and> holds s' (xs @ ys)"
proof (induction ys arbitrary: s xs)
  case (Cons y ys)
  from push_holds [OF Cons.prems, of y] obtain s1 where "push y s = Some s1" "holds s1 (xs @ [y])" by blast
  with Cons.IH [of s1 "xs @ [y]"] show ?case by auto
qed simp

lemma pop_many_holds: "holds s (xs @ ys) \<Longrightarrow> \<exists>s'. pop_many pop (length ys) s = Some (rev ys, s') \<and> holds s' xs"
proof (induction ys arbitrary: s rule: rev_induct)
  case (snoc y ys)
  from pop_holds [of s "xs @ ys" y] snoc.prems obtain s1 where "pop s = Some (y, s1)" "holds s1 (xs @ ys)" by auto
  with snoc.IH [of s1] show ?case by auto
qed simp

text \<open>A series of pushes is undone by as many pops, in reverse order.\<close>

lemma round_trip:
  assumes "holds s xs"
  shows "\<exists>s1 s2. push_all push ys s = Some s1 \<and> pop_many pop (length ys) s1 = Some (rev ys, s2) \<and> holds s2 xs"
  using push_all_holds [OF assms, of ys] pop_many_holds [of _ xs ys] by blast

end

section \<open>\<open>zend_stack\<close>\<close>

record 'e zend_stack =
  st_top :: int
  st_max :: int
  st_elements :: "ptr list"
  st_mem :: "'e region"

definition STACK_BLOCK_SIZE :: int where "STACK_BLOCK_SIZE = 64"

text \<open>\<open>stack->elements[i]\<close>\<close>

definition st_slot :: "'e zend_stack \<Rightarrow> int \<Rightarrow> addr option" where
  "st_slot st i = (if 0 \<le> i \<and> i < int (length (st_elements st)) then st_elements st ! nat i else None)"

definition zend_stack_init :: "'e zend_stack \<Rightarrow> zend_result \<times> 'e zend_stack" where
  "zend_stack_init st = (SUCCESS, st\<lparr>st_top := 0, st_elements := replicate (nat STACK_BLOCK_SIZE) None,
     st_max := STACK_BLOCK_SIZE, st_mem := region_empty\<rparr>)"

definition zend_stack_push :: "'e zend_stack \<Rightarrow> 'e \<Rightarrow> (int \<times> 'e zend_stack) option" where
  "zend_stack_push st element =
     (let st = (if st_top st \<ge> st_max st
                then st\<lparr>st_max := st_max st + STACK_BLOCK_SIZE,
                  st_elements := take (nat (st_max st + STACK_BLOCK_SIZE)) (st_elements st) @
                    replicate (nat (st_max st + STACK_BLOCK_SIZE) - length (st_elements st)) None\<rparr>
                else st);
          a = fresh (st_mem st);
          st = st\<lparr>st_mem := new_cell element (st_mem st)\<rparr>
      in if 0 \<le> st_top st \<and> st_top st < int (length (st_elements st))
         then Some (st_top st, st\<lparr>st_elements := (st_elements st)[nat (st_top st) := Some a], st_top := st_top st + 1\<rparr>)
         else None)"

definition zend_stack_top :: "'e zend_stack \<Rightarrow> (zend_result \<times> ptr) option" where
  "zend_stack_top st =
     (if 0 < st_top st then do { a \<leftarrow> st_slot st (st_top st - 1); Some (SUCCESS, Some a) } else Some (FAILURE, None))"

definition zend_stack_del_top :: "'e zend_stack \<Rightarrow> (zend_result \<times> 'e zend_stack) option" where
  "zend_stack_del_top st =
     (if 0 < st_top st then do {
        let st = st\<lparr>st_top := st_top st - 1\<rparr>;
        a \<leftarrow> st_slot st (st_top st);
        r \<leftarrow> free_cell a (st_mem st);
        Some (SUCCESS, st\<lparr>st_mem := r\<rparr>)
      } else Some (SUCCESS, st))"

text \<open>\<open>FAILURE\<close> is \<open>-1\<close>.\<close>

definition zend_stack_int_top :: "int zend_stack \<Rightarrow> int option" where
  "zend_stack_int_top st = do {
     (res, p) \<leftarrow> zend_stack_top st;
     if res = FAILURE then Some (-1) else do { a \<leftarrow> p; cells (st_mem st) a }
   }"

definition zend_stack_is_empty :: "'e zend_stack \<Rightarrow> bool" where
  "zend_stack_is_empty st \<longleftrightarrow> st_top st = 0"

definition zend_stack_count :: "'e zend_stack \<Rightarrow> int" where
  "zend_stack_count st = st_top st"

definition zend_stack_base :: "'e zend_stack \<Rightarrow> ptr list" where
  "zend_stack_base st = st_elements st"

text \<open>The blocks are freed one by one, then the array.\<close>

fun free_elements :: "ptr list \<Rightarrow> 'e region \<Rightarrow> 'e region option" where
  "free_elements [] r = Some r"
| "free_elements (p # ps) r = do { a \<leftarrow> p; r \<leftarrow> free_cell a r; free_elements ps r }"

definition zend_stack_destroy :: "'e zend_stack \<Rightarrow> (zend_result \<times> 'e zend_stack) option" where
  "zend_stack_destroy st =
     (if st_top st \<le> int (length (st_elements st)) then do {
        r \<leftarrow> free_elements (take (nat (st_top st)) (st_elements st)) (st_mem st);
        Some (SUCCESS, st\<lparr>st_mem := r, st_elements := []\<rparr>)
      } else None)"

text \<open>
  The callback may change the element and a state of its own, and stops the walk by returning
  non-zero. The loop visits the slots of the given indices.
\<close>

fun stack_apply_loop :: "('e \<Rightarrow> 's \<Rightarrow> bool \<times> 'e \<times> 's) \<Rightarrow> int list \<Rightarrow> 'e zend_stack \<Rightarrow> 's \<Rightarrow> ('e zend_stack \<times> 's) option" where
  "stack_apply_loop f [] st s = Some (st, s)"
| "stack_apply_loop f (i # is) st s = do {
     a \<leftarrow> st_slot st i;
     e \<leftarrow> cells (st_mem st) a;
     let (stop, e, s) = f e s;
     r \<leftarrow> upd_cell a (\<lambda>_. e) (st_mem st);
     let st = st\<lparr>st_mem := r\<rparr>;
     if stop then Some (st, s) else stack_apply_loop f is st s
   }"

datatype stack_apply_type = ZEND_STACK_APPLY_TOPDOWN | ZEND_STACK_APPLY_BOTTOMUP

definition zend_stack_apply ::
  "'e zend_stack \<Rightarrow> stack_apply_type \<Rightarrow> ('e \<Rightarrow> 's \<Rightarrow> bool \<times> 'e \<times> 's) \<Rightarrow> 's \<Rightarrow> ('e zend_stack \<times> 's) option" where
  "zend_stack_apply st ty f s = (case ty of
       ZEND_STACK_APPLY_TOPDOWN \<Rightarrow> stack_apply_loop f (rev [0..st_top st - 1]) st s
     | ZEND_STACK_APPLY_BOTTOMUP \<Rightarrow> stack_apply_loop f [0..st_top st - 1] st s)"

definition zend_stack_apply_with_argument ::
  "'e zend_stack \<Rightarrow> stack_apply_type \<Rightarrow> ('e \<Rightarrow> 'a \<Rightarrow> 's \<Rightarrow> bool \<times> 'e \<times> 's) \<Rightarrow> 'a \<Rightarrow> 's \<Rightarrow> ('e zend_stack \<times> 's) option" where
  "zend_stack_apply_with_argument st ty f arg s = (case ty of
       ZEND_STACK_APPLY_TOPDOWN \<Rightarrow> stack_apply_loop (\<lambda>e. f e arg) (rev [0..st_top st - 1]) st s
     | ZEND_STACK_APPLY_BOTTOMUP \<Rightarrow> stack_apply_loop (\<lambda>e. f e arg) [0..st_top st - 1] st s)"

section \<open>\<open>zend_ptr_stack\<close>\<close>

text \<open>\<open>ps_top_element\<close> is the distance of \<open>top_element\<close> from \<open>elements\<close>.\<close>

record 'p zend_ptr_stack =
  ps_top :: int
  ps_max :: int
  ps_elements :: "'p option list"
  ps_top_element :: int
  ps_persistent :: bool

definition PTR_STACK_BLOCK_SIZE :: int where "PTR_STACK_BLOCK_SIZE = 64"

definition zend_ptr_stack_init_ex :: "bool \<Rightarrow> 'p zend_ptr_stack" where
  "zend_ptr_stack_init_ex persistent = \<lparr>ps_top = 0, ps_max = PTR_STACK_BLOCK_SIZE,
     ps_elements = replicate (nat PTR_STACK_BLOCK_SIZE) None, ps_top_element = 0, ps_persistent = persistent\<rparr>"

definition zend_ptr_stack_init :: "'p zend_ptr_stack" where
  "zend_ptr_stack_init = zend_ptr_stack_init_ex False"

definition ZEND_PTR_STACK_RESIZE_IF_NEEDED :: "'p zend_ptr_stack \<Rightarrow> int \<Rightarrow> 'p zend_ptr_stack" where
  "ZEND_PTR_STACK_RESIZE_IF_NEEDED st count =
     (if ps_top st + count > ps_max st then
        let m = ps_max st * 2 + count in
        st\<lparr>ps_max := m,
           ps_elements := take (nat m) (ps_elements st) @ replicate (nat m - length (ps_elements st)) None,
           ps_top_element := ps_top st\<rparr>
      else st)"

text \<open>\<open>*(stack->top_element++) = elem;\<close> and \<open>*(--stack->top_element)\<close>\<close>

definition store_top :: "'p \<Rightarrow> 'p zend_ptr_stack \<Rightarrow> 'p zend_ptr_stack option" where
  "store_top elem st =
     (if 0 \<le> ps_top_element st \<and> ps_top_element st < int (length (ps_elements st))
      then Some (st\<lparr>ps_elements := (ps_elements st)[nat (ps_top_element st) := Some elem],
             ps_top_element := ps_top_element st + 1\<rparr>)
      else None)"

definition load_top :: "'p zend_ptr_stack \<Rightarrow> ('p \<times> 'p zend_ptr_stack) option" where
  "load_top st =
     (let i = ps_top_element st - 1 in
      if 0 \<le> i \<and> i < int (length (ps_elements st))
      then do { p \<leftarrow> ps_elements st ! nat i; Some (p, st\<lparr>ps_top_element := i\<rparr>) }
      else None)"

fun n_push_loop :: "'p list \<Rightarrow> 'p zend_ptr_stack \<Rightarrow> 'p zend_ptr_stack option" where
  "n_push_loop [] st = Some st"
| "n_push_loop (elem # elems) st = do {
     st \<leftarrow> store_top elem (st\<lparr>ps_top := ps_top st + 1\<rparr>);
     n_push_loop elems st
   }"

definition zend_ptr_stack_n_push :: "'p zend_ptr_stack \<Rightarrow> 'p list \<Rightarrow> 'p zend_ptr_stack option" where
  "zend_ptr_stack_n_push st elems = n_push_loop elems (ZEND_PTR_STACK_RESIZE_IF_NEEDED st (int (length elems)))"

fun zend_ptr_stack_n_pop :: "'p zend_ptr_stack \<Rightarrow> nat \<Rightarrow> ('p list \<times> 'p zend_ptr_stack) option" where
  "zend_ptr_stack_n_pop st 0 = Some ([], st)"
| "zend_ptr_stack_n_pop st (Suc count) = do {
     (elem, st) \<leftarrow> load_top st;
     let st = st\<lparr>ps_top := ps_top st - 1\<rparr>;
     (elems, st) \<leftarrow> zend_ptr_stack_n_pop st count;
     Some (elem # elems, st)
   }"

definition zend_ptr_stack_push :: "'p \<Rightarrow> 'p zend_ptr_stack \<Rightarrow> 'p zend_ptr_stack option" where
  "zend_ptr_stack_push p st =
     (let st = ZEND_PTR_STACK_RESIZE_IF_NEEDED st 1 in store_top p (st\<lparr>ps_top := ps_top st + 1\<rparr>))"

definition zend_ptr_stack_pop :: "'p zend_ptr_stack \<Rightarrow> ('p \<times> 'p zend_ptr_stack) option" where
  "zend_ptr_stack_pop st = load_top (st\<lparr>ps_top := ps_top st - 1\<rparr>)"

definition zend_ptr_stack_2_push :: "'p zend_ptr_stack \<Rightarrow> 'p \<Rightarrow> 'p \<Rightarrow> 'p zend_ptr_stack option" where
  "zend_ptr_stack_2_push st a b = do {
     let st = ZEND_PTR_STACK_RESIZE_IF_NEEDED st 2;
     let st = st\<lparr>ps_top := ps_top st + 2\<rparr>;
     st \<leftarrow> store_top a st;
     store_top b st
   }"

definition zend_ptr_stack_3_push :: "'p zend_ptr_stack \<Rightarrow> 'p \<Rightarrow> 'p \<Rightarrow> 'p \<Rightarrow> 'p zend_ptr_stack option" where
  "zend_ptr_stack_3_push st a b c = do {
     let st = ZEND_PTR_STACK_RESIZE_IF_NEEDED st 3;
     let st = st\<lparr>ps_top := ps_top st + 3\<rparr>;
     st \<leftarrow> store_top a st;
     st \<leftarrow> store_top b st;
     store_top c st
   }"

definition zend_ptr_stack_2_pop :: "'p zend_ptr_stack \<Rightarrow> (('p \<times> 'p) \<times> 'p zend_ptr_stack) option" where
  "zend_ptr_stack_2_pop st = do {
     (a, st) \<leftarrow> load_top st;
     (b, st) \<leftarrow> load_top st;
     Some ((a, b), st\<lparr>ps_top := ps_top st - 2\<rparr>)
   }"

definition zend_ptr_stack_3_pop :: "'p zend_ptr_stack \<Rightarrow> (('p \<times> 'p \<times> 'p) \<times> 'p zend_ptr_stack) option" where
  "zend_ptr_stack_3_pop st = do {
     (a, st) \<leftarrow> load_top st;
     (b, st) \<leftarrow> load_top st;
     (c, st) \<leftarrow> load_top st;
     Some ((a, b, c), st\<lparr>ps_top := ps_top st - 3\<rparr>)
   }"

text \<open>The pointers the callback is called on, in the order of the calls.\<close>

definition zend_ptr_stack_apply :: "'p zend_ptr_stack \<Rightarrow> ('p \<Rightarrow> 's \<Rightarrow> 's) \<Rightarrow> 's \<Rightarrow> 's option" where
  "zend_ptr_stack_apply st func s =
     (if ps_top st \<le> int (length (ps_elements st)) then
        (let slots = rev (take (nat (ps_top st)) (ps_elements st)) in
         if None \<in> set slots then None else Some (fold func (map the slots) s))
      else None)"

text \<open>With \<open>free_elements\<close>, every pointer is freed after the callbacks; the model returns them.\<close>

definition zend_ptr_stack_clean ::
  "'p zend_ptr_stack \<Rightarrow> ('p \<Rightarrow> 's \<Rightarrow> 's) \<Rightarrow> bool \<Rightarrow> 's \<Rightarrow> ('p list \<times> 'p zend_ptr_stack \<times> 's) option" where
  "zend_ptr_stack_clean st func free_them s = do {
     s \<leftarrow> zend_ptr_stack_apply st func s;
     let freed = (if free_them then map the (rev (take (nat (ps_top st)) (ps_elements st))) else []);
     Some (freed, st\<lparr>ps_top := 0, ps_top_element := 0\<rparr>, s)
   }"

definition zend_ptr_stack_num_elements :: "'p zend_ptr_stack \<Rightarrow> int" where
  "zend_ptr_stack_num_elements st = ps_top st"

definition zend_ptr_stack_destroy :: "'p zend_ptr_stack \<Rightarrow> 'p zend_ptr_stack" where
  "zend_ptr_stack_destroy st = st\<lparr>ps_elements := []\<rparr>"

section \<open>\<open>zend_stack\<close> is a stack\<close>

definition stack_holds :: "'e zend_stack \<Rightarrow> 'e list \<Rightarrow> bool" where
  "stack_holds st xs \<longleftrightarrow> (\<exists>as. st_top st = int (length as) \<and> st_max st = int (length (st_elements st)) \<and>
     length as \<le> length (st_elements st) \<and> take (length as) (st_elements st) = map Some as \<and> distinct as \<and>
     region_wf (st_mem st) \<and> dom (cells (st_mem st)) = set as \<and> xs = map (\<lambda>a. the (cells (st_mem st) a)) as)"

text \<open>Reading the top and removing it, as a caller does to take an element.\<close>

definition stack_take :: "'e zend_stack \<Rightarrow> ('e \<times> 'e zend_stack) option" where
  "stack_take st = do {
     (_, p) \<leftarrow> zend_stack_top st;
     a \<leftarrow> p;
     e \<leftarrow> cells (st_mem st) a;
     (_, st) \<leftarrow> zend_stack_del_top st;
     Some (e, st)
   }"

lemma stack_push_holds:
  assumes "stack_holds st xs"
  shows "\<exists>st'. zend_stack_push st x = Some (int (length xs), st') \<and> stack_holds st' (xs @ [x])"
proof -
  from assms obtain as where a: "st_top st = int (length as)" "st_max st = int (length (st_elements st))"
    "length as \<le> length (st_elements st)" "take (length as) (st_elements st) = map Some as" "distinct as"
    "region_wf (st_mem st)" "dom (cells (st_mem st)) = set as" "xs = map (\<lambda>a. the (cells (st_mem st) a)) as"
    by (auto simp: stack_holds_def)
  let ?n = "fresh (st_mem st)"
  have new: "?n \<notin> set as" using fresh_not_live [OF a(6)] unfolding a(7) [symmetric] by blast
  have vals: "map (\<lambda>a. the (cells (new_cell x (st_mem st)) a)) (as @ [?n]) = xs @ [x]" using new a(8) by auto
  define grown where "grown = (if st_top st \<ge> st_max st
    then st_elements st @ replicate (nat STACK_BLOCK_SIZE) None else st_elements st)"
  have g: "length as < length grown" "take (length as) grown = map Some as"
    using a(1-4) by (auto simp: grown_def STACK_BLOCK_SIZE_def)
  let ?st' = "st\<lparr>st_top := st_top st + 1, st_max := int (length grown), st_mem := new_cell x (st_mem st),
    st_elements := grown[length as := Some ?n]\<rparr>"
  have "zend_stack_push st x = Some (int (length xs), ?st')"
    using a g by (cases st) (auto simp: zend_stack_push_def grown_def STACK_BLOCK_SIZE_def Let_def nat_add_distrib)
  moreover have "stack_holds ?st' (xs @ [x])"
    unfolding stack_holds_def
    by (rule exI [of _ "as @ [?n]"])
       (use a g new vals in \<open>simp add: take_Suc_conv_app_nth take_update_cancel\<close>)
  ultimately show ?thesis by blast
qed

lemma stack_top_holds:
  assumes "stack_holds st (xs @ [x])"
  shows "\<exists>a. zend_stack_top st = Some (SUCCESS, Some a) \<and> cells (st_mem st) a = Some x \<and>
    (\<exists>st'. zend_stack_del_top st = Some (SUCCESS, st') \<and> stack_holds st' xs)"
proof -
  from assms obtain as where a: "st_top st = int (length as)" "st_max st = int (length (st_elements st))"
    "length as \<le> length (st_elements st)" "take (length as) (st_elements st) = map Some as" "distinct as"
    "region_wf (st_mem st)" "dom (cells (st_mem st)) = set as" "xs @ [x] = map (\<lambda>a. the (cells (st_mem st) a)) as"
    by (auto simp: stack_holds_def)
  then obtain bs b where as: "as = bs @ [b]" by (cases as rule: rev_cases) auto
  have "b \<in> dom (cells (st_mem st))" unfolding a(7) by (simp add: as)
  with a(8) as have b: "cells (st_mem st) b = Some x" and xs: "xs = map (\<lambda>a. the (cells (st_mem st) a)) bs" by auto
  have lt: "length bs < length (st_elements st)" using a(3) as by simp
  have el: "st_elements st ! length bs = Some b" "take (length bs) (st_elements st) = map Some bs"
    using a(4) lt unfolding as by (simp_all add: take_Suc_conv_app_nth)
  have slot: "st_slot st (int (length bs)) = Some b" using lt el by (simp add: st_slot_def)
  from free_cell_Some [OF b] obtain r where r: "free_cell b (st_mem st) = Some r" "cells r = (cells (st_mem st))(b := None)" by blast
  let ?st' = "st\<lparr>st_top := int (length bs), st_mem := r\<rparr>"
  have top: "zend_stack_top st = Some (SUCCESS, Some b)" using a(1) as slot by (simp add: zend_stack_top_def)
  have "zend_stack_del_top st = Some (SUCCESS, ?st')"
    using a(1) as lt el r(1) by (simp add: zend_stack_del_top_def st_slot_def Let_def)
  moreover have "map (\<lambda>a. the (cells r a)) bs = xs" using a(5) as xs r(2) by simp
  then have "stack_holds ?st' xs" unfolding stack_holds_def
    by (intro exI [of _ bs]) (use a(2,5,7) as el lt r region_wf_free_cell [OF a(6) r(1)] in auto)
  ultimately show ?thesis using top b by blast
qed

interpretation zs: lifo stack_holds "\<lambda>e st. map_option snd (zend_stack_push st e)" stack_take
proof
  fix s :: "'e zend_stack" and xs x
  show "stack_holds s xs \<Longrightarrow> \<exists>s'. map_option snd (zend_stack_push s x) = Some s' \<and> stack_holds s' (xs @ [x])"
    using stack_push_holds [of s xs x] by auto
  show "stack_holds s (xs @ [x]) \<Longrightarrow> \<exists>s'. stack_take s = Some (x, s') \<and> stack_holds s' xs"
    using stack_top_holds [of s xs x] by (auto simp: stack_take_def)
qed

lemma stack_init_holds: "zend_stack_init st = (SUCCESS, st') \<Longrightarrow> stack_holds st' []"
  by (auto simp: zend_stack_init_def stack_holds_def STACK_BLOCK_SIZE_def)

text \<open>The walk, on the abstract stack: the elements in the order visited.\<close>

fun apply_elements :: "('e \<Rightarrow> 's \<Rightarrow> bool \<times> 'e \<times> 's) \<Rightarrow> 'e list \<Rightarrow> 's \<Rightarrow> 'e list \<times> 's" where
  "apply_elements f [] s = ([], s)"
| "apply_elements f (e # es) s = (let (stop, e, s) = f e s in
     if stop then (e # es, s) else let (es, s) = apply_elements f es s in (e # es, s))"

lemma stack_apply_loop_spec:
  "distinct bs \<Longrightarrow> list_all2 (\<lambda>i b. st_slot st i = Some b) is bs \<Longrightarrow> set bs \<subseteq> dom (cells (st_mem st)) \<Longrightarrow>
   apply_elements f (map (\<lambda>b. the (cells (st_mem st) b)) bs) s = (es, s') \<Longrightarrow> region_wf (st_mem st) \<Longrightarrow>
   \<exists>r. stack_apply_loop f is st s = Some (st\<lparr>st_mem := r\<rparr>, s') \<and> map (\<lambda>b. the (cells r b)) bs = es \<and>
     dom (cells r) = dom (cells (st_mem st)) \<and> region_wf r \<and> (\<forall>a. a \<notin> set bs \<longrightarrow> cells r a = cells (st_mem st) a)"
proof (induction bs arbitrary: "is" st s es s')
  case Nil
  then show ?case by (intro exI [of _ "st_mem st"]) simp
next
  case (Cons b bs)
  from Cons.prems(2) obtain i js where i: "is = i # js" "st_slot st i = Some b"
    "list_all2 (\<lambda>i b. st_slot st i = Some b) js bs" by (cases "is") auto
  from Cons.prems(3) obtain e where e: "cells (st_mem st) b = Some e" by auto
  obtain stop e1 s1 where f: "f e s = (stop, e1, s1)" by (metis prod_cases3)
  from upd_cell_eq [OF e, of "\<lambda>_. e1"] obtain r1 where
    r1: "upd_cell b (\<lambda>_. e1) (st_mem st) = Some r1" "cells r1 = (cells (st_mem st))(b \<mapsto> e1)" by fastforce
  have nb: "b \<notin> set bs" "distinct bs" using Cons.prems(1) by auto
  then have rest: "map (\<lambda>b. the (cells r1 b)) bs = map (\<lambda>b. the (cells (st_mem st) b)) bs" using r1(2) by auto
  have wf: "region_wf r1" by (rule region_wf_upd_cell [OF Cons.prems(5) r1(1)])
  have dom: "dom (cells r1) = dom (cells (st_mem st))" using dom_upd_cell [OF r1(1)] .
  have at: "the (cells r1 b) = e1" "\<forall>a. a \<notin> set (b # bs) \<longrightarrow> cells r1 a = cells (st_mem st) a" using r1(2) by auto
  show ?case
  proof (cases stop)
    case True
    with Cons.prems(4) e f have "es = e1 # map (\<lambda>b. the (cells (st_mem st) b)) bs" "s' = s1" by simp_all
    with True i e f r1(1) rest wf dom at show ?thesis by (intro exI [of _ r1]) simp
  next
    case False
    obtain es1 s2 where step: "apply_elements f (map (\<lambda>b. the (cells r1 b)) bs) s1 = (es1, s2)" by fastforce
    then have "apply_elements f (map (\<lambda>b. the (cells (st_mem st) b)) bs) s1 = (es1, s2)" unfolding rest .
    with Cons.prems(4) e f False have es: "es = e1 # es1" "s' = s2" by simp_all
    let ?st1 = "st\<lparr>st_mem := r1\<rparr>"
    have same: "st_slot ?st1 i = st_slot st i" for i by (cases "0 \<le> i \<and> i < int (length (st_elements st))") (auto simp: st_slot_def)
    have "list_all2 (\<lambda>i b. st_slot ?st1 i = Some b) js bs" using i(3) same by simp
    moreover have "set bs \<subseteq> dom (cells (st_mem ?st1))" using Cons.prems(3) dom by auto
    ultimately obtain r where r: "stack_apply_loop f js ?st1 s1 = Some (?st1\<lparr>st_mem := r\<rparr>, s2)"
      "map (\<lambda>b. the (cells r b)) bs = es1" "dom (cells r) = dom (cells r1)" "region_wf r"
      "\<forall>a. a \<notin> set bs \<longrightarrow> cells r a = cells r1 a"
      using Cons.IH [of ?st1 js s1 es1 s2] nb(2) step wf by auto
    have "the (cells r b) = e1" "\<forall>a. a \<notin> set (b # bs) \<longrightarrow> cells r a = cells (st_mem st) a"
      using r(5) nb(1) r1(2) by auto
    with False i e f r1(1) r es dom show ?thesis by (intro exI [of _ r]) simp
  qed
qed

section \<open>\<open>zend_ptr_stack\<close> is a stack\<close>

definition ptr_stack_holds :: "'p zend_ptr_stack \<Rightarrow> 'p list \<Rightarrow> bool" where
  "ptr_stack_holds st xs \<longleftrightarrow> ps_top st = int (length xs) \<and> ps_top_element st = ps_top st \<and>
     ps_max st = int (length (ps_elements st)) \<and> length xs \<le> length (ps_elements st) \<and>
     take (length xs) (ps_elements st) = map Some xs"

lemma resize_holds:
  assumes "ptr_stack_holds st xs" "0 \<le> n"
  shows "ptr_stack_holds (ZEND_PTR_STACK_RESIZE_IF_NEEDED st n) xs \<and>
    int (length xs) + n \<le> int (length (ps_elements (ZEND_PTR_STACK_RESIZE_IF_NEEDED st n)))"
  using assms by (auto simp: ptr_stack_holds_def ZEND_PTR_STACK_RESIZE_IF_NEEDED_def Let_def)

lemma store_top_holds:
  assumes "ptr_stack_holds (st\<lparr>ps_top := int (length xs)\<rparr>) xs" "length xs < length (ps_elements st)" "ps_top st = t"
  shows "\<exists>st'. store_top p st = Some st' \<and> ptr_stack_holds (st'\<lparr>ps_top := int (length xs) + 1\<rparr>) (xs @ [p]) \<and>
    ps_top st' = t \<and> length (ps_elements st') = length (ps_elements st)"
  using assms by (auto simp: store_top_def ptr_stack_holds_def take_Suc_conv_app_nth take_update_cancel)

lemma load_top_holds:
  assumes "ptr_stack_holds (st\<lparr>ps_top := int (length xs) + 1\<rparr>) (xs @ [p])" "ps_top st = t"
  shows "\<exists>st'. load_top st = Some (p, st') \<and> ptr_stack_holds (st'\<lparr>ps_top := int (length xs)\<rparr>) xs \<and> ps_top st' = t"
  using assms by (auto simp: load_top_def ptr_stack_holds_def take_Suc_conv_app_nth Let_def nat_add_distrib)

lemma ptr_push_holds:
  assumes "ptr_stack_holds st xs"
  shows "\<exists>st'. zend_ptr_stack_push p st = Some st' \<and> ptr_stack_holds st' (xs @ [p])"
proof -
  let ?st = "ZEND_PTR_STACK_RESIZE_IF_NEEDED st 1"
  from resize_holds [OF assms, of 1] have r: "ptr_stack_holds ?st xs" "length xs < length (ps_elements ?st)"
    "ps_top ?st = int (length xs)" by (auto simp: ptr_stack_holds_def)
  then have "ptr_stack_holds ((?st\<lparr>ps_top := ps_top ?st + 1\<rparr>)\<lparr>ps_top := int (length xs)\<rparr>) xs"
    by (simp add: ptr_stack_holds_def)
  from store_top_holds [OF this _ refl, of p] r obtain st' where "store_top p (?st\<lparr>ps_top := ps_top ?st + 1\<rparr>) = Some st'"
    "ptr_stack_holds (st'\<lparr>ps_top := int (length xs) + 1\<rparr>) (xs @ [p])" "ps_top st' = int (length xs) + 1" by auto
  then show ?thesis by (cases st') (simp add: zend_ptr_stack_push_def Let_def)
qed

lemma ptr_pop_holds:
  assumes "ptr_stack_holds st (xs @ [p])"
  shows "\<exists>st'. zend_ptr_stack_pop st = Some (p, st') \<and> ptr_stack_holds st' xs"
proof -
  have t: "ps_top st = int (length xs) + 1" using assms by (simp add: ptr_stack_holds_def)
  then have "ptr_stack_holds ((st\<lparr>ps_top := ps_top st - 1\<rparr>)\<lparr>ps_top := int (length xs) + 1\<rparr>) (xs @ [p])"
    using assms by (cases st) simp
  from load_top_holds [OF this refl] obtain st' where "load_top (st\<lparr>ps_top := ps_top st - 1\<rparr>) = Some (p, st')"
    "ptr_stack_holds (st'\<lparr>ps_top := int (length xs)\<rparr>) xs" "ps_top st' = int (length xs)" using t by auto
  then show ?thesis by (cases st') (simp add: zend_ptr_stack_pop_def)
qed

interpretation zps: lifo ptr_stack_holds zend_ptr_stack_push zend_ptr_stack_pop
  by unfold_locales (rule ptr_push_holds ptr_pop_holds, assumption)+

lemma n_push_loop_holds:
  "ptr_stack_holds st xs \<Longrightarrow> length xs + length ps \<le> length (ps_elements st) \<Longrightarrow>
     \<exists>st'. n_push_loop ps st = Some st' \<and> ptr_stack_holds st' (xs @ ps)"
proof (induction ps arbitrary: st xs)
  case (Cons p ps)
  let ?st = "st\<lparr>ps_top := ps_top st + 1\<rparr>"
  have "ptr_stack_holds (?st\<lparr>ps_top := int (length xs)\<rparr>) xs" using Cons.prems(1) by (simp add: ptr_stack_holds_def)
  from store_top_holds [OF this _ refl, of p] Cons.prems obtain st' where s: "store_top p ?st = Some st'"
    "ptr_stack_holds (st'\<lparr>ps_top := int (length xs) + 1\<rparr>) (xs @ [p])" "ps_top st' = int (length xs) + 1"
    "length (ps_elements st') = length (ps_elements st)" by (auto simp: ptr_stack_holds_def)
  then have "ptr_stack_holds st' (xs @ [p])" by (cases st') simp
  from Cons.IH [OF this] s(1,4) Cons.prems(2) show ?case by auto
qed simp

lemma n_pop_holds: "ptr_stack_holds st (xs @ ps) \<Longrightarrow>
    \<exists>st'. zend_ptr_stack_n_pop st (length ps) = Some (rev ps, st') \<and> ptr_stack_holds st' xs"
proof (induction ps arbitrary: st rule: rev_induct)
  case (snoc p ps)
  then have t: "ps_top st = int (length (xs @ ps)) + 1" by (simp add: ptr_stack_holds_def)
  then have "ptr_stack_holds (st\<lparr>ps_top := int (length (xs @ ps)) + 1\<rparr>) ((xs @ ps) @ [p])" using snoc.prems by (cases st) simp
  from load_top_holds [OF this refl] obtain st' where l: "load_top st = Some (p, st')"
    "ptr_stack_holds (st'\<lparr>ps_top := int (length (xs @ ps))\<rparr>) (xs @ ps)" "ps_top st' = ps_top st" by blast
  then have "ptr_stack_holds (st'\<lparr>ps_top := ps_top st' - 1\<rparr>) (xs @ ps)" using t by simp
  from snoc.IH [OF this] l(1) show ?case by (auto simp: Let_def)
qed simp

lemma ptr_apply_holds:
  "ptr_stack_holds st xs \<Longrightarrow> zend_ptr_stack_apply st f s = Some (fold f (rev xs) s)"
  by (auto simp: zend_ptr_stack_apply_def ptr_stack_holds_def Let_def rev_map comp_def)

section \<open>Properties\<close>

lemma stack_refines_parts:
  assumes "stack_holds st xs"
  shows "\<exists>st'. zend_stack_push st x = Some (int (length xs), st') \<and> stack_holds st' (xs @ [x])"
    "xs \<noteq> [] \<Longrightarrow> \<exists>st'. stack_take st = Some (last xs, st') \<and> stack_holds st' (butlast xs)"
    "xs = [] \<Longrightarrow> zend_stack_top st = Some (FAILURE, None) \<and> zend_stack_del_top st = Some (SUCCESS, st)"
    "\<exists>s1 s2. push_all (\<lambda>e st. map_option snd (zend_stack_push st e)) ys st = Some s1 \<and>
       pop_many stack_take (length ys) s1 = Some (rev ys, s2) \<and> stack_holds s2 xs"
    "zend_stack_count st = int (length xs) \<and> (zend_stack_is_empty st \<longleftrightarrow> xs = [])"
    "apply_elements f xs s = (es, s') \<Longrightarrow> \<exists>st'. zend_stack_apply st ZEND_STACK_APPLY_BOTTOMUP f s = Some (st', s') \<and> stack_holds st' es"
    "apply_elements f (rev xs) s = (es, s') \<Longrightarrow>
       \<exists>st'. zend_stack_apply st ZEND_STACK_APPLY_TOPDOWN f s = Some (st', s') \<and> stack_holds st' (rev es)"
proof -
  show "\<exists>st'. zend_stack_push st x = Some (int (length xs), st') \<and> stack_holds st' (xs @ [x])"
    by (rule stack_push_holds [OF assms])
  show "\<exists>st'. stack_take st = Some (last xs, st') \<and> stack_holds st' (butlast xs)" if "xs \<noteq> []"
    using zs.pop_holds [of st "butlast xs" "last xs"] assms that by simp
  show "zend_stack_top st = Some (FAILURE, None) \<and> zend_stack_del_top st = Some (SUCCESS, st)" if "xs = []"
    using assms that by (auto simp: stack_holds_def zend_stack_top_def zend_stack_del_top_def)
  show "\<exists>s1 s2. push_all (\<lambda>e st. map_option snd (zend_stack_push st e)) ys st = Some s1 \<and>
       pop_many stack_take (length ys) s1 = Some (rev ys, s2) \<and> stack_holds s2 xs"
    by (rule zs.round_trip [OF assms])
  show "zend_stack_count st = int (length xs) \<and> (zend_stack_is_empty st \<longleftrightarrow> xs = [])"
    using assms by (auto simp: stack_holds_def zend_stack_count_def zend_stack_is_empty_def)
  from assms obtain as where a: "st_top st = int (length as)" "st_max st = int (length (st_elements st))"
    "length as \<le> length (st_elements st)" "take (length as) (st_elements st) = map Some as" "distinct as"
    "region_wf (st_mem st)" "dom (cells (st_mem st)) = set as" "xs = map (\<lambda>a. the (cells (st_mem st) a)) as"
    by (auto simp: stack_holds_def)
  have slots: "list_all2 (\<lambda>i b. st_slot st i = Some b) [0..st_top st - 1] as"
  proof (rule list_all2_all_nthI)
    show "length [0..st_top st - 1] = length as" using a(1) by simp
    fix n assume "n < length [0..st_top st - 1]"
    then have n: "n < length as" using a(1) by simp
    then have "st_elements st ! n = Some (as ! n)" using arg_cong [OF a(4), of "\<lambda>xs. xs ! n"] by simp
    with n a(1,3) show "st_slot st ([0..st_top st - 1] ! n) = Some (as ! n)" by (simp add: st_slot_def nth_upto)
  qed
  have sub: "set as \<subseteq> dom (cells (st_mem st))" by (simp add: a(7))
  note loop = stack_apply_loop_spec [where st = st, OF _ _ _ _ a(6)]
  show "\<exists>st'. zend_stack_apply st ZEND_STACK_APPLY_BOTTOMUP f s = Some (st', s') \<and> stack_holds st' es"
    if "apply_elements f xs s = (es, s')"
  proof -
    have v: "apply_elements f (map (\<lambda>b. the (cells (st_mem st) b)) as) s = (es, s')" using that a(8) by simp
    from loop [OF a(5) slots sub v] obtain r where "stack_apply_loop f [0..st_top st - 1] st s = Some (st\<lparr>st_mem := r\<rparr>, s')"
      "map (\<lambda>b. the (cells r b)) as = es" "dom (cells r) = dom (cells (st_mem st))" "region_wf r" by blast
    with a show ?thesis by (intro exI [of _ "st\<lparr>st_mem := r\<rparr>"]) (auto simp: zend_stack_apply_def stack_holds_def)
  qed
  show "\<exists>st'. zend_stack_apply st ZEND_STACK_APPLY_TOPDOWN f s = Some (st', s') \<and> stack_holds st' (rev es)"
    if "apply_elements f (rev xs) s = (es, s')"
  proof -
    have "list_all2 (\<lambda>i b. st_slot st i = Some b) (rev [0..st_top st - 1]) (rev as)" using slots by simp
    moreover have "apply_elements f (map (\<lambda>b. the (cells (st_mem st) b)) (rev as)) s = (es, s')" using that a(8) by (simp add: rev_map)
    ultimately obtain r where "stack_apply_loop f (rev [0..st_top st - 1]) st s = Some (st\<lparr>st_mem := r\<rparr>, s')"
      "map (\<lambda>b. the (cells r b)) (rev as) = es" "dom (cells r) = dom (cells (st_mem st))" "region_wf r"
      using loop [of "rev as" "rev [0..st_top st - 1]" f s es s'] a(5) sub by auto
    moreover from this(2) have "rev es = map (\<lambda>b. the (cells r b)) as" by (auto simp: rev_map)
    ultimately show ?thesis using a
      by (intro exI [of _ "st\<lparr>st_mem := r\<rparr>"]) (auto simp: zend_stack_apply_def stack_holds_def)
  qed
qed



lemma ptr_stack_refines_parts:
  assumes "ptr_stack_holds st xs"
  shows "\<exists>st'. zend_ptr_stack_n_push st ps = Some st' \<and> ptr_stack_holds st' (xs @ ps)"
    "xs = ys @ ps \<Longrightarrow> \<exists>st'. zend_ptr_stack_n_pop st (length ps) = Some (rev ps, st') \<and> ptr_stack_holds st' ys"
    "\<exists>s1 s2. push_all zend_ptr_stack_push ps st = Some s1 \<and> pop_many zend_ptr_stack_pop (length ps) s1 = Some (rev ps, s2) \<and>
       ptr_stack_holds s2 xs"
    "\<exists>st'. zend_ptr_stack_2_push st a b = Some st' \<and> ptr_stack_holds st' (xs @ [a, b])"
    "\<exists>st'. zend_ptr_stack_3_push st a b c = Some st' \<and> ptr_stack_holds st' (xs @ [a, b, c])"
    "xs = ys @ [b, a] \<Longrightarrow> \<exists>st'. zend_ptr_stack_2_pop st = Some ((a, b), st') \<and> ptr_stack_holds st' ys"
    "xs = ys @ [c, b, a] \<Longrightarrow> \<exists>st'. zend_ptr_stack_3_pop st = Some ((a, b, c), st') \<and> ptr_stack_holds st' ys"
    "\<exists>st'. zend_ptr_stack_clean st f free s = Some (if free then rev xs else [], st', fold f (rev xs) s) \<and> ptr_stack_holds st' []"
proof -
  show "\<exists>st'. zend_ptr_stack_n_push st ps = Some st' \<and> ptr_stack_holds st' (xs @ ps)"
    unfolding zend_ptr_stack_n_push_def
    by (rule n_push_loop_holds) (use resize_holds [OF assms, of "int (length ps)"] in auto)
  show "\<exists>st'. zend_ptr_stack_n_pop st (length ps) = Some (rev ps, st') \<and> ptr_stack_holds st' ys" if "xs = ys @ ps"
    using n_pop_holds assms that by blast
  show "\<exists>s1 s2. push_all zend_ptr_stack_push ps st = Some s1 \<and> pop_many zend_ptr_stack_pop (length ps) s1 = Some (rev ps, s2) \<and>
       ptr_stack_holds s2 xs" by (rule zps.round_trip [OF assms])
  show "\<exists>st'. zend_ptr_stack_2_push st a b = Some st' \<and> ptr_stack_holds st' (xs @ [a, b])"
    using resize_holds [OF assms, of 2]
    by (auto simp: zend_ptr_stack_2_push_def store_top_def ptr_stack_holds_def Let_def take_Suc_conv_app_nth nth_list_update
             take_update_cancel nat_add_distrib numeral_2_eq_2)
  show "\<exists>st'. zend_ptr_stack_3_push st a b c = Some st' \<and> ptr_stack_holds st' (xs @ [a, b, c])"
    using resize_holds [OF assms, of 3]
    by (auto simp: zend_ptr_stack_3_push_def store_top_def ptr_stack_holds_def Let_def take_Suc_conv_app_nth nth_list_update
             take_update_cancel nat_add_distrib numeral_3_eq_3)
  show "\<exists>st'. zend_ptr_stack_2_pop st = Some ((a, b), st') \<and> ptr_stack_holds st' ys" if "xs = ys @ [b, a]"
    using assms that
    by (auto simp: zend_ptr_stack_2_pop_def load_top_def ptr_stack_holds_def Let_def take_Suc_conv_app_nth nat_add_distrib)
  show "\<exists>st'. zend_ptr_stack_3_pop st = Some ((a, b, c), st') \<and> ptr_stack_holds st' ys" if "xs = ys @ [c, b, a]"
    using assms that
    by (auto simp: zend_ptr_stack_3_pop_def load_top_def ptr_stack_holds_def Let_def take_Suc_conv_app_nth nat_add_distrib)
  show "\<exists>st'. zend_ptr_stack_clean st f free s = Some (if free then rev xs else [], st', fold f (rev xs) s) \<and> ptr_stack_holds st' []"
    using assms by (auto simp: zend_ptr_stack_clean_def ptr_apply_holds [OF assms] ptr_stack_holds_def Let_def rev_map comp_def)
qed

text \<open>
  \<open>zend_ptr_stack\<close>: pushing \<open>n\<close> pointers at once makes room for all of them before it stores the
  first, and appends them; popping \<open>n\<close> gives the last \<open>n\<close> in reverse order; the versions for one, two
  and three pointers are pushes and pops of that many, and pops undo pushes. A walk calls its
  callback from the top to the bottom, and cleaning does so, frees each pointer once and empties
  the stack.
\<close>
theorem ptr_stack_refines:
  assumes "ptr_stack_holds st xs"
  shows "(\<exists>st'. zend_ptr_stack_n_push st ps = Some st' \<and> ptr_stack_holds st' (xs @ ps)) \<and>
    (xs = ys @ ps \<longrightarrow> (\<exists>st'. zend_ptr_stack_n_pop st (length ps) = Some (rev ps, st') \<and> ptr_stack_holds st' ys)) \<and>
    (\<exists>s1 s2. push_all zend_ptr_stack_push ps st = Some s1 \<and> pop_many zend_ptr_stack_pop (length ps) s1 = Some (rev ps, s2) \<and>
       ptr_stack_holds s2 xs) \<and>
    (\<exists>st'. zend_ptr_stack_2_push st a b = Some st' \<and> ptr_stack_holds st' (xs @ [a, b])) \<and>
    (\<exists>st'. zend_ptr_stack_3_push st a b c = Some st' \<and> ptr_stack_holds st' (xs @ [a, b, c])) \<and>
    (xs = ys @ [b, a] \<longrightarrow> (\<exists>st'. zend_ptr_stack_2_pop st = Some ((a, b), st') \<and> ptr_stack_holds st' ys)) \<and>
    (xs = ys @ [c, b, a] \<longrightarrow> (\<exists>st'. zend_ptr_stack_3_pop st = Some ((a, b, c), st') \<and> ptr_stack_holds st' ys)) \<and>
    (\<exists>st'. zend_ptr_stack_clean st f free s = Some (if free then rev xs else [], st', fold f (rev xs) s) \<and> ptr_stack_holds st' [])"
  by (rule conjI [OF ptr_stack_refines_parts(1) [OF assms]
    conjI [OF impI [OF ptr_stack_refines_parts(2) [OF assms]]
    conjI [OF ptr_stack_refines_parts(3) [OF assms]
    conjI [OF ptr_stack_refines_parts(4) [OF assms]
    conjI [OF ptr_stack_refines_parts(5) [OF assms]
    conjI [OF impI [OF ptr_stack_refines_parts(6) [OF assms]]
    conjI [OF impI [OF ptr_stack_refines_parts(7) [OF assms]]
    ptr_stack_refines_parts(8) [OF assms]]]]]]]])

theorem ptr_stack_refines_witness:
  "\<exists>s. zend_ptr_stack_n_push zend_ptr_stack_init [4, 5, 6 :: nat] = Some s \<and> ptr_stack_holds s [4, 5, 6]"
proof -
  have "ptr_stack_holds (zend_ptr_stack_init :: nat zend_ptr_stack) []"
    by (simp add: ptr_stack_holds_def zend_ptr_stack_init_def zend_ptr_stack_init_ex_def PTR_STACK_BLOCK_SIZE_def)
  from ptr_stack_refines [OF this, of "[4, 5, 6]", THEN conjunct1] show ?thesis by simp
qed

end
