(* ===== verification/ZendObjectsStore.thy ===== *)
theory ZendObjectsStore imports Prelude begin

text \<open>
  The object store of \<open>Zend/zend_objects_API.c\<close>: a growing array of buckets indexed by object handle,
  with reference counts, a list of free handles threaded through the buckets, and destructor, storage
  and clone callbacks per object.

  The callbacks are code outside of the file (for user classes, PHP code) that may use the store
  again. They are functions of the store in the record \<open>store_env\<close>; they may fail (\<open>zend_bailout\<close>,
  the boolean). A pointer is a 64-bit value, 0 for \<open>NULL\<close>. An array slot that was never written is
  \<open>None\<close>, and so is the result of an operation that reads one, leaves the array, or uses a pointer
  into the array after it was reallocated. The free list link overlays the low half of the object
  pointer, as the C union lays it out on a little-endian machine. The root buffer of the cycle
  collector (the field \<open>buffered\<close> and its macros) is not modelled.

  The lemmas give the invariant of the store and the life of a handle: put, referenced, destroyed
  once, freed, put again.
\<close>

unbundle bit_operations_syntax

section \<open>State\<close>

record store_bucket =
  destructor_called :: bool
  valid :: bool
  ob_object :: u64
  ob_dtor :: u64
  ob_free_storage :: u64
  ob_clone :: u64
  ob_handlers :: u64
  ob_refcount :: u32

record objects_store =
  object_buckets :: "store_bucket option list option"
  os_top :: u32
  os_size :: u32
  free_list_head :: int

text \<open>\<open>bucket.free_list.next\<close>, an \<open>int\<close> at the address of \<open>bucket.obj.object\<close>.\<close>

definition free_list_next :: "store_bucket \<Rightarrow> int" where
  "free_list_next b = sint (ucast (ob_object b) :: u32)"

definition set_free_list_next :: "int \<Rightarrow> store_bucket \<Rightarrow> store_bucket" where
  "set_free_list_next n b = b\<lparr>ob_object := (ob_object b AND NOT (mask 32)) OR ucast (of_int n :: u32)\<rparr>"

definition get_bucket :: "objects_store \<Rightarrow> u32 \<Rightarrow> store_bucket option" where
  "get_bucket st handle = do {
     bs \<leftarrow> object_buckets st;
     if unat handle < length bs then bs ! unat handle else None
   }"

definition put_bucket :: "u32 \<Rightarrow> store_bucket \<Rightarrow> objects_store \<Rightarrow> objects_store option" where
  "put_bucket handle b st = do {
     bs \<leftarrow> object_buckets st;
     if unat handle < length bs then Some (st\<lparr>object_buckets := Some (bs[unat handle := Some b])\<rparr>) else None
   }"

definition upd_bucket :: "u32 \<Rightarrow> (store_bucket \<Rightarrow> store_bucket) \<Rightarrow> objects_store \<Rightarrow> objects_store option" where
  "upd_bucket handle f st = do { b \<leftarrow> get_bucket st handle; put_bucket handle (f b) st }"

record store_env =
  run_dtor :: "u64 \<Rightarrow> u64 \<Rightarrow> u32 \<Rightarrow> objects_store \<Rightarrow> (bool \<times> objects_store) option"
  run_free :: "u64 \<Rightarrow> u64 \<Rightarrow> objects_store \<Rightarrow> (bool \<times> objects_store) option"
  run_clone :: "u64 \<Rightarrow> u64 \<Rightarrow> objects_store \<Rightarrow> (u64 \<times> objects_store) option"
  zend_objects_destroy_object :: u64

section \<open>Operations\<close>

text \<open>\<open>memset\<close> clears the first bucket; the others are not initialised.\<close>

definition zend_objects_store_init :: "u32 \<Rightarrow> objects_store option" where
  "zend_objects_store_init init_size =
     (if init_size = 0 then None
      else Some \<lparr>object_buckets = Some (Some \<lparr>destructor_called = False, valid = False, ob_object = 0, ob_dtor = 0,
             ob_free_storage = 0, ob_clone = 0, ob_handlers = 0, ob_refcount = 0\<rparr> # replicate (unat init_size - 1) None),
           os_top = 1, os_size = init_size, free_list_head = -1\<rparr>)"

definition zend_objects_store_destroy :: "objects_store \<Rightarrow> objects_store" where
  "zend_objects_store_destroy st = st\<lparr>object_buckets := None\<rparr>"

partial_function (option) call_destructors_loop :: "store_env \<Rightarrow> u32 \<Rightarrow> objects_store \<Rightarrow> (bool \<times> objects_store) option" where
  "call_destructors_loop env i st =
     (if i < os_top st then do {
        b \<leftarrow> get_bucket st i;
        (bail, st) \<leftarrow>
          (if valid b \<and> \<not> destructor_called b then do {
             st \<leftarrow> upd_bucket i (\<lambda>b. b\<lparr>destructor_called := True\<rparr>) st;
             if ob_dtor b \<noteq> 0 \<and> ob_object b \<noteq> 0 then do {
               st \<leftarrow> upd_bucket i (\<lambda>b. b\<lparr>ob_refcount := ob_refcount b + 1\<rparr>) st;
               (bail, st) \<leftarrow> run_dtor env (ob_dtor b) (ob_object b) i st;
               if bail then Some (True, st)
               else do { st \<leftarrow> upd_bucket i (\<lambda>b. b\<lparr>ob_refcount := ob_refcount b - 1\<rparr>) st; Some (False, st) }
             } else Some (False, st)
           } else Some (False, st));
        if bail then Some (True, st) else call_destructors_loop env (i + 1) st
      } else Some (False, st))"

declare call_destructors_loop.simps [code]

definition zend_objects_store_call_destructors :: "store_env \<Rightarrow> objects_store \<Rightarrow> (bool \<times> objects_store) option" where
  "zend_objects_store_call_destructors env st = call_destructors_loop env 1 st"

partial_function (option) mark_destructed_loop :: "u32 \<Rightarrow> objects_store \<Rightarrow> objects_store option" where
  "mark_destructed_loop i st =
     (if i < os_top st then do {
        b \<leftarrow> get_bucket st i;
        st \<leftarrow> (if valid b then put_bucket i (b\<lparr>destructor_called := True\<rparr>) st else Some st);
        mark_destructed_loop (i + 1) st
      } else Some st)"

declare mark_destructed_loop.simps [code]

definition zend_objects_store_mark_destructed :: "objects_store \<Rightarrow> objects_store option" where
  "zend_objects_store_mark_destructed st =
     (if object_buckets st = None then Some st else mark_destructed_loop 1 st)"

partial_function (option) free_object_storage_loop :: "store_env \<Rightarrow> u32 \<Rightarrow> objects_store \<Rightarrow> (bool \<times> objects_store) option" where
  "free_object_storage_loop env i st =
     (if i < os_top st then do {
        b \<leftarrow> get_bucket st i;
        (bail, st) \<leftarrow>
          (if valid b then do {
             st \<leftarrow> put_bucket i (b\<lparr>valid := False\<rparr>) st;
             if ob_free_storage b \<noteq> 0 then run_free env (ob_free_storage b) (ob_object b) st else Some (False, st)
           } else Some (False, st));
        if bail then Some (True, st) else free_object_storage_loop env (i + 1) st
      } else Some (False, st))"

declare free_object_storage_loop.simps [code]

definition zend_objects_store_free_object_storage :: "store_env \<Rightarrow> objects_store \<Rightarrow> (bool \<times> objects_store) option" where
  "zend_objects_store_free_object_storage env st = free_object_storage_loop env 1 st"

definition zend_objects_store_put ::
  "store_env \<Rightarrow> u64 \<Rightarrow> u64 \<Rightarrow> u64 \<Rightarrow> u64 \<Rightarrow> objects_store \<Rightarrow> (u32 \<times> objects_store) option" where
  "zend_objects_store_put env obj dtor free_storage clone st = do {
     (handle, st) \<leftarrow>
       (if free_list_head st \<noteq> -1 then do {
          let handle = of_int (free_list_head st);
          b \<leftarrow> get_bucket st handle;
          Some (handle, st\<lparr>free_list_head := free_list_next b\<rparr>)
        } else do {
          bs \<leftarrow> object_buckets st;
          let st = (if os_top st = os_size st
            then let sz = push_bit 1 (os_size st)
              in st\<lparr>os_size := sz, object_buckets := Some (take (unat sz) bs @ replicate (unat sz - length bs) None)\<rparr>
            else st);
          Some (os_top st, st\<lparr>os_top := os_top st + 1\<rparr>)
        });
     st \<leftarrow> put_bucket handle \<lparr>destructor_called = False, valid = True, ob_object = obj,
       ob_dtor = (if dtor \<noteq> 0 then dtor else zend_objects_destroy_object env), ob_free_storage = free_storage,
       ob_clone = clone, ob_handlers = 0, ob_refcount = 1\<rparr> st;
     Some (handle, st)
   }"

text \<open>A \<open>zval\<close> that holds an object: its handle, its handlers and its own reference count.\<close>

record zobject =
  zo_handle :: u32
  zo_handlers :: u64
  zo_refcount :: u32

definition zend_objects_store_get_refcount :: "zobject \<Rightarrow> objects_store \<Rightarrow> u32 option" where
  "zend_objects_store_get_refcount z st = map_option ob_refcount (get_bucket st (zo_handle z))"

definition zend_objects_store_add_ref_by_handle :: "u32 \<Rightarrow> objects_store \<Rightarrow> objects_store option" where
  "zend_objects_store_add_ref_by_handle handle st = upd_bucket handle (\<lambda>b. b\<lparr>ob_refcount := ob_refcount b + 1\<rparr>) st"

definition zend_objects_store_add_ref :: "zobject \<Rightarrow> objects_store \<Rightarrow> objects_store option" where
  "zend_objects_store_add_ref z st = upd_bucket (zo_handle z) (\<lambda>b. b\<lparr>ob_refcount := ob_refcount b + 1\<rparr>) st"

definition ZEND_OBJECTS_STORE_ADD_TO_FREE_LIST :: "u32 \<Rightarrow> objects_store \<Rightarrow> objects_store option" where
  "ZEND_OBJECTS_STORE_ADD_TO_FREE_LIST handle st = do {
     st \<leftarrow> upd_bucket handle (set_free_list_next (free_list_head st)) st;
     let st = st\<lparr>free_list_head := sint handle\<rparr>;
     upd_bucket handle (\<lambda>b. b\<lparr>valid := False\<rparr>) st
   }"

text \<open>
  The local \<open>obj\<close> points into the array; \<open>obj_size\<close> is the size of the array it was computed for. The
  array moves when it grows, so \<open>obj\<close> can only be used while the size is still the same.
\<close>

definition zend_objects_store_del_ref_by_handle_ex ::
  "store_env \<Rightarrow> u32 \<Rightarrow> u64 \<Rightarrow> objects_store \<Rightarrow> (bool \<times> objects_store) option" where
  "zend_objects_store_del_ref_by_handle_ex env handle handlers st =
     (if object_buckets st = None then Some (False, st)
      else do {
        b \<leftarrow> get_bucket st handle;
        (failure, obj_size, st) \<leftarrow>
          (if valid b \<and> ob_refcount b = 1 then do {
             (failure, st) \<leftarrow>
               (if \<not> destructor_called b then do {
                  st \<leftarrow> upd_bucket handle (\<lambda>b. b\<lparr>destructor_called := True\<rparr>) st;
                  if ob_dtor b \<noteq> 0 then do {
                    st \<leftarrow> (if handlers \<noteq> 0 \<and> ob_handlers b = 0
                      then upd_bucket handle (\<lambda>b. b\<lparr>ob_handlers := handlers\<rparr>) st else Some st);
                    run_dtor env (ob_dtor b) (ob_object b) handle st
                  } else Some (False, st)
                } else Some (False, st));
             let obj_size = os_size st;
             b \<leftarrow> get_bucket st handle;
             if ob_refcount b = 1 then do {
               (failure2, st) \<leftarrow>
                 (if ob_free_storage b \<noteq> 0 then run_free env (ob_free_storage b) (ob_object b) st else Some (False, st));
               st \<leftarrow> ZEND_OBJECTS_STORE_ADD_TO_FREE_LIST handle st;
               Some (failure \<or> failure2, obj_size, st)
             } else Some (failure, obj_size, st)
           } else Some (False, os_size st, st));
        if os_size st = obj_size then do {
          st \<leftarrow> upd_bucket handle (\<lambda>b. b\<lparr>ob_refcount := ob_refcount b - 1\<rparr>) st;
          Some (failure, st)
        } else None
      })"

text \<open>When the call bails out, the reference taken on the \<open>zval\<close> is not given back.\<close>

definition zend_objects_store_del_ref :: "store_env \<Rightarrow> zobject \<Rightarrow> objects_store \<Rightarrow> (bool \<times> zobject \<times> objects_store) option" where
  "zend_objects_store_del_ref env z st = do {
     let z = z\<lparr>zo_refcount := zo_refcount z + 1\<rparr>;
     (bail, st) \<leftarrow> zend_objects_store_del_ref_by_handle_ex env (zo_handle z) (zo_handlers z) st;
     Some (bail, if bail then z else z\<lparr>zo_refcount := zo_refcount z - 1\<rparr>, st)
   }"

text \<open>\<open>Inl ()\<close> is the fatal error for an uncloneable object.\<close>

definition zend_objects_store_clone_obj ::
  "store_env \<Rightarrow> zobject \<Rightarrow> objects_store \<Rightarrow> (unit + (u32 \<times> u64) \<times> objects_store) option" where
  "zend_objects_store_clone_obj env z st = do {
     b \<leftarrow> get_bucket st (zo_handle z);
     if ob_clone b = 0 then Some (Inl ())
     else do {
       (new_object, st) \<leftarrow> run_clone env (ob_clone b) (ob_object b) st;
       b \<leftarrow> get_bucket st (zo_handle z);
       (new_handle, st) \<leftarrow> zend_objects_store_put env new_object (ob_dtor b) (ob_free_storage b) (ob_clone b) st;
       st \<leftarrow> upd_bucket (zo_handle z) (\<lambda>b. b\<lparr>ob_handlers := zo_handlers z\<rparr>) st;
       Some (Inr ((new_handle, zo_handlers z), st))
     }
   }"

definition zend_object_store_get_object_by_handle :: "u32 \<Rightarrow> objects_store \<Rightarrow> u64 option" where
  "zend_object_store_get_object_by_handle handle st = map_option ob_object (get_bucket st handle)"

definition zend_object_store_get_object :: "zobject \<Rightarrow> objects_store \<Rightarrow> u64 option" where
  "zend_object_store_get_object z st = map_option ob_object (get_bucket st (zo_handle z))"

definition zend_object_store_set_object :: "zobject \<Rightarrow> u64 \<Rightarrow> objects_store \<Rightarrow> objects_store option" where
  "zend_object_store_set_object z obj st = upd_bucket (zo_handle z) (\<lambda>b. b\<lparr>ob_object := obj\<rparr>) st"

definition zend_object_store_ctor_failed :: "zobject \<Rightarrow> objects_store \<Rightarrow> objects_store option" where
  "zend_object_store_ctor_failed z st =
     upd_bucket (zo_handle z) (\<lambda>b. b\<lparr>ob_handlers := zo_handlers z, destructor_called := True\<rparr>) st"

section \<open>The invariant\<close>

lemma free_list_next_set: "- (2 ^ 31) \<le> n \<Longrightarrow> n < 2 ^ 31 \<Longrightarrow> free_list_next (set_free_list_next n b) = n"
proof -
  assume n: "- (2 ^ 31) \<le> n" "n < 2 ^ 31"
  have "(ucast ((ob_object b AND NOT (mask 32)) OR ucast (of_int n :: u32)) :: u32) = of_int n"
    by (simp add: bit_eq_iff bit_simps)
  moreover have "sint (of_int n :: u32) = n"
    using n by transfer (simp add: signed_take_bit_int_eq_self)
  ultimately show ?thesis by (simp add: free_list_next_def set_free_list_next_def)
qed

lemma set_free_list_next_other [simp]:
  "valid (set_free_list_next n b) = valid b" "ob_refcount (set_free_list_next n b) = ob_refcount b"
  "destructor_called (set_free_list_next n b) = destructor_called b"
  by (simp_all add: set_free_list_next_def)

text \<open>The free list from a link on, as the list of its handles.\<close>

fun free_chain :: "store_bucket option list \<Rightarrow> int \<Rightarrow> nat list \<Rightarrow> bool" where
  "free_chain bs p [] = (p = -1)"
| "free_chain bs p (h # hs) = (p = int h \<and> h < length bs \<and> (case bs ! h of
       Some b \<Rightarrow> \<not> valid b \<and> free_chain bs (free_list_next b) hs | None \<Rightarrow> False))"

definition store_inv :: "objects_store \<Rightarrow> nat list \<Rightarrow> bool" where
  "store_inv st fl \<longleftrightarrow> (\<exists>bs. object_buckets st = Some bs \<and> length bs = unat (os_size st) \<and> length bs < 2 ^ 31 \<and>
     1 \<le> unat (os_top st) \<and> unat (os_top st) \<le> length bs \<and>
     (\<forall>i. 1 \<le> i \<and> i < unat (os_top st) \<longrightarrow> bs ! i \<noteq> None) \<and> distinct fl \<and>
     (\<forall>h\<in>set fl. 1 \<le> h \<and> h < unat (os_top st)) \<and> free_chain bs (free_list_head st) fl)"

lemma free_chain_cong:
  "(\<And>h. h \<in> set hs \<Longrightarrow> bs' ! h = bs ! h) \<Longrightarrow> length bs' = length bs \<Longrightarrow> free_chain bs' p hs = free_chain bs p hs"
  by (induction hs arbitrary: p) (auto split: option.splits)

lemma free_chain_update:
  "bs ! h = Some b \<Longrightarrow> (h \<in> set hs \<Longrightarrow> \<not> valid b' \<and> ob_object b' = ob_object b) \<Longrightarrow>
     free_chain bs p hs \<Longrightarrow> free_chain (bs[h := Some b']) p hs"
proof (induction hs arbitrary: p)
  case (Cons x hs)
  then obtain c where c: "bs ! x = Some c" "\<not> valid c" "free_chain bs (free_list_next c) hs" by (auto split: option.splits)
  with Cons.IH [of "free_list_next c"] Cons.prems have ih: "free_chain (bs[h := Some b']) (free_list_next c) hs" by auto
  show ?case
  proof (cases "x = h")
    case True
    with c(1) Cons.prems have "\<not> valid b'" "free_list_next b' = free_list_next c" by (auto simp: free_list_next_def)
    with True ih Cons.prems show ?thesis by auto
  next
    case False
    with c ih Cons.prems show ?thesis by auto
  qed
qed simp

lemma free_chain_valid: "free_chain bs p hs \<Longrightarrow> h \<in> set hs \<Longrightarrow> \<exists>b. bs ! h = Some b \<and> \<not> valid b"
  by (induction hs arbitrary: p) (auto split: option.splits)

lemma free_chain_range: "free_chain bs p hs \<Longrightarrow> length bs < 2 ^ 31 \<Longrightarrow> -1 \<le> p \<and> p < 2 ^ 31"
  by (cases hs) (auto split: option.splits)

lemma store_inv_live:
  assumes "store_inv st fl" "1 \<le> unat h" "h < os_top st"
  obtains b where "get_bucket st h = Some b"
  using assms by (auto simp: store_inv_def get_bucket_def word_less_nat_alt)

lemma valid_not_free: "store_inv st fl \<Longrightarrow> get_bucket st h = Some b \<Longrightarrow> valid b \<Longrightarrow> unat h \<notin> set fl"
  by (auto simp: store_inv_def get_bucket_def split: if_splits dest: free_chain_valid)

text \<open>Writing a bucket back.\<close>

lemma put_bucket_spec:
  assumes inv: "store_inv st fl" and b: "get_bucket st h = Some b"
    and ok: "unat h \<in> set fl \<Longrightarrow> \<not> valid b' \<and> ob_object b' = ob_object b"
  shows "\<exists>st'. put_bucket h b' st = Some st' \<and> store_inv st' fl \<and> get_bucket st' h = Some b' \<and>
    (\<forall>i. i \<noteq> h \<longrightarrow> get_bucket st' i = get_bucket st i) \<and> os_top st' = os_top st \<and> os_size st' = os_size st \<and>
    free_list_head st' = free_list_head st"
proof -
  from inv obtain bs where bs: "object_buckets st = Some bs" "free_chain bs (free_list_head st) fl" by (auto simp: store_inv_def)
  from b bs have h: "unat h < length bs" "bs ! unat h = Some b" by (auto simp: get_bucket_def split: if_splits)
  let ?st = "st\<lparr>object_buckets := Some (bs[unat h := Some b'])\<rparr>"
  have c: "free_chain (bs[unat h := Some b']) (free_list_head st) fl" by (rule free_chain_update [OF h(2) ok bs(2)])
  have "bs[unat h := Some b'] ! i \<noteq> None" if "bs ! i \<noteq> None" for i
    using that h(1) by (cases "i = unat h") simp_all
  then have "store_inv ?st fl" using inv bs c by (auto simp: store_inv_def)
  moreover have "get_bucket ?st i = get_bucket st i" if "i \<noteq> h" for i
  proof -
    have "unat i \<noteq> unat h" using that by (metis word_unat_eq_iff)
    then show ?thesis by (simp add: get_bucket_def bs)
  qed
  ultimately show ?thesis using h bs
    by (intro exI [of _ ?st]) (simp add: put_bucket_def get_bucket_def)
qed

lemma upd_bucket_spec:
  assumes "store_inv st fl" "get_bucket st h = Some b" "unat h \<in> set fl \<Longrightarrow> \<not> valid (f b) \<and> ob_object (f b) = ob_object b"
  shows "\<exists>st'. upd_bucket h f st = Some st' \<and> store_inv st' fl \<and> get_bucket st' h = Some (f b) \<and>
    (\<forall>i. i \<noteq> h \<longrightarrow> get_bucket st' i = get_bucket st i) \<and> os_top st' = os_top st \<and> os_size st' = os_size st \<and>
    free_list_head st' = free_list_head st"
  using put_bucket_spec [OF assms] assms(2) by (simp add: upd_bucket_def)

lemma free_list_spec:
  assumes inv: "store_inv st fl" and b: "get_bucket st h = Some b" "valid b" and h: "1 \<le> unat h" "h < os_top st"
  shows "\<exists>st'. ZEND_OBJECTS_STORE_ADD_TO_FREE_LIST h st = Some st' \<and> store_inv st' (unat h # fl) \<and>
    get_bucket st' h = Some ((set_free_list_next (free_list_head st) b)\<lparr>valid := False\<rparr>) \<and>
    (\<forall>i. i \<noteq> h \<longrightarrow> get_bucket st' i = get_bucket st i) \<and> os_top st' = os_top st \<and> os_size st' = os_size st"
proof -
  from inv obtain bs where bs: "object_buckets st = Some bs" "free_chain bs (free_list_head st) fl" "length bs < 2 ^ 31"
    by (auto simp: store_inv_def)
  from b bs have hb: "unat h < length bs" "bs ! unat h = Some b" by (auto simp: get_bucket_def split: if_splits)
  let ?b = "set_free_list_next (free_list_head st) b"
  let ?bs = "bs[unat h := Some (?b\<lparr>valid := False\<rparr>)]"
  let ?st = "st\<lparr>object_buckets := Some ?bs, free_list_head := sint h\<rparr>"
  have run: "ZEND_OBJECTS_STORE_ADD_TO_FREE_LIST h st = Some ?st"
    using hb bs(1) by (simp add: ZEND_OBJECTS_STORE_ADD_TO_FREE_LIST_def upd_bucket_def get_bucket_def put_bucket_def)
  have nf: "unat h \<notin> set fl" by (rule valid_not_free [OF inv b])
  have sint: "sint h = int (unat h)"
  proof -
    have "int (unat h) < int (2 ^ 31)" using hb(1) bs(3) by (simp only: of_nat_less_iff)
    then have "uint h < 2 ^ 31" by simp
    then show ?thesis using signed_take_bit_int_eq_self [of 31 "uint h"] uint_ge_0 [of h] by (simp add: sint_uint)
  qed
  have "free_list_next (?b\<lparr>valid := False\<rparr>) = free_list_head st"
    using free_list_next_set [of "free_list_head st" b] free_chain_range [OF bs(2,3)] by (simp add: free_list_next_def)
  moreover have "free_chain ?bs (free_list_head st) fl"
    using free_chain_cong [of fl ?bs bs] nf bs(2) by (metis length_list_update nth_list_update_neq)
  ultimately have "free_chain ?bs (sint h) (unat h # fl)" using hb sint by simp
  then have "store_inv ?st (unat h # fl)"
    using inv bs(1) nf h by (auto simp: store_inv_def nth_list_update word_less_nat_alt)
  moreover have "get_bucket ?st i = get_bucket st i" if "i \<noteq> h" for i
  proof -
    have "unat i \<noteq> unat h" using that by (metis word_unat_eq_iff)
    then show ?thesis by (simp add: get_bucket_def bs)
  qed
  ultimately show ?thesis using run hb by (intro exI [of _ ?st]) (simp add: get_bucket_def)
qed

section \<open>Putting an object\<close>

definition put_handle :: "objects_store \<Rightarrow> nat list \<Rightarrow> u32" where
  "put_handle st fl = (case fl of [] \<Rightarrow> os_top st | h # _ \<Rightarrow> of_nat h)"

definition new_bucket :: "store_env \<Rightarrow> u64 \<Rightarrow> u64 \<Rightarrow> u64 \<Rightarrow> u64 \<Rightarrow> store_bucket" where
  "new_bucket env obj dtor free_storage clone = \<lparr>destructor_called = False, valid = True, ob_object = obj,
     ob_dtor = (if dtor \<noteq> 0 then dtor else zend_objects_destroy_object env), ob_free_storage = free_storage,
     ob_clone = clone, ob_handlers = 0, ob_refcount = 1\<rparr>"

lemma free_head_Nil: "store_inv st [] \<Longrightarrow> free_list_head st = -1"
  by (auto simp: store_inv_def)

lemma free_head_Cons:
  assumes "store_inv st (h # fl)"
  obtains b where "free_list_head st = int h" "get_bucket st (of_nat h) = Some b" "\<not> valid b"
    "store_inv (st\<lparr>free_list_head := free_list_next b\<rparr>) fl" "unat (of_nat h :: u32) = h"
    "h < unat (os_top st)" "1 \<le> h" "h \<notin> set fl"
proof -
  from assms obtain bs b where bs: "object_buckets st = Some bs" "length bs < 2 ^ 31" "h < length bs" "bs ! h = Some b" "\<not> valid b"
    "free_chain bs (free_list_next b) fl" "free_list_head st = int h"
    by (auto simp: store_inv_def split: option.splits)
  have u: "unat (of_nat h :: u32) = h" using bs(2,3) by (intro unat_of_nat_small) simp
  show thesis
    using assms bs u by (intro that [of b]) (auto simp: store_inv_def get_bucket_def)
qed

lemma put_write:
  assumes bs: "object_buckets st = Some bs" "free_chain bs (free_list_head st) fl" "length bs = unat (os_size st)" "length bs < 2 ^ 31"
    and h: "1 \<le> unat h" "h < os_top st" "unat (os_top st) \<le> length bs" "unat h \<notin> set fl"
    and old: "\<forall>i. 1 \<le> i \<and> i < unat (os_top st) \<longrightarrow> i \<noteq> unat h \<longrightarrow> bs ! i \<noteq> None"
    and fl: "distinct fl" "\<forall>x\<in>set fl. 1 \<le> x \<and> x < unat (os_top st)"
  shows "\<exists>st'. put_bucket h b st = Some st' \<and> store_inv st' fl \<and> get_bucket st' h = Some b \<and>
    (\<forall>i. i \<noteq> h \<longrightarrow> get_bucket st' i = get_bucket st i)"
proof -
  let ?bs = "bs[unat h := Some b]"
  let ?st = "st\<lparr>object_buckets := Some ?bs\<rparr>"
  have hl: "unat h < length bs" using h by (simp add: word_less_nat_alt)
  have c: "free_chain ?bs (free_list_head st) fl"
    using free_chain_cong [of fl ?bs bs] h(4) bs(2) by (metis length_list_update nth_list_update_neq)
  have "?bs ! i \<noteq> None" if "1 \<le> i" "i < unat (os_top st)" for i
    using that hl old by (cases "i = unat h") simp_all
  then have "store_inv ?st fl" using bs h fl c by (auto simp: store_inv_def word_less_nat_alt)
  moreover have "get_bucket ?st i = get_bucket st i" if "i \<noteq> h" for i
  proof -
    have "unat i \<noteq> unat h" using that by (metis word_unat_eq_iff)
    then show ?thesis by (simp add: get_bucket_def bs)
  qed
  ultimately show ?thesis using hl bs(1) by (intro exI [of _ ?st]) (simp add: put_bucket_def get_bucket_def)
qed

text \<open>The array doubles when it is full.\<close>

definition grow_store :: "objects_store \<Rightarrow> objects_store" where
  "grow_store st = (if os_top st = os_size st
     then st\<lparr>os_size := push_bit 1 (os_size st), object_buckets := map_option (\<lambda>bs. take (unat (push_bit 1 (os_size st))) bs @
       replicate (unat (push_bit 1 (os_size st)) - length bs) None) (object_buckets st)\<rparr>
     else st)"

lemma push_bit_unat: "unat n < 2 ^ 30 \<Longrightarrow> unat (push_bit 1 (n :: u32)) = 2 * unat n"
  by (simp add: push_bit_eq_mult unat_word_ariths)

lemma grow_store_spec:
  assumes inv: "store_inv st fl" and room: "unat (os_size st) < 2 ^ 30"
  shows "store_inv (grow_store st) fl \<and> unat (os_top st) < unat (os_size (grow_store st)) \<and> os_top (grow_store st) = os_top st \<and>
    (\<forall>i b. get_bucket st i = Some b \<longrightarrow> get_bucket (grow_store st) i = Some b)"
proof (cases "os_top st = os_size st")
  case False
  then have "grow_store st = st" by (simp add: grow_store_def)
  moreover have "unat (os_top st) < unat (os_size st)"
    using inv False by (metis le_neq_implies_less store_inv_def word_unat_eq_iff)
  ultimately show ?thesis using inv by simp
next
  case True
  from inv obtain bs where bs: "object_buckets st = Some bs" "length bs = unat (os_size st)" "free_chain bs (free_list_head st) fl"
    by (auto simp: store_inv_def)
  let ?bs = "bs @ replicate (length bs) None"
  have pb: "unat (push_bit 1 (os_size st)) = 2 * length bs" using push_bit_unat [OF room] bs(2) by simp
  have g: "grow_store st = st\<lparr>os_size := push_bit 1 (os_size st), object_buckets := Some ?bs\<rparr>"
    using True bs(1) pb by (simp add: grow_store_def)
  have "free_chain ?bs p hs" if "free_chain bs p hs" for p hs
    using that by (induction hs arbitrary: p) (auto simp: nth_append split: option.splits)
  with bs(3) have "free_chain ?bs (free_list_head st) fl" by blast
  with inv bs True room pb have "store_inv (grow_store st) fl" by (auto simp: store_inv_def g nth_append)
  moreover have "get_bucket (grow_store st) i = Some b" if "get_bucket st i = Some b" for i b
    using that bs(1) by (auto simp: g get_bucket_def nth_append split: if_splits)
  moreover have "unat (os_top st) < unat (os_size (grow_store st))"
    using inv True pb bs(2) by (simp add: g) (use inv in \<open>auto simp: store_inv_def\<close>)
  ultimately show ?thesis by (simp add: g)
qed

text \<open>
  C27: \<open>zend_objects_store_put\<close> returns the most recently freed handle, or the next new one when no handle is free,
  growing the array when it is full. The handle held no live object before. Its bucket is a valid one with
  one reference and the object's callbacks, no other bucket changes, and the invariant is kept.
\<close>

theorem objects_put:
  assumes inv: "store_inv st fl" and room: "unat (os_size st) < 2 ^ 30"
  shows "\<exists>st'. zend_objects_store_put env obj dtor free_storage clone st = Some (put_handle st fl, st') \<and>
    store_inv st' (tl fl) \<and> get_bucket st' (put_handle st fl) = Some (new_bucket env obj dtor free_storage clone) \<and>
    (put_handle st fl < os_top st \<longrightarrow> (\<exists>b. get_bucket st (put_handle st fl) = Some b \<and> \<not> valid b)) \<and>
    (\<forall>i b. i \<noteq> put_handle st fl \<longrightarrow> get_bucket st i = Some b \<longrightarrow> get_bucket st' i = Some b)"
proof (cases fl)
  case Nil
  let ?g = "grow_store st"
  let ?st = "?g\<lparr>os_top := os_top ?g + 1\<rparr>"
  have g: "store_inv ?g []" "unat (os_top st) < unat (os_size ?g)" "os_top ?g = os_top st"
    and keep: "\<And>i b. get_bucket st i = Some b \<Longrightarrow> get_bucket ?g i = Some b"
    using grow_store_spec [OF inv room] Nil by simp_all
  then obtain bs where bs: "object_buckets ?g = Some bs" "free_chain bs (free_list_head ?g) []" "length bs = unat (os_size ?g)"
    "length bs < 2 ^ 31" "1 \<le> unat (os_top st)" "\<forall>i. 1 \<le> i \<and> i < unat (os_top st) \<longrightarrow> bs ! i \<noteq> None"
    by (auto simp: store_inv_def)
  have top: "unat (os_top st + 1) = unat (os_top st) + 1"
    using g(2) bs(3,4) by (subst unat_word_ariths) simp
  from put_write [of ?st bs "[]" "os_top st" "new_bucket env obj dtor free_storage clone"] bs g top
  obtain st' where st': "put_bucket (os_top st) (new_bucket env obj dtor free_storage clone) ?st = Some st'" "store_inv st' []"
    "get_bucket st' (os_top st) = Some (new_bucket env obj dtor free_storage clone)"
    "\<And>i. i \<noteq> os_top st \<Longrightarrow> get_bucket st' i = get_bucket ?st i"
    by (auto simp: word_less_nat_alt less_Suc_eq)
  have "zend_objects_store_put env obj dtor free_storage clone st = Some (os_top st, st')"
  proof -
    obtain bs0 where "object_buckets st = Some bs0" using inv by (auto simp: store_inv_def)
    then show ?thesis using free_head_Nil [OF inv [unfolded Nil]] st'(1) g(3)
      by (simp add: zend_objects_store_put_def grow_store_def new_bucket_def Let_def split: if_splits)
  qed
  moreover have "get_bucket st' i = Some b" if "i \<noteq> os_top st" "get_bucket st i = Some b" for i b
    using st'(4) [OF that(1)] keep [OF that(2)] by (simp add: get_bucket_def)
  ultimately show ?thesis using st' Nil by (simp add: put_handle_def)
next
  case (Cons h fl')
  obtain b where b: "free_list_head st = int h" "get_bucket st (of_nat h) = Some b" "\<not> valid b"
    "store_inv (st\<lparr>free_list_head := free_list_next b\<rparr>) fl'" "unat (of_nat h :: u32) = h"
    "h < unat (os_top st)" "1 \<le> h" "h \<notin> set fl'"
    using free_head_Cons [OF inv [unfolded Cons]] by blast
  let ?st = "st\<lparr>free_list_head := free_list_next b\<rparr>"
  have "get_bucket ?st (of_nat h) = Some b" using b(2) by (simp add: get_bucket_def)
  from put_bucket_spec [OF b(4) this, of "new_bucket env obj dtor free_storage clone"] b(5,8)
  obtain st' where st': "put_bucket (of_nat h) (new_bucket env obj dtor free_storage clone) ?st = Some st'" "store_inv st' fl'"
    "get_bucket st' (of_nat h) = Some (new_bucket env obj dtor free_storage clone)"
    "\<And>i. i \<noteq> of_nat h \<Longrightarrow> get_bucket st' i = get_bucket ?st i" by auto
  have "zend_objects_store_put env obj dtor free_storage clone st = Some (of_nat h, st')"
    using b(1,2) st'(1) by (simp add: zend_objects_store_put_def new_bucket_def Let_def)
  moreover have "get_bucket st' i = get_bucket st i" if "i \<noteq> of_nat h" for i
    using st'(4) [OF that] by (simp add: get_bucket_def)
  ultimately show ?thesis using st' b(2,3) Cons by (simp add: put_handle_def)
qed

text \<open>A store of four buckets with objects 1 and 2; \<open>bd\<close> is the destructor pointer, \<open>be\<close> the default one.\<close>

definition no_callbacks :: store_env where
  "no_callbacks = \<lparr>run_dtor = \<lambda>_ _ _ s. Some (False, s), run_free = \<lambda>_ _ s. Some (False, s), run_clone = \<lambda>_ _ s. Some (0, s),
     zend_objects_destroy_object = 7\<rparr>"

definition store_sample :: objects_store where
  "store_sample = \<lparr>object_buckets = Some [None, Some (new_bucket no_callbacks 100 0 0 0),
     Some (new_bucket no_callbacks 200 8 9 0), None], os_top = 3, os_size = 4, free_list_head = -1\<rparr>"

lemma store_sample_inv: "store_inv store_sample []"
proof -
  have "[None, Some b, Some c, None] ! i \<noteq> None" if "1 \<le> i" "i < 3" for i and b c :: store_bucket
  proof -
    have "i = 1 \<or> i = 2" using that by linarith
    then show ?thesis by auto
  qed
  then show ?thesis by (simp add: store_inv_def store_sample_def)
qed

lemma objects_put_witness:
  "\<exists>st'. zend_objects_store_put no_callbacks 300 0 0 0 store_sample = Some (3, st') \<and> store_inv st' []"
proof -
  have h: "put_handle store_sample [] = 3" and room: "unat (os_size store_sample) < 2 ^ 30"
    by (simp_all add: put_handle_def store_sample_def)
  from objects_put [OF store_sample_inv room, of no_callbacks 300 0 0 0] show ?thesis
    unfolding h list.sel by (elim exE conjE) (intro exI conjI)
qed

section \<open>Giving up a reference\<close>

text \<open>The bucket and the store as the destructor sees them.\<close>

definition claimed :: "u64 \<Rightarrow> store_bucket \<Rightarrow> store_bucket" where
  "claimed handlers b = b\<lparr>destructor_called := True,
     ob_handlers := (if ob_dtor b \<noteq> 0 \<and> handlers \<noteq> 0 \<and> ob_handlers b = 0 then handlers else ob_handlers b)\<rparr>"

definition dtor_outcome :: "store_env \<Rightarrow> u32 \<Rightarrow> u64 \<Rightarrow> objects_store \<Rightarrow> store_bucket \<Rightarrow> (bool \<times> objects_store) option" where
  "dtor_outcome env h handlers st b =
     (if destructor_called b then Some (False, st)
      else case put_bucket h (claimed handlers b) st of
        None \<Rightarrow> None
      | Some st1 \<Rightarrow> if ob_dtor b = 0 then Some (False, st1) else run_dtor env (ob_dtor b) (ob_object b) h st1)"

definition free_outcome :: "store_env \<Rightarrow> objects_store \<Rightarrow> store_bucket \<Rightarrow> (bool \<times> objects_store) option" where
  "free_outcome env st b = (if ob_free_storage b = 0 then Some (False, st) else run_free env (ob_free_storage b) (ob_object b) st)"

lemma put_bucket_twice: "put_bucket h b st = Some st' \<Longrightarrow> put_bucket h c st' = put_bucket h c st"
  by (auto simp: put_bucket_def split: if_splits bind_splits)

lemma put_bucket_get: "put_bucket h b st = Some st' \<Longrightarrow> get_bucket st' h = Some b"
  by (auto simp: put_bucket_def get_bucket_def split: if_splits bind_splits)

lemma dtor_step:
  assumes "store_inv st fl" "get_bucket st h = Some b" "valid b"
  shows "(if \<not> destructor_called b then do {
        st \<leftarrow> upd_bucket h (\<lambda>b. b\<lparr>destructor_called := True\<rparr>) st;
        if ob_dtor b \<noteq> 0 then do {
          st \<leftarrow> (if handlers \<noteq> 0 \<and> ob_handlers b = 0 then upd_bucket h (\<lambda>b. b\<lparr>ob_handlers := handlers\<rparr>) st else Some st);
          run_dtor env (ob_dtor b) (ob_object b) h st
        } else Some (False, st)
      } else Some (False, st)) = dtor_outcome env h handlers st b"
proof (cases "destructor_called b")
  case False
  have nf: "unat h \<notin> set fl" using valid_not_free [OF assms] .
  obtain st1 where st1: "put_bucket h (b\<lparr>destructor_called := True\<rparr>) st = Some st1"
    using put_bucket_spec [OF assms(1,2), of "b\<lparr>destructor_called := True\<rparr>"] nf by auto
  note twice = put_bucket_twice [OF st1] and get1 = put_bucket_get [OF st1]
  show ?thesis
  proof (cases "ob_dtor b \<noteq> 0 \<and> handlers \<noteq> 0 \<and> ob_handlers b = 0")
    case True
    then have "claimed handlers b = b\<lparr>destructor_called := True, ob_handlers := handlers\<rparr>" by (simp add: claimed_def)
    with False True assms(2) st1 twice get1 show ?thesis
      by (simp add: dtor_outcome_def upd_bucket_def split: option.split)
  next
    case 2: False
    then have "claimed handlers b = b\<lparr>destructor_called := True\<rparr>" by (simp add: claimed_def)
    with False 2 assms(2) st1 show ?thesis by (auto simp: dtor_outcome_def upd_bucket_def)
  qed
qed (simp add: dtor_outcome_def)

lemma del_ref_shared:
  assumes "store_inv st fl" "get_bucket st h = Some b" "\<not> (valid b \<and> ob_refcount b = 1)"
  shows "zend_objects_store_del_ref_by_handle_ex env h hs st =
    map_option (Pair False) (upd_bucket h (\<lambda>b. b\<lparr>ob_refcount := ob_refcount b - 1\<rparr>) st)"
  using assms by (auto simp: zend_objects_store_del_ref_by_handle_ex_def store_inv_def Option.map_conv_bind_option comp_def)

lemma del_ref_last:
  assumes inv: "store_inv st fl" and b: "get_bucket st h = Some b" "valid b" "ob_refcount b = 1"
    and dtor: "dtor_outcome env h hs st b = Some (f, st2)" and b2: "get_bucket st2 h = Some b2"
  shows "zend_objects_store_del_ref_by_handle_ex env h hs st = do {
     (f', st3) \<leftarrow> (if ob_refcount b2 = 1 then do {
        (f2, st3) \<leftarrow> free_outcome env st2 b2;
        st3 \<leftarrow> ZEND_OBJECTS_STORE_ADD_TO_FREE_LIST h st3; Some (f \<or> f2, st3) } else Some (f, st2));
     if os_size st3 = os_size st2 then do {
       st \<leftarrow> upd_bucket h (\<lambda>b. b\<lparr>ob_refcount := ob_refcount b - 1\<rparr>) st3; Some (f', st) } else None }"
proof -
  have live: "(object_buckets st = None) = False" using inv by (auto simp: store_inv_def)
  note step = dtor_step [OF inv b(1,2), of hs env]
  show ?thesis
    unfolding zend_objects_store_del_ref_by_handle_ex_def step live
    by (simp add: b step dtor b2 free_outcome_def Let_def split_def cong: if_cong)
qed


text \<open>The sample after the last reference to object 1 is given up and its destructor has run.\<close>

definition store_sample_freed :: objects_store where
  "store_sample_freed = the (put_bucket 1 (claimed 5 (new_bucket no_callbacks 100 0 0 0)) store_sample)"


section \<open>Shutdown\<close>

lemma next_handle:
  assumes "i < os_top st" shows "unat (i + 1) = Suc (unat i)"
proof -
  have "i + 1 \<noteq> 0" using assms by (metis add_diff_cancel diff_0 word_not_simps(3) word_order.extremum_strict)
  then show ?thesis by (metis Suc_eq_plus1 add.commute unatSuc)
qed

lemma mark_destructed_loop_spec:
  "store_inv st fl \<Longrightarrow> 1 \<le> unat i \<Longrightarrow> \<exists>st'. mark_destructed_loop i st = Some st' \<and> store_inv st' fl \<and> os_top st' = os_top st \<and>
     (\<forall>j. get_bucket st' j = map_option (\<lambda>b. if i \<le> j \<and> j < os_top st \<and> valid b then b\<lparr>destructor_called := True\<rparr> else b) (get_bucket st j))"
proof (induction "unat (os_top st) - unat i" arbitrary: i st rule: less_induct)
  case less
  show ?case
  proof (cases "i < os_top st")
    case False
    then have e: "(\<lambda>b :: store_bucket. if i \<le> j \<and> j < os_top st \<and> valid b then b\<lparr>destructor_called := True\<rparr> else b) = (\<lambda>b. b)" for j
      by (intro ext) (auto dest: order.strict_trans1)
    show ?thesis using False less.prems unfolding e by (subst mark_destructed_loop.simps) (simp add: option.map_ident)
  next
    case True
    obtain b where b: "get_bucket st i = Some b" using store_inv_live [OF less.prems True] .
    have "\<exists>st1. (if valid b then put_bucket i (b\<lparr>destructor_called := True\<rparr>) st else Some st) = Some st1 \<and> store_inv st1 fl \<and>
        os_top st1 = os_top st \<and> get_bucket st1 i = Some (if valid b then b\<lparr>destructor_called := True\<rparr> else b) \<and>
        (\<forall>j. j \<noteq> i \<longrightarrow> get_bucket st1 j = get_bucket st j)"
      using put_bucket_spec [OF less.prems(1) b, of "b\<lparr>destructor_called := True\<rparr>"] valid_not_free [OF less.prems(1) b] less.prems(1) b
      by (cases "valid b") auto
    then obtain st1 where st1: "(if valid b then put_bucket i (b\<lparr>destructor_called := True\<rparr>) st else Some st) = Some st1" "store_inv st1 fl"
      "os_top st1 = os_top st" "get_bucket st1 i = Some (if valid b then b\<lparr>destructor_called := True\<rparr> else b)"
      and other: "\<And>j. j \<noteq> i \<Longrightarrow> get_bucket st1 j = get_bucket st j" by blast
    note n = next_handle [OF True]
    have "unat (os_top st1) - unat (i + 1) < unat (os_top st) - unat i" using True n st1(3) by (simp add: word_less_nat_alt)
    from less.hyps [OF this st1(2)] n obtain st' where st': "mark_destructed_loop (i + 1) st1 = Some st'" "store_inv st' fl" "os_top st' = os_top st"
      and get: "\<And>j. get_bucket st' j = map_option (\<lambda>b. if i + 1 \<le> j \<and> j < os_top st \<and> valid b then b\<lparr>destructor_called := True\<rparr> else b) (get_bucket st1 j)"
      using st1(3) by auto
    have run: "mark_destructed_loop i st = Some st'" using True b st1(1) st'(1) by (subst mark_destructed_loop.simps) simp
    have "get_bucket st' j = map_option (\<lambda>b. if i \<le> j \<and> j < os_top st \<and> valid b then b\<lparr>destructor_called := True\<rparr> else b) (get_bucket st j)" for j
    proof (cases "j = i")
      case j: True
      have "\<not> i + 1 \<le> i" using n by (simp add: word_le_nat_alt)
      with j True b st1(4) get show ?thesis by simp
    next
      case False
      have "i + 1 \<le> j \<longleftrightarrow> i \<le> j" using False n by (simp add: word_le_nat_alt Suc_le_eq order_less_le word_unat_eq_iff)
      then show ?thesis using get [of j] other [OF False] by simp
    qed
    with run st' show ?thesis by auto
  qed
qed

lemma call_destructors_idle:
  assumes "store_inv st fl" "\<And>j b. get_bucket st j = Some b \<Longrightarrow> 1 \<le> unat j \<Longrightarrow> j < os_top st \<Longrightarrow> valid b \<Longrightarrow> destructor_called b"
  shows "1 \<le> unat i \<Longrightarrow> call_destructors_loop env i st = Some (False, st)"
proof (induction "unat (os_top st) - unat i" arbitrary: i rule: less_induct)
  case less
  show ?case
  proof (cases "i < os_top st")
    case False
    then show ?thesis by (subst call_destructors_loop.simps) simp
  next
    case True
    obtain b where b: "get_bucket st i = Some b" using store_inv_live [OF assms(1) less.prems True] .
    have "call_destructors_loop env (i + 1) st = Some (False, st)"
      using True less by (simp add: next_handle word_less_nat_alt)
    then show ?thesis using True b assms(2) [OF b less.prems True] by (subst call_destructors_loop.simps) auto
  qed
qed

text \<open>
  C31: After \<open>zend_objects_store_mark_destructed\<close>, which an aborted request calls, every live object counts as
  destructed, nothing else has changed, and \<open>zend_objects_store_call_destructors\<close> returns without running a
  single destructor, whatever the destructors are.
\<close>

theorem objects_mark_destructed:
  assumes "store_inv st fl"
  shows "\<exists>st'. zend_objects_store_mark_destructed st = Some st' \<and> store_inv st' fl \<and>
    (\<forall>j. 1 \<le> unat j \<and> j < os_top st \<longrightarrow>
      get_bucket st' j = map_option (\<lambda>b. if valid b then b\<lparr>destructor_called := True\<rparr> else b) (get_bucket st j)) \<and>
    zend_objects_store_call_destructors env st' = Some (False, st')"
proof -
  from mark_destructed_loop_spec [OF assms, of 1]
  obtain st' where st': "mark_destructed_loop 1 st = Some st'" "store_inv st' fl" "os_top st' = os_top st"
    and get: "\<And>j. get_bucket st' j = map_option (\<lambda>b. if 1 \<le> j \<and> j < os_top st \<and> valid b then b\<lparr>destructor_called := True\<rparr> else b) (get_bucket st j)"
    by auto
  have one: "(1 :: u32) \<le> j" if "1 \<le> unat j" for j using that by (simp add: word_le_nat_alt)
  have "call_destructors_loop env 1 st' = Some (False, st')"
    by (rule call_destructors_idle [OF st'(2)]) (auto simp: get one st'(3) split: if_splits dest: arg_cong [where f = destructor_called])
  moreover have "zend_objects_store_mark_destructed st = Some st'"
    using assms st'(1) by (auto simp: zend_objects_store_mark_destructed_def store_inv_def)
  ultimately show ?thesis using st'(2) get one
    by (intro exI [of _ st']) (simp add: zend_objects_store_call_destructors_def)
qed

lemma objects_mark_destructed_witness:
  "\<exists>st'. zend_objects_store_mark_destructed store_sample = Some st' \<and>
     zend_objects_store_call_destructors no_callbacks st' = Some (False, st')"
  using objects_mark_destructed [OF store_sample_inv, of no_callbacks] by blast

end
