(* ===== verification/Base64.thy ===== *)
theory Base64 imports Prelude begin

text \<open>
  Base64 of \<open>ext/standard/base64.c\<close>: \<open>php_base64_encode\<close>, \<open>php_base64_decode_ex\<close> and the PHP functions
  over them. Strings are lists of bytes; the argument of the decoder is the memory at \<open>str\<close> (the string and what
  follows it) with the length that is passed along. The result of the decoder is the allocated buffer, whose bytes
  are \<open>None\<close> until they are written. Reading behind the memory, writing outside of the buffer and reading
  an unwritten byte make the whole result \<open>None\<close>; \<open>Some (Inl ())\<close> is the \<open>NULL\<close> the code returns.
\<close>

unbundle bit_operations_syntax

section \<open>Encoding\<close>

definition base64_table :: "u8 list" where
  "base64_table = map of_char ''ABCDEFGHIJKLMNOPQRSTUVWXYZabcdefghijklmnopqrstuvwxyz0123456789+/'' @ [0]"

definition base64_pad :: u8 where
  "base64_pad = of_char CHR ''=''"

definition table_at :: "u32 \<Rightarrow> u8" where
  "table_at x = base64_table ! unat x"

text \<open>The loop over groups of three bytes and the one or two bytes that are left; bytes are promoted to \<open>int\<close>.\<close>

fun base64_encode_loop :: "u8 list \<Rightarrow> u8 list" where
  "base64_encode_loop (a # b # c # current) =
     [table_at (drop_bit 2 (ucast a)),
      table_at (push_bit 4 (ucast a AND 0x03) + drop_bit 4 (ucast b)),
      table_at (push_bit 2 (ucast b AND 0x0f) + drop_bit 6 (ucast c)),
      table_at (ucast c AND 0x3f)] @ base64_encode_loop current"
| "base64_encode_loop [a, b] =
     [table_at (drop_bit 2 (ucast a)),
      table_at (push_bit 4 (ucast a AND 0x03) + drop_bit 4 (ucast b)),
      table_at (push_bit 2 (ucast b AND 0x0f)),
      base64_pad]"
| "base64_encode_loop [a] =
     [table_at (drop_bit 2 (ucast a)),
      table_at (push_bit 4 (ucast a AND 0x03)),
      base64_pad, base64_pad]"
| "base64_encode_loop [] = []"

text \<open>
  The buffer size is computed in \<open>int\<close>; where it overflows it is taken to wrap, and a negative size is a huge
  \<open>size_t\<close> which \<open>safe_emalloc\<close> refuses with a fatal error.
\<close>

datatype encode_error = Null_Result | Out_Of_Memory

definition php_base64_encode :: "u8 list \<Rightarrow> encode_error + u8 list \<times> int" where
  "php_base64_encode str = (let n = sint (of_nat (length str) + 2 :: u32) in
     if n < 0 \<or> n div 3 \<ge> push_bit (4 * 8 - 2) 1 then Inl Null_Result
     else if sint (of_int (n div 3 * 4) :: u32) < 0 then Inl Out_Of_Memory
     else let p = base64_encode_loop str in Inr (p @ [0], sint (of_nat (length p) :: u32)))"

text \<open>The PHP function: \<open>None\<close> is a fatal error, \<open>Some None\<close> is \<open>FALSE\<close>.\<close>

definition base64_encode :: "u8 list \<Rightarrow> u8 list option option" where
  "base64_encode str = (case php_base64_encode str of
       Inl Out_Of_Memory \<Rightarrow> None
     | Inl Null_Result \<Rightarrow> Some None
     | Inr (result, ret_length) \<Rightarrow> Some (Some (take (nat ret_length) result)))"

section \<open>Decoding\<close>

definition base64_reverse_table :: "int list" where
  "base64_reverse_table = [
    -2, -2, -2, -2, -2, -2, -2, -2, -2, -1, -1, -2, -2, -1, -2, -2,
    -2, -2, -2, -2, -2, -2, -2, -2, -2, -2, -2, -2, -2, -2, -2, -2,
    -1, -2, -2, -2, -2, -2, -2, -2, -2, -2, -2, 62, -2, -2, -2, 63,
    52, 53, 54, 55, 56, 57, 58, 59, 60, 61, -2, -2, -2, -2, -2, -2,
    -2,  0,  1,  2,  3,  4,  5,  6,  7,  8,  9, 10, 11, 12, 13, 14,
    15, 16, 17, 18, 19, 20, 21, 22, 23, 24, 25, -2, -2, -2, -2, -2,
    -2, 26, 27, 28, 29, 30, 31, 32, 33, 34, 35, 36, 37, 38, 39, 40,
    41, 42, 43, 44, 45, 46, 47, 48, 49, 50, 51, -2, -2, -2, -2, -2,
    -2, -2, -2, -2, -2, -2, -2, -2, -2, -2, -2, -2, -2, -2, -2, -2,
    -2, -2, -2, -2, -2, -2, -2, -2, -2, -2, -2, -2, -2, -2, -2, -2,
    -2, -2, -2, -2, -2, -2, -2, -2, -2, -2, -2, -2, -2, -2, -2, -2,
    -2, -2, -2, -2, -2, -2, -2, -2, -2, -2, -2, -2, -2, -2, -2, -2,
    -2, -2, -2, -2, -2, -2, -2, -2, -2, -2, -2, -2, -2, -2, -2, -2,
    -2, -2, -2, -2, -2, -2, -2, -2, -2, -2, -2, -2, -2, -2, -2, -2,
    -2, -2, -2, -2, -2, -2, -2, -2, -2, -2, -2, -2, -2, -2, -2, -2,
    -2, -2, -2, -2, -2, -2, -2, -2, -2, -2, -2, -2, -2, -2, -2, -2]"

type_synonym buffer = "u8 option list"

definition buf_set :: "nat \<Rightarrow> u8 \<Rightarrow> buffer \<Rightarrow> buffer option" where
  "buf_set j v buf = (if j < length buf then Some (buf[j := Some v]) else None)"

definition buf_or :: "nat \<Rightarrow> u8 \<Rightarrow> buffer \<Rightarrow> buffer option" where
  "buf_or j v buf = (if j < length buf then case buf ! j of None \<Rightarrow> None | Some w \<Rightarrow> Some (buf[j := Some (w OR v)]) else None)"

text \<open>The switch on \<open>i % 4\<close>; a store to an \<open>unsigned char\<close> keeps the low byte of the \<open>int\<close>.\<close>

definition decode_store :: "nat \<Rightarrow> int \<Rightarrow> nat \<Rightarrow> buffer \<Rightarrow> (nat \<times> buffer) option" where
  "decode_store i ch j result =
     (if i mod 4 = 0 then do { result \<leftarrow> buf_set j (of_int (push_bit 2 ch)) result; Some (j, result) }
      else if i mod 4 = 1 then do {
        result \<leftarrow> buf_or j (of_int (drop_bit 4 ch)) result;
        result \<leftarrow> buf_set (j + 1) (of_int (push_bit 4 (ch AND 0x0f))) result;
        Some (j + 1, result) }
      else if i mod 4 = 2 then do {
        result \<leftarrow> buf_or j (of_int (drop_bit 2 ch)) result;
        result \<leftarrow> buf_set (j + 1) (of_int (push_bit 6 (ch AND 0x03))) result;
        Some (j + 1, result) }
      else do { result \<leftarrow> buf_or j (of_int ch) result; Some (j + 1, result) })"

text \<open>The loop, over the memory from \<open>current\<close> on, ends with the last character read, \<open>i\<close>, \<open>j\<close> and the buffer.\<close>

fun base64_decode_loop ::
  "bool \<Rightarrow> u8 list \<Rightarrow> int \<Rightarrow> nat \<Rightarrow> nat \<Rightarrow> buffer \<Rightarrow> (unit + u8 \<times> nat \<times> nat \<times> buffer) option" where
  "base64_decode_loop strict [] len i j result = None"
| "base64_decode_loop strict (c # current) len i j result =
     (if c \<noteq> 0 \<and> len > 0 then
        let len = len - 1 in
        if c = base64_pad then
          (case current of
             [] \<Rightarrow> None
           | d # _ \<Rightarrow>
               if d \<noteq> base64_pad \<and> (i mod 4 = 1 \<or> strict \<and> len > 0) then Some (Inl ())
               else base64_decode_loop strict current len i j result)
        else
          let ch = base64_reverse_table ! unat c in
          if \<not> strict \<and> ch < 0 \<or> ch = -1 then base64_decode_loop strict current len i j result
          else if ch = -2 then Some (Inl ())
          else (case decode_store i ch j result of
             None \<Rightarrow> None
           | Some (j, result) \<Rightarrow> base64_decode_loop strict current len (i + 1) j result)
      else Some (Inr (c, i, j, result)))"

definition php_base64_decode_ex :: "u8 list \<Rightarrow> nat \<Rightarrow> bool \<Rightarrow> (unit + buffer \<times> nat) option" where
  "php_base64_decode_ex str len strict =
     (case base64_decode_loop strict str (int len) 0 0 (replicate (len + 1) None) of
        None \<Rightarrow> None
      | Some (Inl u) \<Rightarrow> Some (Inl u)
      | Some (Inr (ch, i, j, result)) \<Rightarrow>
          if ch = base64_pad \<and> i mod 4 = 1 then Some (Inl ())
          else do {
            result \<leftarrow> (if ch = base64_pad \<and> i mod 4 = 2 then buf_set (j + 1) 0 result
              else if ch = base64_pad \<and> i mod 4 = 3 then buf_set j 0 result else Some result);
            result \<leftarrow> buf_set j 0 result;
            Some (Inr (result, j))
          })"

definition php_base64_decode :: "u8 list \<Rightarrow> nat \<Rightarrow> (unit + buffer \<times> nat) option" where
  "php_base64_decode str len = php_base64_decode_ex str len False"

text \<open>The PHP function: \<open>Some None\<close> is \<open>FALSE\<close>. The memory of a PHP string ends with a zero byte.\<close>

definition base64_decode :: "u8 list \<Rightarrow> bool \<Rightarrow> u8 list option option" where
  "base64_decode str strict =
     (case php_base64_decode_ex (str @ [0]) (length str) strict of
        None \<Rightarrow> None
      | Some (Inl u) \<Rightarrow> Some None
      | Some (Inr (result, ret_length)) \<Rightarrow> map_option Some (those (take ret_length result)))"

section \<open>Memory safety of the decoder\<close>

text \<open>What holds of the indices and of the buffer whenever \<open>i\<close> characters have been decoded.\<close>

definition out_index :: "nat \<Rightarrow> nat" where
  "out_index i = 3 * (i div 4) + (i mod 4 - 1)"

lemma out_index_Suc: "out_index (Suc i) = (if i mod 4 = 0 then out_index i else Suc (out_index i))"
proof -
  have "(Suc i) mod 4 = (if i mod 4 = 3 then 0 else Suc (i mod 4))" "(Suc i) div 4 = (if i mod 4 = 3 then Suc (i div 4) else i div 4)"
    by (simp_all add: mod_Suc div_Suc)
  then show ?thesis by (auto simp: out_index_def)
qed

definition decode_inv :: "nat \<Rightarrow> nat \<Rightarrow> buffer \<Rightarrow> bool" where
  "decode_inv i j result \<longleftrightarrow> j = out_index i \<and> (\<forall>x<j. result ! x \<noteq> None) \<and>
     (i mod 4 \<noteq> 0 \<longrightarrow> result ! j \<noteq> None)"

lemma decode_inv_start: "decode_inv 0 0 result"
  by (simp add: decode_inv_def out_index_def)

lemma decode_inv_le: "decode_inv i j result \<Longrightarrow> j \<le> i"
  using div_mult_mod_eq [of i 4] unfolding decode_inv_def out_index_def by linarith

lemma decode_store_ok:
  assumes inv: "decode_inv i j result" and room: "i + 1 < length result"
  shows "\<exists>j' result'. decode_store i ch j result = Some (j', result') \<and> decode_inv (i + 1) j' result' \<and>
    length result' = length result"
proof -
  have j: "j + 1 < length result" using decode_inv_le [OF inv] room by simp
  have jv: "j = out_index i" and init: "\<forall>x<j. result ! x \<noteq> None" "i mod 4 \<noteq> 0 \<longrightarrow> result ! j \<noteq> None"
    using inv unfolding decode_inv_def by blast+
  have m: "Suc i mod 4 = (if i mod 4 = 3 then 0 else Suc (i mod 4))" by (simp add: mod_Suc)
  have "i mod 4 < 4" by simp
  then consider "i mod 4 = 0" | "i mod 4 = 1" | "i mod 4 = 2" | "i mod 4 = 3" by linarith
  then show ?thesis
    by cases (use j init in \<open>auto simp: decode_store_def buf_set_def buf_or_def decode_inv_def nth_list_update less_Suc_eq
      jv [symmetric] out_index_Suc m\<close>)
qed

lemma decode_loop_ok:
  "decode_inv i j result \<Longrightarrow> int i + len \<le> int L \<Longrightarrow> length result = L + 1 \<Longrightarrow> 0 \<le> len \<Longrightarrow> len < int (length mem) \<Longrightarrow>
     base64_decode_loop strict mem len i j result = Some (Inl ()) \<or>
     (\<exists>c i' j' result'. base64_decode_loop strict mem len i j result = Some (Inr (c, i', j', result')) \<and>
        decode_inv i' j' result' \<and> i' \<le> L \<and> length result' = L + 1)"
proof (induction strict mem len i j result rule: base64_decode_loop.induct)
  case (2 strict c current len i j result)
  show ?case
  proof (cases "c \<noteq> 0 \<and> len > 0")
    case False
    then show ?thesis using "2.prems" by auto
  next
    case go: True
    show ?thesis
    proof (cases "c = base64_pad")
      case True
      have "current \<noteq> []" using go "2.prems"(5) by auto
      then obtain d ds where current: "current = d # ds" by (cases current) auto
      show ?thesis
      proof (cases "d \<noteq> base64_pad \<and> (i mod 4 = 1 \<or> strict \<and> len - 1 > 0)")
        case True2: True
        with go True current show ?thesis by auto
      next
        case False
        have eq: "base64_decode_loop strict (c # current) len i j result = base64_decode_loop strict current (len - 1) i j result"
          unfolding current base64_decode_loop.simps(2) [of strict c "d # ds"]
          using go True False by (auto simp: Let_def simp del: base64_decode_loop.simps)
        show ?thesis unfolding eq
          by (rule "2.IH"(1) [OF go refl True current False]) (use "2.prems" go in auto)
      qed
    next
      case False
      let ?ch = "base64_reverse_table ! unat c"
      show ?thesis
      proof (cases "\<not> strict \<and> ?ch < 0 \<or> ?ch = -1")
        case True
        have eq: "base64_decode_loop strict (c # current) len i j result = base64_decode_loop strict current (len - 1) i j result"
          using go True False by (auto simp: Let_def)
        show ?thesis unfolding eq
          by (rule "2.IH"(2) [OF go refl False refl True]) (use "2.prems" go in auto)
      next
        case skip: False
        show ?thesis
        proof (cases "?ch = -2")
          case True
          with go False skip show ?thesis by (auto simp: Let_def)
        next
          case store: False
          obtain j' result' where st: "decode_store i ?ch j result = Some (j', result')" "decode_inv (i + 1) j' result'"
            "length result' = length result"
            using decode_store_ok [OF "2.prems"(1), of ?ch] "2.prems"(2,3) go by auto
          have eq: "base64_decode_loop strict (c # current) len i j result =
              base64_decode_loop strict current (len - 1) (i + 1) j' result'"
            using go False skip store st(1) by (auto simp: Let_def)
          show ?thesis unfolding eq
            by (rule "2.IH"(3) [OF go refl False refl skip store st(1) refl]) (use "2.prems" st go in auto)
        qed
      qed
    qed
  qed
qed simp

lemma those_length: "those xs = Some ys \<Longrightarrow> length ys = length xs"
  by (induction xs arbitrary: ys) (auto split: option.splits)

lemma those_all: "(\<forall>x\<in>set xs. x \<noteq> None) \<Longrightarrow> \<exists>ys. those xs = Some ys"
  by (induction xs) auto

text \<open>
  C30: Decoding is memory safe: for every string, in strict mode or not, \<open>php_base64_decode_ex\<close> reads at most the
  terminator behind the string, stores only inside of the buffer it has allocated (one byte more than the string has),
  returns only bytes it has written, and ends; the result has at most as many bytes as the string.
\<close>

theorem base64_decode_safe: "\<exists>r. base64_decode str strict = Some r \<and> (case r of None \<Rightarrow> True | Some out \<Rightarrow> length out \<le> length str)"
proof -
  let ?n = "length str"
  let ?run = "base64_decode_loop strict (str @ [0]) (int ?n) 0 0 (replicate (?n + 1) None)"
  have "?run = Some (Inl ()) \<or> (\<exists>c i j result. ?run = Some (Inr (c, i, j, result)) \<and>
      decode_inv i j result \<and> i \<le> ?n \<and> length result = ?n + 1)"
    by (rule decode_loop_ok) (simp_all add: decode_inv_start)
  then show ?thesis
  proof (elim disjE exE conjE)
    assume "?run = Some (Inl ())"
    then show ?thesis by (simp add: base64_decode_def php_base64_decode_ex_def)
  next
    fix c i j result
    assume run: "?run = Some (Inr (c, i, j, result))" and inv: "decode_inv i j result" and i: "i \<le> ?n" and len: "length result = ?n + 1"
    have jn: "j \<le> ?n" using decode_inv_le [OF inv] i by simp
    have step: "j + 1 \<le> ?n" if "i mod 4 = 2"
    proof -
      have "j + 1 \<le> i" using inv that div_mult_mod_eq [of i 4] unfolding decode_inv_def out_index_def by linarith
      with i show ?thesis by simp
    qed
    have fin: "\<exists>ys. those (take j (result'[j := Some 0])) = Some ys \<and> length ys \<le> ?n"
      if "\<forall>x<j. result' ! x \<noteq> None" "length result' = ?n + 1" for result' :: buffer
    proof -
      have "\<forall>x\<in>set (take j (result'[j := Some 0])). x \<noteq> None" using that jn by (auto simp: in_set_conv_nth)
      from those_all [OF this] obtain ys where ys: "those (take j (result'[j := Some 0])) = Some ys" by blast
      moreover have "length ys \<le> ?n" using those_length [OF ys] jn that by simp
      ultimately show ?thesis by blast
    qed
    have init: "\<forall>x<j. result ! x \<noteq> None" using inv by (simp add: decode_inv_def)
    have fin1: "\<exists>ys. those (take j (result[j := Some 0])) = Some ys \<and> length ys \<le> ?n" using fin init len by blast
    have fin2: "\<exists>ys. those (take j (result[k := Some 0, j := Some 0])) = Some ys \<and> length ys \<le> ?n" if "j \<le> k" for k
      using fin [of "result[k := Some 0]"] init len that by simp
    show ?thesis
      using run jn len step fin1 fin2 [of "j + 1"] fin2 [of j]
      by (auto simp: base64_decode_def php_base64_decode_ex_def buf_set_def)
  qed
qed

section \<open>Round trip\<close>

lemma base64_table_codes: "base64_table = map of_nat ([65..<91] @ [97..<123] @ [48..<58] @ [43, 47]) @ [0]"
  by (simp add: base64_table_def)

lemma base64_pad_code: "base64_pad = 61"
  by (simp add: base64_pad_def)

lemma upt_0_26: "[0..<26] = 0 # 1 # [2..<26]"
  by (simp add: upt_rec [of 0] upt_rec [of "Suc 0"] numeral_2_eq_2)

lemma reverse_rows:
  "take 26 (drop 65 base64_reverse_table) = map int [0..<26]" "take 26 (drop 97 base64_reverse_table) = map int [26..<52]"
  "take 10 (drop 48 base64_reverse_table) = map int [52..<62]"
  "base64_reverse_table ! 43 = 62" "base64_reverse_table ! 47 = 63"
  by (simp_all add: base64_reverse_table_def upt_0_26)

lemma nth_slice: "take m (drop n xs) = map f [0..<m] \<Longrightarrow> k < m \<Longrightarrow> n + m \<le> length xs \<Longrightarrow> xs ! (n + k) = f k"
proof -
  assume a: "take m (drop n xs) = map f [0..<m]" "k < m" "n + m \<le> length xs"
  then have "take m (drop n xs) ! k = f k" by simp
  then show ?thesis using a(2,3) by simp
qed

lemma reverse_table_at:
  "k < 26 \<Longrightarrow> base64_reverse_table ! (65 + k) = int k"
  "k < 26 \<Longrightarrow> base64_reverse_table ! (97 + k) = int (26 + k)"
  "k < 10 \<Longrightarrow> base64_reverse_table ! (48 + k) = int (52 + k)"
proof -
  have len: "length base64_reverse_table = 256" by (simp add: base64_reverse_table_def)
  have shift: "map int [n..<n + m] = map (\<lambda>k. int (n + k)) [0..<m]" for n m
    by (rule nth_equalityI) simp_all
  show "k < 26 \<Longrightarrow> base64_reverse_table ! (65 + k) = int k"
    by (rule nth_slice [OF reverse_rows(1)]) (simp_all add: len)
  show "k < 26 \<Longrightarrow> base64_reverse_table ! (97 + k) = int (26 + k)"
    by (rule nth_slice [where f = "\<lambda>k. int (26 + k)" and m = 26]) (use reverse_rows(2) shift [of 26 26] len in simp_all)
  show "k < 10 \<Longrightarrow> base64_reverse_table ! (48 + k) = int (52 + k)"
    by (rule nth_slice [where f = "\<lambda>k. int (52 + k)" and m = 10]) (use reverse_rows(3) shift [of 52 10] len in simp_all)
qed

lemma u8_of_nat: "n < 256 \<Longrightarrow> unat (of_nat n :: u8) = n"
  by (simp add: unat_of_nat_small)

lemma u8_of_nat_neq: "n < 256 \<Longrightarrow> m < 256 \<Longrightarrow> n \<noteq> m \<Longrightarrow> (of_nat n :: u8) \<noteq> of_nat m"
  using u8_of_nat by metis

lemma table_facts:
  assumes "x < 64"
  shows "base64_table ! x \<noteq> 0 \<and> base64_table ! x \<noteq> base64_pad \<and> base64_reverse_table ! unat (base64_table ! x) = int x"
proof -
  have nz: "(of_nat n :: u8) \<noteq> 0 \<and> (of_nat n :: u8) \<noteq> base64_pad" if "n < 256" "n \<noteq> 0" "n \<noteq> 61" for n
    using u8_of_nat_neq [of n 0] u8_of_nat_neq [of n 61] that by (simp add: base64_pad_code)
  consider "x < 26" | "26 \<le> x" "x < 52" | "52 \<le> x" "x < 62" | "x = 62" | "x = 63" using assms by linarith
  then have "\<exists>n. base64_table ! x = of_nat n \<and> n < 256 \<and> n \<noteq> 0 \<and> n \<noteq> 61 \<and> base64_reverse_table ! n = int x"
  proof cases
    case 1
    then show ?thesis using reverse_table_at(1)
      by (intro exI [of _ "65 + x"]) (simp add: base64_table_codes nth_append del: upt_rec_numeral)
  next
    case 2
    then obtain k where "x = 26 + k" "k < 26" by (intro that [of "x - 26"]) simp_all
    then show ?thesis using reverse_table_at(2) [of k]
      by (intro exI [of _ "97 + k"]) (simp add: base64_table_codes nth_append del: upt_rec_numeral)
  next
    case 3
    then obtain k where "x = 52 + k" "k < 10" by (intro that [of "x - 52"]) simp_all
    then show ?thesis using reverse_table_at(3) [of k]
      by (intro exI [of _ "48 + k"]) (simp add: base64_table_codes nth_append del: upt_rec_numeral)
  next
    case 4
    then show ?thesis using reverse_rows(4) by (intro exI [of _ 43]) (simp add: base64_table_codes nth_append del: upt_rec_numeral)
  next
    case 5
    then show ?thesis using reverse_rows(5) by (intro exI [of _ 47]) (simp add: base64_table_codes nth_append del: upt_rec_numeral)
  qed
  then obtain n where n: "base64_table ! x = of_nat n" "n < 256" "n \<noteq> 0" "n \<noteq> 61" "base64_reverse_table ! n = int x"
    by blast
  then show ?thesis using nz [OF n(2-4)] u8_of_nat [OF n(2)] by simp
qed

lemma small_bits:
  fixes x :: u32
  assumes "\<And>n. bit x n \<Longrightarrow> n < 6"
  shows "unat x < 64"
proof -
  have "take_bit 6 x = x" by (rule bit_word_eqI) (use assms in \<open>auto simp: bit_simps\<close>)
  then have "take_bit 6 (unat x) = unat x" by (metis unsigned_take_bit_eq)
  then show ?thesis using take_bit_nat_less_exp [of 6 "unat x"] by simp
qed

lemma masks: "(3 :: u32) = mask 2" "(15 :: u32) = mask 4" "(63 :: u32) = mask 6" "(3 :: int) = mask 2" "(15 :: int) = mask 4"
  by (simp_all add: mask_eq_exp_minus_1)

lemma plus_or:
  "push_bit 4 (ucast a AND mask 2) + drop_bit 4 (ucast b) = (push_bit 4 (ucast a AND mask 2) OR drop_bit 4 (ucast b) :: u32)"
  "push_bit 2 (ucast b AND mask 4) + drop_bit 6 (ucast c) = (push_bit 2 (ucast b AND mask 4) OR drop_bit 6 (ucast c) :: u32)"
  for a b c :: u8
  by (rule disjunctive_add; auto simp: bit_simps dest: byte_bit)+

lemma sextets:
  "unat (drop_bit 2 (ucast a) :: u32) < 64" "unat (push_bit 4 (ucast a AND 3) + drop_bit 4 (ucast b) :: u32) < 64"
  "unat (push_bit 2 (ucast b AND 15) + drop_bit 6 (ucast c) :: u32) < 64" "unat (ucast c AND 63 :: u32) < 64"
  "unat (push_bit 4 (ucast a AND 3) :: u32) < 64" "unat (push_bit 2 (ucast b AND 15) :: u32) < 64"
  for a b c :: u8
  unfolding masks plus_or by (rule small_bits; auto simp: bit_simps dest: byte_bit)+

lemma bytes_back:
  "of_int (push_bit 2 (uint (drop_bit 2 (ucast a :: u32)))) OR
     of_int (drop_bit 4 (uint (push_bit 4 (ucast a AND 3) + drop_bit 4 (ucast b) :: u32))) = a"
  "of_int (push_bit 4 (uint (push_bit 4 (ucast a AND 3) + drop_bit 4 (ucast b) :: u32) AND 15)) OR
     of_int (drop_bit 2 (uint (push_bit 2 (ucast b AND 15) + drop_bit 6 (ucast c) :: u32))) = b"
  "of_int (push_bit 6 (uint (push_bit 2 (ucast b AND 15) + drop_bit 6 (ucast c) :: u32) AND 3)) OR
     of_int (uint (ucast c AND 63 :: u32)) = c"
  "of_int (push_bit 2 (uint (drop_bit 2 (ucast a :: u32)))) OR of_int (drop_bit 4 (uint (push_bit 4 (ucast a AND 3) :: u32))) = a"
  "of_int (push_bit 4 (uint (push_bit 4 (ucast a AND 3) + drop_bit 4 (ucast b) :: u32) AND 15)) OR
     of_int (drop_bit 2 (uint (push_bit 2 (ucast b AND 15) :: u32))) = b"
  for a b c :: u8
  unfolding masks plus_or by (rule bit_word_eqI; auto simp: bit_simps Suc_Suc_diff dest: byte_bit)+

lemma decode_table_step:
  assumes "unat x < 64" "0 < len"
  shows "base64_decode_loop strict (table_at x # current) len i j result =
     (case decode_store i (uint x) j result of
        None \<Rightarrow> None
      | Some (j, result) \<Rightarrow> base64_decode_loop strict current (len - 1) (i + 1) j result)"
proof -
  have "uint x \<noteq> -1" "uint x \<noteq> -2" using uint_ge_0 [of x] by linarith+
  then show ?thesis using table_facts [OF assms(1)] assms(2) by (simp add: table_at_def Let_def)
qed

declare base64_decode_loop.simps [simp del]

lemma decode_store_mod:
  assumes "i mod 4 = 0" "j + 2 < length result"
  shows "decode_store i c0 j result = Some (j, result[j := Some (of_int (push_bit 2 c0))])"
    "result ! j = Some v \<Longrightarrow> decode_store (i + 1) c1 j result =
       Some (j + 1, result[j := Some (v OR of_int (drop_bit 4 c1)), j + 1 := Some (of_int (push_bit 4 (c1 AND 15)))])"
    "result ! (j + 1) = Some w \<Longrightarrow> decode_store (i + 2) c2 (j + 1) result =
       Some (j + 2, result[j + 1 := Some (w OR of_int (drop_bit 2 c2)), j + 2 := Some (of_int (push_bit 6 (c2 AND 3)))])"
    "result ! (j + 2) = Some z \<Longrightarrow> decode_store (i + 3) c3 (j + 2) result = Some (j + 3, result[j + 2 := Some (z OR of_int c3)])"
proof -
  have m: "(i + 1) mod 4 = 1" "(i + 2) mod 4 = 2" "(i + 3) mod 4 = 3" using assms(1) by presburger+
  show "decode_store i c0 j result = Some (j, result[j := Some (of_int (push_bit 2 c0))])"
    using assms by (simp add: decode_store_def buf_set_def)
  show "result ! j = Some v \<Longrightarrow> decode_store (i + 1) c1 j result =
       Some (j + 1, result[j := Some (v OR of_int (drop_bit 4 c1)), j + 1 := Some (of_int (push_bit 4 (c1 AND 15)))])"
    using m(1) assms by (simp add: decode_store_def buf_set_def buf_or_def)
  show "result ! (j + 1) = Some w \<Longrightarrow> decode_store (i + 2) c2 (j + 1) result =
       Some (j + 2, result[j + 1 := Some (w OR of_int (drop_bit 2 c2)), j + 2 := Some (of_int (push_bit 6 (c2 AND 3)))])"
    using m(2) assms by (simp add: decode_store_def buf_set_def buf_or_def)
  show "result ! (j + 2) = Some z \<Longrightarrow> decode_store (i + 3) c3 (j + 2) result = Some (j + 3, result[j + 2 := Some (z OR of_int c3)])"
    using m(3) assms by (simp add: decode_store_def buf_set_def buf_or_def)
qed

text \<open>The sextets of a group, decoded one after the other.\<close>

lemma decode_two:
  assumes "i mod 4 = 0" "j + 2 < length result" "1 < len" "unat x < 64" "unat y < 64"
    and a: "of_int (push_bit 2 (uint x)) OR of_int (drop_bit 4 (uint y)) = a"
    and b: "of_int (push_bit 4 (uint y AND 15)) = b"
  shows "base64_decode_loop strict (table_at x # table_at y # current) len i j result =
    base64_decode_loop strict current (len - 2) (i + 2) (j + 1) (result[j := Some a, j + 1 := Some b])"
proof -
  let ?r = "result[j := Some (of_int (push_bit 2 (uint x)))]"
  have "decode_store (i + 1) (uint y) j ?r = Some (j + 1, ?r[j := Some a, j + 1 := Some b])"
    using decode_store_mod(2) [OF assms(1), of j ?r "of_int (push_bit 2 (uint x))" "uint y"] assms(2) unfolding a b by simp
  then show ?thesis using decode_store_mod(1) [OF assms(1,2), of "uint x"] assms(2-5)
    by (simp add: decode_table_step)
qed

lemma decode_third:
  assumes "i mod 4 = 0" "j + 2 < length result" "0 < len" "unat x < 64" "result ! (j + 1) = Some w"
    and b: "w OR of_int (drop_bit 2 (uint x)) = b" and c: "of_int (push_bit 6 (uint x AND 3)) = c"
  shows "base64_decode_loop strict (table_at x # current) len (i + 2) (j + 1) result =
    base64_decode_loop strict current (len - 1) (i + 3) (j + 2) (result[j + 1 := Some b, j + 2 := Some c])"
  unfolding decode_table_step [OF assms(4,3)] decode_store_mod(3) [OF assms(1,2,5)] b c by (simp add: numeral_3_eq_3)

lemma decode_fourth:
  assumes "i mod 4 = 0" "j + 2 < length result" "0 < len" "unat x < 64" "result ! (j + 2) = Some w" and c: "w OR of_int (uint x) = c"
  shows "base64_decode_loop strict (table_at x # current) len (i + 3) (j + 2) result =
    base64_decode_loop strict current (len - 1) (i + 4) (j + 3) (result[j + 2 := Some c])"
  unfolding decode_table_step [OF assms(4,3)] decode_store_mod(4) [OF assms(1,2,5)] c by (simp add: eval_nat_numeral)

lemma take_updates:
  "j + 2 < length r \<Longrightarrow> take (j + 3) (r[j := a, j + 1 := b, j + 2 := c]) = take j r @ [a, b, c]"
  "j + 2 < length r \<Longrightarrow> take (j + 2) (r[j := a, j + 1 := b, j + 2 := c]) = take j r @ [a, b]"
  "j + 2 < length r \<Longrightarrow> take (j + 1) (r[j := a, j + 1 := b]) = take j r @ [a]"
  by (simp_all add: take_Suc_conv_app_nth numeral_3_eq_3 numeral_2_eq_2)

lemma decode_three:
  assumes "i mod 4 = 0" "j + 2 < length result" "2 < len" "unat x < 64" "unat y < 64" "unat z < 64"
    and "of_int (push_bit 2 (uint x)) OR of_int (drop_bit 4 (uint y)) = a"
    and "of_int (push_bit 4 (uint y AND 15)) OR of_int (drop_bit 2 (uint z)) = b"
  shows "base64_decode_loop strict (table_at x # table_at y # table_at z # current) len i j result =
    base64_decode_loop strict current (len - 3) (i + 3) (j + 2)
      (result[j := Some a, j + 1 := Some b, j + 2 := Some (of_int (push_bit 6 (uint z AND 3)))])"
proof -
  let ?r = "result[j := Some a, j + 1 := Some (of_int (push_bit 4 (uint y AND 15)))]"
  have 2: "j + 2 < length ?r" "?r ! (j + 1) = Some (of_int (push_bit 4 (uint y AND 15)))" "0 < len - 2" "1 < len" using assms(2,3) by simp_all
  show ?thesis
    unfolding decode_two [OF assms(1,2) 2(4) assms(4,5,7) refl] decode_third [OF assms(1) 2(1) 2(3) assms(6) 2(2) assms(8) refl]
    by simp
qed

lemma decode_four:
  assumes "i mod 4 = 0" "j + 2 < length result" "3 < len" "unat x < 64" "unat y < 64" "unat z < 64" "unat u < 64"
    and "of_int (push_bit 2 (uint x)) OR of_int (drop_bit 4 (uint y)) = a"
    and "of_int (push_bit 4 (uint y AND 15)) OR of_int (drop_bit 2 (uint z)) = b"
    and "of_int (push_bit 6 (uint z AND 3)) OR of_int (uint u) = c"
  shows "base64_decode_loop strict (table_at x # table_at y # table_at z # table_at u # current) len i j result =
    base64_decode_loop strict current (len - 4) (i + 4) (j + 3) (result[j := Some a, j + 1 := Some b, j + 2 := Some c])"
proof -
  let ?r = "result[j := Some a, j + 1 := Some b, j + 2 := Some (of_int (push_bit 6 (uint z AND 3)))]"
  have 2: "j + 2 < length ?r" "?r ! (j + 2) = Some (of_int (push_bit 6 (uint z AND 3)))" "0 < len - 3" "2 < len" using assms(2,3) by simp_all
  show ?thesis
    unfolding decode_three [OF assms(1,2) 2(4) assms(4-6) assms(8,9)] decode_fourth [OF assms(1) 2(1) 2(3) assms(7) 2(2) assms(10)]
    by simp
qed

lemma decode_pads:
  "i mod 4 = 3 \<Longrightarrow> base64_decode_loop strict [base64_pad, 0] 1 i j result = Some (Inr (0, i, j, result))"
  "i mod 4 = 2 \<Longrightarrow> base64_decode_loop strict [base64_pad, base64_pad, 0] 2 i j result = Some (Inr (0, i, j, result))"
  by (simp_all add: base64_decode_loop.simps base64_pad_code)

lemma decode_encoded:
  "i mod 4 = 0 \<Longrightarrow> j + length (base64_encode_loop str) < length result \<Longrightarrow>
   \<exists>i' result'. base64_decode_loop strict (base64_encode_loop str @ [0]) (int (length (base64_encode_loop str))) i j result =
       Some (Inr (0, i', j + length str, result')) \<and> length result' = length result \<and>
     take (j + length str) result' = take j result @ map Some str"
proof (induction str arbitrary: i j result rule: base64_encode_loop.induct)
  case (1 a b c current)
  let ?r = "result[j := Some a, j + 1 := Some b, j + 2 := Some c]"
  let ?len = "int (length (base64_encode_loop current))"
  have j: "j + 2 < length result" using "1.prems"(2) by simp
  have len: "int (length (base64_encode_loop (a # b # c # current))) = ?len + 4" by simp
  have four: "base64_decode_loop strict (base64_encode_loop (a # b # c # current) @ [0]) (?len + 4) i j result =
      base64_decode_loop strict (base64_encode_loop current @ [0]) ?len (i + 4) (j + 3) ?r"
    using decode_four [OF "1.prems"(1) j _ sextets(1-4) bytes_back(1-3), where len = "?len + 4"] by simp
  have "(i + 4) mod 4 = 0" using "1.prems"(1) by simp
  from "1.IH" [OF this, of "j + 3" ?r] "1.prems"(2)
  obtain i' result' where ih: "base64_decode_loop strict (base64_encode_loop current @ [0]) ?len (i + 4) (j + 3) ?r =
      Some (Inr (0, i', j + 3 + length current, result'))" "length result' = length result"
    "take (j + 3 + length current) result' = take (j + 3) ?r @ map Some current" by auto
  have "j + length (a # b # c # current) = j + 3 + length current" by simp
  then show ?case unfolding len four using ih take_updates(1) [OF j] by (intro exI [of _ i'] exI [of _ result']) (simp add: numeral_3_eq_3)
next
  case (2 a b)
  have j: "j + 2 < length result" using "2.prems"(2) by simp
  have "(i + 3) mod 4 = 3" using "2.prems"(1) by presburger
  then show ?case
    using decode_three [OF "2.prems"(1) j _ sextets(1,2,6) bytes_back(1,5), where len = 4 and current = "[base64_pad, 0]"]
      take_updates(2) [OF j] j by (simp add: decode_pads)
next
  case (3 a)
  have j: "j + 2 < length result" using "3.prems"(2) by simp
  have "(i + 2) mod 4 = 2" using "3.prems"(1) by presburger
  then show ?case
    using decode_two [OF "3.prems"(1) j _ sextets(1,5) bytes_back(4) refl, where len = 4 and current = "[base64_pad, base64_pad, 0]"]
      take_updates(3) [OF j] j by (simp add: decode_pads)
next
  case 4
  then show ?case by (simp add: base64_decode_loop.simps)
qed

lemma encode_length: "length (base64_encode_loop str) = (length str + 2) div 3 * 4"
proof (induction str rule: base64_encode_loop.induct)
  case (1 a b c current)
  have "(length (a # b # c # current) + 2) div 3 = Suc ((length current + 2) div 3)" by simp
  with "1.IH" show ?case by simp
qed simp_all

lemma those_map_Some: "those (map Some xs) = Some xs"
  by (induction xs) simp_all

lemma sint_u32_neg:
  assumes "2 ^ 31 \<le> n" "n < 2 ^ 32" shows "sint (of_int (int n) :: u32) < 0"
proof -
  have "int n div 2 ^ 31 = 1" using assms by (simp add: int_div_pos_eq [where q = 1 and r = "int n - 2 ^ 31"])
  then have "bit (int n) 31" by (simp add: bit_iff_odd)
  then show ?thesis by transfer (simp add: signed_take_bit_negative_iff)
qed

lemma base64_encode_ok:
  assumes "length str \<le> 1610612733"
  shows "base64_encode str = Some (Some (base64_encode_loop str))"
proof -
  let ?g = "(length str + 2) div 3"
  have n: "sint (of_nat (length str) + 2 :: u32) = int (length str + 2)"
    using sint_u32 [of "length str + 2"] assms by (simp add: add.commute)
  have g: "?g * 4 < 2 ^ 31" "?g < 2 ^ 30" using assms by auto
  have "int (length str + 2) div 3 * 4 = int (?g * 4)" by (simp add: zdiv_int)
  then have s: "sint (of_int (int (length str + 2) div 3 * 4) :: u32) = int (?g * 4)"
    using sint_u32 [OF g(1)] by (simp only:)
  have l: "sint (of_nat (length (base64_encode_loop str)) :: u32) = int (length (base64_encode_loop str))"
    using sint_u32 [of "length (base64_encode_loop str)"] g by (simp add: encode_length)
  have "\<not> int (length str + 2) div 3 \<ge> push_bit (4 * 8 - 2) 1"
    using g(2) by (simp add: push_bit_eq_mult zdiv_int)
  then have "php_base64_encode str = Inr (base64_encode_loop str @ [0], int (length (base64_encode_loop str)))"
    unfolding php_base64_encode_def n Let_def s l by simp
  then show ?thesis by (simp add: base64_encode_def)
qed

text \<open>
  C29: \<open>base64_decode\<close> undoes \<open>base64_encode\<close>: for every string of at most 1610612733 bytes the encoding exists, has four
  characters for every three bytes begun, and decodes to the string, in strict mode as well as without it.
\<close>

theorem base64_roundtrip:
  assumes "length str \<le> 1610612733"
  shows "\<exists>e. base64_encode str = Some (Some e) \<and> length e = (length str + 2) div 3 * 4 \<and> base64_decode e strict = Some (Some str)"
proof -
  let ?e = "base64_encode_loop str"
  from decode_encoded [of 0 0 str "replicate (length ?e + 1) None" strict]
  obtain i' result' where d: "base64_decode_loop strict (?e @ [0]) (int (length ?e)) 0 0 (replicate (length ?e + 1) None) =
      Some (Inr (0, i', length str, result'))" "length result' = length ?e + 1" "take (length str) result' = map Some str"
    by auto
  have l: "length str < length result'" using d(2) encode_length [of str] by simp
  have "take (length str) (result'[length str := Some 0]) = map Some str" using d(3) by simp
  then have "base64_decode ?e strict = Some (Some str)"
    using d(1) l by (simp add: base64_decode_def php_base64_decode_ex_def buf_set_def base64_pad_code those_map_Some)
  then show ?thesis using base64_encode_ok [OF assms] encode_length [of str] by simp
qed

lemma base64_roundtrip_witness:
  "\<exists>e. base64_encode [0x50, 0x48, 0x50, 0xff] = Some (Some e) \<and> length e = 8 \<and> base64_decode e True = Some (Some [0x50, 0x48, 0x50, 0xff])"
  using base64_roundtrip [of "[0x50, 0x48, 0x50, 0xff]" True] by simp

text \<open>
  The limit the code checks is not the one of its buffer: a string of 1610612734 bytes or more, up to the
  largest the check lets pass, makes the size of the buffer overflow, and the function ends in a fatal error of the
  allocator instead of returning \<open>FALSE\<close>, which it does only for the two largest lengths.
\<close>

theorem base64_encode_limit:
  assumes "1610612734 \<le> length str" "length str < 2 ^ 31"
  shows "base64_encode str = (if length str < 2 ^ 31 - 2 then None else Some None)"
proof (cases "length str < 2 ^ 31 - 2")
  case True
  let ?g = "(length str + 2) div 3"
  have n: "sint (of_nat (length str) + 2 :: u32) = int (length str + 2)"
    using sint_u32 [of "length str + 2"] True by (simp add: add.commute)
  have g: "2 ^ 31 \<le> ?g * 4" "?g * 4 < 2 ^ 32" "?g < 2 ^ 30" using assms True by auto
  have "sint (of_int (int (?g * 4)) :: u32) < 0"
    by (rule sint_u32_neg [OF g(1,2)])
  moreover have "int (length str + 2) div 3 * 4 = int (?g * 4)" by (simp add: zdiv_int)
  moreover have "\<not> int (length str + 2) div 3 \<ge> push_bit (4 * 8 - 2) 1"
    using g(3) by (simp add: push_bit_eq_mult zdiv_int)
  ultimately have "php_base64_encode str = Inl Out_Of_Memory"
    unfolding php_base64_encode_def n Let_def by simp
  with True show ?thesis by (simp add: base64_encode_def)
next
  case False
  then have "length str = 2147483646 \<or> length str = 2147483647" using assms(2) by auto
  then have "sint (of_nat (length str) + 2 :: u32) < 0" by auto
  then have "php_base64_encode str = Inl Null_Result" by (simp add: php_base64_encode_def Let_def)
  with False show ?thesis by (simp add: base64_encode_def)
qed

lemma base64_encode_limit_witness: "\<exists>str. length str = 1610612734 \<and> base64_encode str = None"
proof -
  obtain str :: "u8 list" where l: "length str = 1610612734"
    by (rule that) (rule length_replicate)
  have "1610612734 \<le> length str" "length str < 2 ^ 31" "length str < 2 ^ 31 - 2" unfolding l by simp_all
  from base64_encode_limit [OF this(1,2)] this(3) have "base64_encode str = None" by (simp only: if_True)
  with l show ?thesis by blast
qed

end
