(* ===== verification/Url.thy ===== *)
theory Url imports Prelude begin

text \<open>
  URL encoding of \<open>ext/standard/url.c\<close>: \<open>php_url_encode\<close> and \<open>php_url_decode\<close> (\<open>+\<close> for a space), \<open>php_raw_url_encode\<close>
  and \<open>php_raw_url_decode\<close> (RFC 1738), and the four PHP functions over them. The decoders work in place: they are
  functions of the memory at \<open>str\<close>, the string with its terminator, where \<open>dest\<close> never overtakes \<open>data\<close>. Leaving the
  memory is \<open>None\<close>. The C library's \<open>isxdigit\<close>, \<open>isupper\<close> and \<open>tolower\<close> are those of the C locale.
\<close>

unbundle bit_operations_syntax

section \<open>Encoding\<close>

definition hexchars :: "u8 list" where
  "hexchars = map of_char ''0123456789ABCDEF'' @ [0]"

text \<open>The condition under which \<open>php_url_encode\<close> escapes a character that is not a space.\<close>

definition url_escapes :: "u8 \<Rightarrow> bool" where
  "url_escapes c \<longleftrightarrow> (c < of_char CHR ''0'' \<and> c \<noteq> of_char CHR ''-'' \<and> c \<noteq> of_char CHR ''.'') \<or>
     (c < of_char CHR ''A'' \<and> c > of_char CHR ''9'') \<or>
     (c > of_char CHR ''Z'' \<and> c < of_char CHR ''a'' \<and> c \<noteq> of_char CHR ''_'') \<or>
     c > of_char CHR ''z''"

fun url_encode_loop :: "u8 list \<Rightarrow> u8 list" where
  "url_encode_loop [] = []"
| "url_encode_loop (c # from) =
     (if c = of_char CHR '' '' then of_char CHR ''+'' # url_encode_loop from
      else if url_escapes c then
        of_char CHR ''%'' # hexchars ! unat (drop_bit 4 c) # hexchars ! unat (c AND 15) # url_encode_loop from
      else c # url_encode_loop from)"

text \<open>The result with its terminator, and the length as the \<open>int\<close> it is stored in.\<close>

definition php_url_encode :: "u8 list \<Rightarrow> u8 list \<times> int" where
  "php_url_encode s = (let start = url_encode_loop s in (start @ [0], sint (of_nat (length start) :: u32)))"

definition raw_url_escapes :: "u8 \<Rightarrow> bool" where
  "raw_url_escapes c \<longleftrightarrow> (c < of_char CHR ''0'' \<and> c \<noteq> of_char CHR ''-'' \<and> c \<noteq> of_char CHR ''.'') \<or>
     (c < of_char CHR ''A'' \<and> c > of_char CHR ''9'') \<or>
     (c > of_char CHR ''Z'' \<and> c < of_char CHR ''a'' \<and> c \<noteq> of_char CHR ''_'') \<or>
     (c > of_char CHR ''z'' \<and> c \<noteq> of_char CHR ''~'')"

fun raw_url_encode_loop :: "u8 list \<Rightarrow> u8 list" where
  "raw_url_encode_loop [] = []"
| "raw_url_encode_loop (c # s) =
     (if raw_url_escapes c then
        of_char CHR ''%'' # hexchars ! unat (drop_bit 4 c) # hexchars ! unat (c AND 15) # raw_url_encode_loop s
      else c # raw_url_encode_loop s)"

definition php_raw_url_encode :: "u8 list \<Rightarrow> u8 list \<times> int" where
  "php_raw_url_encode s = (let str = raw_url_encode_loop s in (str @ [0], sint (of_nat (length str) :: u32)))"

section \<open>Decoding\<close>

definition isxdigit :: "u8 \<Rightarrow> bool" where
  "isxdigit c \<longleftrightarrow> of_char CHR ''0'' \<le> c \<and> c \<le> of_char CHR ''9'' \<or> of_char CHR ''a'' \<le> c \<and> c \<le> of_char CHR ''f'' \<or>
     of_char CHR ''A'' \<le> c \<and> c \<le> of_char CHR ''F''"

definition to_lower :: "u8 \<Rightarrow> u8" where
  "to_lower c = (if of_char CHR ''A'' \<le> c \<and> c \<le> of_char CHR ''Z'' then c + 32 else c)"

definition htoi_digit :: "u8 \<Rightarrow> int" where
  "htoi_digit c = (let c = uint (to_lower c) in
     if c \<ge> of_char CHR ''0'' \<and> c \<le> of_char CHR ''9'' then c - of_char CHR ''0'' else c - of_char CHR ''a'' + 10)"

definition php_htoi :: "u8 \<Rightarrow> u8 \<Rightarrow> int" where
  "php_htoi s0 s1 = htoi_digit s0 * 16 + htoi_digit s1"

definition mem_read :: "u8 list \<Rightarrow> nat \<Rightarrow> u8 option" where
  "mem_read mem i = (if i < length mem then Some (mem ! i) else None)"

definition mem_write :: "nat \<Rightarrow> u8 \<Rightarrow> u8 list \<Rightarrow> u8 list option" where
  "mem_write i v mem = (if i < length mem then Some (mem[i := v]) else None)"

text \<open>\<open>isxdigit(data[1]) && isxdigit(data[2])\<close>: the second is read only when the first is a digit.\<close>

definition hex_pair :: "u8 list \<Rightarrow> nat \<Rightarrow> bool option" where
  "hex_pair mem data = do {
     a \<leftarrow> mem_read mem (data + 1);
     if isxdigit a then do { b \<leftarrow> mem_read mem (data + 2); Some (isxdigit b) } else Some False }"

fun url_decode_loop :: "nat \<Rightarrow> nat \<Rightarrow> nat \<Rightarrow> u8 list \<Rightarrow> (nat \<times> u8 list) option" where
  "url_decode_loop 0 data dest mem = Some (dest, mem)"
| "url_decode_loop (Suc len) data dest mem = do {
     c \<leftarrow> mem_read mem data;
     if c = of_char CHR ''+'' then do {
       mem \<leftarrow> mem_write dest (of_char CHR '' '') mem;
       url_decode_loop len (data + 1) (dest + 1) mem
     } else do {
       esc \<leftarrow> (if c = of_char CHR ''%'' \<and> len \<ge> 2 then hex_pair mem data else Some False);
       if esc then do {
         a \<leftarrow> mem_read mem (data + 1);
         b \<leftarrow> mem_read mem (data + 2);
         mem \<leftarrow> mem_write dest (of_int (php_htoi a b)) mem;
         url_decode_loop (len - 2) (data + 2 + 1) (dest + 1) mem
       } else do {
         mem \<leftarrow> mem_write dest c mem;
         url_decode_loop len (data + 1) (dest + 1) mem
       }
     }
   }"

definition php_url_decode :: "u8 list \<Rightarrow> nat \<Rightarrow> (nat \<times> u8 list) option" where
  "php_url_decode str len = do {
     (dest, mem) \<leftarrow> url_decode_loop len 0 0 str;
     mem \<leftarrow> mem_write dest 0 mem;
     Some (dest, mem) }"

fun raw_url_decode_loop :: "nat \<Rightarrow> nat \<Rightarrow> nat \<Rightarrow> u8 list \<Rightarrow> (nat \<times> u8 list) option" where
  "raw_url_decode_loop 0 data dest mem = Some (dest, mem)"
| "raw_url_decode_loop (Suc len) data dest mem = do {
     c \<leftarrow> mem_read mem data;
     esc \<leftarrow> (if c = of_char CHR ''%'' \<and> len \<ge> 2 then hex_pair mem data else Some False);
     if esc then do {
       a \<leftarrow> mem_read mem (data + 1);
       b \<leftarrow> mem_read mem (data + 2);
       mem \<leftarrow> mem_write dest (of_int (php_htoi a b)) mem;
       raw_url_decode_loop (len - 2) (data + 2 + 1) (dest + 1) mem
     } else do {
       mem \<leftarrow> mem_write dest c mem;
       raw_url_decode_loop len (data + 1) (dest + 1) mem
     }
   }"

definition php_raw_url_decode :: "u8 list \<Rightarrow> nat \<Rightarrow> (nat \<times> u8 list) option" where
  "php_raw_url_decode str len = do {
     (dest, mem) \<leftarrow> raw_url_decode_loop len 0 0 str;
     mem \<leftarrow> mem_write dest 0 mem;
     Some (dest, mem) }"

section \<open>The PHP functions\<close>

definition urlencode :: "u8 list \<Rightarrow> u8 list" where
  "urlencode in_str = (case php_url_encode in_str of (out_str, out_str_len) \<Rightarrow> take (nat out_str_len) out_str)"

definition rawurlencode :: "u8 list \<Rightarrow> u8 list" where
  "rawurlencode in_str = (case php_raw_url_encode in_str of (out_str, out_str_len) \<Rightarrow> take (nat out_str_len) out_str)"

definition urldecode :: "u8 list \<Rightarrow> u8 list option" where
  "urldecode in_str = do {
     (out_str_len, out_str) \<leftarrow> php_url_decode (in_str @ [0]) (length in_str);
     Some (take out_str_len out_str) }"

definition rawurldecode :: "u8 list \<Rightarrow> u8 list option" where
  "rawurldecode in_str = do {
     (out_str_len, out_str) \<leftarrow> php_raw_url_decode (in_str @ [0]) (length in_str);
     Some (take out_str_len out_str) }"

section \<open>What decoding computes\<close>

text \<open>The result of a decoder on a string; \<open>plain\<close> is what becomes of a character that is not part of an escape.\<close>

fun decoded :: "(u8 \<Rightarrow> u8) \<Rightarrow> u8 list \<Rightarrow> u8 list" where
  "decoded plain (c # a # b # cs) = (if c = of_char CHR ''%'' \<and> isxdigit a \<and> isxdigit b
     then of_int (php_htoi a b) # decoded plain cs else plain c # decoded plain (a # b # cs))"
| "decoded plain (c # cs) = plain c # decoded plain cs"
| "decoded plain [] = []"

lemma hex_pair_eq: "data + 2 < length mem \<Longrightarrow> hex_pair mem data = Some (isxdigit (mem ! (data + 1)) \<and> isxdigit (mem ! (data + 2)))"
  by (auto simp: hex_pair_def mem_read_def)

lemma decoded_short: "length cs < 2 \<Longrightarrow> decoded plain (c # cs) = plain c # decoded plain cs"
  by (cases "(plain, c # cs)" rule: decoded.cases) auto

text \<open>The two decoding loops are one loop, but for the plus sign.\<close>

locale percent_decoder =
  fixes plain :: "u8 \<Rightarrow> u8" and loop :: "nat \<Rightarrow> nat \<Rightarrow> nat \<Rightarrow> u8 list \<Rightarrow> (nat \<times> u8 list) option"
  assumes loop_0: "loop 0 data dest mem = Some (dest, mem)"
    and loop_Suc: "loop (Suc len) data dest mem = do {
       c \<leftarrow> mem_read mem data;
       esc \<leftarrow> (if c = of_char CHR ''%'' \<and> len \<ge> 2 then hex_pair mem data else Some False);
       if esc then do {
         a \<leftarrow> mem_read mem (data + 1);
         b \<leftarrow> mem_read mem (data + 2);
         mem \<leftarrow> mem_write dest (of_int (php_htoi a b)) mem;
         loop (len - 2) (data + 2 + 1) (dest + 1) mem
       } else do {
         mem \<leftarrow> mem_write dest (plain c) mem;
         loop len (data + 1) (dest + 1) mem
       }
     }"
begin

lemma loop_decodes:
  "dest \<le> data \<Longrightarrow> data + len \<le> length mem \<Longrightarrow> \<exists>dest' mem'. loop len data dest mem = Some (dest', mem') \<and>
     dest' \<le> data + len \<and> length mem' = length mem \<and>
     take dest' mem' = take dest mem @ decoded plain (take len (drop data mem))"
proof (induction len arbitrary: data dest mem rule: less_induct)
  case (less n)
  show ?case
  proof (cases n)
    case 0
    then show ?thesis using less.prems by (simp add: loop_0)
  next
    case (Suc len)
    let ?c = "mem ! data"
    let ?esc = "?c = of_char CHR ''%'' \<and> len \<ge> 2 \<and> isxdigit (mem ! (data + 1)) \<and> isxdigit (mem ! (data + 2))"
    have d: "data < length mem" using less.prems Suc by simp
    have rest: "take n (drop data mem) = ?c # take len (drop (data + 1) mem)"
      using d Suc by (simp add: Cons_nth_drop_Suc [symmetric])
    have esc: "(if ?c = of_char CHR ''%'' \<and> len \<ge> 2 then hex_pair mem data else Some False) = Some ?esc"
      using less.prems Suc by (auto simp: hex_pair_eq)
    have keep: "drop k (mem[dest := v]) = drop k mem" "take (dest + 1) (mem[dest := v]) = take dest mem @ [v]" if "dest < k" for k v
      using that d less.prems by (simp_all add: take_Suc_conv_app_nth)
    show ?thesis
    proof (cases ?esc)
      case True
      let ?a = "mem ! (data + 1)" and ?b = "mem ! (data + 2)" and ?m = "mem[dest := of_int (php_htoi (mem ! (data + 1)) (mem ! (data + 2)))]"
      have l: "data + 2 < length mem" using True less.prems Suc by simp
      have two: "take len (drop (data + 1) mem) = ?a # ?b # take (len - 2) (drop (data + 3) mem)"
      proof -
        obtain k where k: "len = Suc (Suc k)" using True by (metis add_2_eq_Suc le_Suc_ex)
        show ?thesis unfolding k using l by (simp add: Cons_nth_drop_Suc [symmetric] numeral_3_eq_3 numeral_2_eq_2)
      qed
      have run: "loop n data dest mem = loop (len - 2) (data + 3) (dest + 1) ?m"
        unfolding Suc loop_Suc using True d l less.prems(1) esc
        by (simp add: mem_read_def mem_write_def numeral_3_eq_3)
      have smaller: "len - 2 < n" "dest + 1 \<le> data + 3" "data + 3 + (len - 2) \<le> length ?m" using less.prems Suc True by auto
      from less.IH [OF smaller]
      obtain dest' mem' where ih: "loop (len - 2) (data + 3) (dest + 1) ?m = Some (dest', mem')" "dest' \<le> data + 3 + (len - 2)"
        "length mem' = length mem" "take dest' mem' = take (dest + 1) ?m @ decoded plain (take (len - 2) (drop (data + 3) ?m))" by auto
      have "dest < data + 3" using less.prems(1) by simp
      then show ?thesis using run ih keep True Suc rest two by (intro exI [of _ dest'] exI [of _ mem']) simp
    next
      case False
      let ?m = "mem[dest := plain ?c]"
      have run: "loop n data dest mem = loop len (data + 1) (dest + 1) ?m"
        unfolding Suc loop_Suc using False d less.prems(1) esc by (auto simp: mem_read_def mem_write_def)
      have smaller: "len < n" "dest + 1 \<le> data + 1" "data + 1 + len \<le> length ?m" using less.prems Suc by auto
      from less.IH [OF smaller]
      obtain dest' mem' where ih: "loop len (data + 1) (dest + 1) ?m = Some (dest', mem')" "dest' \<le> data + 1 + len"
        "length mem' = length mem" "take dest' mem' = take (dest + 1) ?m @ decoded plain (take len (drop (data + 1) ?m))" by auto
      have dec: "decoded plain (?c # take len (drop (data + 1) mem)) = plain ?c # decoded plain (take len (drop (data + 1) mem))"
      proof (cases "len < 2")
        case True
        then show ?thesis by (simp add: decoded_short)
      next
        case two: False
        then obtain k where k: "len = Suc (Suc k)" by (metis add_2_eq_Suc le_Suc_ex linorder_not_less)
        show ?thesis unfolding k using less.prems Suc k False
          by (auto simp: Cons_nth_drop_Suc [symmetric] numeral_2_eq_2)
      qed
      have "dest < data + 1" using less.prems(1) by simp
      then show ?thesis using run ih keep Suc rest dec by (intro exI [of _ dest'] exI [of _ mem']) simp
    qed
  qed
qed

end

interpretation url: percent_decoder "\<lambda>c. if c = of_char CHR ''+'' then of_char CHR '' '' else c" url_decode_loop
  by unfold_locales (auto intro!: Option.bind_cong)

interpretation raw_url: percent_decoder "\<lambda>c. c" raw_url_decode_loop
  by unfold_locales simp_all

section \<open>Properties\<close>

abbreviation plus_space :: "u8 \<Rightarrow> u8" where
  "plus_space c \<equiv> (if c = of_char CHR ''+'' then of_char CHR '' '' else c)"

lemma hexchars_digits:
  assumes "x < 16"
  shows "isxdigit (hexchars ! x) \<and> htoi_digit (hexchars ! x) = int x"
proof -
  have "x = 0 \<or> x = 1 \<or> x = 2 \<or> x = 3 \<or> x = 4 \<or> x = 5 \<or> x = 6 \<or> x = 7 \<or> x = 8 \<or> x = 9 \<or> x = 10 \<or> x = 11 \<or> x = 12 \<or>
      x = 13 \<or> x = 14 \<or> x = 15"
    using assms by presburger
  then show ?thesis
    by (elim disjE) (simp_all add: hexchars_def isxdigit_def htoi_digit_def to_lower_def)
qed

lemma nibbles: "unat (drop_bit 4 c) < 16" "unat (c AND 15) < 16" "int (unat (drop_bit 4 c)) * 16 + int (unat (c AND 15)) = uint c" for c :: u8
proof -
  have m: "(15 :: u8) = mask 4" by (simp add: mask_eq_exp_minus_1)
  have "unat c < 2 ^ LENGTH(8)" by (rule unsigned_less)
  then have "take_bit 8 (unat c) = unat c" by (simp add: take_bit_nat_eq_self)
  then have d: "unat (drop_bit 4 c) = unat c div 16" by (simp only: unsigned_drop_bit_eq) (simp add: drop_bit_eq_div)
  have a: "unat (c AND 15) = unat c mod 16" 
    unfolding m take_bit_eq_mask [symmetric] unsigned_take_bit_eq by (simp add: take_bit_eq_mod)
  have "unat c < 2 ^ LENGTH(8)" by (rule unsigned_less)
  then show "unat (drop_bit 4 c) < 16" using d by simp
  show "unat (c AND 15) < 16" using a by simp
  show "int (unat (drop_bit 4 c)) * 16 + int (unat (c AND 15)) = uint c"
    using arg_cong [OF div_mult_mod_eq [of "unat c" 16], of int] unfolding d a uint_nat by (simp only: of_nat_add of_nat_mult of_nat_numeral)
qed

lemma htoi_hexchars: "of_int (php_htoi (hexchars ! unat (drop_bit 4 c)) (hexchars ! unat (c AND 15))) = c" for c :: u8
proof -
  have "php_htoi (hexchars ! unat (drop_bit 4 c)) (hexchars ! unat (c AND 15)) = uint c"
    unfolding php_htoi_def using hexchars_digits [OF nibbles(1), of c] hexchars_digits [OF nibbles(2), of c] nibbles(3) [of c] by metis
  then show ?thesis by simp
qed

lemma decoded_escape:
  "decoded plain (of_char CHR ''%'' # hexchars ! unat (drop_bit 4 c) # hexchars ! unat (c AND 15) # cs) = c # decoded plain cs"
  using hexchars_digits nibbles htoi_hexchars by simp

lemma decoded_plain: "c \<noteq> of_char CHR ''%'' \<Longrightarrow> decoded plain (c # cs) = plain c # decoded plain cs"
  by (cases "(plain, c # cs)" rule: decoded.cases) auto

lemma decoded_url_encode: "decoded plus_space (url_encode_loop s) = s"
proof (induction s)
  case (Cons c s)
  consider "c = of_char CHR '' ''" | "c \<noteq> of_char CHR '' ''" "url_escapes c" | "c \<noteq> of_char CHR '' ''" "\<not> url_escapes c" by blast
  then show ?case
  proof cases
    case 1
    then show ?thesis using Cons.IH by (simp add: decoded_plain)
  next
    case 2
    then show ?thesis using Cons.IH decoded_escape [of plus_space c "url_encode_loop s"] by simp
  next
    case 3
    then have "c \<noteq> of_char CHR ''%''" "c \<noteq> of_char CHR ''+''" by (auto simp: url_escapes_def)
    with 3 show ?thesis using Cons.IH by (simp add: decoded_plain)
  qed
qed simp

lemma decoded_raw_url_encode: "decoded (\<lambda>c. c) (raw_url_encode_loop s) = s"
proof (induction s)
  case (Cons c s)
  show ?case
  proof (cases "raw_url_escapes c")
    case True
    then show ?thesis using Cons.IH decoded_escape [of "\<lambda>c. c" c "raw_url_encode_loop s"] by simp
  next
    case False
    then have "c \<noteq> of_char CHR ''%''" by (auto simp: raw_url_escapes_def)
    with False show ?thesis using Cons.IH by (simp add: decoded_plain)
  qed
qed simp

lemma encode_lengths: "length (url_encode_loop s) \<le> 3 * length s" "length (raw_url_encode_loop s) \<le> 3 * length s"
  by (induction s) auto

lemma decode_functions:
  "\<exists>out. urldecode s = Some out \<and> out = decoded plus_space s \<and> length out \<le> length s"
  "\<exists>out. rawurldecode s = Some out \<and> out = decoded (\<lambda>c. c) s \<and> length out \<le> length s"
proof -
  have fin: "\<exists>out. (case r of (n, m) \<Rightarrow> take n (m[n := 0])) = out \<and> out = decoded f s \<and> length out \<le> length s"
    if "r = (n, m)" "n \<le> length s" "length m = length s + 1" "take n m = decoded f s" for r n m f
    using that by (metis (no_types, lifting) case_prod_conv length_take min.cobounded2 order_trans take_update_cancel order_refl)
  obtain n m where 1: "url_decode_loop (length s) 0 0 (s @ [0]) = Some (n, m)" "n \<le> length s" "length m = length s + 1"
    "take n m = decoded plus_space s"
    using url.loop_decodes [of 0 0 "length s" "s @ [0]"] by auto
  then show "\<exists>out. urldecode s = Some out \<and> out = decoded plus_space s \<and> length out \<le> length s"
    using fin [OF refl 1(2-4)] by (simp add: urldecode_def php_url_decode_def mem_write_def)
  obtain n m where 2: "raw_url_decode_loop (length s) 0 0 (s @ [0]) = Some (n, m)" "n \<le> length s" "length m = length s + 1"
    "take n m = decoded (\<lambda>c. c) s"
    using raw_url.loop_decodes [of 0 0 "length s" "s @ [0]"] by auto
  then show "\<exists>out. rawurldecode s = Some out \<and> out = decoded (\<lambda>c. c) s \<and> length out \<le> length s"
    using fin [OF refl 2(2-4)] by (simp add: rawurldecode_def php_raw_url_decode_def mem_write_def)
qed

lemma urlencode_loop: "3 * length s < 2 ^ 31 \<Longrightarrow> urlencode s = url_encode_loop s \<and> rawurlencode s = raw_url_encode_loop s"
proof -
  assume s: "3 * length s < 2 ^ 31"
  have "sint (of_nat n :: u32) = int n" if "n \<le> 3 * length s" for n
  proof -
    have "n < 2 ^ 31" using that s by linarith
    then show ?thesis by transfer (simp add: signed_take_bit_int_eq_self)
  qed
  then show ?thesis using encode_lengths [of s]
    by (simp add: urlencode_def rawurlencode_def php_url_encode_def php_raw_url_encode_def Let_def)
qed



text \<open>
  C32: The decoders work in place on any string: they read and write inside of the string and its terminator only, and
  what they leave is the string with every complete \<open>%xx\<close> replaced by its byte (and, for \<open>urldecode\<close>, every plus by a
  space), everything else unchanged, and no longer than the string.
\<close>

theorem url_decode_in_place:
  "(\<exists>out. urldecode s = Some out \<and> out = decoded plus_space s \<and> length out \<le> length s) \<and>
   (\<exists>out. rawurldecode s = Some out \<and> out = decoded (\<lambda>c. c) s \<and> length out \<le> length s)"
  using decode_functions by blast

end
