(* ===== verification/Uuencode.thy ===== *)
theory Uuencode imports Prelude begin

text \<open>
  Uuencode of \<open>ext/standard/uuencode.c\<close>: \<open>php_uuencode\<close>, \<open>php_uudecode\<close> and the PHP functions over them. A
  pointer into the source is the memory from there on (the string and its terminator) with the number of
  bytes left to the end of the string; reading behind the memory is \<open>None\<close>, and so is a store behind the end of the
  buffer of the decoder. \<open>char\<close> is signed. The expression \<open>floor(len * 1.33)\<close> is taken exactly:
  below 64 only 0 makes the product an integer, so that rounding cannot change the floor. The size of the
  buffer of the encoder, \<open>ceil(src_len * 1.38) + 46\<close>, is not modelled.
\<close>

unbundle bit_operations_syntax

section \<open>Encoding\<close>

definition PHP_UU_ENC :: "int \<Rightarrow> u8" where
  "PHP_UU_ENC c = of_int (if c \<noteq> 0 then (c AND 63) + of_char CHR '' '' else of_char CHR ''`'')"

definition PHP_UU_ENC_C2 :: "u8 \<Rightarrow> u8 \<Rightarrow> u8" where
  "PHP_UU_ENC_C2 c0 c1 = PHP_UU_ENC ((push_bit 4 (sint c0) AND 48) OR (drop_bit 4 (sint c1) AND 15))"

definition PHP_UU_ENC_C3 :: "u8 \<Rightarrow> u8 \<Rightarrow> u8" where
  "PHP_UU_ENC_C3 c1 c2 = PHP_UU_ENC ((push_bit 2 (sint c1) AND 60) OR (drop_bit 6 (sint c2) AND 3))"

text \<open>\<open>while (s < ee)\<close>, for \<open>k\<close> bytes from \<open>s\<close> to \<open>ee\<close>: the characters stored and the memory from \<open>s\<close> on.\<close>

fun uuencode_groups :: "nat \<Rightarrow> u8 list \<Rightarrow> (u8 list \<times> u8 list) option" where
  "uuencode_groups k s = (if k = 0 then Some ([], s) else
     (case s of
        s0 # s1 # s2 # s' \<Rightarrow> do {
          (p, s'') \<leftarrow> uuencode_groups (k - 3) s';
          Some ([PHP_UU_ENC (drop_bit 2 (sint s0)), PHP_UU_ENC_C2 s0 s1, PHP_UU_ENC_C3 s1 s2, PHP_UU_ENC (sint s2 AND 63)] @ p, s'') }
      | _ \<Rightarrow> None))"

declare uuencode_groups.simps [simp del]

text \<open>\<open>while ((s + 3) < e)\<close>, with \<open>n = e - s\<close>: the characters, and \<open>s\<close>, \<open>e - s\<close> and \<open>len\<close> at the end.\<close>

partial_function (option) uuencode_lines :: "u8 list \<Rightarrow> nat \<Rightarrow> nat \<Rightarrow> (u8 list \<times> u8 list \<times> nat \<times> nat) option" where
  "uuencode_lines s n len =
     (if 3 < n then do {
        let (ee, len) = (if len > n then (if n mod 3 \<noteq> 0 then n div 3 * 3 else n, n) else (len, len));
        (p, s) \<leftarrow> uuencode_groups ee s;
        (q, s, n, len') \<leftarrow> uuencode_lines s (n - ee) len;
        Some ([PHP_UU_ENC (int len)] @ p @ (if len = 45 then [of_char CHR ''\<newline>''] else []) @ q, s, n, len')
      } else Some ([], s, n, len))"

declare uuencode_lines.simps [code]

definition mem_at :: "u8 list \<Rightarrow> nat \<Rightarrow> u8 option" where
  "mem_at s i = (if i < length s then Some (s ! i) else None)"

text \<open>The last one to three bytes.\<close>

definition uuencode_tail :: "u8 list \<Rightarrow> nat \<Rightarrow> u8 list option" where
  "uuencode_tail s n = do {
     s0 \<leftarrow> mem_at s 0;
     s1 \<leftarrow> mem_at s 1;
     c3 \<leftarrow> (if n > 1 then map_option (PHP_UU_ENC_C3 s1) (mem_at s 2) else Some (PHP_UU_ENC 0));
     c4 \<leftarrow> (if n > 2 then map_option (\<lambda>s2. PHP_UU_ENC (sint s2 AND 63)) (mem_at s 2) else Some (PHP_UU_ENC 0));
     Some [PHP_UU_ENC (drop_bit 2 (sint s0)), PHP_UU_ENC_C2 s0 s1, c3, c4] }"

definition php_uuencode :: "u8 list \<Rightarrow> nat \<Rightarrow> u8 list option" where
  "php_uuencode src src_len = do {
     (p, s, n, len) \<leftarrow> uuencode_lines src src_len 45;
     (q, len) \<leftarrow> (if n > 0 then do {
         t \<leftarrow> uuencode_tail s n;
         if len = 45 then Some (PHP_UU_ENC (int n) # t, 0) else Some (t, len)
       } else Some ([], len));
     Some (p @ q @ (if len < 45 then [of_char CHR ''\<newline>''] else []) @ [PHP_UU_ENC 0, of_char CHR ''\<newline>'']) }"

section \<open>Decoding\<close>

definition PHP_UU_DEC :: "u8 \<Rightarrow> int" where
  "PHP_UU_DEC c = (sint c - of_char CHR '' '') AND 63"

definition dest_put :: "nat \<Rightarrow> u8 list \<Rightarrow> u8 list \<Rightarrow> u8 list option" where
  "dest_put sz p bytes = (if length p + length bytes \<le> sz then Some (p @ bytes) else None)"

definition uu_byte1 :: "u8 \<Rightarrow> u8 \<Rightarrow> u8" where
  "uu_byte1 s0 s1 = of_int (push_bit 2 (PHP_UU_DEC s0) OR drop_bit 4 (PHP_UU_DEC s1))"

definition uu_byte2 :: "u8 \<Rightarrow> u8 \<Rightarrow> u8" where
  "uu_byte2 s1 s2 = of_int (push_bit 4 (PHP_UU_DEC s1) OR drop_bit 2 (PHP_UU_DEC s2))"

definition uu_byte3 :: "u8 \<Rightarrow> u8 \<Rightarrow> u8" where
  "uu_byte3 s2 s3 = of_int (push_bit 6 (PHP_UU_DEC s2) OR PHP_UU_DEC s3)"

text \<open>\<open>while (s < ee)\<close>, with \<open>k = ee - s\<close>; \<open>p\<close> is what has been stored.\<close>

fun uudecode_groups :: "nat \<Rightarrow> int \<Rightarrow> u8 list \<Rightarrow> u8 list \<Rightarrow> (u8 list \<times> u8 list) option" where
  "uudecode_groups sz k s p = (if k \<le> 0 then Some (s, p) else
     (case s of
        s0 # s1 # s2 # s3 # s' \<Rightarrow> do {
          p \<leftarrow> dest_put sz p [uu_byte1 s0 s1, uu_byte2 s1 s2, uu_byte3 s2 s3];
          uudecode_groups sz (k - 4) s' p }
      | _ \<Rightarrow> None))"

declare uudecode_groups.simps [simp del]

text \<open>\<open>while (s < e)\<close>, with \<open>n = e - s\<close>: \<open>Inl ()\<close> is the jump to \<open>err\<close>.\<close>

partial_function (option) uudecode_lines ::
  "nat \<Rightarrow> int \<Rightarrow> u8 list \<Rightarrow> int \<Rightarrow> int \<Rightarrow> u8 list \<Rightarrow> (unit + u8 list \<times> int \<times> u8 list) option" where
  "uudecode_lines sz src_len s n total_len p =
     (if n > 0 then do {
        c \<leftarrow> mem_at s 0;
        let len = PHP_UU_DEC c;
        let s = drop 1 s;
        if len \<le> 0 then Some (Inr (s, total_len, p))
        else if len > src_len then Some (Inl ())
        else do {
          let total_len = total_len + len;
          let k = (if len = 45 then 60 else len * 133 div 100);
          if k > n - 1 then Some (Inl ())
          else do {
            (s', p) \<leftarrow> uudecode_groups sz k s p;
            let n = n - 1 - (k + 3) div 4 * 4;
            if len < 45 then Some (Inr (s', total_len, p))
            else uudecode_lines sz src_len (drop 1 s') (n - 1) total_len p
          }
        }
      } else Some (Inr (s, total_len, p)))"

declare uudecode_lines.simps [code]

definition php_uudecode :: "u8 list \<Rightarrow> nat \<Rightarrow> (unit + u8 list) option" where
  "php_uudecode src src_len = do {
     let sz = (3 * src_len + 3) div 4 + 1;
     r \<leftarrow> uudecode_lines sz (int src_len) src (int src_len) 0 [];
     case r of
       Inl u \<Rightarrow> Some (Inl u)
     | Inr (s, total_len, p) \<Rightarrow> do {
         let len = (if total_len > int (length p) then 1 else 0 :: int);
         p \<leftarrow> (if len \<noteq> 0 then do {
             s0 \<leftarrow> mem_at s 0;
             s1 \<leftarrow> mem_at s 1;
             p \<leftarrow> dest_put sz p [uu_byte1 s0 s1];
             if len > 1 then do {
               s2 \<leftarrow> mem_at s 2;
               p \<leftarrow> dest_put sz p [uu_byte2 s1 s2];
               if len > 2 then do { s3 \<leftarrow> mem_at s 3; dest_put sz p [uu_byte3 s2 s3] } else Some p
             } else Some p
           } else Some p);
         if total_len \<le> int (length p) \<and> total_len < int sz then Some (Inr (take (nat total_len) p)) else None
       }
   }"

section \<open>The PHP functions\<close>

text \<open>\<open>Some None\<close> is \<open>FALSE\<close>.\<close>

definition convert_uuencode :: "u8 list \<Rightarrow> u8 list option option" where
  "convert_uuencode src = (if src = [] then Some None else map_option Some (php_uuencode (src @ [0]) (length src)))"

definition convert_uudecode :: "u8 list \<Rightarrow> u8 list option option" where
  "convert_uudecode src = (if src = [] then Some None
     else map_option (\<lambda>r. case r of Inl u \<Rightarrow> None | Inr out \<Rightarrow> Some out) (php_uudecode (src @ [0]) (length src)))"

section \<open>The format\<close>

definition uu_group :: "u8 \<Rightarrow> u8 \<Rightarrow> u8 \<Rightarrow> u8 list" where
  "uu_group a b c = [PHP_UU_ENC (drop_bit 2 (sint a)), PHP_UU_ENC_C2 a b, PHP_UU_ENC_C3 b c, PHP_UU_ENC (sint c AND 63)]"

fun uu_groups :: "u8 list \<Rightarrow> u8 list" where
  "uu_groups (a # b # c # s) = uu_group a b c @ uu_groups s"
| "uu_groups [a, b] = uu_group a b 0"
| "uu_groups [a] = uu_group a 0 0"
| "uu_groups [] = []"

text \<open>A line: its length, its groups, the newline; every line but the last one has 45 bytes.\<close>

definition uu_line :: "u8 list \<Rightarrow> u8 list" where
  "uu_line s = PHP_UU_ENC (int (length s)) # uu_groups s @ [10]"

function uu_text :: "u8 list \<Rightarrow> u8 list" where
  "uu_text s = (if s = [] then [] else uu_line (take 45 s) @ uu_text (drop 45 s))"
  by auto
termination by (relation "measure length") auto

declare uu_text.simps [simp del]

lemma uu_groups_append: "length xs mod 3 = 0 \<Longrightarrow> uu_groups (xs @ ys) = uu_groups xs @ uu_groups ys"
proof (induction xs rule: uu_groups.induct)
  case (1 a b c s)
  then have "length s mod 3 = 0" by (simp add: mod_Suc split: if_splits)
  with 1 show ?case by simp
qed (simp_all)

lemma length_uu_groups: "length (uu_groups s) = (length s + 2) div 3 * 4"
proof (induction s rule: uu_groups.induct)
  case (1 a b c s)
  have "(length (a # b # c # s) + 2) div 3 = Suc ((length s + 2) div 3)" by simp
  with 1 show ?case by (simp add: uu_group_def)
qed (simp_all add: uu_group_def)

lemma encode_groups: "length xs mod 3 = 0 \<Longrightarrow> uuencode_groups (length xs) (xs @ rest) = Some (uu_groups xs, rest)"
proof (induction xs rule: uu_groups.induct)
  case (1 a b c s)
  then have "length s mod 3 = 0" by (simp add: mod_Suc split: if_splits)
  with 1 show ?case by (simp add: uuencode_groups.simps uu_group_def)
qed (simp_all add: uuencode_groups.simps)

lemma encode_tail:
  assumes "xs \<noteq> []" "length xs \<le> 3"
  shows "uuencode_tail (xs @ [0]) (length xs) = Some (uu_groups xs)"
proof -
  have z: "PHP_UU_ENC 0 = PHP_UU_ENC_C3 0 0" by (simp add: PHP_UU_ENC_C3_def)
  from assms consider a where "xs = [a]" | a b where "xs = [a, b]" | a b c where "xs = [a, b, c]"
    by (cases xs rule: uu_groups.cases) auto
  then show ?thesis
    by cases (simp_all add: uuencode_tail_def mem_at_def uu_group_def z)
qed

lemma encode_short:
  assumes "xs \<noteq> []" "length xs < 45"
  shows "\<exists>p s n len q len'. uuencode_lines (xs @ [0]) (length xs) 45 = Some (p, s, n, len) \<and>
    (if n > 0 then do { t \<leftarrow> uuencode_tail s n; if len = 45 then Some (PHP_UU_ENC (int n) # t, 0) else Some (t, len) }
      else Some ([], len)) = Some (q, len') \<and> p @ q @ (if len' < 45 then [10] else []) = uu_line xs"
proof (cases "3 < length xs")
  case False
  then show ?thesis using assms encode_tail [OF assms(1)]
    by (subst uuencode_lines.simps) (simp add: uu_line_def)
next
  case True
  let ?n = "length xs"
  let ?ee = "?n div 3 * 3"
  have stop: "uuencode_lines s n len = Some ([], s, n, len)" if "n \<le> 3" for s n len
    using that by (subst uuencode_lines.simps) simp
  have ee: "(if ?n mod 3 \<noteq> 0 then ?ee else ?n) = ?ee" by auto
  have le: "?ee \<le> ?n" by simp
  have len: "length (take ?ee xs) = ?ee" "length (take ?ee xs) mod 3 = 0" using le by (simp_all add: min_absorb2)
  have split: "xs @ [0] = take ?ee xs @ (drop ?ee xs @ [0])" by simp
  have groups: "uuencode_groups ?ee (xs @ [0]) = Some (uu_groups (take ?ee xs), drop ?ee xs @ [0])"
    using encode_groups [OF len(2), of "drop ?ee xs @ [0]"] unfolding len(1) split [symmetric] .
  have n: "?n - ?ee = ?n mod 3" by (simp add: minus_div_mult_eq_mod)
  have run: "uuencode_lines (xs @ [0]) ?n 45 = Some (PHP_UU_ENC (int ?n) # uu_groups (take ?ee xs), drop ?ee xs @ [0], ?n mod 3, ?n)"
    using True assms(2) by (subst uuencode_lines.simps, unfold ee) (simp add: groups n stop Let_def)
  have "uu_groups xs = uu_groups (take ?ee xs) @ uu_groups (drop ?ee xs)"
    using uu_groups_append [OF len(2), of "drop ?ee xs"] by simp
  moreover have "uuencode_tail (drop ?ee xs @ [0]) (?n mod 3) = Some (uu_groups (drop ?ee xs))" if "?n mod 3 > 0"
    using encode_tail [of "drop ?ee xs"] that n by (simp add: length_drop)
  moreover have "drop ?ee xs = []" if "?n mod 3 = 0" using that n by (simp add: drop_eq_Nil) 
  ultimately show ?thesis using assms(2) unfolding run by (cases "?n mod 3 = 0") (auto simp: uu_line_def)
qed

lemma encode_text:
  "\<exists>p s n len q len'. uuencode_lines (xs @ [0]) (length xs) 45 = Some (p, s, n, len) \<and>
    (if n > 0 then do { t \<leftarrow> uuencode_tail s n; if len = 45 then Some (PHP_UU_ENC (int n) # t, 0) else Some (t, len) }
      else Some ([], len)) = Some (q, len') \<and> p @ q @ (if len' < 45 then [10] else []) = uu_text xs"
proof (induction xs rule: uu_text.induct)
  case (1 xs)
  consider "xs = []" | "xs \<noteq> []" "length xs < 45" | "45 \<le> length xs" by linarith
  then show ?case
  proof cases
    case 1
    then show ?thesis by (subst uuencode_lines.simps) (simp add: uu_text.simps)
  next
    case 2
    moreover have "uu_text [] = []" by (subst uu_text.simps) simp
    ultimately show ?thesis using encode_short [of xs] by (subst uu_text.simps) simp
  next
    case 3
    let ?xs = "drop 45 xs"
    have ne: "xs \<noteq> []" using 3 by auto
    obtain p s n len q len' where ih: "uuencode_lines (?xs @ [0]) (length ?xs) 45 = Some (p, s, n, len)"
      "(if n > 0 then do { t \<leftarrow> uuencode_tail s n; if len = 45 then Some (PHP_UU_ENC (int n) # t, 0) else Some (t, len) }
        else Some ([], len)) = Some (q, len')" "p @ q @ (if len' < 45 then [10] else []) = uu_text ?xs"
      using "1.IH" [OF ne] by blast
    have l45: "length (take 45 xs) = 45" using 3 by simp
    have split: "xs @ [0] = take 45 xs @ (?xs @ [0])" by simp
    have groups: "uuencode_groups 45 (xs @ [0]) = Some (uu_groups (take 45 xs), ?xs @ [0])"
      using encode_groups [of "take 45 xs" "?xs @ [0]"] unfolding l45 split [symmetric] by simp
    have run: "uuencode_lines (xs @ [0]) (length xs) 45 = Some (uu_line (take 45 xs) @ p, s, n, len)"
      using 3 ih(1) by (subst uuencode_lines.simps) (simp add: groups Let_def uu_line_def)
    have "uu_text xs = uu_line (take 45 xs) @ uu_text ?xs" using ne by (subst uu_text.simps) simp
    with run ih(2,3) show ?thesis
      by (intro exI [of _ "uu_line (take 45 xs) @ p"] exI [of _ s] exI [of _ n] exI [of _ len] exI [of _ q] exI [of _ len']) simp
  qed
qed

lemma php_uuencode_text: "php_uuencode (xs @ [0]) (length xs) = Some (uu_text xs @ [PHP_UU_ENC 0, 10])"
proof -
  obtain p s n len q len' where r: "uuencode_lines (xs @ [0]) (length xs) 45 = Some (p, s, n, len)"
      "(if n > 0 then do { t \<leftarrow> uuencode_tail s n; if len = 45 then Some (PHP_UU_ENC (int n) # t, 0) else Some (t, len) }
        else Some ([], len)) = Some (q, len')" "p @ q @ (if len' < 45 then [10] else []) = uu_text xs"
    using encode_text [of xs] by blast
  show ?thesis unfolding php_uuencode_def r(1) Option.bind.bind_lunit prod.case r(2) using r(3) by auto
qed

section \<open>Decoding the format\<close>

lemma dec_enc: "PHP_UU_DEC (PHP_UU_ENC c) = c AND 63"
proof -
  have m: "(63 :: int) = mask 6" by (simp add: mask_eq_exp_minus_1)
  have r: "0 \<le> c AND 63" "c AND 63 < 64" 
    unfolding m take_bit_eq_mask [symmetric] using take_bit_int_less_exp [of 6 c] by simp_all
  have s: "sint (of_int x :: u8) = x" if "0 \<le> x" "x < 128" for x
    using that by transfer (simp add: signed_take_bit_int_eq_self)
  show ?thesis
  proof (cases "c = 0")
    case True
    then show ?thesis using s [of 96] by (simp add: PHP_UU_ENC_def PHP_UU_DEC_def)
  next
    case False
    have "sint (of_int ((c AND 63) + 32) :: u8) = (c AND 63) + 32" by (rule s) (use r in simp_all)
    then have "PHP_UU_DEC (PHP_UU_ENC c) = (c AND 63) AND 63" using False by (simp add: PHP_UU_ENC_def PHP_UU_DEC_def)
    then show ?thesis by (simp add: and.assoc)
  qed
qed

lemma uu_masks: "(63 :: int) = mask 6" "(48 :: int) = push_bit 4 (mask 2)" "(15 :: int) = mask 4" "(60 :: int) = push_bit 2 (mask 4)"
    "(3 :: int) = mask 2"
  by (simp_all add: mask_eq_exp_minus_1 push_bit_eq_mult)

lemma uu_bytes_back:
  "uu_byte1 (PHP_UU_ENC (drop_bit 2 (sint a))) (PHP_UU_ENC_C2 a b) = a"
  "uu_byte2 (PHP_UU_ENC_C2 a b) (PHP_UU_ENC_C3 b c) = b"
  "uu_byte3 (PHP_UU_ENC_C3 b c) (PHP_UU_ENC (sint c AND 63)) = c"
  unfolding uu_byte1_def uu_byte2_def uu_byte3_def PHP_UU_ENC_C2_def PHP_UU_ENC_C3_def dec_enc uu_masks
  by (rule bit_word_eqI; auto simp: bit_simps Suc_Suc_diff)+

definition uu_padded :: "u8 list \<Rightarrow> u8 list" where
  "uu_padded s = s @ replicate ((length s + 2) div 3 * 3 - length s) 0"

lemma uu_padded_group: "uu_padded (a # b # c # s) = [a, b, c] @ uu_padded s"
proof -
  have "(length (a # b # c # s) + 2) div 3 = Suc ((length s + 2) div 3)" by simp
  then show ?thesis by (simp add: uu_padded_def)
qed

lemma length_uu_padded: "length (uu_padded s) = (length s + 2) div 3 * 3"
  unfolding uu_padded_def by simp

lemma decode_group:
  "k > 0 \<Longrightarrow> length p + 3 \<le> sz \<Longrightarrow> uudecode_groups sz k (uu_group a b c @ rest) p = uudecode_groups sz (k - 4) rest (p @ [a, b, c])"
  by (subst uudecode_groups.simps) (simp add: uu_group_def dest_put_def uu_bytes_back)

lemma four_div: "(k + 3) div 4 = int n \<Longrightarrow> (0 < k \<longleftrightarrow> 0 < n) \<and> (k - 4 + 3) div 4 = int n - 1"
  by presburger

lemma decode_groups:
  "(k + 3) div 4 = int ((length xs + 2) div 3) \<Longrightarrow> length p + length (uu_padded xs) \<le> sz \<Longrightarrow>
     uudecode_groups sz k (uu_groups xs @ rest) p = Some (rest, p @ uu_padded xs)"
proof (induction xs arbitrary: k p rule: uu_groups.induct)
  case (1 a b c s)
  have e: "(length (a # b # c # s) + 2) div 3 = Suc ((length s + 2) div 3)" by simp
  have "k > 0" "(k - 4 + 3) div 4 = int ((length s + 2) div 3)" using four_div [OF "1.prems"(1)] unfolding e by simp_all
  then show ?case using "1.IH" [of "k - 4" "p @ [a, b, c]"] "1.prems"(2) by (simp add: decode_group uu_padded_group)
next
  case (2 a b)
  then have k: "(k + 3) div 4 = int 1" by simp
  have "k > 0" "k - 4 \<le> 0" using four_div [OF k] by linarith+
  then show ?case using 2 by (simp add: decode_group uu_padded_def uudecode_groups.simps [of sz "k - 4"])
next
  case (3 a)
  then have k: "(k + 3) div 4 = int 1" by simp
  have "k > 0" "k - 4 \<le> 0" using four_div [OF k] by linarith+
  then show ?case using 3 by (simp add: decode_group uu_padded_def uudecode_groups.simps [of sz "k - 4"] numeral_2_eq_2)
next
  case 4
  then have "k \<le> 0" by simp
  then show ?case by (simp add: uudecode_groups.simps uu_padded_def)
qed

text \<open>The length of a line, from its header, is right.\<close>

lemma line_chars:
  assumes "0 < m" "m \<le> 45"
  shows "((if int m = 45 then 60 else int m * 133 div 100) + 3) div 4 = int ((m + 2) div 3)"
    "(if int m = 45 then 60 else int m * 133 div 100) \<le> int ((m + 2) div 3 * 4)"
proof -
  have "list_all (\<lambda>m. ((if int m = 45 then 60 else int m * 133 div 100) + 3) div 4 = int ((m + 2) div 3) \<and>
      (if int m = 45 then 60 else int m * 133 div 100) \<le> int ((m + 2) div 3 * 4)) (map Suc [0..<45])"
    by code_simp
  moreover have "m \<in> set (map Suc [0..<45])" using assms by (cases m) auto
  ultimately show "((if int m = 45 then 60 else int m * 133 div 100) + 3) div 4 = int ((m + 2) div 3)"
    "(if int m = 45 then 60 else int m * 133 div 100) \<le> int ((m + 2) div 3 * 4)"
    unfolding list_all_iff by blast+
qed

lemma length_uu_line: "length (uu_line s) = (length s + 2) div 3 * 4 + 2"
  by (simp add: uu_line_def length_uu_groups)

lemma decode_line:
  assumes line: "line \<noteq> []" "length line \<le> 45" and L: "int (length line) \<le> L" and n: "int (length (uu_line line)) \<le> n"
    and room: "length p + length (uu_padded line) \<le> sz"
  shows "uudecode_lines sz L (uu_line line @ rest) n tot p =
    (if length line < 45 then Some (Inr (10 # rest, tot + int (length line), p @ uu_padded line))
     else uudecode_lines sz L rest (n - int (length (uu_line line))) (tot + int (length line)) (p @ uu_padded line))"
proof -
  let ?m = "length line" and ?c = "PHP_UU_ENC (int (length line))"
  let ?k = "if int ?m = 45 then 60 else int ?m * 133 div 100"
  have m: "0 < ?m" using line by simp
  have "int ?m AND 63 = int ?m"
  proof -
    have m63: "(63 :: int) = mask 6" by (simp add: mask_eq_exp_minus_1)
    show ?thesis using line(2) unfolding m63 take_bit_eq_mask [symmetric] by (intro take_bit_int_eq_self) simp_all
  qed
  then have dec: "PHP_UU_DEC ?c = int ?m" by (simp add: dec_enc)
  note k = line_chars [OF m line(2)]
  have kn: "\<not> ?k > n - 1" using k(2) n length_uu_line [of line] by simp
  have groups: "uudecode_groups sz ?k (uu_groups line @ 10 # rest) p = Some (10 # rest, p @ uu_padded line)"
    by (rule decode_groups [OF k(1) room])
  have step: "n - 1 - (?k + 3) div 4 * 4 - 1 = n - int (length (uu_line line))"
    unfolding k(1) length_uu_line by simp
  have pos: "n > 0" using n length_uu_line [of line] by simp
  have mem: "mem_at (uu_line line @ rest) 0 = Some ?c" "drop 1 (uu_line line @ rest) = uu_groups line @ 10 # rest"
    by (simp_all add: mem_at_def uu_line_def)
  show ?thesis
    apply (subst uudecode_lines.simps)
    apply (simp only: pos if_True mem Option.bind.bind_lunit Let_def dec kn if_False groups prod.case step)
    using m L by auto
qed

lemma decode_text:
  "4 * length p + 3 * length (uu_text xs) \<le> 4 * sz \<Longrightarrow> (xs \<noteq> [] \<Longrightarrow> int (min 45 (length xs)) \<le> L) \<Longrightarrow>
   \<exists>s q. uudecode_lines sz L (uu_text xs @ [PHP_UU_ENC 0, 10, 0]) (int (length (uu_text xs)) + 2) (int (length p)) p =
     Some (Inr (s, int (length p + length xs), p @ xs @ q))"
proof (induction xs arbitrary: p rule: uu_text.induct)
  case (1 xs)
  show ?case
  proof (cases "xs = []")
    case True
    then have "uu_text xs = []" by (subst uu_text.simps) simp
    then show ?thesis using True by (subst uudecode_lines.simps) (simp add: mem_at_def dec_enc Let_def)
  next
    case ne: False
    let ?l = "take 45 xs" and ?r = "drop 45 xs"
    have tx: "uu_text xs = uu_line ?l @ uu_text ?r" using ne by (subst uu_text.simps) simp
    have g: "length (uu_line ?l) = (length ?l + 2) div 3 * 4 + 2" "length (uu_padded ?l) = (length ?l + 2) div 3 * 3"
      by (simp_all only: length_uu_line length_uu_padded)
    have room: "length p + length (uu_padded ?l) \<le> sz" using "1.prems"(1) g unfolding tx by simp
    have line: "?l \<noteq> []" "length ?l \<le> 45" using ne by simp_all
    have L: "int (length ?l) \<le> L" using "1.prems"(2) [OF ne] by (simp add: min.commute)
    have fit: "int (length (uu_line ?l)) \<le> int (length (uu_text xs)) + 2" unfolding tx by simp
    note step = decode_line [OF line L fit room, of "uu_text ?r @ [PHP_UU_ENC 0, 10, 0]" "int (length p)"]
    show ?thesis
    proof (cases "length xs < 45")
      case True
      then have "?l = xs" "uu_text ?r = []" by (simp_all, subst uu_text.simps, simp)
      with step True show ?thesis unfolding tx by (simp add: uu_padded_def)
    next
      case False
      then have l45: "length ?l = 45" by simp
      then have pad: "uu_padded ?l = ?l" by (simp add: uu_padded_def)
      have "4 * length (p @ ?l) + 3 * length (uu_text ?r) \<le> 4 * sz" using "1.prems"(1) g unfolding tx l45 by (simp add: l45)
      moreover have "int (min 45 (length ?r)) \<le> L" using L l45 by simp
      ultimately obtain s q where ih: "uudecode_lines sz L (uu_text ?r @ [PHP_UU_ENC 0, 10, 0]) (int (length (uu_text ?r)) + 2)
          (int (length (p @ ?l))) (p @ ?l) = Some (Inr (s, int (length (p @ ?l) + length ?r), (p @ ?l) @ ?r @ q))"
        using "1.IH" [OF ne, of "p @ ?l"] by blast
      have "int (length (uu_text xs)) + 2 - int (length (uu_line ?l)) = int (length (uu_text ?r)) + 2" unfolding tx by simp
      moreover have "int (length p) + int (length ?l) = int (length (p @ ?l))" by simp
      moreover have "length (p @ ?l) + length ?r = length p + length xs" using l45 by simp
      moreover have "(p @ ?l) @ ?r @ q = p @ xs @ q" by simp
      ultimately have "uudecode_lines sz L (uu_line ?l @ uu_text ?r @ [PHP_UU_ENC 0, 10, 0]) (int (length (uu_text xs)) + 2) (int (length p)) p =
          Some (Inr (s, int (length p + length xs), p @ xs @ q))"
        using step ih l45 pad by (simp only:) simp
      then show ?thesis unfolding tx by simp
    qed
  qed
qed

lemma length_uu_text: "4 * length xs \<le> 3 * length (uu_text xs)"
proof (induction xs rule: uu_text.induct)
  case (1 xs)
  show ?case
  proof (cases "xs = []")
    case False
    have "4 * length (take 45 xs) \<le> 3 * length (uu_line (take 45 xs))" unfolding length_uu_line by presburger
    moreover have "length xs = length (take 45 xs) + length (drop 45 xs)" by simp
    moreover have "length (uu_text xs) = length (uu_line (take 45 xs)) + length (uu_text (drop 45 xs))"
      using False by (subst uu_text.simps) simp
    ultimately show ?thesis using 1 [OF False] by linarith
  qed simp
qed



text \<open>
  On input that is not an encoding the decoder is not memory safe: the check on the length of a line lets
  through a last group of which only the first character is there, and the group is read up to two bytes
  behind the terminator of the string. Every string of an exclamation mark and one more character does it.
\<close>

theorem uudecode_overreads: "convert_uudecode [of_char CHR ''!'', d] = None"
proof -
  have "uudecode_lines 3 2 [33, d, 0] 2 0 [] = None"
    by (subst uudecode_lines.simps) (simp add: mem_at_def PHP_UU_DEC_def uudecode_groups.simps Let_def)
  moreover have "(3 * length [33 :: u8, d] + 3) div 4 + 1 = 3" "int (length [33 :: u8, d]) = 2" "[33, d] @ [0] = [33, d, 0]" by simp_all
  ultimately have "php_uudecode ([33, d] @ [0]) (length [33 :: u8, d]) = None"
    unfolding php_uudecode_def Let_def by (simp only: Option.bind.simps)
  then show ?thesis by (simp add: convert_uudecode_def)
qed

end
