(* ===== verification/Levenshtein.thy ===== *)
theory Levenshtein imports Prelude begin

text \<open>
  The edit distance of \<open>ext/standard/levenshtein.c\<close>: \<open>reference_levdist\<close>, which computes it row by row in two
  arrays, and the PHP function over it. An \<open>int\<close> is a 32-bit word with signed comparison. The lemmas relate the rows
  to the recursive definition of the distance and that one to the cheapest way to edit one string into the other.
\<close>

section \<open>The computation\<close>

definition LEVENSHTEIN_MAX_LENGTH :: nat where
  "LEVENSHTEIN_MAX_LENGTH = 255"

text \<open>The body of the inner loop: \<open>diag\<close>, \<open>up\<close> and \<open>left\<close> are \<open>p1[i2]\<close>, \<open>p1[i2 + 1]\<close> and \<open>p2[i2]\<close>.\<close>

definition lev_step :: "u32 \<Rightarrow> u32 \<Rightarrow> u32 \<Rightarrow> u8 \<Rightarrow> u8 \<Rightarrow> u32 \<Rightarrow> u32 \<Rightarrow> u32 \<Rightarrow> u32" where
  "lev_step cost_ins cost_rep cost_del a b diag up left = (
     let c0 = diag + (if a = b then 0 else cost_rep);
         c1 = up + cost_del;
         c0 = (if sint c1 < sint c0 then c1 else c0);
         c2 = left + cost_ins;
         c0 = (if sint c2 < sint c0 then c2 else c0)
     in c0)"

text \<open>The inner loop, from an index on: \<open>s2\<close> and \<open>p1\<close> from there, the last value of \<open>p2\<close> so far.\<close>

fun lev_row_loop :: "u32 \<Rightarrow> u32 \<Rightarrow> u32 \<Rightarrow> u8 \<Rightarrow> u8 list \<Rightarrow> u32 list \<Rightarrow> u32 \<Rightarrow> u32 list" where
  "lev_row_loop ins rep del a (b # s2) (diag # up # p1) left =
     (let c0 = lev_step ins rep del a b diag up left in c0 # lev_row_loop ins rep del a s2 (up # p1) c0)"
| "lev_row_loop ins rep del a _ _ left = []"

definition lev_row :: "u32 \<Rightarrow> u32 \<Rightarrow> u32 \<Rightarrow> u8 \<Rightarrow> u8 list \<Rightarrow> u32 list \<Rightarrow> u32 list" where
  "lev_row ins rep del a s2 p1 = (let p20 = p1 ! 0 + del in p20 # lev_row_loop ins rep del a s2 p1 p20)"

text \<open>The outer loop; the arrays are swapped after every row.\<close>

fun lev_rows :: "u32 \<Rightarrow> u32 \<Rightarrow> u32 \<Rightarrow> u8 list \<Rightarrow> u8 list \<Rightarrow> u32 list \<Rightarrow> u32 list" where
  "lev_rows ins rep del [] s2 p1 = p1"
| "lev_rows ins rep del (a # s1) s2 p1 = lev_rows ins rep del s1 s2 (lev_row ins rep del a s2 p1)"

definition reference_levdist :: "u8 list \<Rightarrow> u8 list \<Rightarrow> u32 \<Rightarrow> u32 \<Rightarrow> u32 \<Rightarrow> u32" where
  "reference_levdist s1 s2 cost_ins cost_rep cost_del = (
     let l1 = length s1; l2 = length s2 in
     if l1 = 0 then of_nat l2 * cost_ins
     else if l2 = 0 then of_nat l1 * cost_del
     else if l1 > LEVENSHTEIN_MAX_LENGTH \<or> l2 > LEVENSHTEIN_MAX_LENGTH then -1
     else lev_rows cost_ins cost_rep cost_del s1 s2 (map (\<lambda>i2. of_nat i2 * cost_ins) [0..<l2 + 1]) ! l2)"

text \<open>
  The PHP function by the number of its arguments: the value and whether it warns. The costs are \<open>long\<close> and are
  converted to \<open>int\<close>; \<open>None\<close> is the error for a wrong number of arguments.
\<close>

datatype lev_args = Two_Strings "u8 list" "u8 list" | With_Costs "u8 list" "u8 list" u64 u64 u64 | With_Callback | Other_Count

definition levenshtein :: "lev_args \<Rightarrow> (u32 \<times> bool) option" where
  "levenshtein args = (case args of
       Two_Strings s1 s2 \<Rightarrow> let distance = reference_levdist s1 s2 1 1 1 in Some (distance, sint distance < 0)
     | With_Costs s1 s2 ins rep del \<Rightarrow>
         let distance = reference_levdist s1 s2 (ucast ins) (ucast rep) (ucast del) in Some (distance, sint distance < 0)
     | With_Callback \<Rightarrow> Some (-1, True)
     | Other_Count \<Rightarrow> None)"

section \<open>The rows are a recursive function\<close>

text \<open>The distance of two reversed prefixes, in the arithmetic of the code.\<close>

fun lev_word :: "u32 \<Rightarrow> u32 \<Rightarrow> u32 \<Rightarrow> u8 list \<Rightarrow> u8 list \<Rightarrow> u32" where
  "lev_word ins rep del [] ys = of_nat (length ys) * ins"
| "lev_word ins rep del (x # xs) [] = of_nat (length (x # xs)) * del"
| "lev_word ins rep del (x # xs) (y # ys) = lev_step ins rep del x y (lev_word ins rep del xs ys)
     (lev_word ins rep del xs (y # ys)) (lev_word ins rep del (x # xs) ys)"

lemma lev_word_del: "lev_word ins rep del xs [] = of_nat (length xs) * del"
  by (cases xs) simp_all

fun lev_prefixes :: "u32 \<Rightarrow> u32 \<Rightarrow> u32 \<Rightarrow> u8 list \<Rightarrow> u8 list \<Rightarrow> u8 list \<Rightarrow> u32 list" where
  "lev_prefixes ins rep del xs ys [] = [lev_word ins rep del xs ys]"
| "lev_prefixes ins rep del xs ys (b # s2) = lev_word ins rep del xs ys # lev_prefixes ins rep del xs (b # ys) s2"

lemma length_lev_prefixes [simp]: "length (lev_prefixes ins rep del xs ys s2) = Suc (length s2)"
  by (induction s2 arbitrary: ys) simp_all

lemma nth_lev_prefixes:
  "j \<le> length s2 \<Longrightarrow> lev_prefixes ins rep del xs ys s2 ! j = lev_word ins rep del xs (rev (take j s2) @ ys)"
proof (induction s2 arbitrary: ys j)
  case (Cons b s2)
  then show ?case by (cases j) simp_all
qed simp

lemma lev_prefixes_head: "\<exists>rest. lev_prefixes ins rep del xs ys s2 = lev_word ins rep del xs ys # rest"
  by (cases s2) simp_all

lemma lev_row_loop_prefixes:
  "lev_word ins rep del (a # xs) ys # lev_row_loop ins rep del a s2 (lev_prefixes ins rep del xs ys s2) (lev_word ins rep del (a # xs) ys) =
     lev_prefixes ins rep del (a # xs) ys s2"
proof (induction s2 arbitrary: ys)
  case (Cons b s2)
  obtain rest where "lev_prefixes ins rep del xs (b # ys) s2 = lev_word ins rep del xs (b # ys) # rest"
    using lev_prefixes_head by blast
  then show ?case using Cons.IH [of "b # ys"] by (simp add: Let_def)
qed simp

lemma lev_row_prefixes:
  "lev_row ins rep del a s2 (lev_prefixes ins rep del xs [] s2) = lev_prefixes ins rep del (a # xs) [] s2"
proof -
  have "lev_prefixes ins rep del xs [] s2 ! 0 + del = lev_word ins rep del (a # xs) []"
    by (simp add: nth_lev_prefixes lev_word_del algebra_simps)
  with lev_row_loop_prefixes [of ins rep del a xs "[]" s2] show ?thesis by (simp only: lev_row_def Let_def)
qed

lemma lev_rows_prefixes:
  "lev_rows ins rep del s1 s2 (lev_prefixes ins rep del xs [] s2) = lev_prefixes ins rep del (rev s1 @ xs) [] s2"
  by (induction s1 arbitrary: xs) (simp_all add: lev_row_prefixes)

lemma lev_start: "map (\<lambda>i2. of_nat i2 * ins) [0..<length s2 + 1] = lev_prefixes ins rep del [] [] s2"
proof (rule nth_equalityI)
  fix i assume "i < length (map (\<lambda>i2. of_nat i2 * ins) [0..<length s2 + 1])"
  then have "i < length s2 + 1" "i \<le> length s2" by simp_all
  then show "map (\<lambda>i2. of_nat i2 * ins) [0..<length s2 + 1] ! i = lev_prefixes ins rep del [] [] s2 ! i"
    by (simp add: nth_lev_prefixes del: upt_Suc)
qed simp

lemma reference_levdist_word:
  assumes l: "length s1 \<le> 255" "length s2 \<le> 255"
  shows "reference_levdist s1 s2 ins rep del = lev_word ins rep del (rev s1) (rev s2)"
proof -
  have rows: "lev_rows ins rep del s1 s2 (lev_prefixes ins rep del [] [] s2) ! length s2 = lev_word ins rep del (rev s1) (rev s2)"
    unfolding lev_rows_prefixes by (simp add: nth_lev_prefixes)
  show ?thesis
    unfolding reference_levdist_def Let_def lev_start [of ins s2 rep del]
    using l rows by (simp add: LEVENSHTEIN_MAX_LENGTH_def lev_word_del)
qed

section \<open>The cheapest edit\<close>

text \<open>An edit script: its source, its result and its cost. Replacing a character by itself is free.\<close>

datatype edit = Insert u8 | Delete u8 | Replace u8 u8

fun edit_from :: "edit list \<Rightarrow> u8 list" where
  "edit_from [] = []"
| "edit_from (Insert y # es) = edit_from es"
| "edit_from (Delete x # es) = x # edit_from es"
| "edit_from (Replace x y # es) = x # edit_from es"

fun edit_to :: "edit list \<Rightarrow> u8 list" where
  "edit_to [] = []"
| "edit_to (Insert y # es) = y # edit_to es"
| "edit_to (Delete x # es) = edit_to es"
| "edit_to (Replace x y # es) = y # edit_to es"

fun edit_cost :: "int \<Rightarrow> int \<Rightarrow> int \<Rightarrow> edit list \<Rightarrow> int" where
  "edit_cost ins rep del [] = 0"
| "edit_cost ins rep del (Insert y # es) = ins + edit_cost ins rep del es"
| "edit_cost ins rep del (Delete x # es) = del + edit_cost ins rep del es"
| "edit_cost ins rep del (Replace x y # es) = (if x = y then 0 else rep) + edit_cost ins rep del es"

fun lev :: "int \<Rightarrow> int \<Rightarrow> int \<Rightarrow> u8 list \<Rightarrow> u8 list \<Rightarrow> int" where
  "lev ins rep del [] ys = int (length ys) * ins"
| "lev ins rep del (x # xs) [] = int (length (x # xs)) * del"
| "lev ins rep del (x # xs) (y # ys) = min (min (lev ins rep del xs ys + (if x = y then 0 else rep))
     (lev ins rep del xs (y # ys) + del)) (lev ins rep del (x # xs) ys + ins)"

lemma lev_del: "lev ins rep del xs [] = int (length xs) * del"
  by (cases xs) simp_all

lemma sint_exact:
  fixes a b :: u32
  shows "-2147483648 \<le> sint a + sint b \<Longrightarrow> sint a + sint b < 2147483648 \<Longrightarrow> sint (a + b) = sint a + sint b"
    "-2147483648 \<le> int n * sint b \<Longrightarrow> int n * sint b < 2147483648 \<Longrightarrow> sint (of_nat n * b) = int n * sint b"
proof -
  have r: "signed_take_bit 31 k = k" if "-2147483648 \<le> k" "k < 2147483648" for k :: int
    using that by (simp add: signed_take_bit_int_eq_self)
  show "-2147483648 \<le> sint a + sint b \<Longrightarrow> sint a + sint b < 2147483648 \<Longrightarrow> sint (a + b) = sint a + sint b"
    using r [of "sint a + sint b"] by (simp add: sint_word_ariths)
  have "sint (of_int (int n * sint b) :: u32) = signed_take_bit 31 (int n * sint b)" by transfer simp
  moreover have "(of_int (int n * sint b) :: u32) = of_nat n * b" by simp
  ultimately show "-2147483648 \<le> int n * sint b \<Longrightarrow> int n * sint b < 2147483648 \<Longrightarrow> sint (of_nat n * b) = int n * sint b"
    using r [of "int n * sint b"] by metis
qed

lemma scaled_bound: "\<bar>c\<bar> \<le> 4194304 \<Longrightarrow> \<bar>int n * c\<bar> \<le> int n * 4194304" for c :: int
  by (simp add: abs_mult mult_left_mono)

lemma lev_step_exact:
  assumes "\<bar>sint ins\<bar> \<le> 4194304" "\<bar>sint rep\<bar> \<le> 4194304" "\<bar>sint del\<bar> \<le> 4194304"
    and "\<bar>sint diag\<bar> \<le> 509 * 4194304" "\<bar>sint up\<bar> \<le> 509 * 4194304" "\<bar>sint left\<bar> \<le> 509 * 4194304"
  shows "sint (lev_step ins rep del x y diag up left) =
    min (min (sint diag + (if x = y then 0 else sint rep)) (sint up + sint del)) (sint left + sint ins)"
proof -
  have "sint (diag + rep) = sint diag + sint rep" "sint (up + del) = sint up + sint del" "sint (left + ins) = sint left + sint ins"
    by (rule sint_exact(1); use assms in linarith)+
  then show ?thesis by (auto simp: lev_step_def Let_def)
qed

lemma lev_word_exact:
  assumes "\<bar>sint ins\<bar> \<le> 4194304" "\<bar>sint rep\<bar> \<le> 4194304" "\<bar>sint del\<bar> \<le> 4194304"
  shows "length xs + length ys \<le> 510 \<Longrightarrow> sint (lev_word ins rep del xs ys) = lev (sint ins) (sint rep) (sint del) xs ys \<and>
     \<bar>lev (sint ins) (sint rep) (sint del) xs ys\<bar> \<le> int (length xs + length ys) * 4194304"
  using assms
proof (induction ins rep del xs ys rule: lev_word.induct)
  case (1 ins rep del ys)
  have b: "\<bar>int (length ys) * sint ins\<bar> \<le> int (length ys) * 4194304" by (rule scaled_bound [OF 1(2)])
  moreover have "int (length ys) * 4194304 \<le> 510 * 4194304" using 1(1) by simp
  ultimately have "sint (of_nat (length ys) * ins) = int (length ys) * sint ins" by (intro sint_exact(2)) linarith+
  with b show ?case by simp
next
  case (2 ins rep del x xs)
  let ?n = "length (x # xs)"
  have b: "\<bar>int ?n * sint del\<bar> \<le> int ?n * 4194304" by (rule scaled_bound [OF 2(4)])
  moreover have "int ?n * 4194304 \<le> 510 * 4194304" using 2(1) by simp
  ultimately have "sint (of_nat ?n * del) = int ?n * sint del" by (intro sint_exact(2)) linarith+
  with b show ?case by (simp only: lev_word.simps lev.simps list.size add_0_right)
next
  case (3 ins rep del x xs y ys)
  let ?L = "lev (sint ins) (sint rep) (sint del)"
  have n: "length xs + length ys \<le> 508" using "3.prems"(1) by simp
  have d: "sint (lev_word ins rep del xs ys) = ?L xs ys" "\<bar>?L xs ys\<bar> \<le> int (length xs + length ys) * 4194304"
    and u: "sint (lev_word ins rep del xs (y # ys)) = ?L xs (y # ys)" "\<bar>?L xs (y # ys)\<bar> \<le> int (length xs + length (y # ys)) * 4194304"
    and l: "sint (lev_word ins rep del (x # xs) ys) = ?L (x # xs) ys" "\<bar>?L (x # xs) ys\<bar> \<le> int (length (x # xs) + length ys) * 4194304"
    using 3 by simp_all
  let ?N = "int (length xs + length ys) * 4194304"
  have N: "?N \<le> 508 * 4194304" using n by simp
  have N1: "int (length xs + length (y # ys)) * 4194304 = ?N + 4194304" "int (length (x # xs) + length ys) * 4194304 = ?N + 4194304"
    "int (length (x # xs) + length (y # ys)) * 4194304 = ?N + 8388608" by simp_all
  have bounds: "\<bar>sint (lev_word ins rep del xs ys)\<bar> \<le> 509 * 4194304" "\<bar>sint (lev_word ins rep del xs (y # ys))\<bar> \<le> 509 * 4194304"
      "\<bar>sint (lev_word ins rep del (x # xs) ys)\<bar> \<le> 509 * 4194304"
    using d u l N unfolding d(1) u(1) l(1) N1 by linarith+
  note step = lev_step_exact [OF "3.prems"(2-4) bounds, of x y, unfolded d(1) u(1) l(1)]
  have "\<bar>min (min D U) I\<bar> \<le> K" if "\<bar>D\<bar> \<le> K" "\<bar>U\<bar> \<le> K" "\<bar>I\<bar> \<le> K" for D U I K :: int
    using that by (simp add: min_def)
  moreover have "\<bar>?L xs ys + (if x = y then 0 else sint rep)\<bar> \<le> ?N + 8388608" "\<bar>?L xs (y # ys) + sint del\<bar> \<le> ?N + 8388608"
    "\<bar>?L (x # xs) ys + sint ins\<bar> \<le> ?N + 8388608"
    using d(2) u(2) l(2) "3.prems"(2-4) unfolding N1 by auto
  ultimately show ?case unfolding N1 lev_word.simps lev.simps step by blast
qed

lemma lev_le_cost: "lev ins rep del (edit_from es) (edit_to es) \<le> edit_cost ins rep del es"
proof (induction es rule: edit_from.induct)
  case (2 y es)
  show ?case using 2 by (cases "edit_from es") (auto simp: algebra_simps)
next
  case (3 x es)
  show ?case using 3 by (cases "edit_to es") (auto simp: algebra_simps lev_del)
qed auto

lemma lev_attained: "\<exists>es. edit_from es = xs \<and> edit_to es = ys \<and> edit_cost ins rep del es = lev ins rep del xs ys"
proof (induction xs ys rule: lev.induct [of _ ins rep del])
  case (1 ins rep del ys)
  show ?case
  proof (induction ys)
    case (Cons y ys)
    then obtain es where "edit_from es = []" "edit_to es = ys" "edit_cost ins rep del es = lev ins rep del [] ys" by blast
    then show ?case by (intro exI [of _ "Insert y # es"]) (simp add: algebra_simps)
  qed (auto intro: exI [of _ "[]"])
next
  case (2 ins rep del x xs)
  have "\<exists>es. edit_from es = xs \<and> edit_to es = [] \<and> edit_cost ins rep del es = int (length xs) * del" for xs
  proof (induction xs)
    case (Cons x xs)
    then obtain es where "edit_from es = xs" "edit_to es = []" "edit_cost ins rep del es = int (length xs) * del" by blast
    then show ?case by (intro exI [of _ "Delete x # es"]) (simp add: algebra_simps)
  qed (auto intro: exI [of _ "[]"])
  from this [of "x # xs"] show ?case by simp
next
  case (3 ins rep del x xs y ys)
  obtain d u l where d: "edit_from d = xs" "edit_to d = ys" "edit_cost ins rep del d = lev ins rep del xs ys"
    and u: "edit_from u = xs" "edit_to u = y # ys" "edit_cost ins rep del u = lev ins rep del xs (y # ys)"
    and l: "edit_from l = x # xs" "edit_to l = ys" "edit_cost ins rep del l = lev ins rep del (x # xs) ys"
    using 3 by blast
  let ?m = "lev ins rep del (x # xs) (y # ys)"
  have "?m = edit_cost ins rep del (Replace x y # d) \<or> ?m = edit_cost ins rep del (Delete x # u) \<or>
      ?m = edit_cost ins rep del (Insert y # l)"
    using d u l by (simp add: min_def)
  then show ?case using d u l by (elim disjE) (metis edit_from.simps edit_to.simps)+
qed

text \<open>
  C34: For strings of at most 255 bytes and costs of at most \<open>2 ^ 22\<close>, where nothing overflows, the distance is the cost
  of the cheapest way to edit the first string into the second: some edit script has this cost, and none has less.
\<close>

theorem levenshtein_minimal:
  assumes "length s1 \<le> 255" "length s2 \<le> 255" "\<bar>sint ins\<bar> \<le> 2 ^ 22" "\<bar>sint rep\<bar> \<le> 2 ^ 22" "\<bar>sint del\<bar> \<le> 2 ^ 22"
  shows "(\<exists>es. edit_from es = s1 \<and> edit_to es = s2 \<and>
      edit_cost (sint ins) (sint rep) (sint del) es = sint (reference_levdist s1 s2 ins rep del)) \<and>
    (\<forall>es. edit_from es = s1 \<longrightarrow> edit_to es = s2 \<longrightarrow>
      sint (reference_levdist s1 s2 ins rep del) \<le> edit_cost (sint ins) (sint rep) (sint del) es)"
proof -
  let ?cost = "edit_cost (sint ins) (sint rep) (sint del)"
  have app: "edit_from (es @ fs) = edit_from es @ edit_from fs" "edit_to (es @ fs) = edit_to es @ edit_to fs"
    "?cost (es @ fs) = ?cost es + ?cost fs" for es fs
    by (induction es rule: edit_from.induct) simp_all
  have rev: "edit_from (rev es) = rev (edit_from es)" "edit_to (rev es) = rev (edit_to es)" "?cost (rev es) = ?cost es" for es
    by (induction es rule: edit_from.induct) (simp_all add: app)
  have d: "sint (reference_levdist s1 s2 ins rep del) = lev (sint ins) (sint rep) (sint del) (rev s1) (rev s2)"
    using lev_word_exact [of ins rep del "rev s1" "rev s2"] assms by (simp add: reference_levdist_word)
  obtain es where es: "edit_from es = rev s1" "edit_to es = rev s2" "?cost es = lev (sint ins) (sint rep) (sint del) (rev s1) (rev s2)"
    using lev_attained by blast
  have "edit_from (rev es) = s1 \<and> edit_to (rev es) = s2 \<and> ?cost (rev es) = sint (reference_levdist s1 s2 ins rep del)"
    by (simp add: rev es d)
  moreover have "sint (reference_levdist s1 s2 ins rep del) \<le> ?cost es" if "edit_from es = s1" "edit_to es = s2" for es
    using lev_le_cost [of "sint ins" "sint rep" "sint del" "rev es"] that by (simp add: rev d)
  ultimately show ?thesis by blast
qed

lemma levenshtein_minimal_witness:
  "(\<exists>es. edit_from es = [1, 2, 3] \<and> edit_to es = [1, 3] \<and> edit_cost 1 1 1 es = 1) \<and>
   1 \<le> edit_cost 1 1 1 [Delete 1, Replace 2 1, Replace 3 3]"
proof -
  have dist: "reference_levdist [1, 2, 3] [1, 3] 1 1 1 = 1" by code_simp
  show ?thesis using levenshtein_minimal [of "[1, 2, 3]" "[1, 3]" 1 1 1] unfolding dist by simp
qed

end
