(* ===== verification/SplHeap.thy ===== *)
theory SplHeap imports Prelude "HOL-Library.Multiset" begin

text \<open>
  The binary heap of \<open>ext/spl/spl_heap.c\<close> under the classes \<open>SplHeap\<close> and \<open>SplPriorityQueue\<close>: the array and its
  two sifting loops, the comparison callbacks and the methods over them.

  The array holds \<open>max_size\<close> slots, \<open>None\<close> until they are written; reading such a slot or leaving the array is the
  value \<open>None\<close>. A comparison is a function of two elements and of \<open>EG(exception)\<close>; it gives its \<open>int\<close> and the new
  \<open>EG(exception)\<close>. A comparison written in PHP may do anything but change the heap it is called
  from. The reference counts of the elements are not modelled, but the calls of \<open>ctor\<close> and \<open>dtor\<close> are: they
  are recorded in two logs. \<open>count\<close> and \<open>max_size\<close> stay far below \<open>2 ^ 31\<close>, since every slot takes eight bytes.
\<close>

unbundle bit_operations_syntax

section \<open>State\<close>

definition PTR_HEAP_BLOCK_SIZE :: nat where "PTR_HEAP_BLOCK_SIZE = 64"
definition SPL_HEAP_CORRUPTED :: u32 where "SPL_HEAP_CORRUPTED = 0x00000001"
definition SPL_PQUEUE_EXTR_MASK :: u32 where "SPL_PQUEUE_EXTR_MASK = 0x00000003"
definition SPL_PQUEUE_EXTR_BOTH :: u32 where "SPL_PQUEUE_EXTR_BOTH = 0x00000003"
definition SPL_PQUEUE_EXTR_DATA :: u32 where "SPL_PQUEUE_EXTR_DATA = 0x00000001"
definition SPL_PQUEUE_EXTR_PRIORITY :: u32 where "SPL_PQUEUE_EXTR_PRIORITY = 0x00000002"

type_synonym 'e heap_cmp = "'e \<Rightarrow> 'e \<Rightarrow> bool \<Rightarrow> int \<times> bool"

record 'e spl_ptr_heap =
  elements :: "'e option list"
  heap_cmp :: "'e heap_cmp"
  heap_count :: nat
  max_size :: nat
  heap_flags :: u32
  ctor_log :: "'e list"
  dtor_log :: "'e list"

section \<open>The heap\<close>

definition spl_ptr_heap_init :: "'e heap_cmp \<Rightarrow> 'e spl_ptr_heap" where
  "spl_ptr_heap_init cmp = \<lparr>elements = replicate PTR_HEAP_BLOCK_SIZE None, heap_cmp = cmp, heap_count = 0,
     max_size = PTR_HEAP_BLOCK_SIZE, heap_flags = 0, ctor_log = [], dtor_log = []\<rparr>"

definition slot :: "'e option list \<Rightarrow> nat \<Rightarrow> 'e option" where
  "slot els i = (if i < length els then els ! i else None)"

definition store :: "nat \<Rightarrow> 'e \<Rightarrow> 'e option list \<Rightarrow> 'e option list option" where
  "store i e els = (if i < length els then Some (els[i := Some e]) else None)"

text \<open>Sifting up: the loop ends with \<open>i\<close>, \<open>EG(exception)\<close> and the array.\<close>

fun sift_up :: "'e heap_cmp \<Rightarrow> 'e \<Rightarrow> nat \<Rightarrow> bool \<Rightarrow> 'e option list \<Rightarrow> (nat \<times> bool \<times> 'e option list) option" where
  "sift_up cmp elem i exc els =
     (if i > 0 then
        (case slot els ((i - 1) div 2) of
           None \<Rightarrow> None
         | Some e \<Rightarrow>
             (case cmp e elem exc of (r, exc) \<Rightarrow>
                if r < 0 then
                  (case store i e els of
                     None \<Rightarrow> None
                   | Some els \<Rightarrow> sift_up cmp elem ((i - 1) div 2) exc els)
                else Some (i, exc, els)))
      else Some (i, exc, els))"

declare sift_up.simps [simp del]

definition spl_ptr_heap_insert :: "'e spl_ptr_heap \<Rightarrow> 'e \<Rightarrow> bool \<Rightarrow> (bool \<times> 'e spl_ptr_heap) option" where
  "spl_ptr_heap_insert heap elem exc = do {
     let heap = (if heap_count heap + 1 > max_size heap
       then heap\<lparr>elements := elements heap @ replicate (max_size heap) None, max_size := max_size heap * 2\<rparr> else heap);
     let heap = heap\<lparr>ctor_log := ctor_log heap @ [elem]\<rparr>;
     (i, exc, els) \<leftarrow> sift_up (heap_cmp heap) elem (heap_count heap) exc (elements heap);
     let heap = heap\<lparr>heap_count := heap_count heap + 1\<rparr>;
     let heap = (if exc then heap\<lparr>heap_flags := heap_flags heap OR SPL_HEAP_CORRUPTED\<rparr> else heap);
     els \<leftarrow> store i elem els;
     Some (exc, heap\<lparr>elements := els\<rparr>) }"

text \<open>\<open>NULL\<close> is the inner \<open>None\<close>.\<close>

definition spl_ptr_heap_top :: "'e spl_ptr_heap \<Rightarrow> 'e option option" where
  "spl_ptr_heap_top heap = (if heap_count heap = 0 then Some None else map_option Some (slot (elements heap) 0))"

text \<open>Sifting down. \<open>j\<close> is the greater child of \<open>i\<close>; \<open>n\<close> is the decreased \<open>count\<close>, \<open>limit\<close> was computed before.\<close>

function sift_down :: "'e heap_cmp \<Rightarrow> 'e \<Rightarrow> nat \<Rightarrow> nat \<Rightarrow> nat \<Rightarrow> bool \<Rightarrow> 'e option list \<Rightarrow> (nat \<times> bool \<times> 'e option list) option" where
  "sift_down cmp bottom n limit i exc els =
     (if i < limit then
        let j = i * 2 + 1 in
        (case (if j \<noteq> n then
                 (case slot els (j + 1) of
                    None \<Rightarrow> None
                  | Some b \<Rightarrow>
                      (case slot els j of
                         None \<Rightarrow> None
                       | Some a \<Rightarrow> (case cmp b a exc of (r, exc) \<Rightarrow> Some (if r > 0 then j + 1 else j, exc))))
               else Some (j, exc)) of
           None \<Rightarrow> None
         | Some (j, exc) \<Rightarrow>
             (case slot els j of
                None \<Rightarrow> None
              | Some e \<Rightarrow>
                  (case cmp bottom e exc of (r, exc) \<Rightarrow>
                     if r < 0 then
                       (case store i e els of
                          None \<Rightarrow> None
                        | Some els \<Rightarrow> sift_down cmp bottom n limit j exc els)
                     else Some (i, exc, els))))
      else Some (i, exc, els))"
  by pat_completeness auto
termination by (relation "measure (\<lambda>(cmp, bottom, n, limit, i, exc, els). limit - i)") (auto split: if_splits option.splits prod.splits)

declare sift_down.simps [simp del]

definition spl_ptr_heap_delete_top :: "'e spl_ptr_heap \<Rightarrow> bool \<Rightarrow> ('e option \<times> bool \<times> 'e spl_ptr_heap) option" where
  "spl_ptr_heap_delete_top heap exc =
     (if heap_count heap = 0 then Some (None, exc, heap)
      else do {
        let limit = (heap_count heap - 1) div 2;
        top \<leftarrow> slot (elements heap) 0;
        let heap = heap\<lparr>heap_count := heap_count heap - 1\<rparr>;
        bottom \<leftarrow> slot (elements heap) (heap_count heap);
        (i, exc, els) \<leftarrow> sift_down (heap_cmp heap) bottom (heap_count heap) limit 0 exc (elements heap);
        let heap = (if exc then heap\<lparr>heap_flags := heap_flags heap OR SPL_HEAP_CORRUPTED\<rparr> else heap);
        els \<leftarrow> store i bottom els;
        let heap = heap\<lparr>elements := els, dtor_log := dtor_log heap @ [top]\<rparr>;
        Some (Some top, exc, heap) })"

definition heap_slots :: "'e spl_ptr_heap \<Rightarrow> 'e list option" where
  "heap_slots heap = those (map (slot (elements heap)) [0..<heap_count heap])"

definition spl_ptr_heap_clone :: "'e spl_ptr_heap \<Rightarrow> 'e spl_ptr_heap option" where
  "spl_ptr_heap_clone from = do {
     es \<leftarrow> heap_slots from;
     Some (from\<lparr>elements := take (max_size from) (elements from), ctor_log := ctor_log from @ es\<rparr>) }"

text \<open>The calls of \<open>dtor\<close> when the heap is destroyed.\<close>

definition spl_ptr_heap_destroy :: "'e spl_ptr_heap \<Rightarrow> 'e list option" where
  "spl_ptr_heap_destroy heap = map_option (\<lambda>es. dtor_log heap @ es) (heap_slots heap)"

definition spl_ptr_heap_count :: "'e spl_ptr_heap \<Rightarrow> nat" where
  "spl_ptr_heap_count heap = heap_count heap"

section \<open>Comparisons\<close>

text \<open>
  \<open>compare_function\<close> of the engine is the parameter \<open>cf\<close>; the method \<open>compare\<close> of a derived class is
  \<open>Some f\<close>, where \<open>f\<close> gives \<open>None\<close> when it throws. Their \<open>long\<close> is returned as an \<open>int\<close>.
\<close>

definition int_of_long :: "u64 \<Rightarrow> int" where
  "int_of_long l = sint (ucast l :: u32)"

definition spl_ptr_heap_zval_max_cmp :: "('z \<Rightarrow> 'z \<Rightarrow> u64) \<Rightarrow> ('z \<Rightarrow> 'z \<Rightarrow> u64 option) option \<Rightarrow> 'z heap_cmp" where
  "spl_ptr_heap_zval_max_cmp cf fptr_cmp a b exc =
     (if exc then (0, exc)
      else case fptr_cmp of
        Some f \<Rightarrow> (case f a b of None \<Rightarrow> (0, True) | Some lval \<Rightarrow> (int_of_long lval, exc))
      | None \<Rightarrow> (int_of_long (cf a b), exc))"

definition spl_ptr_heap_zval_min_cmp :: "('z \<Rightarrow> 'z \<Rightarrow> u64) \<Rightarrow> ('z \<Rightarrow> 'z \<Rightarrow> u64 option) option \<Rightarrow> 'z heap_cmp" where
  "spl_ptr_heap_zval_min_cmp cf fptr_cmp a b exc =
     (if exc then (0, exc)
      else case fptr_cmp of
        Some f \<Rightarrow> (case f a b of None \<Rightarrow> (0, True) | Some lval \<Rightarrow> (int_of_long lval, exc))
      | None \<Rightarrow> (int_of_long (cf b a), exc))"

text \<open>The nodes of a priority queue are the arrays \<open>insert\<close> makes, with both keys.\<close>

record ('d, 'p) pqueue_node =
  node_data :: 'd
  node_priority :: 'p

datatype ('d, 'p) extracted = Ex_Both "('d, 'p) pqueue_node" | Ex_Data 'd | Ex_Priority 'p

definition spl_pqueue_extract_helper :: "('d, 'p) pqueue_node \<Rightarrow> u32 \<Rightarrow> ('d, 'p) extracted option" where
  "spl_pqueue_extract_helper value flags =
     (if flags AND SPL_PQUEUE_EXTR_BOTH = SPL_PQUEUE_EXTR_BOTH then Some (Ex_Both value)
      else if flags AND SPL_PQUEUE_EXTR_BOTH > 0 then
        if flags AND SPL_PQUEUE_EXTR_DATA = SPL_PQUEUE_EXTR_DATA then Some (Ex_Data (node_data value))
        else Some (Ex_Priority (node_priority value))
      else None)"

definition spl_ptr_pqueue_zval_cmp ::
  "('p \<Rightarrow> 'p \<Rightarrow> u64) \<Rightarrow> ('p \<Rightarrow> 'p \<Rightarrow> u64 option) option \<Rightarrow> ('d, 'p) pqueue_node heap_cmp" where
  "spl_ptr_pqueue_zval_cmp cf fptr_cmp a b exc =
     (case (spl_pqueue_extract_helper a SPL_PQUEUE_EXTR_PRIORITY, spl_pqueue_extract_helper b SPL_PQUEUE_EXTR_PRIORITY) of
        (Some (Ex_Priority pa), Some (Ex_Priority pb)) \<Rightarrow> spl_ptr_heap_zval_max_cmp cf fptr_cmp pa pb exc
      | _ \<Rightarrow> (0, exc))"

section \<open>Methods\<close>

datatype heap_error =
    Heap_Is_Corrupted    \<comment> \<open>\<open>RuntimeException\<close>: heap is corrupted, heap properties are no longer ensured\<close>
  | Extract_From_Empty   \<comment> \<open>\<open>RuntimeException\<close>: can't extract from an empty heap\<close>
  | Peek_At_Empty        \<comment> \<open>\<open>RuntimeException\<close>: can't peek at an empty heap\<close>
  | Bad_Node             \<comment> \<open>\<open>E_RECOVERABLE_ERROR\<close>: unable to extract from the node\<close>

definition is_corrupted :: "'e spl_ptr_heap \<Rightarrow> bool" where
  "is_corrupted heap \<longleftrightarrow> heap_flags heap AND SPL_HEAP_CORRUPTED \<noteq> 0"

definition SplHeap_count :: "'e spl_ptr_heap \<Rightarrow> nat" where
  "SplHeap_count heap = spl_ptr_heap_count heap"

definition SplHeap_isEmpty :: "'e spl_ptr_heap \<Rightarrow> bool" where
  "SplHeap_isEmpty heap \<longleftrightarrow> spl_ptr_heap_count heap = 0"

text \<open>The result, \<open>EG(exception)\<close> and the heap.\<close>

definition SplHeap_insert :: "'e spl_ptr_heap \<Rightarrow> 'e \<Rightarrow> bool \<Rightarrow> ((heap_error + bool) \<times> bool \<times> 'e spl_ptr_heap) option" where
  "SplHeap_insert heap value exc =
     (if is_corrupted heap then Some (Inl Heap_Is_Corrupted, True, heap)
      else do { (exc, heap) \<leftarrow> spl_ptr_heap_insert heap value exc; Some (Inr True, exc, heap) })"

definition SplHeap_extract :: "'e spl_ptr_heap \<Rightarrow> bool \<Rightarrow> ((heap_error + 'e) \<times> bool \<times> 'e spl_ptr_heap) option" where
  "SplHeap_extract heap exc =
     (if is_corrupted heap then Some (Inl Heap_Is_Corrupted, True, heap)
      else do {
        (value, exc, heap) \<leftarrow> spl_ptr_heap_delete_top heap exc;
        (case value of
           None \<Rightarrow> Some (Inl Extract_From_Empty, True, heap)
         | Some value \<Rightarrow> Some (Inr value, exc, heap)) })"

definition SplHeap_top :: "'e spl_ptr_heap \<Rightarrow> bool \<Rightarrow> ((heap_error + 'e) \<times> bool) option" where
  "SplHeap_top heap exc =
     (if is_corrupted heap then Some (Inl Heap_Is_Corrupted, True)
      else do {
        value \<leftarrow> spl_ptr_heap_top heap;
        (case value of None \<Rightarrow> Some (Inl Peek_At_Empty, True) | Some value \<Rightarrow> Some (Inr value, exc)) })"

definition SplPriorityQueue_insert :: "('d, 'p) pqueue_node spl_ptr_heap \<Rightarrow> 'd \<Rightarrow> 'p \<Rightarrow> bool \<Rightarrow>
    ((heap_error + bool) \<times> bool \<times> ('d, 'p) pqueue_node spl_ptr_heap) option" where
  "SplPriorityQueue_insert heap data priority exc =
     (if is_corrupted heap then Some (Inl Heap_Is_Corrupted, True, heap)
      else do {
        (exc, heap) \<leftarrow> spl_ptr_heap_insert heap \<lparr>node_data = data, node_priority = priority\<rparr> exc;
        Some (Inr True, exc, heap) })"

definition SplPriorityQueue_extract :: "('d, 'p) pqueue_node spl_ptr_heap \<Rightarrow> u32 \<Rightarrow> bool \<Rightarrow>
    ((heap_error + ('d, 'p) extracted) \<times> bool \<times> ('d, 'p) pqueue_node spl_ptr_heap) option" where
  "SplPriorityQueue_extract heap flags exc =
     (if is_corrupted heap then Some (Inl Heap_Is_Corrupted, True, heap)
      else do {
        (value, exc, heap) \<leftarrow> spl_ptr_heap_delete_top heap exc;
        (case value of
           None \<Rightarrow> Some (Inl Extract_From_Empty, True, heap)
         | Some value \<Rightarrow>
             (case spl_pqueue_extract_helper value flags of
                None \<Rightarrow> Some (Inl Bad_Node, exc, heap)
              | Some value_out \<Rightarrow> Some (Inr value_out, exc, heap))) })"

definition SplPriorityQueue_top :: "('d, 'p) pqueue_node spl_ptr_heap \<Rightarrow> u32 \<Rightarrow> bool \<Rightarrow> ((heap_error + ('d, 'p) extracted) \<times> bool) option" where
  "SplPriorityQueue_top heap flags exc =
     (if is_corrupted heap then Some (Inl Heap_Is_Corrupted, True)
      else do {
        value \<leftarrow> spl_ptr_heap_top heap;
        (case value of
           None \<Rightarrow> Some (Inl Peek_At_Empty, True)
         | Some value \<Rightarrow>
             (case spl_pqueue_extract_helper value flags of
                None \<Rightarrow> Some (Inl Bad_Node, exc)
              | Some value_out \<Rightarrow> Some (Inr value_out, exc))) })"

text \<open>The new flags of the object; they are what the method returns.\<close>

definition SplPriorityQueue_setExtractFlags :: "u64 \<Rightarrow> u32" where
  "SplPriorityQueue_setExtractFlags value = ucast value AND SPL_PQUEUE_EXTR_MASK"

definition SplHeap_recoverFromCorruption :: "'e spl_ptr_heap \<Rightarrow> 'e spl_ptr_heap" where
  "SplHeap_recoverFromCorruption heap = heap\<lparr>heap_flags := heap_flags heap AND NOT SPL_HEAP_CORRUPTED\<rparr>"

definition SplPriorityQueue_compare :: "('z \<Rightarrow> 'z \<Rightarrow> u64) \<Rightarrow> 'z \<Rightarrow> 'z \<Rightarrow> bool \<Rightarrow> int" where
  "SplPriorityQueue_compare cf a b exc = fst (spl_ptr_heap_zval_max_cmp cf None a b exc)"

definition SplMinHeap_compare :: "('z \<Rightarrow> 'z \<Rightarrow> u64) \<Rightarrow> 'z \<Rightarrow> 'z \<Rightarrow> bool \<Rightarrow> int" where
  "SplMinHeap_compare cf a b exc = fst (spl_ptr_heap_zval_min_cmp cf None a b exc)"

definition SplMaxHeap_compare :: "('z \<Rightarrow> 'z \<Rightarrow> u64) \<Rightarrow> 'z \<Rightarrow> 'z \<Rightarrow> bool \<Rightarrow> int" where
  "SplMaxHeap_compare cf a b exc = fst (spl_ptr_heap_zval_max_cmp cf None a b exc)"

definition SplHeap_key :: "'e spl_ptr_heap \<Rightarrow> int" where
  "SplHeap_key heap = int (heap_count heap) - 1"

text \<open>\<open>next\<close> does not look at the flags, other than the iterator.\<close>

definition SplHeap_next :: "'e spl_ptr_heap \<Rightarrow> bool \<Rightarrow> (bool \<times> 'e spl_ptr_heap) option" where
  "SplHeap_next heap exc = do { (elem, exc, heap) \<leftarrow> spl_ptr_heap_delete_top heap exc; Some (exc, heap) }"

definition SplHeap_valid :: "'e spl_ptr_heap \<Rightarrow> bool" where
  "SplHeap_valid heap \<longleftrightarrow> heap_count heap \<noteq> 0"

definition SplHeap_current :: "'e spl_ptr_heap \<Rightarrow> 'e option option" where
  "SplHeap_current heap = (if heap_count heap = 0 then Some None else map_option Some (slot (elements heap) 0))"

definition spl_heap_it_valid :: "'e spl_ptr_heap \<Rightarrow> zend_result" where
  "spl_heap_it_valid heap = (if heap_count heap \<noteq> 0 then SUCCESS else FAILURE)"

definition spl_heap_it_get_current_data :: "'e spl_ptr_heap \<Rightarrow> bool \<Rightarrow> ((heap_error + 'e option) \<times> bool) option" where
  "spl_heap_it_get_current_data heap exc =
     (if is_corrupted heap then Some (Inl Heap_Is_Corrupted, True)
      else if heap_count heap = 0 then Some (Inr None, exc)
      else map_option (\<lambda>e. (Inr (Some e), exc)) (slot (elements heap) 0))"

text \<open>The iterator of a priority queue; the object's \<open>flags\<close> say what it shows.\<close>

definition spl_pqueue_it_get_current_data :: "('d, 'p) pqueue_node spl_ptr_heap \<Rightarrow> u32 \<Rightarrow> bool \<Rightarrow>
    ((heap_error + ('d, 'p) extracted option) \<times> bool) option" where
  "spl_pqueue_it_get_current_data heap flags exc =
     (if is_corrupted heap then Some (Inl Heap_Is_Corrupted, True)
      else if heap_count heap = 0 then Some (Inr None, exc)
      else do {
        element \<leftarrow> slot (elements heap) 0;
        (case spl_pqueue_extract_helper element flags of
           None \<Rightarrow> Some (Inl Bad_Node, exc)
         | Some data \<Rightarrow> Some (Inr (Some data), exc)) })"

definition SplPriorityQueue_current :: "('d, 'p) pqueue_node spl_ptr_heap \<Rightarrow> u32 \<Rightarrow> (heap_error + ('d, 'p) extracted option) option" where
  "SplPriorityQueue_current heap flags =
     (if heap_count heap = 0 then Some (Inr None)
      else do {
        element \<leftarrow> slot (elements heap) 0;
        (case spl_pqueue_extract_helper element flags of
           None \<Rightarrow> Some (Inl Bad_Node)
         | Some data \<Rightarrow> Some (Inr (Some data))) })"

definition spl_heap_it_get_current_key :: "'e spl_ptr_heap \<Rightarrow> nat" where
  "spl_heap_it_get_current_key heap = heap_count heap"

definition spl_heap_it_move_forward :: "'e spl_ptr_heap \<Rightarrow> bool \<Rightarrow> ((heap_error + unit) \<times> bool \<times> 'e spl_ptr_heap) option" where
  "spl_heap_it_move_forward heap exc =
     (if is_corrupted heap then Some (Inl Heap_Is_Corrupted, True, heap)
      else do { (elem, exc, heap) \<leftarrow> spl_ptr_heap_delete_top heap exc; Some (Inr (), exc, heap) })"

section \<open>Heap order\<close>

text \<open>
  What the heap needs of its comparison: without an exception pending it throws none, its sign is a strict weak
  order \<open>lt\<close>, and it is antisymmetric in its arguments.
\<close>

locale heap_order =
  fixes cmp :: "'e heap_cmp" and lt :: "'e \<Rightarrow> 'e \<Rightarrow> bool"
  assumes no_exception: "snd (cmp a b False) = False"
    and negative: "fst (cmp a b False) < 0 \<longleftrightarrow> lt a b"
    and positive: "fst (cmp a b False) > 0 \<longleftrightarrow> lt b a"
    and asym: "lt a b \<Longrightarrow> \<not> lt b a"
    and neg_trans: "\<not> lt a b \<Longrightarrow> \<not> lt b c \<Longrightarrow> \<not> lt a c"

definition parent :: "nat \<Rightarrow> nat" where
  "parent k = (k - 1) div 2"

lemma parent_less [simp]: "0 < k \<Longrightarrow> parent k < k"
  by (cases k) (simp_all add: parent_def le_imp_less_Suc)

lemma parent_eq: "0 < k \<Longrightarrow> parent k = i \<longleftrightarrow> k = i * 2 + 1 \<or> k = i * 2 + 2"
proof (cases k)
  case (Suc m)
  have "m div 2 = i \<longleftrightarrow> m = i * 2 \<or> m = i * 2 + 1" by auto
  with Suc show ?thesis by (simp add: parent_def)
qed simp

definition heap_ordered :: "('e \<Rightarrow> 'e \<Rightarrow> bool) \<Rightarrow> 'e list \<Rightarrow> bool" where
  "heap_ordered lt xs \<longleftrightarrow> (\<forall>k<length xs. 0 < k \<longrightarrow> \<not> lt (xs ! parent k) (xs ! k))"

text \<open>Ordered but for the element at \<open>i\<close>, which may be greater than its parent (or less than its children).\<close>

definition ordered_but :: "('e \<Rightarrow> 'e \<Rightarrow> bool) \<Rightarrow> (nat \<Rightarrow> bool) \<Rightarrow> nat \<Rightarrow> 'e list \<Rightarrow> bool" where
  "ordered_but lt P i xs \<longleftrightarrow> (\<forall>k<length xs. 0 < k \<longrightarrow> P k \<longrightarrow> \<not> lt (xs ! parent k) (xs ! k)) \<and>
     (\<forall>k<length xs. 0 < k \<longrightarrow> parent k = i \<longrightarrow> 0 < i \<longrightarrow> \<not> lt (xs ! parent i) (xs ! k))"

text \<open>The array with a hole at \<open>i\<close> holds \<open>ys\<close>, but for the slot \<open>i\<close>.\<close>

definition hole_at :: "nat \<Rightarrow> 'e option list \<Rightarrow> 'e list \<Rightarrow> bool" where
  "hole_at i els ys \<longleftrightarrow> length ys \<le> length els \<and> (\<forall>j<length ys. j \<noteq> i \<longrightarrow> els ! j = Some (ys ! j))"

lemma hole_move: "hole_at i els ys \<Longrightarrow> i < length ys \<Longrightarrow> j < length ys \<Longrightarrow> i \<noteq> j \<Longrightarrow>
   hole_at j (els[i := Some (ys ! j)]) (ys[i := ys ! j, j := ys ! i])"
  by (auto simp: hole_at_def nth_list_update)

lemma swap_mset: "i < length ys \<Longrightarrow> j < length ys \<Longrightarrow> mset (ys[i := ys ! j, j := ys ! i]) = mset ys"
  by (rule mset_swap)

text \<open>What an invariant of the loops has to satisfy; the slots \<open>ys\<close> hold the element at the hole.\<close>

lemma sift_up_rule:
  assumes step: "\<And>i ys exc r exc'. Inv i ys exc \<Longrightarrow> 0 < i \<Longrightarrow> i < length ys \<Longrightarrow> cmp (ys ! parent i) (ys ! i) exc = (r, exc') \<Longrightarrow>
      if r < 0 then Inv (parent i) (ys[i := ys ! parent i, parent i := ys ! i]) exc' else Fin ys exc'"
    and final: "\<And>ys exc. Inv 0 ys exc \<Longrightarrow> Fin ys exc"
  shows "hole_at i els ys \<Longrightarrow> i < length ys \<Longrightarrow> Inv i ys exc \<Longrightarrow>
    \<exists>i' exc' els' ys'. sift_up cmp (ys ! i) i exc els = Some (i', exc', els') \<and> length els' = length els \<and>
      length ys' = length ys \<and> mset ys' = mset ys \<and> i' < length ys \<and> ys' ! i' = ys ! i \<and> hole_at i' els' ys' \<and> Fin ys' exc'"
proof (induction i arbitrary: els ys exc rule: less_induct)
  case (less i)
  show ?case
  proof (cases "i = 0")
    case True
    with less.prems final show ?thesis by (subst sift_up.simps) auto
  next
    case False
    let ?p = "parent i"
    obtain r exc1 where c: "cmp (ys ! ?p) (ys ! i) exc = (r, exc1)" by (cases "cmp (ys ! ?p) (ys ! i) exc") blast
    have p: "?p < i" "?p < length ys" using False less.prems(2) by (simp, metis less_trans parent_less bot_nat_0.not_eq_extremum)
    have len: "length ys \<le> length els" and e: "slot els ((i - 1) div 2) = Some (ys ! ?p)"
      using less.prems(1) p by (auto simp: hole_at_def slot_def parent_def)
    note st = step [OF less.prems(3) _ less.prems(2) c]
    show ?thesis
    proof (cases "r < 0")
      case False2: False
      then show ?thesis using False c e less.prems st by (subst sift_up.simps) auto
    next
      case True
      let ?els = "els[i := Some (ys ! ?p)]" and ?ys = "ys[i := ys ! ?p, ?p := ys ! i]"
      have "hole_at ?p ?els ?ys" by (rule hole_move [OF less.prems(1,2) p(2)]) (use p in simp)
      moreover have "?p < length ?ys" "?ys ! ?p = ys ! i" "Inv ?p ?ys exc1" using p st True False by simp_all
      ultimately obtain i' exc' els' ys' where ih: "sift_up cmp (ys ! i) ?p exc1 ?els = Some (i', exc', els')"
        "length els' = length els" "length ys' = length ys" "mset ys' = mset ?ys" "i' < length ys" "ys' ! i' = ys ! i"
        "hole_at i' els' ys'" "Fin ys' exc'"
        using less.IH [OF p(1), of ?els ?ys exc1] by auto
      have "sift_up cmp (ys ! i) i exc els = Some (i', exc', els')"
        using False True c e len less.prems(2) ih(1) by (subst sift_up.simps) (simp add: store_def parent_def)
      then show ?thesis using ih swap_mset [OF less.prems(2) p(2)] by auto
    qed
  qed
qed

lemma sift_down_rule:
  fixes bottom :: 'e
  defines "child ys j \<equiv> if j = length ys then bottom else ys ! j"
  assumes step: "\<And>i ys exc r1 exc1 r2 exc2 j. Inv i ys exc \<Longrightarrow> i < length ys div 2 \<Longrightarrow>
      cmp (child ys (i * 2 + 2)) (ys ! (i * 2 + 1)) exc = (r1, exc1) \<Longrightarrow> j = (if r1 > 0 then i * 2 + 2 else i * 2 + 1) \<Longrightarrow>
      cmp bottom (child ys j) exc1 = (r2, exc2) \<Longrightarrow>
      if r2 < 0 \<and> j \<noteq> length ys then Inv j (ys[i := ys ! j, j := ys ! i]) exc2 else Fin ys exc2"
    and final: "\<And>i ys exc. Inv i ys exc \<Longrightarrow> \<not> i < length ys div 2 \<Longrightarrow> Fin ys exc"
  shows "hole_at i els ys \<Longrightarrow> length ys < length els \<Longrightarrow> els ! length ys = Some bottom \<Longrightarrow> i < length ys \<Longrightarrow> ys ! i = bottom \<Longrightarrow>
    Inv i ys exc \<Longrightarrow>
    \<exists>i' exc' els' ys'. sift_down cmp bottom (length ys) (length ys div 2) i exc els = Some (i', exc', els') \<and>
      length els' = length els \<and> length ys' = length ys \<and> mset ys' = mset ys \<and> i' < length els \<and>
      (\<forall>j<length ys. els'[i' := Some bottom] ! j = Some (ys' ! j)) \<and> Fin ys' exc'"
proof (induction "length ys - i" arbitrary: i els ys exc rule: less_induct)
  case less
  have stop: "\<forall>j<length ys. els[i := Some bottom] ! j = Some (ys ! j)"
    using less.prems(1,2,4,5) by (auto simp: hole_at_def nth_list_update)
  show ?case
  proof (cases "i < length ys div 2")
    case False
    with less.prems final stop show ?thesis by (subst sift_down.simps) auto
  next
    case True
    let ?j = "i * 2 + 1"
    have j: "?j < length ys" "i * 2 + 2 \<le> length ys" using True by simp_all
    have slots: "slot els k = Some (child ys k)" if "k \<le> length ys" "k \<noteq> i" for k
      using that less.prems(1-3) by (auto simp: slot_def child_def hole_at_def)
    obtain r1 exc1 where c1: "cmp (child ys (i * 2 + 2)) (ys ! ?j) exc = (r1, exc1)" by fastforce
    define k where "k = (if r1 > 0 then i * 2 + 2 else i * 2 + 1)"
    obtain r2 exc2 where c2: "cmp bottom (child ys k) exc1 = (r2, exc2)" by fastforce
    note st = step [OF less.prems(6) True c1 k_def c2]
    have k: "k \<le> length ys" "i < k" using j by (auto simp: k_def)
    have unfold: "sift_down cmp bottom (length ys) (length ys div 2) i exc els = (if r2 < 0 then
        sift_down cmp bottom (length ys) (length ys div 2) k exc2 (els[i := Some (child ys k)]) else Some (i, exc2, els))"
    proof -
      obtain B C where B: "child ys (i * 2 + 2) = B" and C: "child ys k = C" by blast
      have sB: "slot els (?j + 1) = Some B" and sA: "slot els ?j = Some (ys ! ?j)" and sC: "slot els k = Some C"
        using slots [of "i * 2 + 2"] slots [of ?j] slots [of k] j k unfolding B C by (simp_all add: child_def)
      have kk: "(if r1 > 0 then ?j + 1 else ?j) = k" by (simp add: k_def)
      have st: "store i C els = Some (els[i := Some C])" using less.prems(2,4) by (simp add: store_def)
      have jn: "(?j \<noteq> length ys) = True" using j by simp
      show ?thesis
        unfolding sift_down.simps [of cmp bottom "length ys" "length ys div 2" i exc els] Let_def jn sB sA option.case if_True
          c1 [unfolded B] prod.case kk sC c2 [unfolded C] st C using True by simp
    qed
    show ?thesis
    proof (cases "r2 < 0")
      case False2: False
      with st unfold stop less.prems show ?thesis by auto
    next
      case r2: True
      show ?thesis
      proof (cases "k = length ys")
        case True2: True
        have "sift_down cmp bottom (length ys) (length ys div 2) k exc2 (els[i := Some (child ys k)]) =
            Some (k, exc2, els[i := Some (child ys k)])"
          using True2 by (subst sift_down.simps) auto
        then show ?thesis using unfold r2 True2 st stop less.prems(2) by (auto simp: child_def)
      next
        case False
        let ?els = "els[i := Some (ys ! k)]" and ?ys = "ys[i := ys ! k, k := ys ! i]"
        have kl: "k < length ys" using False k by simp
        have "hole_at k ?els ?ys" by (rule hole_move [OF less.prems(1,4) kl]) (use k in simp)
        moreover have "?els ! length ?ys = Some bottom" using less.prems(3,4) by simp
        moreover have "?ys ! k = bottom" "Inv k ?ys exc2" using kl less.prems(5) st r2 False by simp_all
        moreover have "length ?ys - k < length ys - i" using k kl by simp
        ultimately obtain i' exc' els' ys' where ih: "sift_down cmp bottom (length ys) (length ys div 2) k exc2 ?els = Some (i', exc', els')"
          "length els' = length els" "length ys' = length ys" "mset ys' = mset ?ys" "i' < length els"
          "\<forall>j<length ys. els'[i' := Some bottom] ! j = Some (ys' ! j)" "Fin ys' exc'"
          using less.hyps [of ?ys k ?els exc2] less.prems(2) kl by auto
        then show ?thesis using unfold r2 swap_mset [OF less.prems(4) kl] False by (auto simp: child_def)
      qed
    qed
  qed
qed

section \<open>The loops restore the order\<close>

context heap_order
begin

lemma irrefl: "\<not> lt a a"
  using asym by blast

lemma up_final: "ordered_but lt (\<lambda>k. k \<noteq> i) i ys \<Longrightarrow> (0 < i \<Longrightarrow> \<not> lt (ys ! parent i) (ys ! i)) \<Longrightarrow> heap_ordered lt ys"
  unfolding ordered_but_def heap_ordered_def by (metis (no_types, lifting))

lemma up_step:
  assumes o: "ordered_but lt (\<lambda>k. k \<noteq> i) i ys" and i: "0 < i" "i < length ys" and l: "lt (ys ! parent i) (ys ! i)"
  shows "ordered_but lt (\<lambda>k. k \<noteq> parent i) (parent i) (ys[i := ys ! parent i, parent i := ys ! i])"
proof -
  let ?p = "parent i" and ?ys = "ys[i := ys ! parent i, parent i := ys ! i]"
  have p: "?p < i" "?p < length ys" using i by (simp_all add: less_trans [OF parent_less])
  have o1: "\<not> lt (ys ! parent k) (ys ! k)" if "k < length ys" "0 < k" "k \<noteq> i" for k using o that by (simp add: ordered_but_def)
  have o2: "\<not> lt (ys ! ?p) (ys ! k)" if "k < length ys" "0 < k" "parent k = i" for k using o that i by (simp add: ordered_but_def)
  have at: "?ys ! k = (if k = ?p then ys ! i else if k = i then ys ! ?p else ys ! k)" if "k < length ys" for k
    using that p by (simp add: nth_list_update)
  have "\<not> lt (?ys ! parent k) (?ys ! k)" if k: "k < length ys" "0 < k" "k \<noteq> ?p" for k
  proof -
    have pk: "parent k < k" "parent k < length ys" using k by (simp_all add: less_trans [OF parent_less])
    consider "k = i" | "k \<noteq> i" "parent k = i" | "k \<noteq> i" "parent k \<noteq> i" "parent k = ?p" | "k \<noteq> i" "parent k \<noteq> i" "parent k \<noteq> ?p" by blast
    then show ?thesis
    proof cases
      case 1
      then show ?thesis using at [OF k(1)] at [OF pk(2)] p l asym by simp
    next
      case 2
      then show ?thesis using at [OF k(1)] at [OF pk(2)] k p o2 by simp
    next
      case 3
      have "\<not> lt (ys ! i) (ys ! k)" using neg_trans [OF asym [OF l]] o1 [OF k(1,2)] 3 by simp
      then show ?thesis using at [OF k(1)] at [OF pk(2)] k p 3 by simp
    next
      case 4
      then show ?thesis using at [OF k(1)] at [OF pk(2)] k o1 by simp
    qed
  qed
  moreover have "\<not> lt (?ys ! parent ?p) (?ys ! k)" if k: "k < length ys" "0 < k" "parent k = ?p" "0 < ?p" for k
  proof -
    have pp: "parent ?p < ?p" "parent ?p < length ys" using k p by (simp_all add: less_trans [OF parent_less])
    have up: "\<not> lt (ys ! parent ?p) (ys ! ?p)" using o1 [of ?p] p k by simp
    have kp: "k \<noteq> ?p" using parent_less [OF k(2)] k(3) by simp
    show ?thesis
    proof (cases "k = i")
      case True
      then show ?thesis using at [OF k(1)] at [OF pp(2)] pp p up kp by simp
    next
      case False
      have "\<not> lt (ys ! ?p) (ys ! k)" using o1 [OF k(1,2) False] k(3) by simp
      then show ?thesis using at [OF k(1)] at [OF pp(2)] pp p False kp neg_trans [OF up] by simp
    qed
  qed
  ultimately show ?thesis by (simp add: ordered_but_def)
qed

lemma down_final:
  assumes o: "ordered_but lt (\<lambda>k. parent k \<noteq> i) i ys"
    and c: "i * 2 + 1 < length ys \<Longrightarrow> \<not> lt (ys ! i) (ys ! (i * 2 + 1))" "i * 2 + 2 < length ys \<Longrightarrow> \<not> lt (ys ! i) (ys ! (i * 2 + 2))"
  shows "heap_ordered lt ys"
  unfolding heap_ordered_def
proof (intro allI impI)
  fix k assume k: "k < length ys" "0 < k"
  show "\<not> lt (ys ! parent k) (ys ! k)"
  proof (cases "parent k = i")
    case True
    have "k = i * 2 + 1 \<or> k = i * 2 + 2" using parent_eq [OF k(2), of i] True by blast
    then show ?thesis using c k(1) unfolding True by auto
  next
    case False
    then show ?thesis using o k by (simp add: ordered_but_def)
  qed
qed

lemma down_step:
  assumes o: "ordered_but lt (\<lambda>k. parent k \<noteq> i) i ys" and j: "j < length ys" "j = i * 2 + 1 \<or> j = i * 2 + 2"
    and greater: "\<And>k. k < length ys \<Longrightarrow> k = i * 2 + 1 \<or> k = i * 2 + 2 \<Longrightarrow> \<not> lt (ys ! j) (ys ! k)" and l: "lt (ys ! i) (ys ! j)"
  shows "ordered_but lt (\<lambda>k. parent k \<noteq> j) j (ys[i := ys ! j, j := ys ! i])"
proof -
  let ?ys = "ys[i := ys ! j, j := ys ! i]"
  have i: "i < j" "i < length ys" "0 < j" using j by auto
  have pj: "parent j = i" using j(2) i(3) by (simp add: parent_eq)
  have o1: "\<not> lt (ys ! parent k) (ys ! k)" if "k < length ys" "0 < k" "parent k \<noteq> i" for k using o that by (simp add: ordered_but_def)
  have o2: "\<not> lt (ys ! parent i) (ys ! k)" if "k < length ys" "0 < k" "parent k = i" "0 < i" for k
    using o that by (simp add: ordered_but_def)
  have at: "?ys ! k = (if k = j then ys ! i else if k = i then ys ! j else ys ! k)" if "k < length ys" for k
    using that i j by (simp add: nth_list_update)
  have "\<not> lt (?ys ! parent k) (?ys ! k)" if k: "k < length ys" "0 < k" "parent k \<noteq> j" for k
  proof -
    have pk: "parent k < k" "parent k < length ys" using k by (simp_all add: less_trans [OF parent_less])
    consider "parent k = i" "k = j" | "parent k = i" "k \<noteq> j" | "parent k \<noteq> i" "k = i" | "parent k \<noteq> i" "k \<noteq> i" by blast
    then show ?thesis
    proof cases
      case 1
      then show ?thesis using at [OF k(1)] at [OF pk(2)] i asym [OF l] by simp
    next
      case 2
      then have "\<not> lt (ys ! j) (ys ! k)" using greater [OF k(1)] parent_eq [OF k(2)] by simp
      then show ?thesis using at [OF k(1)] at [OF pk(2)] 2 i pk by simp
    next
      case 3
      then show ?thesis using at [OF k(1)] at [OF pk(2)] k i o2 [OF j(1) i(3) pj] by simp
    next
      case 4
      then have "k \<noteq> j" using pj by auto
      then show ?thesis using at [OF k(1)] at [OF pk(2)] k 4 o1 by simp
    qed
  qed
  moreover have "\<not> lt (?ys ! parent j) (?ys ! k)" if k: "k < length ys" "0 < k" "parent k = j" for k
  proof -
    have "k \<noteq> i" "k \<noteq> j" "parent k \<noteq> i" using parent_less [OF k(2)] k(3) i by auto
    then show ?thesis using at [OF k(1)] at [OF i(2)] i k o1 [OF k(1,2)] pj by simp
  qed
  ultimately show ?thesis by (simp add: ordered_but_def)
qed

lemma root_greatest:
  assumes "heap_ordered lt xs" shows "k < length xs \<Longrightarrow> \<not> lt (xs ! 0) (xs ! k)"
proof (induction k rule: less_induct)
  case (less k)
  show ?case
  proof (cases "k = 0")
    case False
    then have "\<not> lt (xs ! parent k) (xs ! k)" using assms less.prems by (simp add: heap_ordered_def)
    moreover have "\<not> lt (xs ! 0) (xs ! parent k)" using less.IH [of "parent k"] False less.prems by (simp add: less_trans [OF parent_less])
    ultimately show ?thesis using neg_trans by blast
  qed (simp add: irrefl)
qed

text \<open>An ordered heap, and what one comparison says.\<close>

lemma cmp_cases: "cmp a b False = (r, exc') \<Longrightarrow> exc' = False \<and> (r < 0 \<longleftrightarrow> lt a b) \<and> (r > 0 \<longleftrightarrow> lt b a)"
  using no_exception [of a b] negative [of a b] positive [of a b] by simp

lemma sift_up_ordered:
  assumes "hole_at i els ys" "i < length ys" "ordered_but lt (\<lambda>k. k \<noteq> i) i ys"
  shows "\<exists>i' els' ys'. sift_up cmp (ys ! i) i False els = Some (i', False, els') \<and> length els' = length els \<and>
      length ys' = length ys \<and> mset ys' = mset ys \<and> i' < length ys \<and> ys' ! i' = ys ! i \<and> hole_at i' els' ys' \<and> heap_ordered lt ys'"
proof -
  let ?Inv = "\<lambda>i ys exc. \<not> exc \<and> ordered_but lt (\<lambda>k. k \<noteq> i) i ys" and ?Fin = "\<lambda>ys exc. \<not> exc \<and> heap_ordered lt ys"
  have step: "if r < 0 then ?Inv (parent i) (ys[i := ys ! parent i, parent i := ys ! i]) exc' else ?Fin ys exc'"
    if "?Inv i ys exc" "0 < i" "i < length ys" "cmp (ys ! parent i) (ys ! i) exc = (r, exc')" for i ys exc r exc'
    using that cmp_cases [of "ys ! parent i" "ys ! i" r exc'] up_step [of i ys] up_final [of i ys] by auto
  have final: "?Fin ys exc" if "?Inv 0 ys exc" for ys exc using that up_final [of 0 ys] by simp
  have "\<exists>i' exc' els' ys'. sift_up cmp (ys ! i) i False els = Some (i', exc', els') \<and> length els' = length els \<and>
      length ys' = length ys \<and> mset ys' = mset ys \<and> i' < length ys \<and> ys' ! i' = ys ! i \<and> hole_at i' els' ys' \<and> ?Fin ys' exc'"
    by (rule sift_up_rule [where Inv = ?Inv and Fin = ?Fin])
      ((rule step; assumption) | (rule final; assumption) | rule assms | simp add: assms(3))+
  then show ?thesis by auto
qed

lemma sift_down_ordered:
  assumes "hole_at i els ys" "length ys < length els" "els ! length ys = Some bottom" "i < length ys" "ys ! i = bottom"
    "ordered_but lt (\<lambda>k. parent k \<noteq> i) i ys"
  shows "\<exists>i' els' ys'. sift_down cmp bottom (length ys) (length ys div 2) i False els = Some (i', False, els') \<and>
      length els' = length els \<and> length ys' = length ys \<and> mset ys' = mset ys \<and> i' < length els \<and>
      (\<forall>j<length ys. els'[i' := Some bottom] ! j = Some (ys' ! j)) \<and> heap_ordered lt ys'"
proof -
  let ?Inv = "\<lambda>i ys exc. \<not> exc \<and> ordered_but lt (\<lambda>k. parent k \<noteq> i) i ys \<and> (i < length ys \<longrightarrow> ys ! i = bottom)"
    and ?Fin = "\<lambda>ys exc. \<not> exc \<and> heap_ordered lt ys"
  let ?child = "\<lambda>ys j. if j = length ys then bottom else ys ! j"
  have step: "if r2 < 0 \<and> j \<noteq> length ys then ?Inv j (ys[i := ys ! j, j := ys ! i]) exc2 else ?Fin ys exc2"
    if inv: "?Inv i ys exc" and i: "i < length ys div 2" and c1: "cmp (?child ys (i * 2 + 2)) (ys ! (i * 2 + 1)) exc = (r1, exc1)"
      and j: "j = (if r1 > 0 then i * 2 + 2 else i * 2 + 1)" and c2: "cmp bottom (?child ys j) exc1 = (r2, exc2)"
    for i ys exc r1 exc1 r2 exc2 j
  proof -
    have il: "i * 2 + 1 < length ys" "i * 2 + 2 \<le> length ys" "i < length ys" using i by simp_all
    have bi: "ys ! i = bottom" using inv il by simp
    have 1: "exc1 = False" "r1 > 0 \<longleftrightarrow> lt (ys ! (i * 2 + 1)) (?child ys (i * 2 + 2))" using cmp_cases c1 inv by auto
    have 2: "exc2 = False" "r2 < 0 \<longleftrightarrow> lt bottom (?child ys j)" using cmp_cases c2 1 by auto
    have o: "ordered_but lt (\<lambda>k. parent k \<noteq> i) i ys" using inv by simp
    show ?thesis
    proof (cases "j = length ys")
      case True
      then have jl: "i * 2 + 2 = length ys" "r1 > 0" using j il by (auto split: if_splits)
      have "heap_ordered lt ys" by (rule down_final [OF o]) (use jl 1 bi asym in auto)
      with True 2 show ?thesis by simp
    next
      case False
      then have jl: "j < length ys" "j = i * 2 + 1 \<or> j = i * 2 + 2" using j il by (auto split: if_splits)
      have greater: "\<not> lt (ys ! j) (ys ! k)" if "k < length ys" "k = i * 2 + 1 \<or> k = i * 2 + 2" for k
      proof (cases "r1 > 0")
        case True
        then have "j = i * 2 + 2" "lt (ys ! (i * 2 + 1)) (ys ! j)" using j 1(2) jl(1) by simp_all
        with that(2) irrefl asym show ?thesis by blast
      next
        case r1: False
        then have "j = i * 2 + 1" using j by simp
        with that r1 1(2) irrefl show ?thesis by auto
      qed
      show ?thesis
      proof (cases "lt bottom (ys ! j)")
        case True
        then show ?thesis using 2 False jl bi down_step [OF o jl greater] by auto
      next
        case no: False
        have "\<not> lt (ys ! i) (ys ! k)" if "k < length ys" "k = i * 2 + 1 \<or> k = i * 2 + 2" for k
          using neg_trans [OF no greater [OF that]] bi by simp
        then have "heap_ordered lt ys" by (intro down_final [OF o]) auto
        with 2 no False show ?thesis by simp
      qed
    qed
  qed
  have final: "?Fin ys exc" if inv: "?Inv i ys exc" and i: "\<not> i < length ys div 2" for i ys exc
  proof -
    have "heap_ordered lt ys" using inv i by (intro down_final [of i]) auto
    with inv show ?thesis by simp
  qed
  have "\<exists>i' exc' els' ys'. sift_down cmp bottom (length ys) (length ys div 2) i False els = Some (i', exc', els') \<and>
      length els' = length els \<and> length ys' = length ys \<and> mset ys' = mset ys \<and> i' < length els \<and>
      (\<forall>j<length ys. els'[i' := Some bottom] ! j = Some (ys' ! j)) \<and> ?Fin ys' exc'"
    by (rule sift_down_rule [where Inv = ?Inv and Fin = ?Fin])
      ((rule step; assumption) | (rule final; assumption) | rule assms | simp add: assms(5,6))+
  then show ?thesis by auto
qed

end

section \<open>Heaps and their elements\<close>

text \<open>The slots below \<open>count\<close> hold \<open>xs\<close>.\<close>

definition heap_holds :: "'e spl_ptr_heap \<Rightarrow> 'e list \<Rightarrow> bool" where
  "heap_holds heap xs \<longleftrightarrow> length (elements heap) = max_size heap \<and> 0 < max_size heap \<and> heap_count heap = length xs \<and>
     length xs \<le> max_size heap \<and> (\<forall>i<length xs. elements heap ! i = Some (xs ! i))"

abbreviation flags_after :: "bool \<Rightarrow> u32 \<Rightarrow> u32" where
  "flags_after exc flags \<equiv> (if exc then flags OR SPL_HEAP_CORRUPTED else flags)"

lemma init_holds: "heap_holds (spl_ptr_heap_init cmp) []"
  by (simp add: heap_holds_def spl_ptr_heap_init_def PTR_HEAP_BLOCK_SIZE_def)

lemma insert_from_sift:
  assumes h: "heap_holds heap xs"
    and sift: "\<And>els. hole_at (length xs) els (xs @ [elem]) \<Longrightarrow> \<exists>i' exc' els' ys'. sift_up (heap_cmp heap) ((xs @ [elem]) ! length xs) (length xs) exc els = Some (i', exc', els') \<and>
      length els' = length els \<and> length ys' = length (xs @ [elem]) \<and> mset ys' = mset (xs @ [elem]) \<and> i' < length (xs @ [elem]) \<and>
      ys' ! i' = (xs @ [elem]) ! length xs \<and> hole_at i' els' ys' \<and> Q ys' exc'"
  shows "\<exists>exc' heap' ys. spl_ptr_heap_insert heap elem exc = Some (exc', heap') \<and> heap_holds heap' ys \<and>
    mset ys = add_mset elem (mset xs) \<and> Q ys exc' \<and> heap_cmp heap' = heap_cmp heap \<and>
    heap_flags heap' = flags_after exc' (heap_flags heap) \<and> ctor_log heap' = ctor_log heap @ [elem] \<and> dtor_log heap' = dtor_log heap"
proof -
  define els where "els = (if heap_count heap + 1 > max_size heap then elements heap @ replicate (max_size heap) None else elements heap)"
  define sz where "sz = (if heap_count heap + 1 > max_size heap then max_size heap * 2 else max_size heap)"
  have el: "length els = sz" "length xs < sz" "0 < sz" and old: "\<forall>i<length xs. els ! i = Some (xs ! i)"
    using h by (auto simp: heap_holds_def els_def sz_def nth_append)
  then have "hole_at (length xs) els (xs @ [elem])" by (auto simp: hole_at_def nth_append)
  from sift [OF this] obtain i' exc' els' ys' where s: "sift_up (heap_cmp heap) elem (length xs) exc els = Some (i', exc', els')"
    "length els' = sz" "length ys' = Suc (length xs)" "mset ys' = add_mset elem (mset xs)" "i' < Suc (length xs)" "ys' ! i' = elem"
    "hole_at i' els' ys'" "Q ys' exc'"
    using el by auto
  let ?h = "heap\<lparr>elements := els'[i' := Some elem], max_size := sz, heap_count := Suc (length xs),
    ctor_log := ctor_log heap @ [elem], heap_flags := flags_after exc' (heap_flags heap)\<rparr>"
  have c: "heap_count heap = length xs" using h by (simp add: heap_holds_def)
  have "spl_ptr_heap_insert heap elem exc = Some (exc', ?h)"
    using s(1,2,5) el(2)
    by (cases "max_size heap < Suc (length xs)"; cases exc'; simp add: spl_ptr_heap_insert_def Let_def store_def c els_def sz_def)
  moreover have "heap_holds ?h ys'"
    using s el by (auto simp: heap_holds_def hole_at_def nth_list_update)
  ultimately show ?thesis using s(4,8) by (intro exI [of _ exc'] exI [of _ ?h] exI [of _ ys']) simp
qed

lemma delete_from_sift:
  assumes h: "heap_holds heap (x # xs)"
    and sift: "\<And>els bottom ys. xs \<noteq> [] \<Longrightarrow> bottom = last xs \<Longrightarrow> ys = bottom # butlast xs \<Longrightarrow> hole_at 0 els ys \<Longrightarrow> length ys < length els \<Longrightarrow>
      els ! length ys = Some bottom \<Longrightarrow>
      \<exists>i' exc' els' ys'. sift_down (heap_cmp heap) bottom (length ys) (length ys div 2) 0 exc els = Some (i', exc', els') \<and>
      length els' = length els \<and> length ys' = length ys \<and> mset ys' = mset ys \<and> i' < length els \<and>
      (\<forall>j<length ys. els'[i' := Some bottom] ! j = Some (ys' ! j)) \<and> Q ys' exc'"
    and single: "Q [] exc"
  shows "\<exists>exc' heap' ys. spl_ptr_heap_delete_top heap exc = Some (Some x, exc', heap') \<and> heap_holds heap' ys \<and>
    mset ys = mset xs \<and> Q ys exc' \<and> heap_cmp heap' = heap_cmp heap \<and> heap_flags heap' = flags_after exc' (heap_flags heap) \<and>
    ctor_log heap' = ctor_log heap \<and> dtor_log heap' = dtor_log heap @ [x]"
proof -
  let ?els = "elements heap"
  have l: "length ?els = max_size heap" "Suc (length xs) \<le> max_size heap" "heap_count heap = Suc (length xs)"
    using h by (auto simp: heap_holds_def)
  have at: "?els ! i = Some ((x # xs) ! i)" if "i < Suc (length xs)" for i
    using h that by (auto simp: heap_holds_def)
  have top: "slot ?els 0 = Some x" using at [of 0] l by (simp add: slot_def)
  have bot: "slot ?els (length xs) = Some ((x # xs) ! length xs)" using at [of "length xs"] l by (simp add: slot_def)
  show ?thesis
  proof (cases "xs = []")
    case True
    let ?h = "heap\<lparr>heap_count := 0, heap_flags := flags_after exc (heap_flags heap), elements := ?els[0 := Some x],
      dtor_log := dtor_log heap @ [x]\<rparr>"
    have "spl_ptr_heap_delete_top heap exc = Some (Some x, exc, ?h)"
      using l top True single
      by (auto simp: spl_ptr_heap_delete_top_def Let_def sift_down.simps store_def)
    then show ?thesis using True single l by (intro exI [of _ exc] exI [of _ ?h] exI [of _ "[]"]) (auto simp: heap_holds_def)
  next
    case False
    let ?b = "last xs" and ?ys = "last xs # butlast xs"
    have b: "(x # xs) ! length xs = ?b" using False by (simp add: last_conv_nth nth_Cons')
    have ly: "length ?ys = length xs" using False by simp
    have "hole_at 0 ?els ?ys"
      unfolding hole_at_def ly using l at False by (auto simp: nth_Cons' nth_butlast)
    from sift [OF False refl refl this] l at [of "length xs"] b ly
    obtain i' exc' els' ys' where s: "sift_down (heap_cmp heap) ?b (length xs) (length xs div 2) 0 exc ?els = Some (i', exc', els')"
      "length els' = length ?els" "length ys' = length xs" "mset ys' = mset ?ys" "i' < length ?els"
      "\<forall>j<length xs. els'[i' := Some ?b] ! j = Some (ys' ! j)" "Q ys' exc'" by auto
    let ?h = "heap\<lparr>heap_count := length xs, heap_flags := flags_after exc' (heap_flags heap), elements := els'[i' := Some ?b],
      dtor_log := dtor_log heap @ [x]\<rparr>"
    have "spl_ptr_heap_delete_top heap exc = Some (Some x, exc', ?h)"
      using l top bot b s(1,2,5) by (auto simp: spl_ptr_heap_delete_top_def Let_def store_def)
    moreover have "heap_holds ?h ys'" using s l h by (auto simp: heap_holds_def)
    moreover have "mset ?ys = mset xs" using False by (metis append_butlast_last_id mset_append mset.simps add_mset_add_single union_commute)
    ultimately show ?thesis using s(4,7) by (intro exI [of _ exc'] exI [of _ ?h] exI [of _ ys']) simp
  qed
qed

text \<open>Whatever the comparison does, nothing is lost.\<close>

lemma insert_any:
  assumes "heap_holds heap xs"
  shows "\<exists>exc' heap' ys. spl_ptr_heap_insert heap elem exc = Some (exc', heap') \<and> heap_holds heap' ys \<and>
    mset ys = add_mset elem (mset xs) \<and> True \<and> heap_cmp heap' = heap_cmp heap \<and>
    heap_flags heap' = flags_after exc' (heap_flags heap) \<and> ctor_log heap' = ctor_log heap @ [elem] \<and> dtor_log heap' = dtor_log heap"
  by (rule insert_from_sift [where Q = "\<lambda>_ _. True", OF assms], rule sift_up_rule [where Inv = "\<lambda>_ _ _. True" and Fin = "\<lambda>_ _. True"]) simp_all

lemma delete_any:
  assumes "heap_holds heap (x # xs)"
  shows "\<exists>exc' heap' ys. spl_ptr_heap_delete_top heap exc = Some (Some x, exc', heap') \<and> heap_holds heap' ys \<and>
    mset ys = mset xs \<and> True \<and> heap_cmp heap' = heap_cmp heap \<and> heap_flags heap' = flags_after exc' (heap_flags heap) \<and>
    ctor_log heap' = ctor_log heap \<and> dtor_log heap' = dtor_log heap @ [x]"
  by (rule delete_from_sift [where Q = "\<lambda>_ _. True", OF assms], rule sift_down_rule [where Inv = "\<lambda>_ _ _. True" and Fin = "\<lambda>_ _. True"])
    simp_all

fun drain :: "nat \<Rightarrow> 'e spl_ptr_heap \<Rightarrow> bool \<Rightarrow> ('e list \<times> 'e spl_ptr_heap) option" where
  "drain 0 heap exc = Some ([], heap)"
| "drain (Suc n) heap exc = (case spl_ptr_heap_delete_top heap exc of
     Some (Some x, exc, heap) \<Rightarrow> map_option (\<lambda>(xs, heap). (x # xs, heap)) (drain n heap exc) | _ \<Rightarrow> None)"

fun insert_all :: "'e list \<Rightarrow> 'e spl_ptr_heap \<Rightarrow> bool \<Rightarrow> (bool \<times> 'e spl_ptr_heap) option" where
  "insert_all [] heap exc = Some (exc, heap)"
| "insert_all (x # xs) heap exc = (case spl_ptr_heap_insert heap x exc of
     Some (exc, heap) \<Rightarrow> insert_all xs heap exc | None \<Rightarrow> None)"

context heap_order
begin

lemma insert_ordered:
  assumes "heap_holds heap xs" "heap_ordered lt xs" "heap_cmp heap = cmp"
  shows "\<exists>heap' ys. spl_ptr_heap_insert heap elem False = Some (False, heap') \<and> heap_holds heap' ys \<and>
    mset ys = add_mset elem (mset xs) \<and> heap_ordered lt ys \<and> heap_cmp heap' = cmp \<and> heap_flags heap' = heap_flags heap"
proof -
  have o: "ordered_but lt (\<lambda>k. k \<noteq> length xs) (length xs) (xs @ [elem])"
  proof -
    have "parent k < length xs" if "k < length xs" "0 < k" for k using that by (simp add: less_trans [OF parent_less])
    moreover have "parent k \<noteq> length xs" if "k < Suc (length xs)" "0 < k" for k using that parent_less [of k] by linarith
    ultimately show ?thesis using assms(2) by (auto simp: ordered_but_def heap_ordered_def nth_append)
  qed
  have "\<exists>exc' heap' ys. spl_ptr_heap_insert heap elem False = Some (exc', heap') \<and> heap_holds heap' ys \<and>
    mset ys = add_mset elem (mset xs) \<and> (\<not> exc' \<and> heap_ordered lt ys) \<and> heap_cmp heap' = heap_cmp heap \<and>
    heap_flags heap' = flags_after exc' (heap_flags heap) \<and> ctor_log heap' = ctor_log heap @ [elem] \<and> dtor_log heap' = dtor_log heap"
    by (rule insert_from_sift [where Q = "\<lambda>ys exc. \<not> exc \<and> heap_ordered lt ys", OF assms(1)])
      (use sift_up_ordered [OF _ _ o] in \<open>fastforce simp: assms(3)\<close>)
  then show ?thesis using assms(3) by auto
qed

lemma delete_ordered:
  assumes "heap_holds heap (x # xs)" "heap_ordered lt (x # xs)" "heap_cmp heap = cmp"
  shows "\<exists>heap' ys. spl_ptr_heap_delete_top heap False = Some (Some x, False, heap') \<and> heap_holds heap' ys \<and>
    mset ys = mset xs \<and> heap_ordered lt ys \<and> heap_cmp heap' = cmp \<and> heap_flags heap' = heap_flags heap"
proof -
  have o: "ordered_but lt (\<lambda>k. parent k \<noteq> 0) 0 (last xs # butlast xs)" if "xs \<noteq> []"
  proof -
    have "\<not> lt ((last xs # butlast xs) ! parent k) ((last xs # butlast xs) ! k)" if "k < Suc (length xs - 1)" "0 < k" "parent k \<noteq> 0" for k
    proof -
      have eq: "(last xs # butlast xs) ! j = (x # xs) ! j" if "0 < j" "j < Suc (length xs - 1)" for j
        using that by (simp add: nth_Cons' nth_butlast)
      have "parent k < Suc (length xs - 1)" using that(1,2) by (simp add: less_trans [OF parent_less])
      then have e: "(last xs # butlast xs) ! parent k = (x # xs) ! parent k" "(last xs # butlast xs) ! k = (x # xs) ! k"
        using eq [of k] eq [of "parent k"] that by blast+
      have "k < length (x # xs)" using that(1) by simp
      then have "\<not> lt ((x # xs) ! parent k) ((x # xs) ! k)" using assms(2) that(2) unfolding heap_ordered_def by blast
      then show ?thesis by (simp only: e not_False_eq_True)
    qed
    then show ?thesis by (auto simp: ordered_but_def)
  qed
  have "\<exists>exc' heap' ys. spl_ptr_heap_delete_top heap False = Some (Some x, exc', heap') \<and> heap_holds heap' ys \<and>
    mset ys = mset xs \<and> (\<not> exc' \<and> heap_ordered lt ys) \<and> heap_cmp heap' = heap_cmp heap \<and> heap_flags heap' = flags_after exc' (heap_flags heap) \<and>
    ctor_log heap' = ctor_log heap \<and> dtor_log heap' = dtor_log heap @ [x]"
  proof (rule delete_from_sift [where Q = "\<lambda>ys exc. \<not> exc \<and> heap_ordered lt ys", OF assms(1)], goal_cases)
    case (1 els bottom ys)
    then have "ordered_but lt (\<lambda>k. parent k \<noteq> 0) 0 ys" "0 < length ys" "ys ! 0 = bottom" using o by simp_all
    with sift_down_ordered [OF 1(4-6) this(2,3,1)] show ?case by (fastforce simp: assms(3))
  qed (simp add: heap_ordered_def)
  then show ?thesis using assms(3) by auto
qed

lemma insert_all_ordered:
  "heap_holds heap xs \<Longrightarrow> heap_ordered lt xs \<Longrightarrow> heap_cmp heap = cmp \<Longrightarrow>
   \<exists>heap' ys. insert_all es heap False = Some (False, heap') \<and> heap_holds heap' ys \<and> mset ys = mset xs + mset es \<and>
     heap_ordered lt ys \<and> heap_cmp heap' = cmp"
proof (induction es arbitrary: heap xs)
  case (Cons e es)
  obtain heap' ys where "spl_ptr_heap_insert heap e False = Some (False, heap')" "heap_holds heap' ys"
    "mset ys = add_mset e (mset xs)" "heap_ordered lt ys" "heap_cmp heap' = cmp"
    using insert_ordered [OF Cons.prems] by blast
  with Cons.IH [of heap' ys] show ?case by auto
qed auto

lemma drain_ordered:
  "heap_holds heap xs \<Longrightarrow> heap_ordered lt xs \<Longrightarrow> heap_cmp heap = cmp \<Longrightarrow>
   \<exists>ys heap'. drain (length xs) heap False = Some (ys, heap') \<and> heap_holds heap' [] \<and> mset ys = mset xs \<and>
     sorted_wrt (\<lambda>a b. \<not> lt a b) ys"
proof (induction "length xs" arbitrary: heap xs)
  case (Suc n)
  then obtain x zs where xs: "xs = x # zs" by (cases xs) auto
  obtain heap1 zs' where d: "spl_ptr_heap_delete_top heap False = Some (Some x, False, heap1)" "heap_holds heap1 zs'"
    "mset zs' = mset zs" "heap_ordered lt zs'" "heap_cmp heap1 = cmp"
    using delete_ordered Suc.prems unfolding xs by blast
  have l: "length zs' = length zs" "n = length zs'" using d(3) Suc.hyps(2) xs mset_eq_length by (auto dest: mset_eq_length)
  from Suc.hyps(1) [OF l(2) d(2,4,5)] obtain ys heap' where ih: "drain (length zs') heap1 False = Some (ys, heap')" "heap_holds heap' []"
    "mset ys = mset zs'" "sorted_wrt (\<lambda>a b. \<not> lt a b) ys" by blast
  have "\<not> lt x y" if "y \<in> set ys" for y
  proof -
    have "y \<in> set zs" using that ih(3) d(3) by (metis set_mset_mset)
    then obtain k where "k < length xs" "y = xs ! k" unfolding xs by (metis in_set_conv_nth list.set_intros(2))
    then show ?thesis using root_greatest [of xs k] Suc.prems(2) xs by simp
  qed
  then show ?case using ih d l xs by (intro exI [of _ "x # ys"] exI [of _ heap']) simp
qed auto

lemma heap_sort_ordered:
  "\<exists>heap ys heap'. insert_all es (spl_ptr_heap_init cmp) False = Some (False, heap) \<and>
     drain (length es) heap False = Some (ys, heap') \<and> heap_holds heap' [] \<and> mset ys = mset es \<and> sorted_wrt (\<lambda>a b. \<not> lt a b) ys"
proof -
  have "heap_cmp (spl_ptr_heap_init cmp) = cmp" by (simp add: spl_ptr_heap_init_def)
  moreover have "heap_ordered lt []" by (simp add: heap_ordered_def)
  ultimately obtain heap xs where i: "insert_all es (spl_ptr_heap_init cmp) False = Some (False, heap)" "heap_holds heap xs"
    "mset xs = mset es" "heap_ordered lt xs" "heap_cmp heap = cmp"
    using insert_all_ordered [OF init_holds] by fastforce
  have "length xs = length es" using i(3) by (rule mset_eq_length)
  with drain_ordered [OF i(2,4,5)] i show ?thesis by auto
qed

end

section \<open>The comparisons of the classes on integers\<close>

text \<open>\<open>compare_function\<close> on two integers (\<open>Zend/zend_operators.c\<close>).\<close>

definition compare_longs :: "u64 \<Rightarrow> u64 \<Rightarrow> u64" where
  "compare_longs a b = (if sint a > sint b then 1 else if sint a < sint b then -1 else 0)"

lemma int_of_compare: "int_of_long (compare_longs a b) = (if sint a > sint b then 1 else if sint a < sint b then -1 else 0)"
proof -
  have "(ucast (-1 :: u64) :: u32) = -1" by code_simp
  then show ?thesis by (simp add: int_of_long_def compare_longs_def)
qed

interpretation max_heap: heap_order "spl_ptr_heap_zval_max_cmp compare_longs None" "\<lambda>a b. sint a < sint b"
  by unfold_locales (auto simp: spl_ptr_heap_zval_max_cmp_def int_of_compare)

interpretation min_heap: heap_order "spl_ptr_heap_zval_min_cmp compare_longs None" "\<lambda>a b. sint b < sint a"
  by unfold_locales (auto simp: spl_ptr_heap_zval_min_cmp_def int_of_compare)

lemma pqueue_cmp: "spl_ptr_pqueue_zval_cmp cf user a b exc = spl_ptr_heap_zval_max_cmp cf user (node_priority a) (node_priority b) exc"
  by (simp add: spl_ptr_pqueue_zval_cmp_def spl_pqueue_extract_helper_def SPL_PQUEUE_EXTR_BOTH_def SPL_PQUEUE_EXTR_PRIORITY_def
    SPL_PQUEUE_EXTR_DATA_def)

interpretation pqueue: heap_order "spl_ptr_pqueue_zval_cmp compare_longs None" "\<lambda>a b. sint (node_priority a) < sint (node_priority b)"
  by unfold_locales (auto simp: pqueue_cmp spl_ptr_heap_zval_max_cmp_def int_of_compare)

section \<open>Properties\<close>

lemma not_corrupted: "heap_flags heap = 0 \<Longrightarrow> \<not> is_corrupted heap"
  by (simp add: is_corrupted_def)




text \<open>
  C40: Whatever a comparison does, and also when it throws, inserting adds the element and extracting removes the top, with no
  other element lost or duplicated. A heap whose comparison threw is marked as corrupted; then \<open>insert\<close>, \<open>extract\<close> and
  \<open>top\<close> throw and change nothing until \<open>recoverFromCorruption\<close> is called, which clears the mark.
\<close>

theorem heap_corruption:
  assumes "heap_holds heap xs"
  shows "(if is_corrupted heap then SplHeap_insert heap e exc = Some (Inl Heap_Is_Corrupted, True, heap) \<and>
        SplHeap_extract heap exc = Some (Inl Heap_Is_Corrupted, True, heap) \<and> SplHeap_top heap exc = Some (Inl Heap_Is_Corrupted, True)
      else (\<exists>exc' heap' ys. SplHeap_insert heap e exc = Some (Inr True, exc', heap') \<and> heap_holds heap' ys \<and>
          mset ys = add_mset e (mset xs) \<and> (is_corrupted heap' \<longleftrightarrow> exc')) \<and>
        (\<forall>x zs. xs = x # zs \<longrightarrow> (\<exists>exc' heap' ys. SplHeap_extract heap exc = Some (Inr x, exc', heap') \<and> heap_holds heap' ys \<and>
          mset ys = mset zs \<and> (is_corrupted heap' \<longleftrightarrow> exc')))) \<and>
    \<not> is_corrupted (SplHeap_recoverFromCorruption heap) \<and> heap_holds (SplHeap_recoverFromCorruption heap) xs"
proof -
  have flags: "(f OR SPL_HEAP_CORRUPTED) AND SPL_HEAP_CORRUPTED \<noteq> 0" for f
    by (simp add: SPL_HEAP_CORRUPTED_def bit_eq_iff bit_simps) (rule exI [of _ 0], simp)
  have "\<not> is_corrupted (SplHeap_recoverFromCorruption heap)"
    by (simp add: is_corrupted_def SplHeap_recoverFromCorruption_def and.assoc)
  moreover have "heap_holds (SplHeap_recoverFromCorruption heap) xs"
    using assms by (simp add: heap_holds_def SplHeap_recoverFromCorruption_def)
  moreover have "\<exists>exc' heap' ys. SplHeap_insert heap e exc = Some (Inr True, exc', heap') \<and> heap_holds heap' ys \<and>
      mset ys = add_mset e (mset xs) \<and> (is_corrupted heap' \<longleftrightarrow> exc')" if "\<not> is_corrupted heap"
    using insert_any [OF assms, of e exc] that flags by (auto simp: SplHeap_insert_def is_corrupted_def)
  moreover have "\<exists>exc' heap' ys. SplHeap_extract heap exc = Some (Inr x, exc', heap') \<and> heap_holds heap' ys \<and>
      mset ys = mset zs \<and> (is_corrupted heap' \<longleftrightarrow> exc')" if "\<not> is_corrupted heap" "xs = x # zs" for x zs
    using delete_any [OF assms [unfolded that(2)], of exc] that(1) flags by (auto simp: SplHeap_extract_def is_corrupted_def)
  ultimately show ?thesis by (auto simp: SplHeap_insert_def SplHeap_extract_def SplHeap_top_def)
qed

lemma heap_corruption_witness:
  "\<exists>exc' heap' ys. SplHeap_insert (spl_ptr_heap_init (\<lambda>_ _ _. (0, True))) (5 :: nat) False = Some (Inr True, exc', heap') \<and>
     heap_holds heap' ys \<and> mset ys = {#5#}"
  using heap_corruption [OF init_holds, of "\<lambda>_ _ _. (0, True)" "5 :: nat" False]
  by (auto simp: is_corrupted_def spl_ptr_heap_init_def)

end
