(* ===== verification/ZendGc.thy ===== *)
theory ZendGc imports Dll begin

text \<open>
  The cycle collector of \<open>Zend/zend_gc.c\<close>: the buffer of possible roots, the four traversals of the values below
  the roots (mark grey, scan, scan black, collect white) and a whole run of the collector. This theory holds the model;
  the proofs are in \<open>ZendGcGraph\<close>, \<open>ZendGcMark\<close>, \<open>ZendGcScan\<close> and \<open>ZendGcCollect\<close>.

  A zval has an address; its \<open>value\<close> is an array (the address of its \<open>HashTable\<close>, whose elements are addresses of
  zvals in their order), an object (a handle and the handlers) or anything else. The word \<open>u\<close> behind a zval, and
  \<open>buffered\<close> in the bucket of an object, is a pointer with a color in its two low bits: a pair of both. It
  points into the root buffer, or, for a zval that is to be freed, to the next one. An access to a zval, a \<open>HashTable\<close>, an
  object or a root buffer that does not exist is the value \<open>None\<close>, and so is a traversal that does not end.

  The root buffer at \<open>buf[i]\<close> has the address \<open>i + 1\<close>, the head \<open>roots\<close> of the ring has the address \<open>0\<close>.
  The properties of an object are what \<open>get_properties\<close> of its handlers gives: \<open>None\<close> if there is no such
  handler, \<open>Some None\<close> if it gives \<open>NULL\<close>. The counters of \<open>GC_BENCH\<close> are not modelled.
\<close>

section \<open>State\<close>

definition GC_ROOT_BUFFER_MAX_ENTRIES :: nat where "GC_ROOT_BUFFER_MAX_ENTRIES = 10000"

datatype gc_color = GC_BLACK | GC_WHITE | GC_GREY | GC_PURPLE

datatype gc_address = Null | Root addr | Next addr | FREE_LIST_END

record gc_word =
  word_address :: gc_address
  word_color :: gc_color

definition GC_SET_ADDRESS :: "gc_address \<Rightarrow> gc_word \<Rightarrow> gc_word" where
  "GC_SET_ADDRESS a v = v\<lparr>word_address := a\<rparr>"

definition GC_SET_COLOR :: "gc_color \<Rightarrow> gc_word \<Rightarrow> gc_word" where
  "GC_SET_COLOR c v = v\<lparr>word_color := c\<rparr>"

text \<open>A pointer as it is stored: its two low bits are those of \<open>GC_BLACK\<close>.\<close>

definition pointer_word :: "gc_address \<Rightarrow> gc_word" where
  "pointer_word a = \<lparr>word_address = a, word_color = GC_BLACK\<rparr>"

definition white_word :: gc_word where
  "white_word = \<lparr>word_address = Null, word_color = GC_WHITE\<rparr>"

datatype zvalue = IS_ARRAY addr | IS_OBJECT u32 u64 | IS_OTHER

record zval_gc_info =
  z_value :: zvalue
  z_refcount :: u32
  z_u :: gc_word

record gc_bucket =
  gb_destructor_called :: bool
  gb_valid :: bool
  gb_dtor :: u64
  gb_refcount :: u32
  gb_buffered :: gc_word

datatype root_union = Pz addr | Handlers u64

record gc_root_buffer =
  rb_prev :: ptr
  rb_next :: ptr
  rb_handle :: u32
  rb_u :: root_union

record gc_state =
  zvals :: "addr \<rightharpoonup> zval_gc_info"
  arrays :: "addr \<rightharpoonup> addr list"
  symbol_table :: addr
  gc_buckets :: "gc_bucket list option"
  get_properties :: "u64 \<Rightarrow> u32 \<Rightarrow> addr list option option"
  rbufs :: "addr \<rightharpoonup> gc_root_buffer"
  gc_buf :: bool
  gc_enabled :: bool
  gc_active :: bool
  unused :: ptr
  first_unused :: ptr
  last_unused :: ptr
  zval_to_free :: gc_address
  free_list :: gc_address
  next_to_free :: gc_address
  gc_runs :: u32
  collected :: u32

definition upd_zval :: "addr \<Rightarrow> (zval_gc_info \<Rightarrow> zval_gc_info) \<Rightarrow> gc_state \<Rightarrow> gc_state option" where
  "upd_zval a f s = (case zvals s a of None \<Rightarrow> None | Some z \<Rightarrow> Some (s\<lparr>zvals := (zvals s)(a \<mapsto> f z)\<rparr>))"

definition get_obj :: "u32 \<Rightarrow> gc_state \<Rightarrow> gc_bucket option" where
  "get_obj h s = (case gc_buckets s of None \<Rightarrow> None | Some bs \<Rightarrow> if unat h < length bs then Some (bs ! unat h) else None)"

definition upd_obj :: "u32 \<Rightarrow> (gc_bucket \<Rightarrow> gc_bucket) \<Rightarrow> gc_state \<Rightarrow> gc_state option" where
  "upd_obj h f s = (case gc_buckets s of None \<Rightarrow> None
     | Some bs \<Rightarrow> if unat h < length bs then Some (s\<lparr>gc_buckets := Some (bs[unat h := f (bs ! unat h)])\<rparr>) else None)"

definition upd_rbuf :: "ptr \<Rightarrow> (gc_root_buffer \<Rightarrow> gc_root_buffer) \<Rightarrow> gc_state \<Rightarrow> gc_state option" where
  "upd_rbuf p f s = (case p of None \<Rightarrow> None
     | Some a \<Rightarrow> (case rbufs s a of None \<Rightarrow> None | Some b \<Rightarrow> Some (s\<lparr>rbufs := (rbufs s)(a \<mapsto> f b)\<rparr>)))"

text \<open>The accesses to \<open>u\<close> of a zval and to \<open>buffered\<close> of an object.\<close>

definition zval_set_u :: "addr \<Rightarrow> (gc_word \<Rightarrow> gc_word) \<Rightarrow> gc_state \<Rightarrow> gc_state option" where
  "zval_set_u a f = upd_zval a (\<lambda>z. z\<lparr>z_u := f (z_u z)\<rparr>)"

definition zval_add_refcount :: "addr \<Rightarrow> u32 \<Rightarrow> gc_state \<Rightarrow> gc_state option" where
  "zval_add_refcount a d = upd_zval a (\<lambda>z. z\<lparr>z_refcount := z_refcount z + d\<rparr>)"

definition obj_set_buffered :: "u32 \<Rightarrow> (gc_word \<Rightarrow> gc_word) \<Rightarrow> gc_state \<Rightarrow> gc_state option" where
  "obj_set_buffered h f = upd_obj h (\<lambda>b. b\<lparr>gb_buffered := f (gb_buffered b)\<rparr>)"

definition obj_add_refcount :: "u32 \<Rightarrow> u32 \<Rightarrow> gc_state \<Rightarrow> gc_state option" where
  "obj_add_refcount h d = upd_obj h (\<lambda>b. b\<lparr>gb_refcount := gb_refcount b + d\<rparr>)"

text \<open>\<open>Z_TYPE_P(pz) == IS_ARRAY && Z_ARRVAL_P(pz) == &EG(symbol_table)\<close>\<close>

definition is_symbol_table :: "gc_state \<Rightarrow> zval_gc_info \<Rightarrow> bool" where
  "is_symbol_table s z \<longleftrightarrow> z_value z = IS_ARRAY (symbol_table s)"

text \<open>\<open>pListHead\<close> of the properties, if the bucket is valid and there is a handler for them.\<close>

definition obj_props :: "u32 \<Rightarrow> u64 \<Rightarrow> gc_bucket \<Rightarrow> gc_state \<Rightarrow> addr list option option" where
  "obj_props h handlers b s = (if gb_valid b then get_properties s handlers h else None)"

section \<open>The root buffer\<close>

definition set_rb_next :: "ptr \<Rightarrow> gc_root_buffer \<Rightarrow> gc_root_buffer" where "set_rb_next p b = b\<lparr>rb_next := p\<rparr>"
definition set_rb_prev :: "ptr \<Rightarrow> gc_root_buffer \<Rightarrow> gc_root_buffer" where "set_rb_prev p b = b\<lparr>rb_prev := p\<rparr>"

text \<open>\<open>GC_G(roots).next = GC_G(roots).prev = &GC_G(roots)\<close>\<close>

definition empty_roots :: gc_root_buffer where
  "empty_roots = \<lparr>rb_prev = Some 0, rb_next = Some 0, rb_handle = 0, rb_u = Handlers 0\<rparr>"

definition root_buffer_dtor :: "gc_state \<Rightarrow> gc_state" where
  "root_buffer_dtor s = (if gc_buf s then s\<lparr>gc_buf := False, rbufs := rbufs s |` {0}\<rparr> else s)"

definition gc_globals_ctor_ex :: "gc_state \<Rightarrow> gc_state" where
  "gc_globals_ctor_ex s = s\<lparr>gc_enabled := False, gc_active := False, gc_buf := False, rbufs := [0 \<mapsto> empty_roots],
     unused := None, zval_to_free := Null, free_list := Null, next_to_free := Null, gc_runs := 0, collected := 0\<rparr>"

definition gc_reset :: "gc_state \<Rightarrow> gc_state" where
  "gc_reset s = (let s = s\<lparr>gc_runs := 0, collected := 0, rbufs := (rbufs s)(0 \<mapsto> empty_roots)\<rparr> in
     if gc_buf s then s\<lparr>unused := None, first_unused := Some 1, zval_to_free := Null\<rparr>
     else s\<lparr>unused := None, first_unused := None, last_unused := None\<rparr>)"

text \<open>\<open>malloc\<close> gives a buffer of entries with arbitrary contents.\<close>

definition gc_init :: "(nat \<Rightarrow> gc_root_buffer) \<Rightarrow> gc_state \<Rightarrow> gc_state" where
  "gc_init contents s = (if \<not> gc_buf s \<and> gc_enabled s
     then gc_reset (s\<lparr>gc_buf := True, last_unused := Some (1 + GC_ROOT_BUFFER_MAX_ENTRIES),
       rbufs := (\<lambda>a. if 1 \<le> a \<and> a \<le> GC_ROOT_BUFFER_MAX_ENTRIES then Some (contents a) else rbufs s a)\<rparr>) else s)"

definition gc_remove_from_buffer :: "addr \<Rightarrow> gc_state \<Rightarrow> gc_state option" where
  "gc_remove_from_buffer root s = do {
     b \<leftarrow> rbufs s root;
     s \<leftarrow> upd_rbuf (rb_next b) (set_rb_prev (rb_prev b)) s;
     b \<leftarrow> rbufs s root;
     s \<leftarrow> upd_rbuf (rb_prev b) (set_rb_next (rb_next b)) s;
     s \<leftarrow> upd_rbuf (Some root) (set_rb_prev (unused s)) s;
     Some (s\<lparr>unused := Some root\<rparr>) }"

section \<open>Traversal\<close>

text \<open>
  What the four traversals share. \<open>enter\<close> is the part of the function before its loop: it gives the elements the
  loop runs over. \<open>edge\<close> is the part of the loop body before the recursive call and says if there is one. The jump
  \<open>goto tail_call\<close> for the last element is a recursive call after which nothing is left to do.
\<close>

partial_function (option) gc_traverse ::
  "(addr \<Rightarrow> gc_state \<Rightarrow> (addr list \<times> gc_state) option) \<Rightarrow> (addr \<Rightarrow> gc_state \<Rightarrow> (bool \<times> gc_state) option) \<Rightarrow>
     addr + addr list \<Rightarrow> gc_state \<Rightarrow> gc_state option" where
  "gc_traverse enter edge w s =
     (case w of
        Inl pz \<Rightarrow> do { (p, s) \<leftarrow> enter pz s; gc_traverse enter edge (Inr p) s }
      | Inr ps \<Rightarrow>
          (case ps of
             [] \<Rightarrow> Some s
           | pz # p \<Rightarrow> do {
               (descend, s) \<leftarrow> edge pz s;
               s \<leftarrow> (if descend then gc_traverse enter edge (Inl pz) s else Some s);
               gc_traverse enter edge (Inr p) s }))"

text \<open>\<open>if (Z_TYPE_P(pz) != IS_ARRAY || Z_ARRVAL_P(pz) != &EG(symbol_table)) pz->refcount__gc += d;\<close>\<close>

definition count_edge :: "u32 \<Rightarrow> addr \<Rightarrow> gc_state \<Rightarrow> gc_state option" where
  "count_edge d pz s = do {
     z \<leftarrow> zvals s pz;
     if is_symbol_table s z then Some s else zval_add_refcount pz d s }"

subsection \<open>Scan black\<close>

definition scan_black_enter :: "addr \<Rightarrow> gc_state \<Rightarrow> (addr list \<times> gc_state) option" where
  "scan_black_enter pz s = do {
     s \<leftarrow> zval_set_u pz (GC_SET_COLOR GC_BLACK) s;
     z \<leftarrow> zvals s pz;
     (case z_value z of
        IS_OBJECT h handlers \<Rightarrow>
          if gc_buckets s = None then Some ([], s)
          else do {
            s \<leftarrow> obj_add_refcount h 1 s;
            obj \<leftarrow> get_obj h s;
            if word_color (gb_buffered obj) \<noteq> GC_BLACK then do {
              s \<leftarrow> obj_set_buffered h (GC_SET_COLOR GC_BLACK) s;
              (case obj_props h handlers obj s of
                 None \<Rightarrow> Some ([], s)
               | Some None \<Rightarrow> Some ([], s)
               | Some (Some p) \<Rightarrow> Some (p, s))
            } else Some ([], s)
          }
      | IS_ARRAY ht \<Rightarrow>
          if ht \<noteq> symbol_table s then do { p \<leftarrow> arrays s ht; Some (p, s) } else Some ([], s)
      | IS_OTHER \<Rightarrow> Some ([], s)) }"

definition scan_black_edge :: "addr \<Rightarrow> gc_state \<Rightarrow> (bool \<times> gc_state) option" where
  "scan_black_edge pz s = do {
     s \<leftarrow> count_edge 1 pz s;
     z \<leftarrow> zvals s pz;
     Some (word_color (z_u z) \<noteq> GC_BLACK, s) }"

definition zval_scan_black :: "addr \<Rightarrow> gc_state \<Rightarrow> gc_state option" where
  "zval_scan_black pz = gc_traverse scan_black_enter scan_black_edge (Inl pz)"

definition zobj_scan_black :: "u32 \<Rightarrow> u64 \<Rightarrow> gc_state \<Rightarrow> gc_state option" where
  "zobj_scan_black h handlers s = do {
     s \<leftarrow> obj_set_buffered h (GC_SET_COLOR GC_BLACK) s;
     obj \<leftarrow> get_obj h s;
     (case obj_props h handlers obj s of
        None \<Rightarrow> Some s
      | Some None \<Rightarrow> Some s
      | Some (Some p) \<Rightarrow> gc_traverse scan_black_enter scan_black_edge (Inr p) s) }"

subsection \<open>Mark grey\<close>

definition mark_grey_enter :: "addr \<Rightarrow> gc_state \<Rightarrow> (addr list \<times> gc_state) option" where
  "mark_grey_enter pz s = do {
     z \<leftarrow> zvals s pz;
     if word_color (z_u z) \<noteq> GC_GREY then do {
       s \<leftarrow> zval_set_u pz (GC_SET_COLOR GC_GREY) s;
       (case z_value z of
          IS_OBJECT h handlers \<Rightarrow>
            if gc_buckets s = None then Some ([], s)
            else do {
              s \<leftarrow> obj_add_refcount h (-1) s;
              obj \<leftarrow> get_obj h s;
              if word_color (gb_buffered obj) \<noteq> GC_GREY then do {
                s \<leftarrow> obj_set_buffered h (GC_SET_COLOR GC_GREY) s;
                (case obj_props h handlers obj s of
                   None \<Rightarrow> Some ([], s)
                 | Some None \<Rightarrow> Some ([], s)
                 | Some (Some p) \<Rightarrow> Some (p, s))
              } else Some ([], s)
            }
        | IS_ARRAY ht \<Rightarrow>
            if ht = symbol_table s then do { s \<leftarrow> zval_set_u pz (GC_SET_COLOR GC_BLACK) s; Some ([], s) }
            else do { p \<leftarrow> arrays s ht; Some (p, s) }
        | IS_OTHER \<Rightarrow> Some ([], s))
     } else Some ([], s) }"

definition mark_grey_edge :: "addr \<Rightarrow> gc_state \<Rightarrow> (bool \<times> gc_state) option" where
  "mark_grey_edge pz s = do { s \<leftarrow> count_edge (-1) pz s; Some (True, s) }"

definition zval_mark_grey :: "addr \<Rightarrow> gc_state \<Rightarrow> gc_state option" where
  "zval_mark_grey pz = gc_traverse mark_grey_enter mark_grey_edge (Inl pz)"

definition zobj_mark_grey :: "u32 \<Rightarrow> u64 \<Rightarrow> gc_state \<Rightarrow> gc_state option" where
  "zobj_mark_grey h handlers s = do {
     obj \<leftarrow> get_obj h s;
     if word_color (gb_buffered obj) \<noteq> GC_GREY then do {
       s \<leftarrow> obj_set_buffered h (GC_SET_COLOR GC_GREY) s;
       (case obj_props h handlers obj s of
          None \<Rightarrow> Some s
        | Some None \<Rightarrow> Some s
        | Some (Some p) \<Rightarrow> gc_traverse mark_grey_enter mark_grey_edge (Inr p) s)
     } else Some s }"

text \<open>The body of the loop, and the loop, which runs until it is back at the head of the ring.\<close>

definition mark_root :: "addr \<Rightarrow> gc_root_buffer \<Rightarrow> gc_state \<Rightarrow> gc_state option" where
  "mark_root current b s =
     (if rb_handle b \<noteq> 0 then
        if gc_buckets s = None then Some s
        else do {
          obj \<leftarrow> get_obj (rb_handle b) s;
          if word_color (gb_buffered obj) = GC_PURPLE then
            (case rb_u b of Handlers handlers \<Rightarrow> zobj_mark_grey (rb_handle b) handlers s | Pz pz \<Rightarrow> None)
          else do {
            s \<leftarrow> obj_set_buffered (rb_handle b) (GC_SET_ADDRESS Null) s;
            gc_remove_from_buffer current s
          }
        }
      else
        (case rb_u b of
           Handlers handlers \<Rightarrow> None
         | Pz pz \<Rightarrow> do {
             z \<leftarrow> zvals s pz;
             if word_color (z_u z) = GC_PURPLE then zval_mark_grey pz s
             else do {
               s \<leftarrow> zval_set_u pz (GC_SET_ADDRESS Null) s;
               gc_remove_from_buffer current s
             }
           }))"

partial_function (option) mark_roots_loop :: "ptr \<Rightarrow> gc_state \<Rightarrow> gc_state option" where
  "mark_roots_loop p s =
     (if p = Some 0 then Some s
      else do {
        current \<leftarrow> p;
        b \<leftarrow> rbufs s current;
        s \<leftarrow> mark_root current b s;
        b \<leftarrow> rbufs s current;
        mark_roots_loop (rb_next b) s
      })"

definition gc_mark_roots :: "gc_state \<Rightarrow> gc_state option" where
  "gc_mark_roots s = do { b \<leftarrow> rbufs s 0; mark_roots_loop (rb_next b) s }"

subsection \<open>Scan\<close>

definition scan_enter :: "addr \<Rightarrow> gc_state \<Rightarrow> (addr list \<times> gc_state) option" where
  "scan_enter pz s = do {
     z \<leftarrow> zvals s pz;
     if word_color (z_u z) = GC_GREY then
       if z_refcount z > 0 then do { s \<leftarrow> zval_scan_black pz s; Some ([], s) }
       else do {
         s \<leftarrow> zval_set_u pz (GC_SET_COLOR GC_WHITE) s;
         (case z_value z of
            IS_OBJECT h handlers \<Rightarrow>
              if gc_buckets s = None then Some ([], s)
              else do {
                obj \<leftarrow> get_obj h s;
                if word_color (gb_buffered obj) = GC_GREY then
                  if gb_refcount obj > 0 then do { s \<leftarrow> zobj_scan_black h handlers s; Some ([], s) }
                  else do {
                    s \<leftarrow> obj_set_buffered h (GC_SET_COLOR GC_WHITE) s;
                    (case obj_props h handlers obj s of
                       None \<Rightarrow> Some ([], s)
                     | Some None \<Rightarrow> Some ([], s)
                     | Some (Some p) \<Rightarrow> Some (p, s))
                  }
                else Some ([], s)
              }
          | IS_ARRAY ht \<Rightarrow>
              if ht = symbol_table s then do { s \<leftarrow> zval_set_u pz (GC_SET_COLOR GC_BLACK) s; Some ([], s) }
              else do { p \<leftarrow> arrays s ht; Some (p, s) }
          | IS_OTHER \<Rightarrow> Some ([], s))
       }
     else Some ([], s) }"

definition scan_edge :: "addr \<Rightarrow> gc_state \<Rightarrow> (bool \<times> gc_state) option" where
  "scan_edge pz s = Some (True, s)"

definition zval_scan :: "addr \<Rightarrow> gc_state \<Rightarrow> gc_state option" where
  "zval_scan pz = gc_traverse scan_enter scan_edge (Inl pz)"

definition zobj_scan :: "u32 \<Rightarrow> u64 \<Rightarrow> gc_state \<Rightarrow> gc_state option" where
  "zobj_scan h handlers s =
     (if gc_buckets s = None then Some s
      else do {
        obj \<leftarrow> get_obj h s;
        if word_color (gb_buffered obj) = GC_GREY then
          if gb_refcount obj > 0 then zobj_scan_black h handlers s
          else do {
            s \<leftarrow> obj_set_buffered h (GC_SET_COLOR GC_WHITE) s;
            (case obj_props h handlers obj s of
               None \<Rightarrow> Some s
             | Some None \<Rightarrow> Some s
             | Some (Some p) \<Rightarrow> gc_traverse scan_enter scan_edge (Inr p) s)
          }
        else Some s
      })"

definition scan_root :: "gc_root_buffer \<Rightarrow> gc_state \<Rightarrow> gc_state option" where
  "scan_root b s =
     (if rb_handle b \<noteq> 0 then
        (case rb_u b of Handlers handlers \<Rightarrow> zobj_scan (rb_handle b) handlers s | Pz pz \<Rightarrow> None)
      else (case rb_u b of Handlers handlers \<Rightarrow> None | Pz pz \<Rightarrow> zval_scan pz s))"

partial_function (option) scan_roots_loop :: "ptr \<Rightarrow> gc_state \<Rightarrow> gc_state option" where
  "scan_roots_loop p s =
     (if p = Some 0 then Some s
      else do {
        current \<leftarrow> p;
        b \<leftarrow> rbufs s current;
        s \<leftarrow> scan_root b s;
        b \<leftarrow> rbufs s current;
        scan_roots_loop (rb_next b) s
      })"

definition gc_scan_roots :: "gc_state \<Rightarrow> gc_state option" where
  "gc_scan_roots s = do { b \<leftarrow> rbufs s 0; scan_roots_loop (rb_next b) s }"

subsection \<open>Collect white\<close>

text \<open>
  A function that returns early because the properties are \<open>NULL\<close> does not count the zval and does not put it into
  the list.
\<close>

definition collect_white_enter :: "addr \<Rightarrow> gc_state \<Rightarrow> (addr list \<times> gc_state) option" where
  "collect_white_enter pz s = do {
     z \<leftarrow> zvals s pz;
     if z_u z = white_word then do {
       s \<leftarrow> zval_set_u pz (GC_SET_COLOR GC_BLACK) s;
       (p, s) \<leftarrow>
         (case z_value z of
            IS_OBJECT h handlers \<Rightarrow>
              if gc_buckets s = None then Some (Some [], s)
              else do {
                obj \<leftarrow> get_obj h s;
                if gb_buffered obj = white_word then do {
                  s \<leftarrow> obj_set_buffered h (GC_SET_COLOR GC_BLACK) s;
                  (case obj_props h handlers obj s of
                     None \<Rightarrow> Some (Some [], s)
                   | Some None \<Rightarrow> Some (None, s)
                   | Some (Some p) \<Rightarrow> Some (Some p, s))
                } else Some (Some [], s)
              }
          | IS_ARRAY ht \<Rightarrow> do { p \<leftarrow> arrays s ht; Some (Some p, s) }
          | IS_OTHER \<Rightarrow> Some (Some [], s));
       (case p of
          None \<Rightarrow> Some ([], s)
        | Some p \<Rightarrow> do {
            s \<leftarrow> zval_add_refcount pz 1 s;
            s \<leftarrow> zval_set_u pz (\<lambda>_. pointer_word (zval_to_free s)) s;
            Some (p, s\<lparr>zval_to_free := Next pz\<rparr>)
          })
     } else Some ([], s) }"

definition collect_white_edge :: "addr \<Rightarrow> gc_state \<Rightarrow> (bool \<times> gc_state) option" where
  "collect_white_edge pz s = do { s \<leftarrow> count_edge 1 pz s; Some (True, s) }"

definition zval_collect_white :: "addr \<Rightarrow> gc_state \<Rightarrow> gc_state option" where
  "zval_collect_white pz = gc_traverse collect_white_enter collect_white_edge (Inl pz)"

definition zobj_collect_white :: "u32 \<Rightarrow> u64 \<Rightarrow> gc_state \<Rightarrow> gc_state option" where
  "zobj_collect_white h handlers s =
     (if gc_buckets s = None then Some s
      else do {
        obj \<leftarrow> get_obj h s;
        if gb_buffered obj = white_word then do {
          s \<leftarrow> obj_set_buffered h (GC_SET_COLOR GC_BLACK) s;
          (case obj_props h handlers obj s of
             None \<Rightarrow> Some s
           | Some None \<Rightarrow> Some s
           | Some (Some p) \<Rightarrow> gc_traverse collect_white_enter collect_white_edge (Inr p) s)
        } else Some s
      })"

definition collect_root :: "addr \<Rightarrow> gc_root_buffer \<Rightarrow> gc_state \<Rightarrow> gc_state option" where
  "collect_root current b s = do {
     s \<leftarrow> (if rb_handle b \<noteq> 0 then
              if gc_buckets s = None then Some s
              else do {
                s \<leftarrow> obj_set_buffered (rb_handle b) (GC_SET_ADDRESS Null) s;
                (case rb_u b of Handlers handlers \<Rightarrow> zobj_collect_white (rb_handle b) handlers s | Pz pz \<Rightarrow> None)
              }
            else
              (case rb_u b of
                 Handlers handlers \<Rightarrow> None
               | Pz pz \<Rightarrow> do { s \<leftarrow> zval_set_u pz (GC_SET_ADDRESS Null) s; zval_collect_white pz s }));
     gc_remove_from_buffer current s }"

partial_function (option) collect_roots_loop :: "ptr \<Rightarrow> gc_state \<Rightarrow> gc_state option" where
  "collect_roots_loop p s =
     (if p = Some 0 then Some s
      else do {
        current \<leftarrow> p;
        b \<leftarrow> rbufs s current;
        s \<leftarrow> collect_root current b s;
        b \<leftarrow> rbufs s current;
        collect_roots_loop (rb_next b) s
      })"

definition gc_collect_roots :: "gc_state \<Rightarrow> gc_state option" where
  "gc_collect_roots s = do { b \<leftarrow> rbufs s 0; collect_roots_loop (rb_next b) s }"

subsection \<open>The three phases, as \<open>gc_collect_cycles\<close> calls them\<close>

definition gc_phases :: "gc_state \<Rightarrow> gc_state option" where
  "gc_phases s = do { s \<leftarrow> gc_mark_roots s; s \<leftarrow> gc_scan_roots s; gc_collect_roots s }"

section \<open>A run of the collector\<close>

text \<open>
  What the code calls to destroy is an argument: the destructor of an object, which is a function pointer in its
  bucket, and the functions of other components, which act on a state that is not this one.
\<close>

record gc_env =
  obj_dtor :: "u32 \<Rightarrow> gc_state \<Rightarrow> gc_state option"
  del_ref_by_handle_ex :: "u32 \<Rightarrow> u64 \<Rightarrow> gc_state \<Rightarrow> gc_state option"
  hash_destroy :: "addr \<Rightarrow> gc_state \<Rightarrow> gc_state option"
  zval_dtor :: "addr \<Rightarrow> gc_state \<Rightarrow> gc_state option"

text \<open>\<open>u.next\<close> of a zval in the list; the pointer is not valid if the color bits are set.\<close>

definition zval_next :: "addr \<Rightarrow> gc_state \<Rightarrow> gc_address option" where
  "zval_next a s = do { z \<leftarrow> zvals s a; if word_color (z_u z) = GC_BLACK then Some (word_address (z_u z)) else None }"

definition zval_ptr :: "gc_address \<Rightarrow> addr option" where
  "zval_ptr p = (case p of Next a \<Rightarrow> Some a | _ \<Rightarrow> None)"

definition call_destructor :: "gc_env \<Rightarrow> addr \<Rightarrow> gc_state \<Rightarrow> gc_state option" where
  "call_destructor env a s = do {
     z \<leftarrow> zvals s a;
     (case z_value z of
        IS_OBJECT h handlers \<Rightarrow>
          if gc_buckets s = None then Some s
          else do {
            obj \<leftarrow> get_obj h s;
            if gb_valid obj \<and> gb_refcount obj \<le> 0 \<and> gb_dtor obj \<noteq> 0 \<and> \<not> gb_destructor_called obj then do {
              s \<leftarrow> upd_obj h (\<lambda>b. b\<lparr>gb_destructor_called := True\<rparr>) s;
              s \<leftarrow> obj_add_refcount h 1 s;
              s \<leftarrow> obj_dtor env h s;
              obj_add_refcount h (-1) s
            } else Some s
          }
      | _ \<Rightarrow> Some s) }"

partial_function (option) call_destructors :: "gc_env \<Rightarrow> gc_address \<Rightarrow> u32 \<Rightarrow> gc_state \<Rightarrow> (u32 \<times> gc_state) option" where
  "call_destructors env p n s =
     (if p = FREE_LIST_END then Some (n, s)
      else do {
        a \<leftarrow> zval_ptr p;
        s \<leftarrow> call_destructor env a s;
        p \<leftarrow> zval_next a s;
        call_destructors env p (n + 1) s
      })"

definition zval_set_null :: "addr \<Rightarrow> gc_state \<Rightarrow> gc_state option" where
  "zval_set_null a = upd_zval a (\<lambda>z. z\<lparr>z_value := IS_OTHER\<rparr>)"

definition destroy_zval :: "gc_env \<Rightarrow> addr \<Rightarrow> gc_state \<Rightarrow> gc_state option" where
  "destroy_zval env a s = do {
     z \<leftarrow> zvals s a;
     (case z_value z of
        IS_OBJECT h handlers \<Rightarrow>
          if gc_buckets s = None then Some s
          else do {
            obj \<leftarrow> get_obj h s;
            if gb_valid obj \<and> gb_refcount obj \<le> 0 then do {
              s \<leftarrow> upd_obj h (\<lambda>b. b\<lparr>gb_refcount := 1\<rparr>) s;
              s \<leftarrow> zval_set_null a s;
              del_ref_by_handle_ex env h handlers s
            } else Some s
          }
      | IS_ARRAY ht \<Rightarrow> do {
          s \<leftarrow> zval_set_null a s;
          s \<leftarrow> hash_destroy env ht s;
          Some (s\<lparr>arrays := (arrays s)(ht := None)\<rparr>)
        }
      | IS_OTHER \<Rightarrow> do { s \<leftarrow> zval_dtor env a s; zval_set_null a s }) }"

partial_function (option) destroy_zvals :: "gc_env \<Rightarrow> gc_address \<Rightarrow> gc_state \<Rightarrow> gc_state option" where
  "destroy_zvals env p s =
     (if p = FREE_LIST_END then Some s
      else do {
        a \<leftarrow> zval_ptr p;
        q \<leftarrow> zval_next a s;
        s \<leftarrow> destroy_zval env a (s\<lparr>next_to_free := q\<rparr>);
        destroy_zvals env (next_to_free s) s
      })"

partial_function (option) free_zvals :: "gc_address \<Rightarrow> gc_state \<Rightarrow> gc_state option" where
  "free_zvals p s =
     (if p = FREE_LIST_END then Some s
      else do {
        a \<leftarrow> zval_ptr p;
        q \<leftarrow> zval_next a s;
        free_zvals q (s\<lparr>zvals := (zvals s)(a := None)\<rparr>)
      })"

definition gc_collect_cycles :: "gc_env \<Rightarrow> gc_state \<Rightarrow> (u32 \<times> gc_state) option" where
  "gc_collect_cycles env s = do {
     roots \<leftarrow> rbufs s 0;
     if rb_next roots \<noteq> Some 0 then
       if gc_active s then Some (0, s)
       else do {
         s \<leftarrow> gc_phases (s\<lparr>gc_runs := gc_runs s + 1, zval_to_free := FREE_LIST_END, gc_active := True\<rparr>);
         let orig_free_list = free_list s;
         let orig_next_to_free = next_to_free s;
         let p = zval_to_free s;
         (count, s) \<leftarrow> call_destructors env p 0 (s\<lparr>free_list := p, zval_to_free := Null, gc_active := False\<rparr>);
         s \<leftarrow> destroy_zvals env (free_list s) s;
         s \<leftarrow> free_zvals (free_list s) s;
         Some (count, s\<lparr>collected := collected s + count, free_list := orig_free_list, next_to_free := orig_next_to_free\<rparr>)
       }
     else Some (0, s) }"

section \<open>Possible roots\<close>

text \<open>Is a pointer not one into the buffer, as \<open>GC_ZVAL_ADDRESS(zv) < GC_G(buf) || GC_ZVAL_ADDRESS(zv) >= GC_G(last_unused)\<close>?\<close>

definition outside_buffer :: "gc_state \<Rightarrow> gc_address \<Rightarrow> bool" where
  "outside_buffer s p = (case p of Root b \<Rightarrow> \<not> (gc_buf s \<and> 1 \<le> b \<and> (\<exists>l. last_unused s = Some l \<and> b < l)) | _ \<Rightarrow> True)"

text \<open>An unused buffer, if there is one without a run of the collector.\<close>

definition take_unused :: "gc_state \<Rightarrow> (addr option \<times> gc_state) option" where
  "take_unused s = (case unused s of
       Some root \<Rightarrow> do { b \<leftarrow> rbufs s root; Some (Some root, s\<lparr>unused := rb_prev b\<rparr>) }
     | None \<Rightarrow>
         if first_unused s \<noteq> last_unused s then do { root \<leftarrow> first_unused s; Some (Some root, s\<lparr>first_unused := Some (Suc root)\<rparr>) }
         else Some (None, s))"

text \<open>The buffer becomes the first of the ring.\<close>

definition link_root :: "addr \<Rightarrow> gc_state \<Rightarrow> gc_state option" where
  "link_root root s = do {
     head \<leftarrow> rbufs s 0;
     s \<leftarrow> upd_rbuf (Some root) (set_rb_next (rb_next head)) s;
     s \<leftarrow> upd_rbuf (Some root) (set_rb_prev (Some 0)) s;
     head \<leftarrow> rbufs s 0;
     s \<leftarrow> upd_rbuf (rb_next head) (set_rb_prev (Some root)) s;
     upd_rbuf (Some 0) (set_rb_next (Some root)) s }"

definition fill_root :: "addr \<Rightarrow> u32 \<Rightarrow> root_union \<Rightarrow> gc_state \<Rightarrow> gc_state option" where
  "fill_root root h u = upd_rbuf (Some root) (\<lambda>b. b\<lparr>rb_handle := h, rb_u := u\<rparr>)"

text \<open>The run when the buffer is full; \<open>paint\<close> makes the zval or its object purple again.\<close>

definition collect_and_take :: "gc_env \<Rightarrow> addr \<Rightarrow> (gc_state \<Rightarrow> gc_state option) \<Rightarrow> gc_state \<Rightarrow> (addr option \<times> gc_state) option" where
  "collect_and_take env zv paint s =
     (if \<not> gc_enabled s then do { s \<leftarrow> zval_set_u zv (GC_SET_COLOR GC_BLACK) s; Some (None, s) }
      else do {
        s \<leftarrow> zval_add_refcount zv 1 s;
        (count, s) \<leftarrow> gc_collect_cycles env s;
        s \<leftarrow> zval_add_refcount zv (-1) s;
        (case unused s of
           None \<Rightarrow> Some (None, s)
         | Some root \<Rightarrow> do { s \<leftarrow> paint s; b \<leftarrow> rbufs s root; Some (Some root, s\<lparr>unused := rb_prev b\<rparr>) })
      })"

definition gc_zobj_possible_root :: "gc_env \<Rightarrow> addr \<Rightarrow> gc_state \<Rightarrow> gc_state option" where
  "gc_zobj_possible_root env zv s = do {
     z \<leftarrow> zvals s zv;
     (case z_value z of
        IS_OBJECT h handlers \<Rightarrow>
          if get_properties s handlers h = None \<or> gc_buckets s = None then Some s
          else do {
            obj \<leftarrow> get_obj h s;
            if word_color (gb_buffered obj) \<noteq> GC_PURPLE then do {
              s \<leftarrow> obj_set_buffered h (GC_SET_COLOR GC_PURPLE) s;
              if word_address (gb_buffered obj) = Null then do {
                (root, s) \<leftarrow> take_unused s;
                (root, s) \<leftarrow> (if root = None then collect_and_take env zv (obj_set_buffered h (GC_SET_COLOR GC_PURPLE)) s else Some (root, s));
                (case root of
                   None \<Rightarrow> Some s
                 | Some root \<Rightarrow> do {
                     s \<leftarrow> link_root root s;
                     s \<leftarrow> obj_set_buffered h (GC_SET_ADDRESS (Root root)) s;
                     fill_root root h (Handlers handlers) s
                   })
              } else Some s
            } else Some s
          }
      | _ \<Rightarrow> None) }"

definition gc_zval_possible_root :: "gc_env \<Rightarrow> addr \<Rightarrow> gc_state \<Rightarrow> gc_state option" where
  "gc_zval_possible_root env zv s = do {
     z \<leftarrow> zvals s zv;
     if free_list s \<noteq> Null \<and> word_address (z_u z) \<noteq> Null \<and> word_color (z_u z) = GC_BLACK \<and> outside_buffer s (word_address (z_u z))
     then Some s
     else (case z_value z of
        IS_OBJECT h handlers \<Rightarrow>
          if gc_buckets s = None then Some s
          else do { obj \<leftarrow> get_obj h s; if gb_valid obj then gc_zobj_possible_root env zv s else Some s }
      | _ \<Rightarrow>
          if word_color (z_u z) \<noteq> GC_PURPLE then do {
            s \<leftarrow> zval_set_u zv (GC_SET_COLOR GC_PURPLE) s;
            if word_address (z_u z) = Null then do {
              (root, s) \<leftarrow> take_unused s;
              (root, s) \<leftarrow> (if root = None then collect_and_take env zv (zval_set_u zv (GC_SET_COLOR GC_PURPLE)) s else Some (root, s));
              (case root of
                 None \<Rightarrow> Some s
               | Some root \<Rightarrow> do {
                   s \<leftarrow> link_root root s;
                   s \<leftarrow> zval_set_u zv (GC_SET_ADDRESS (Root root)) s;
                   fill_root root 0 (Pz zv) s
                 })
            } else Some s
          } else Some s) }"

definition gc_zval_check_possible_root :: "gc_env \<Rightarrow> addr \<Rightarrow> gc_state \<Rightarrow> gc_state option" where
  "gc_zval_check_possible_root env zv s = do {
     z \<leftarrow> zvals s zv;
     if z_value z \<noteq> IS_OTHER then gc_zval_possible_root env zv s else Some s }"

definition gc_remove_zval_from_buffer :: "addr \<Rightarrow> gc_state \<Rightarrow> gc_state option" where
  "gc_remove_zval_from_buffer zv s = do {
     z \<leftarrow> zvals s zv;
     if free_list s \<noteq> Null \<and> word_color (z_u z) = GC_BLACK \<and> outside_buffer s (word_address (z_u z)) then
       if next_to_free s = Next zv then Some (s\<lparr>next_to_free := word_address (z_u z)\<rparr>) else Some s
     else (case word_address (z_u z) of
        Root root \<Rightarrow> do { s \<leftarrow> gc_remove_from_buffer root s; zval_set_u zv (\<lambda>_. pointer_word Null) s }
      | _ \<Rightarrow> None) }"

text \<open>\<open>GC_REMOVE_ZVAL_FROM_BUFFER\<close> and \<open>GC_REMOVE_ZOBJ_FROM_BUFFER\<close>\<close>

definition GC_REMOVE_ZVAL_FROM_BUFFER :: "addr \<Rightarrow> gc_state \<Rightarrow> gc_state option" where
  "GC_REMOVE_ZVAL_FROM_BUFFER zv s = do {
     z \<leftarrow> zvals s zv;
     if word_address (z_u z) \<noteq> Null then gc_remove_zval_from_buffer zv s else Some s }"

definition GC_REMOVE_ZOBJ_FROM_BUFFER :: "u32 \<Rightarrow> gc_state \<Rightarrow> gc_state option" where
  "GC_REMOVE_ZOBJ_FROM_BUFFER h s = do {
     obj \<leftarrow> get_obj h s;
     if word_address (gb_buffered obj) \<noteq> Null \<and> \<not> gc_active s then
       (case word_address (gb_buffered obj) of
          Root root \<Rightarrow> do { s \<leftarrow> gc_remove_from_buffer root s; obj_set_buffered h (\<lambda>_. pointer_word Null) s }
        | _ \<Rightarrow> None)
     else Some s }"

end
