(* ===== verification/ZendGcGraph.thy ===== *)
theory ZendGcGraph imports ZendGc "HOL-Library.Multiset" begin

text \<open>
  The graph the cycle collector walks: its nodes are the zvals and the objects, its edges the references the collector
  counts. A view of the state (words, reference counts, shape) that the memory primitives act on, and the rule for
  the traversals: what the two parts of a traversal have to keep is kept by all of it, and it ends.
\<close>

section \<open>Nodes and edges\<close>

datatype node = Zv addr | Ob u32

definition nodes :: "gc_state \<Rightarrow> node set" where
  "nodes s = Zv ` dom (zvals s) \<union> {Ob h | h. get_obj h s \<noteq> None}"

definition word_of :: "gc_state \<Rightarrow> node \<Rightarrow> gc_word" where
  "word_of s n = (case n of
       Zv a \<Rightarrow> (case zvals s a of None \<Rightarrow> pointer_word Null | Some z \<Rightarrow> z_u z)
     | Ob h \<Rightarrow> (case get_obj h s of None \<Rightarrow> pointer_word Null | Some b \<Rightarrow> gb_buffered b))"

abbreviation color_of :: "gc_state \<Rightarrow> node \<Rightarrow> gc_color" where
  "color_of s n \<equiv> word_color (word_of s n)"

abbreviation address_of :: "gc_state \<Rightarrow> node \<Rightarrow> gc_address" where
  "address_of s n \<equiv> word_address (word_of s n)"

definition rc :: "gc_state \<Rightarrow> node \<Rightarrow> nat" where
  "rc s n = (case n of
       Zv a \<Rightarrow> (case zvals s a of None \<Rightarrow> 0 | Some z \<Rightarrow> unat (z_refcount z))
     | Ob h \<Rightarrow> (case get_obj h s of None \<Rightarrow> 0 | Some b \<Rightarrow> unat (gb_refcount b)))"

text \<open>What a run of the traversals leaves as it is: the references, and everything else but words and counts.\<close>

definition shape :: "gc_state \<Rightarrow> (addr \<rightharpoonup> zvalue) \<times> (bool \<times> bool \<times> u64) list option \<times> (addr \<rightharpoonup> addr list) \<times> addr \<times>
    (u64 \<Rightarrow> u32 \<Rightarrow> addr list option option)" where
  "shape s = (\<lambda>a. map_option z_value (zvals s a),
     map_option (map (\<lambda>b. (gb_destructor_called b, gb_valid b, gb_dtor b))) (gc_buckets s),
     arrays s, symbol_table s, get_properties s)"

definition rest :: "gc_state \<Rightarrow> gc_state" where
  "rest s = s\<lparr>zvals := Map.empty, gc_buckets := None\<rparr>"

definition symtab :: "gc_state \<Rightarrow> node \<Rightarrow> bool" where
  "symtab s n \<longleftrightarrow> (\<exists>a z. n = Zv a \<and> zvals s a = Some z \<and> is_symbol_table s z)"

text \<open>\<open>hts\<close> gives the handlers of every object.\<close>

definition props_of :: "(u32 \<Rightarrow> u64) \<Rightarrow> gc_state \<Rightarrow> u32 \<Rightarrow> addr list" where
  "props_of hts s h = (case get_obj h s of None \<Rightarrow> [] | Some b \<Rightarrow>
     (case obj_props h (hts h) b s of None \<Rightarrow> [] | Some None \<Rightarrow> [] | Some (Some p) \<Rightarrow> p))"

definition succs :: "(u32 \<Rightarrow> u64) \<Rightarrow> gc_state \<Rightarrow> node \<Rightarrow> node list" where
  "succs hts s n = (case n of
       Zv a \<Rightarrow> (case zvals s a of None \<Rightarrow> [] | Some z \<Rightarrow>
         (case z_value z of
            IS_OBJECT h handlers \<Rightarrow> [Ob h]
          | IS_ARRAY t \<Rightarrow> if t = symbol_table s then [] else (case arrays s t of None \<Rightarrow> [] | Some p \<Rightarrow> map Zv p)
          | IS_OTHER \<Rightarrow> []))
     | Ob h \<Rightarrow> map Zv (props_of hts s h))"

text \<open>Every reference leads to a zval or an object that exists, and the handlers give properties.\<close>

definition gc_wf :: "(u32 \<Rightarrow> u64) \<Rightarrow> gc_state \<Rightarrow> bool" where
  "gc_wf hts s \<longleftrightarrow> finite (dom (zvals s)) \<and> gc_buckets s \<noteq> None \<and>
     (\<forall>a z. zvals s a = Some z \<longrightarrow>
       (case z_value z of
          IS_OBJECT h handlers \<Rightarrow> get_obj h s \<noteq> None \<and> handlers = hts h
        | IS_ARRAY t \<Rightarrow> t \<noteq> symbol_table s \<longrightarrow> arrays s t \<noteq> None
        | IS_OTHER \<Rightarrow> True)) \<and>
     (\<forall>h b. get_obj h s = Some b \<longrightarrow> gb_valid b \<longrightarrow> get_properties s (hts h) h \<noteq> Some None) \<and>
     (\<forall>n\<in>nodes s. set (succs hts s n) \<subseteq> nodes s)"

section \<open>What depends on the shape only\<close>

lemma shape_zval: "shape s = shape t \<Longrightarrow> map_option z_value (zvals s a) = map_option z_value (zvals t a)"
  by (auto simp: shape_def dest: fun_cong)

lemma shape_obj: "shape s = shape t \<Longrightarrow>
    map_option (\<lambda>b. (gb_destructor_called b, gb_valid b, gb_dtor b)) (get_obj h s) =
    map_option (\<lambda>b. (gb_destructor_called b, gb_valid b, gb_dtor b)) (get_obj h t)"
proof -
  assume sh: "shape s = shape t"
  let ?f = "\<lambda>b. (gb_destructor_called b, gb_valid b, gb_dtor b)"
  have eq: "map_option (map ?f) (gc_buckets s) = map_option (map ?f) (gc_buckets t)"
    using sh unfolding shape_def by (simp only: prod.inject)
  show ?thesis
  proof (cases "gc_buckets s")
    case None
    with eq show ?thesis by (simp add: get_obj_def)
  next
    case (Some bs)
    with eq obtain cs where cs: "gc_buckets t = Some cs" "map ?f bs = map ?f cs" by (cases "gc_buckets t") auto
    from cs(2) have len: "length bs = length cs" by (rule map_eq_imp_length_eq)
    show ?thesis
    proof (cases "unat h < length bs")
      case True
      have "map ?f bs ! unat h = map ?f cs ! unat h" by (simp only: cs(2))
      with True len have "?f (bs ! unat h) = ?f (cs ! unat h)" by (simp only: nth_map)
      with Some cs(1) len True show ?thesis by (simp add: get_obj_def)
    next
      case False
      with Some cs(1) len show ?thesis by (simp add: get_obj_def)
    qed
  qed
qed

lemma shape_obj_iff: "shape s = shape t \<Longrightarrow> get_obj h s = None \<longleftrightarrow> get_obj h t = None"
  using shape_obj [of s t h] by (cases "get_obj h s"; cases "get_obj h t") auto

lemma shape_zval_iff: "shape s = shape t \<Longrightarrow> zvals s a = None \<longleftrightarrow> zvals t a = None"
  using shape_zval [of s t a] by (cases "zvals s a"; cases "zvals t a") auto

lemma shape_fields: "shape s = shape t \<Longrightarrow> arrays s = arrays t \<and> symbol_table s = symbol_table t \<and>
    get_properties s = get_properties t \<and> (gc_buckets s = None \<longleftrightarrow> gc_buckets t = None)"
  by (auto simp: shape_def)

lemma shape_valid: "shape s = shape t \<Longrightarrow> get_obj h s = Some b \<Longrightarrow> \<exists>c. get_obj h t = Some c \<and> gb_valid c = gb_valid b"
  using shape_obj [of s t h] by (cases "get_obj h t") auto

lemma shape_value: "shape s = shape t \<Longrightarrow> zvals s a = Some z \<Longrightarrow> \<exists>y. zvals t a = Some y \<and> z_value y = z_value z"
  using shape_zval [of s t a] by (cases "zvals t a") auto

lemma shape_nodes:
  assumes "shape s = shape t"
  shows "nodes s = nodes t"
proof -
  have "dom (zvals s) = dom (zvals t)" using shape_zval_iff [OF assms] by (auto simp: dom_def)
  then show ?thesis using shape_obj_iff [OF assms] by (simp add: nodes_def)
qed

lemma shape_symtab: "shape s = shape t \<Longrightarrow> symtab s = symtab t"
proof
  fix n
  assume sh: "shape s = shape t"
  then show "symtab s n = symtab t n"
    using shape_fields [OF sh] unfolding symtab_def is_symbol_table_def
    by (metis shape_value [OF sh] shape_value [OF sh [symmetric]])
qed

lemma shape_props: "shape s = shape t \<Longrightarrow> props_of hts s h = props_of hts t h"
proof -
  assume sh: "shape s = shape t"
  show ?thesis
  proof (cases "get_obj h s")
    case None
    then show ?thesis using shape_obj_iff [OF sh, of h] by (simp add: props_of_def)
  next
    case (Some b)
    from shape_valid [OF sh Some] obtain c where "get_obj h t = Some c" "gb_valid c = gb_valid b" by blast
    with Some shape_fields [OF sh] show ?thesis by (simp add: props_of_def obj_props_def)
  qed
qed

lemma shape_succs: "shape s = shape t \<Longrightarrow> succs hts s = succs hts t"
proof
  fix n
  assume sh: "shape s = shape t"
  show "succs hts s n = succs hts t n"
  proof (cases n)
    case (Zv a)
    show ?thesis
    proof (cases "zvals s a")
      case None
      then show ?thesis using shape_zval_iff [OF sh, of a] by (simp add: succs_def Zv)
    next
      case (Some z)
      from shape_value [OF sh Some] obtain y where "zvals t a = Some y" "z_value y = z_value z" by blast
      with Some shape_fields [OF sh] show ?thesis by (auto simp: succs_def Zv split: zvalue.split)
    qed
  next
    case (Ob h)
    then show ?thesis using shape_props [OF sh] by (simp add: succs_def)
  qed
qed

text \<open>The parts of \<open>gc_wf\<close>, in terms of the successors.\<close>

lemma wf_object: "gc_wf hts s \<Longrightarrow> zvals s a = Some z \<Longrightarrow> z_value z = IS_OBJECT h handlers \<Longrightarrow>
    (\<exists>b. get_obj h s = Some b) \<and> handlers = hts h \<and> succs hts s (Zv a) = [Ob h]"
  unfolding gc_wf_def by (auto simp: succs_def split: zvalue.splits)

lemma wf_array: "gc_wf hts s \<Longrightarrow> zvals s a = Some z \<Longrightarrow> z_value z = IS_ARRAY t \<Longrightarrow> t \<noteq> symbol_table s \<Longrightarrow>
    \<exists>p. arrays s t = Some p \<and> succs hts s (Zv a) = map Zv p"
  unfolding gc_wf_def by (fastforce simp: succs_def split: zvalue.splits)

lemma wf_other: "zvals s a = Some z \<Longrightarrow> z_value z = IS_OTHER \<or> is_symbol_table s z \<Longrightarrow> succs hts s (Zv a) = []"
  by (auto simp: succs_def is_symbol_table_def)

lemma wf_props: "gc_wf hts s \<Longrightarrow> get_obj h s = Some b \<Longrightarrow>
    obj_props h (hts h) b s \<noteq> Some None \<and> succs hts s (Ob h) = (case obj_props h (hts h) b s of Some (Some p) \<Rightarrow> map Zv p | _ \<Rightarrow> [])"
  unfolding gc_wf_def by (auto simp: succs_def props_of_def obj_props_def split: option.split)

lemma wf_succs: "gc_wf hts s \<Longrightarrow> n \<in> nodes s \<Longrightarrow> set (succs hts s n) \<subseteq> nodes s"
  by (simp add: gc_wf_def)

lemma shape_wf:
  assumes sh: "shape s = shape t" and wf: "gc_wf hts s"
  shows "gc_wf hts t"
proof -
  have f: "arrays s = arrays t" "symbol_table s = symbol_table t" "get_properties s = get_properties t"
    "gc_buckets s = None \<longleftrightarrow> gc_buckets t = None" using shape_fields [OF sh] by auto
  have dom: "dom (zvals t) = dom (zvals s)" using shape_zval_iff [OF sh] by (auto simp: dom_def)
  have z: "case z_value y of IS_OBJECT h handlers \<Rightarrow> get_obj h t \<noteq> None \<and> handlers = hts h
      | IS_ARRAY u \<Rightarrow> u \<noteq> symbol_table t \<longrightarrow> arrays t u \<noteq> None | IS_OTHER \<Rightarrow> True" if y: "zvals t a = Some y" for a y
  proof -
    from shape_value [OF sh [symmetric] y] obtain z where z: "zvals s a = Some z" "z_value z = z_value y" by blast
    show ?thesis
    proof (cases "z_value y")
      case (IS_ARRAY u)
      then show ?thesis using wf_array [OF wf z(1), of u] z(2) f by auto
    next
      case (IS_OBJECT h handlers)
      then show ?thesis using wf_object [OF wf z(1), of h handlers] z(2) shape_obj_iff [OF sh, of h] by auto
    qed simp
  qed
  have o: "get_properties t (hts h) h \<noteq> Some None" if b: "get_obj h t = Some b" "gb_valid b" for h b
  proof -
    from shape_valid [OF sh [symmetric] b(1)] obtain c where "get_obj h s = Some c" "gb_valid c = gb_valid b" by blast
    then show ?thesis using wf b(2) f(3) by (simp add: gc_wf_def)
  qed
  show ?thesis using wf f(4) dom z o
    by (simp add: gc_wf_def shape_succs [OF sh, symmetric] shape_nodes [OF sh, symmetric])
qed

lemma obj_props_succs:
  assumes wf: "gc_wf hts s0" and b: "get_obj h t = Some b" and t: "shape t = shape s0" and s: "shape s = shape s0"
  obtains p where "succs hts s0 (Ob h) = map Zv p" "obj_props h (hts h) b s = Some (Some p)"
  | "succs hts s0 (Ob h) = []" "obj_props h (hts h) b s = None"
proof -
  have wft: "gc_wf hts t" by (rule shape_wf [OF t [symmetric] wf])
  have "get_properties t = get_properties s" using shape_fields [OF t] shape_fields [OF s] by simp
  then have "obj_props h (hts h) b s = obj_props h (hts h) b t" by (simp add: obj_props_def)
  moreover have "succs hts s0 (Ob h) = succs hts t (Ob h)" using shape_succs [OF t] by simp
  ultimately show ?thesis using wf_props [OF wft b] that by (auto split: option.splits)
qed

section \<open>The primitives\<close>

lemma nodes_Zv [simp]: "Zv a \<in> nodes s \<longleftrightarrow> (\<exists>z. zvals s a = Some z)"
  by (auto simp: nodes_def)

lemma nodes_Ob [simp]: "Ob h \<in> nodes s \<longleftrightarrow> (\<exists>b. get_obj h s = Some b)"
  by (auto simp: nodes_def)

lemma upd_zval_views:
  assumes "zvals s a = Some z" "z_value (f z) = z_value z"
  obtains s' where "upd_zval a f s = Some s'" "shape s' = shape s" "rest s' = rest s"
    "rc s' = (rc s)(Zv a := unat (z_refcount (f z)))" "word_of s' = (word_of s)(Zv a := z_u (f z))" "zvals s' a = Some (f z)"
proof (rule that)
  show "upd_zval a f s = Some (s\<lparr>zvals := (zvals s)(a \<mapsto> f z)\<rparr>)" using assms by (simp add: upd_zval_def)
qed (use assms in \<open>auto simp: shape_def rest_def rc_def word_of_def fun_eq_iff get_obj_def split: node.splits\<close>)

lemma get_obj_upd: "get_obj h s = Some b \<Longrightarrow> upd_obj h f s = Some s' \<Longrightarrow>
    get_obj g s' = (if g = h then Some (f b) else get_obj g s)"
  by (auto simp: get_obj_def upd_obj_def nth_list_update split: option.splits if_splits simp flip: word_unat_eq_iff)

lemma upd_obj_views:
  assumes "get_obj h s = Some b"
    and "gb_destructor_called (f b) = gb_destructor_called b" "gb_valid (f b) = gb_valid b" "gb_dtor (f b) = gb_dtor b"
  obtains s' where "upd_obj h f s = Some s'" "shape s' = shape s" "rest s' = rest s"
    "rc s' = (rc s)(Ob h := unat (gb_refcount (f b)))" "word_of s' = (word_of s)(Ob h := gb_buffered (f b))" "get_obj h s' = Some (f b)"
proof -
  from assms(1) obtain bs where bs: "gc_buckets s = Some bs" "unat h < length bs" "b = bs ! unat h"
    by (auto simp: get_obj_def split: option.splits if_splits)
  let ?s = "s\<lparr>gc_buckets := Some (bs[unat h := f b])\<rparr>"
  have upd: "upd_obj h f s = Some ?s" using bs by (simp add: upd_obj_def)
  note g = get_obj_upd [OF assms(1) upd]
  have "map (\<lambda>b. (gb_destructor_called b, gb_valid b, gb_dtor b)) (bs[unat h := f b]) =
      map (\<lambda>b. (gb_destructor_called b, gb_valid b, gb_dtor b)) bs"
    using assms(2-4) bs(2,3) by (simp add: map_update list_update_same_conv)
  then have sh: "shape ?s = shape s" using bs(1) by (simp add: shape_def)
  show ?thesis
  proof (rule that [OF upd sh])
    show "rc ?s = (rc s)(Ob h := unat (gb_refcount (f b)))" "word_of ?s = (word_of s)(Ob h := gb_buffered (f b))"
      using g by (auto simp: rc_def word_of_def fun_eq_iff split: node.splits)
    show "get_obj h ?s = Some (f b)" using g by simp
  qed (simp_all add: rest_def)
qed

lemma zval_set_u_views:
  assumes "zvals s a = Some z"
  obtains s' where "zval_set_u a f s = Some s'" "shape s' = shape s" "rest s' = rest s"
    "rc s' = rc s" "word_of s' = (word_of s)(Zv a := f (word_of s (Zv a)))" "zvals s' a = Some (z\<lparr>z_u := f (z_u z)\<rparr>)"
  using upd_zval_views [OF assms, of "\<lambda>z. z\<lparr>z_u := f (z_u z)\<rparr>"] assms
  by (auto simp: zval_set_u_def word_of_def rc_def fun_upd_idem)

lemma zval_add_refcount_views:
  assumes "zvals s a = Some z"
  obtains s' where "zval_add_refcount a d s = Some s'" "shape s' = shape s" "rest s' = rest s"
    "rc s' = (rc s)(Zv a := unat (z_refcount z + d))" "word_of s' = word_of s" "zvals s' a = Some (z\<lparr>z_refcount := z_refcount z + d\<rparr>)"
  using upd_zval_views [OF assms, of "\<lambda>z. z\<lparr>z_refcount := z_refcount z + d\<rparr>"] assms
  by (auto simp: zval_add_refcount_def word_of_def fun_upd_idem)

lemma obj_set_buffered_views:
  assumes "get_obj h s = Some b"
  obtains s' where "obj_set_buffered h f s = Some s'" "shape s' = shape s" "rest s' = rest s"
    "rc s' = rc s" "word_of s' = (word_of s)(Ob h := f (word_of s (Ob h)))" "get_obj h s' = Some (b\<lparr>gb_buffered := f (gb_buffered b)\<rparr>)"
  using upd_obj_views [OF assms, of "\<lambda>b. b\<lparr>gb_buffered := f (gb_buffered b)\<rparr>"] assms
  by (auto simp: obj_set_buffered_def word_of_def rc_def fun_upd_idem)

lemma obj_add_refcount_views:
  assumes "get_obj h s = Some b"
  obtains s' where "obj_add_refcount h d s = Some s'" "shape s' = shape s" "rest s' = rest s"
    "rc s' = (rc s)(Ob h := unat (gb_refcount b + d))" "word_of s' = word_of s" "get_obj h s' = Some (b\<lparr>gb_refcount := gb_refcount b + d\<rparr>)"
  using upd_obj_views [OF assms, of "\<lambda>b. b\<lparr>gb_refcount := gb_refcount b + d\<rparr>"] assms
  by (auto simp: obj_add_refcount_def word_of_def fun_upd_idem)

lemma unat_dec: "0 < unat (w :: u32) \<Longrightarrow> unat (w + -1) = unat w - 1"
  using unat_minus_one [of w] by (metis add_uminus_conv_diff unat_gt_0)

lemma unat_inc: "unat (w :: u32) + 1 < 2 ^ 32 \<Longrightarrow> unat (w + 1) = unat w + 1"
  by (simp add: unat_word_ariths)

section \<open>Counting references\<close>

definition edges :: "(u32 \<Rightarrow> u64) \<Rightarrow> gc_state \<Rightarrow> node set \<Rightarrow> node multiset" where
  "edges hts s A = (\<Sum>n\<in>A. mset (succs hts s n))"

lemma edges_insert: "finite A \<Longrightarrow> n \<notin> A \<Longrightarrow> edges hts s (insert n A) = mset (succs hts s n) + edges hts s A"
  by (simp add: edges_def)

lemma edges_mono: "finite B \<Longrightarrow> A \<subseteq> B \<Longrightarrow> edges hts s A \<subseteq># edges hts s B"
  by (simp add: edges_def sum.subset_diff [of A B])

section \<open>The rule for traversals\<close>

lemma gc_traverse_Nil [simp]: "gc_traverse enter edge (Inr []) s = Some s"
  by (subst gc_traverse.simps) simp

lemma gc_traverse_enter: "enter pz s = Some (p, s1) \<Longrightarrow> gc_traverse enter edge (Inl pz) s = gc_traverse enter edge (Inr p) s1"
  by (subst gc_traverse.simps) simp

lemma gc_traverse_Cons:
  "edge pz s = Some (d, s1) \<Longrightarrow> (if d then gc_traverse enter edge (Inl pz) s1 else Some s1) = Some s2 \<Longrightarrow>
     gc_traverse enter edge (Inr (pz # p)) s = gc_traverse enter edge (Inr p) s2"
  by (subst gc_traverse.simps) simp

text \<open>
  \<open>Inv s K\<close> is the invariant of the loop where the zvals \<open>K\<close> are still to be looked at, here and in the calls
  around; \<open>Ent z s K\<close> is what holds when the function is called on \<open>z\<close>. \<open>todo\<close> counts what is not visited.
\<close>

locale gc_traversal =
  fixes enter :: "addr \<Rightarrow> gc_state \<Rightarrow> (addr list \<times> gc_state) option"
    and edge :: "addr \<Rightarrow> gc_state \<Rightarrow> (bool \<times> gc_state) option"
    and Inv :: "gc_state \<Rightarrow> addr multiset \<Rightarrow> bool"
    and Ent :: "addr \<Rightarrow> gc_state \<Rightarrow> addr multiset \<Rightarrow> bool"
    and todo :: "gc_state \<Rightarrow> nat"
  assumes edge_step: "Inv s (add_mset z K) \<Longrightarrow> \<exists>d s'. edge z s = Some (d, s') \<and> todo s' \<le> todo s \<and>
      (if d then Ent z s' K else Inv s' K)"
    and enter_step: "Ent z s K \<Longrightarrow> \<exists>p s'. enter z s = Some (p, s') \<and> Inv s' (mset p + K) \<and>
      (todo s' < todo s \<or> p = [] \<and> todo s' \<le> todo s)"
begin

lemma children_bounded:
  "todo s \<le> n \<Longrightarrow> Inv s (mset p + K) \<Longrightarrow>
     \<exists>s'. gc_traverse enter edge (Inr p) s = Some s' \<and> Inv s' K \<and> todo s' \<le> todo s"
proof (induction n arbitrary: s p K rule: less_induct)
  case (less n)
  show ?case using less.prems
  proof (induction p arbitrary: s)
    case (Cons z p)
    obtain d s1 where e: "edge z s = Some (d, s1)" "todo s1 \<le> todo s"
      and d: "if d then Ent z s1 (mset p + K) else Inv s1 (mset p + K)"
      using edge_step [of s z "mset p + K"] Cons.prems(2) by auto
    obtain s2 where s2: "(if d then gc_traverse enter edge (Inl z) s1 else Some s1) = Some s2" "Inv s2 (mset p + K)" "todo s2 \<le> todo s1"
    proof (cases d)
      case True
      then obtain q s3 where q: "enter z s1 = Some (q, s3)" "Inv s3 (mset q + (mset p + K))"
        "todo s3 < todo s1 \<or> q = [] \<and> todo s3 \<le> todo s1"
        using d enter_step [of z s1 "mset p + K"] by auto
      note tr = gc_traverse_enter [of enter, OF q(1), of edge]
      from q(3) show ?thesis
      proof
        assume lt: "todo s3 < todo s1"
        then have "todo s3 < n" using e(2) Cons.prems(1) by simp
        from less.IH [OF this order_refl q(2)] lt that tr True show ?thesis by (metis less_imp_le order_trans)
      next
        assume "q = [] \<and> todo s3 \<le> todo s1"
        then show ?thesis using that [of s3] tr True q(2) by simp
      qed
    next
      case False
      then show ?thesis using d that by simp
    qed
    from Cons.IH [OF _ s2(2)] s2(3) e(2) Cons.prems(1) gc_traverse_Cons [OF e(1) s2(1), of p]
    show ?case by (metis order_trans)
  qed simp
qed

lemmas children = children_bounded [OF order_refl]

lemma single: "Ent z s K \<Longrightarrow> \<exists>s'. gc_traverse enter edge (Inl z) s = Some s' \<and> Inv s' K \<and> todo s' \<le> todo s"
  using enter_step [of z s K] children gc_traverse_enter [of enter z s _ _ edge] by (metis less_imp_le order_trans)

end

end
