(* ===== verification/ZendGcMark.thy ===== *)
theory ZendGcMark imports ZendGcGraph begin

text \<open>
  The first phase of the collector: \<open>zval_mark_grey\<close> and \<open>zobj_mark_grey\<close> make grey what is reachable from their
  argument and take from every reference count the references that come from grey zvals and objects.
\<close>

definition gc_reach :: "(u32 \<Rightarrow> u64) \<Rightarrow> gc_state \<Rightarrow> (node \<times> node) set" where
  "gc_reach hts s = {(n, m). n \<in> nodes s \<and> m \<in> set (succs hts s n)}\<^sup>*"

text \<open>No count is less than the number of references the collector can see, and none is near an overflow.\<close>

definition gc_refs :: "(u32 \<Rightarrow> u64) \<Rightarrow> gc_state \<Rightarrow> bool" where
  "gc_refs hts s \<longleftrightarrow> (\<forall>n\<in>nodes s. \<not> symtab s n \<longrightarrow>
     count (edges hts s (nodes s)) n \<le> rc s n \<and> rc s n + 1 < 2 ^ 32)"

definition colored :: "gc_state \<Rightarrow> gc_color \<Rightarrow> node set" where
  "colored s c = {n \<in> nodes s. color_of s n = c}"

lemma finite_nodes: "gc_wf hts s \<Longrightarrow> finite (nodes s)"
proof -
  have "{Ob h |h. get_obj h s \<noteq> None} \<subseteq> range Ob" by blast
  moreover have "finite (range Ob)" by simp
  ultimately have "finite {Ob h |h. get_obj h s \<noteq> None}" by (rule finite_subset)
  then show "gc_wf hts s \<Longrightarrow> finite (nodes s)" by (simp add: nodes_def gc_wf_def)
qed

lemma reach_step: "(r, n) \<in> gc_reach hts s \<Longrightarrow> n \<in> nodes s \<Longrightarrow> m \<in> set (succs hts s n) \<Longrightarrow> (r, m) \<in> gc_reach hts s"
  unfolding gc_reach_def by (rule rtrancl_into_rtrancl) auto

lemma reach_refl [simp]: "(n, n) \<in> gc_reach hts s"
  by (simp add: gc_reach_def)

lemma symtab_succs [simp]: "symtab s n \<Longrightarrow> succs hts s n = []"
  by (auto simp: symtab_def is_symbol_table_def succs_def)

text \<open>Counts are of references from any set of nodes at most the count of the node.\<close>

lemma refs_le: "gc_wf hts s \<Longrightarrow> gc_refs hts s \<Longrightarrow> n \<in> nodes s \<Longrightarrow> \<not> symtab s n \<Longrightarrow> A \<subseteq> nodes s \<Longrightarrow>
    count (edges hts s A) n \<le> rc s n"
  using mset_subset_eq_count [OF edges_mono [OF finite_nodes, of hts s A hts s], of n] unfolding gc_refs_def by fastforce

section \<open>The invariant\<close>

text \<open>
  Against the state \<open>s0\<close> at the beginning: the references from grey nodes are taken from every count but for the
  pending ones \<open>K\<close>; what a grey node refers to is grey, a symbol table that was made black, or in \<open>K'\<close>, still to be
  visited; all of it is reachable from \<open>Rts\<close>; \<open>D\<close> is visited. \<open>A\<close> gives the addresses in the words.
\<close>

definition mark_inv :: "(u32 \<Rightarrow> u64) \<Rightarrow> gc_state \<Rightarrow> gc_state \<Rightarrow> (node \<Rightarrow> gc_address) \<Rightarrow> node set \<Rightarrow> node set \<Rightarrow>
    gc_state \<Rightarrow> node multiset \<Rightarrow> node multiset \<Rightarrow> bool" where
  "mark_inv hts s0 R A Rts D s K K' \<longleftrightarrow>
     gc_wf hts s0 \<and> gc_refs hts s0 \<and> shape s = shape s0 \<and> rest s = R \<and>
     (\<forall>n\<in>nodes s0. \<not> symtab s0 n \<longrightarrow> rc s n + count (edges hts s0 (colored s GC_GREY)) n = rc s0 n + count K n) \<and>
     (\<forall>n\<in>colored s GC_GREY. \<not> symtab s0 n \<and> (\<exists>r\<in>Rts. (r, n) \<in> gc_reach hts s0)) \<and>
     (\<forall>n\<in>colored s GC_GREY. \<forall>m\<in>set (succs hts s0 n).
        m \<in> colored s GC_GREY \<or> symtab s0 m \<and> color_of s m = GC_BLACK \<or> m \<in># K') \<and>
     (\<forall>n\<in>nodes s0. address_of s n = A n \<and>
        (n \<notin> colored s GC_GREY \<longrightarrow> color_of s n = color_of s0 n \<or> symtab s0 n \<and> color_of s n = GC_BLACK)) \<and>
     (\<forall>n\<in>D. n \<in> colored s GC_GREY \<or> symtab s0 n \<and> color_of s n = GC_BLACK) \<and>
     (\<forall>n\<in>#K'. n \<in> nodes s0 \<and> (\<exists>r\<in>Rts. (r, n) \<in> gc_reach hts s0))"

definition mark_todo :: "gc_state \<Rightarrow> nat" where
  "mark_todo s = card (nodes s - colored s GC_GREY)"

lemma mark_inv_nodes: "mark_inv hts s0 R A Rts D s K K' \<Longrightarrow> nodes s = nodes s0 \<and> symtab s = symtab s0 \<and> succs hts s = succs hts s0"
  unfolding mark_inv_def using shape_nodes [of s s0] shape_symtab [of s s0] shape_succs [of s s0 hts] by blast

lemma colored_cong: "shape s' = shape s \<Longrightarrow> word_of s' = word_of s \<Longrightarrow> colored s' c = colored s c"
  using shape_nodes [of s' s] by (simp add: colored_def)

lemma colored_upd: "shape s' = shape s \<Longrightarrow> word_of s' = (word_of s)(n := w) \<Longrightarrow> n \<in> nodes s \<Longrightarrow>
    colored s' c = (if word_color w = c then insert n (colored s c) else colored s c - {n})"
  using shape_nodes [of s' s] by (auto simp: colored_def)

lemma mark_edge_pos:
  assumes "mark_inv hts s0 R A Rts D s (add_mset n K) K'" "n \<in> nodes s0" "\<not> symtab s0 n"
  shows "0 < rc s n"
proof -
  have "count (edges hts s0 (colored s GC_GREY)) n \<le> rc s0 n"
    by (rule refs_le) (use assms mark_inv_nodes [OF assms(1)] in \<open>auto simp: mark_inv_def colored_def\<close>)
  moreover have "rc s n + count (edges hts s0 (colored s GC_GREY)) n = rc s0 n + (count K n + 1)"
    using assms by (auto simp: mark_inv_def)
  ultimately show ?thesis by linarith
qed

lemma mark_edge_count:
  assumes "mark_inv hts s0 R A Rts D s (add_mset n K) K'" "n \<in> nodes s0" "\<not> symtab s0 n"
    and "shape s' = shape s" "rest s' = rest s" "rc s' = (rc s)(n := rc s n - 1)" "word_of s' = word_of s"
  shows "mark_inv hts s0 R A Rts D s' K K'"
  using assms(1,4,5) mark_edge_pos [OF assms(1-3)]
  by (auto simp: mark_inv_def colored_cong [OF assms(4,7)] assms(6,7))

lemma mark_symtab_edge: "mark_inv hts s0 R A Rts D s (add_mset n K) K' \<Longrightarrow> symtab s0 n \<Longrightarrow> mark_inv hts s0 R A Rts D s K K'"
  by (auto simp: mark_inv_def)

lemma mark_old: "mark_inv hts s0 R A Rts D s K (add_mset n K') \<Longrightarrow> n \<in> colored s GC_GREY \<or> symtab s0 n \<and> color_of s n = GC_BLACK \<Longrightarrow>
    mark_inv hts s0 R A Rts D s K K'"
  by (auto simp: mark_inv_def)

lemma mark_visit:
  assumes inv: "mark_inv hts s0 R A Rts D s K (add_mset n K')" and n: "n \<notin> colored s GC_GREY" "\<not> symtab s0 n"
    and s': "shape s' = shape s" "rest s' = rest s" "rc s' = rc s" "word_of s' = (word_of s)(n := GC_SET_COLOR GC_GREY (word_of s n))"
  shows "mark_inv hts s0 R A Rts D s' (mset (succs hts s0 n) + K) (mset (succs hts s0 n) + K') \<and> mark_todo s' < mark_todo s \<and>
    n \<in> colored s' GC_GREY"
proof -
  have nn: "n \<in> nodes s0" and reach: "\<exists>r\<in>Rts. (r, n) \<in> gc_reach hts s0" and wf: "gc_wf hts s0" and sh: "shape s = shape s0"
    using inv by (auto simp: mark_inv_def)
  note nodes = mark_inv_nodes [OF inv]
  have ns: "n \<in> nodes s" using nn nodes by simp
  have col: "colored s' GC_GREY = insert n (colored s GC_GREY)"
    using colored_upd [OF s'(1,4) ns] by (simp add: GC_SET_COLOR_def)
  have fin: "finite (colored s GC_GREY)" "finite (nodes s)" using finite_nodes [OF wf] nodes by (auto simp: colored_def)
  have edges: "edges hts s0 (colored s' GC_GREY) = mset (succs hts s0 n) + edges hts s0 (colored s GC_GREY)"
    using col n(1) fin by (simp add: edges_insert)
  have succ: "m \<in> nodes s0 \<and> (\<exists>r\<in>Rts. (r, m) \<in> gc_reach hts s0)" if "m \<in> set (succs hts s0 n)" for m
    using wf_succs [OF wf nn] that reach reach_step [OF _ nn that] by blast
  have word: "word_of s' m = (if m = n then GC_SET_COLOR GC_GREY (word_of s n) else word_of s m)" for m using s'(4) by simp
  have "mark_inv hts s0 R A Rts D s' (mset (succs hts s0 n) + K) (mset (succs hts s0 n) + K')"
    using inv nn n reach s'(1-3) succ unfolding mark_inv_def edges
    by (auto simp: word GC_SET_COLOR_def col)
  moreover have "nodes s' - colored s' GC_GREY = (nodes s - colored s GC_GREY) - {n}"
    using col shape_nodes [OF s'(1)] by auto
  then have "mark_todo s' < mark_todo s"
    unfolding mark_todo_def using ns n(1) fin by (metis DiffI card_Diff1_less finite_Diff)
  ultimately show ?thesis using col by simp
qed

section \<open>The traversal\<close>

abbreviation mark_loop where
  "mark_loop hts s0 R A Rts D s K \<equiv> mark_inv hts s0 R A Rts D s (image_mset Zv K) (image_mset Zv K)"

abbreviation mark_call where
  "mark_call hts s0 R A Rts D z s K \<equiv> mark_inv hts s0 R A Rts D s (image_mset Zv K) (add_mset (Zv z) (image_mset Zv K))"

lemma symtab_zval: "zvals s a = Some z \<Longrightarrow> symtab s (Zv a) = is_symbol_table s z"
  by (auto simp: symtab_def)

lemma rc_zval: "zvals s a = Some z \<Longrightarrow> rc s (Zv a) = unat (z_refcount z)"
  by (simp add: rc_def)

lemma rc_obj: "get_obj h s = Some b \<Longrightarrow> rc s (Ob h) = unat (gb_refcount b)"
  by (simp add: rc_def)

lemma word_zval: "zvals s a = Some z \<Longrightarrow> word_of s (Zv a) = z_u z"
  by (simp add: word_of_def)

lemma word_obj: "get_obj h s = Some b \<Longrightarrow> word_of s (Ob h) = gb_buffered b"
  by (simp add: word_of_def)

lemma not_symtab_obj [simp]: "\<not> symtab s (Ob h)"
  by (simp add: symtab_def)

lemma mark_todo_cong: "shape s' = shape s \<Longrightarrow> word_of s' = word_of s \<Longrightarrow> mark_todo s' = mark_todo s"
  using colored_cong [of s' s GC_GREY] shape_nodes [of s' s] by (simp add: mark_todo_def)

lemma mark_edge_step:
  assumes inv: "mark_loop hts s0 R A Rts D s (add_mset z K)"
  shows "\<exists>d s'. mark_grey_edge z s = Some (d, s') \<and> mark_todo s' \<le> mark_todo s \<and>
    (if d then mark_call hts s0 R A Rts D z s' K else mark_loop hts s0 R A Rts D s' K)"
proof -
  note nodes = mark_inv_nodes [OF inv]
  have "Zv z \<in> nodes s" using inv nodes by (simp add: mark_inv_def)
  then obtain y where y: "zvals s z = Some y" by auto
  show ?thesis
  proof (cases "is_symbol_table s y")
    case True
    then have "symtab s0 (Zv z)" using nodes symtab_zval [OF y] by simp
    from mark_symtab_edge [OF inv [simplified] this] True y show ?thesis
      by (auto simp: mark_grey_edge_def count_edge_def)
  next
    case False
    then have ns: "\<not> symtab s0 (Zv z)" using nodes symtab_zval [OF y] by simp
    have nz: "Zv z \<in> nodes s0" using \<open>Zv z \<in> nodes s\<close> nodes by simp
    note pos = mark_edge_pos [OF inv [simplified] nz ns]
    obtain s' where s': "zval_add_refcount z (-1) s = Some s'" "shape s' = shape s" "rest s' = rest s"
      "rc s' = (rc s)(Zv z := unat (z_refcount y + -1))" "word_of s' = word_of s"
      by (rule zval_add_refcount_views [OF y])
    have "rc s' = (rc s)(Zv z := rc s (Zv z) - 1)" using s'(4) unat_dec pos rc_zval [OF y] by simp
    from mark_edge_count [OF inv [simplified] nz ns s'(2,3) this s'(5)] s' False y mark_todo_cong [OF s'(2,5)] show ?thesis
      by (auto simp: mark_grey_edge_def count_edge_def)
  qed
qed

lemma mark_props:
  assumes inv: "mark_inv hts s0 R A Rts D s (mset (succs hts s0 (Ob h)) + image_mset Zv K) (mset (succs hts s0 (Ob h)) + image_mset Zv K)"
    and b: "get_obj h t = Some b" "shape t = shape s0" and s: "shape s = shape s0"
  shows "\<exists>p. (case obj_props h (hts h) b s of None \<Rightarrow> Some ([], s) | Some None \<Rightarrow> Some ([], s) | Some (Some p) \<Rightarrow> Some (p, s)) = Some (p, s) \<and>
    mark_loop hts s0 R A Rts D s (mset p + K) \<and> succs hts s0 (Ob h) = map Zv p"
proof -
  have "gc_wf hts s0" using inv by (simp add: mark_inv_def)
  then show ?thesis by (rule obj_props_succs [OF _ b s]) (use inv in auto)
qed

lemma mark_enter:
  assumes inv: "mark_call hts s0 R A Rts D z s K"
  shows "\<exists>p s'. mark_grey_enter z s = Some (p, s') \<and> mark_loop hts s0 R A Rts D s' (mset p + K) \<and>
    (mark_todo s' < mark_todo s \<or> p = [] \<and> mark_todo s' \<le> mark_todo s) \<and>
    (Zv z \<in> colored s' GC_GREY \<or> symtab s0 (Zv z) \<and> color_of s' (Zv z) = GC_BLACK)"
proof -
  note nodes = mark_inv_nodes [OF inv]
  have wf: "gc_wf hts s0" and sh: "shape s = shape s0" and nz: "Zv z \<in> nodes s" using inv nodes by (auto simp: mark_inv_def)
  have wfs: "gc_wf hts s" by (rule shape_wf [OF sh [symmetric] wf])
  from nz obtain y where y: "zvals s z = Some y" by auto
  obtain s1 where s1: "zval_set_u z (GC_SET_COLOR GC_GREY) s = Some s1" "shape s1 = shape s" "rest s1 = rest s" "rc s1 = rc s"
    "word_of s1 = (word_of s)(Zv z := GC_SET_COLOR GC_GREY (word_of s (Zv z)))"
    "zvals s1 z = Some (y\<lparr>z_u := GC_SET_COLOR GC_GREY (z_u y)\<rparr>)"
    by (rule zval_set_u_views [OF y, of "GC_SET_COLOR GC_GREY"])
  have st: "symbol_table s1 = symbol_table s" "arrays s1 = arrays s" "gc_buckets s1 = None \<longleftrightarrow> gc_buckets s = None"
    using shape_fields [OF s1(2)] by auto
  have "gc_buckets s1 \<noteq> None" using wfs st(3) by (simp add: gc_wf_def)
  then obtain bs where buckets: "gc_buckets s1 = Some bs" by auto
  show ?thesis
  proof (cases "word_color (z_u y) = GC_GREY")
    case True
    then have "Zv z \<in> colored s GC_GREY" using nz word_zval [OF y] by (simp add: colored_def)
    with mark_old [OF inv] True y show ?thesis by (simp add: mark_grey_enter_def)
  next
    case False
    then have ng: "Zv z \<notin> colored s GC_GREY" using word_zval [OF y] by (simp add: colored_def)
    note visit = mark_visit [OF inv ng _ s1(2-5)]
    show ?thesis
    proof (cases "z_value y")
      case IS_OTHER
      then have "\<not> symtab s0 (Zv z)" using nodes symtab_zval [OF y] by (simp add: is_symbol_table_def)
      moreover have "succs hts s0 (Zv z) = []" using wf_other [OF y, of hts] IS_OTHER nodes by simp
      ultimately show ?thesis using visit IS_OTHER False y s1(1) by (auto simp: mark_grey_enter_def)
    next
      case (IS_ARRAY t)
      show ?thesis
      proof (cases "t = symbol_table s")
        case True
        then have sym: "symtab s0 (Zv z)" using nodes symtab_zval [OF y] IS_ARRAY by (simp add: is_symbol_table_def)
        obtain s2 where s2: "zval_set_u z (GC_SET_COLOR GC_BLACK) s1 = Some s2" "shape s2 = shape s1" "rest s2 = rest s1" "rc s2 = rc s1"
          "word_of s2 = (word_of s1)(Zv z := GC_SET_COLOR GC_BLACK (word_of s1 (Zv z)))"
          by (rule zval_set_u_views [OF s1(6), of "GC_SET_COLOR GC_BLACK"])
        have w2: "word_of s2 = (word_of s)(Zv z := GC_SET_COLOR GC_BLACK (word_of s (Zv z)))"
          using s2(5) s1(5) by (simp add: GC_SET_COLOR_def)
        have sh2: "shape s2 = shape s" using s2(2) s1(2) by simp
        have col: "colored s2 GC_GREY = colored s GC_GREY"
          using colored_upd [OF sh2 w2 nz, of GC_GREY] ng by (simp add: GC_SET_COLOR_def)
        have word: "word_of s2 m = (if m = Zv z then GC_SET_COLOR GC_BLACK (word_of s (Zv z)) else word_of s m)" for m using w2 by simp
        have "mark_inv hts s0 R A Rts D s2 (image_mset Zv K) (image_mset Zv K)"
          using inv sym ng s1(2-4) s2(2-4) unfolding mark_inv_def col by (auto simp: word GC_SET_COLOR_def)
        moreover have "mark_todo s2 = mark_todo s" using col shape_nodes [OF sh2] by (simp add: mark_todo_def)
        moreover have "color_of s2 (Zv z) = GC_BLACK" using w2 by (simp add: GC_SET_COLOR_def)
        ultimately show ?thesis using sym True IS_ARRAY False y s1(1) s2(1) st by (simp add: mark_grey_enter_def)
      next
        case nst: False
        then have "\<not> symtab s0 (Zv z)" using nodes symtab_zval [OF y] IS_ARRAY by (simp add: is_symbol_table_def)
        note v = visit [OF this]
        from wf_array [OF wfs y IS_ARRAY nst] nodes obtain p where p: "arrays s t = Some p" "succs hts s0 (Zv z) = map Zv p" by auto
        from v nst IS_ARRAY False y s1(1) st p show ?thesis by (simp add: mark_grey_enter_def)
      qed
    next
      case (IS_OBJECT h handlers)
      have "\<not> symtab s0 (Zv z)" using nodes symtab_zval [OF y] IS_OBJECT by (simp add: is_symbol_table_def)
      note v = visit [OF this]
      from wf_object [OF wfs y IS_OBJECT] nodes obtain b0 where b0: "get_obj h s = Some b0" and hts: "handlers = hts h"
        and succ: "succs hts s0 (Zv z) = [Ob h]" by auto
      have "get_obj h s1 \<noteq> None" using shape_obj_iff [OF s1(2)] b0 by simp
      then obtain b where b: "get_obj h s1 = Some b" by auto
      have v1: "mark_inv hts s0 R A Rts D s1 (add_mset (Ob h) (image_mset Zv K)) (add_mset (Ob h) (image_mset Zv K))"
        and todo1: "mark_todo s1 < mark_todo s" using v succ by auto
      have nh: "Ob h \<in> nodes s0" using b0 nodes by (metis nodes_Ob)
      note pos = mark_edge_pos [OF v1 nh not_symtab_obj]
      obtain s2 where s2: "obj_add_refcount h (-1) s1 = Some s2" "shape s2 = shape s1" "rest s2 = rest s1"
        "rc s2 = (rc s1)(Ob h := unat (gb_refcount b + -1))" "word_of s2 = word_of s1" "get_obj h s2 = Some (b\<lparr>gb_refcount := gb_refcount b + -1\<rparr>)"
        by (rule obj_add_refcount_views [OF b])
      have "rc s2 = (rc s1)(Ob h := rc s1 (Ob h) - 1)" using s2(4) unat_dec pos rc_obj [OF b] by simp
      note v2 = mark_edge_count [OF v1 nh not_symtab_obj s2(2,3) this s2(5)]
      have z2: "Zv z \<in> colored s2 GC_GREY" using v colored_cong [OF s2(2,5)] by simp
      have todo2: "mark_todo s2 < mark_todo s" using mark_todo_cong [OF s2(2,5)] todo1 by simp
      have start: "mark_grey_enter z s = (do {
              obj \<leftarrow> get_obj h s2;
              if word_color (gb_buffered obj) \<noteq> GC_GREY then do {
                s \<leftarrow> obj_set_buffered h (GC_SET_COLOR GC_GREY) s2;
                (case obj_props h handlers obj s of None \<Rightarrow> Some ([], s) | Some None \<Rightarrow> Some ([], s) | Some (Some p) \<Rightarrow> Some (p, s))
              } else Some ([], s2) })"
        using False y s1(1) IS_OBJECT st buckets s2(1) by (simp add: mark_grey_enter_def)
      let ?b = "b\<lparr>gb_refcount := gb_refcount b + -1\<rparr>"
      show ?thesis
      proof (cases "word_color (gb_buffered b) = GC_GREY")
        case True
        then have "Ob h \<in> colored s2 GC_GREY" using s2(6) word_obj [OF s2(6)] by (simp add: colored_def)
        with mark_old [OF v2] True start s2(6) todo2 z2 show ?thesis by simp
      next
        case ngo: False
        then have "Ob h \<notin> colored s2 GC_GREY" using word_obj [OF s2(6)] by (simp add: colored_def)
        note visit2 = mark_visit [OF v2 this not_symtab_obj]
        obtain s3 where s3: "obj_set_buffered h (GC_SET_COLOR GC_GREY) s2 = Some s3" "shape s3 = shape s2" "rest s3 = rest s2" "rc s3 = rc s2"
          "word_of s3 = (word_of s2)(Ob h := GC_SET_COLOR GC_GREY (word_of s2 (Ob h)))"
          by (rule obj_set_buffered_views [OF s2(6), of "GC_SET_COLOR GC_GREY"])
        note v3 = visit2 [OF s3(2-5)]
        have sh2: "shape s2 = shape s0" and sh3: "shape s3 = shape s0" using s3(2) s2(2) s1(2) sh by simp_all
        from mark_props [OF conjunct1 [OF v3] s2(6) sh2 sh3] obtain p where
          "(case obj_props h (hts h) ?b s3 of None \<Rightarrow> Some ([], s3) | Some None \<Rightarrow> Some ([], s3) | Some (Some p) \<Rightarrow> Some (p, s3)) = Some (p, s3)"
          "mark_loop hts s0 R A Rts D s3 (mset p + K)" by blast
        moreover have "Zv z \<in> colored s3 GC_GREY"
          using z2 shape_nodes [OF s3(2)] s3(5) by (simp add: colored_def)
        ultimately show ?thesis using start s2(6) ngo s3(1) v3 todo2 hts by auto
      qed
    qed
  qed
qed

lemma mark_enter_step:
  assumes "mark_call hts s0 R A Rts D z s K"
  shows "\<exists>p s'. mark_grey_enter z s = Some (p, s') \<and> mark_loop hts s0 R A Rts D s' (mset p + K) \<and>
    (mark_todo s' < mark_todo s \<or> p = [] \<and> mark_todo s' \<le> mark_todo s)"
  using mark_enter [OF assms] by blast

interpretation mark: gc_traversal mark_grey_enter mark_grey_edge "mark_loop hts s0 R A Rts D" "mark_call hts s0 R A Rts D" mark_todo
  by unfold_locales (rule mark_edge_step mark_enter_step, assumption)+

lemma mark_start:
  assumes inv: "mark_inv hts s0 R A Rts D s {#} {#}" and n: "n \<in> nodes s0"
  shows "mark_inv hts s0 R A (insert n Rts) D s {#} {#n#}"
proof -
  have "\<exists>r\<in>insert n Rts. (r, m) \<in> gc_reach hts s0" if "\<exists>r\<in>Rts. (r, m) \<in> gc_reach hts s0" for m using that by blast
  with inv n show ?thesis unfolding mark_inv_def by (elim conjE, intro conjI) (simp_all, blast+)
qed

lemma mark_inv_done:
  "mark_inv hts s0 R A Rts D s K K' \<Longrightarrow> n \<in> colored s GC_GREY \<or> symtab s0 n \<and> color_of s n = GC_BLACK \<Longrightarrow>
     mark_inv hts s0 R A Rts (insert n D) s K K'"
  unfolding mark_inv_def by (elim conjE, intro conjI) simp_all

lemma zval_mark_grey_inv:
  assumes inv: "mark_inv hts s0 R A Rts D s {#} {#}" and z: "Zv z \<in> nodes s0"
  shows "\<exists>s'. zval_mark_grey z s = Some s' \<and> mark_inv hts s0 R A (insert (Zv z) Rts) (insert (Zv z) D) s' {#} {#}"
proof -
  from mark_enter [of hts s0 R A "insert (Zv z) Rts" D s "{#}" z] mark_start [OF inv z] obtain p s1 where enter: "mark_grey_enter z s = Some (p, s1)"
    and s1: "mark_loop hts s0 R A (insert (Zv z) Rts) D s1 (mset p + {#})"
    "Zv z \<in> colored s1 GC_GREY \<or> symtab s0 (Zv z) \<and> color_of s1 (Zv z) = GC_BLACK" by auto
  from mark.children [OF mark_inv_done [OF s1]] show ?thesis
    unfolding zval_mark_grey_def gc_traverse_enter [of mark_grey_enter, OF enter] by auto
qed

lemma zobj_mark_grey_inv:
  assumes inv: "mark_inv hts s0 R A Rts D s {#} {#}" and h: "Ob h \<in> nodes s0"
  shows "\<exists>s'. zobj_mark_grey h (hts h) s = Some s' \<and> mark_inv hts s0 R A (insert (Ob h) Rts) (insert (Ob h) D) s' {#} {#}"
proof -
  note inv1 = mark_start [OF inv h]
  from h obtain b where b: "get_obj h s = Some b" using mark_inv_nodes [OF inv] nodes_Ob by metis
  show ?thesis
  proof (cases "word_color (gb_buffered b) = GC_GREY")
    case True
    then have "Ob h \<in> colored s GC_GREY" using word_obj [OF b] b by (simp add: colored_def)
    from mark_inv_done [OF mark_old [OF inv1]] this True b show ?thesis by (simp add: zobj_mark_grey_def)
  next
    case False
    then have "Ob h \<notin> colored s GC_GREY" using word_obj [OF b] by (simp add: colored_def)
    note visit = mark_visit [OF inv1 this not_symtab_obj]
    obtain s1 where s1: "obj_set_buffered h (GC_SET_COLOR GC_GREY) s = Some s1" "shape s1 = shape s" "rest s1 = rest s" "rc s1 = rc s"
      "word_of s1 = (word_of s)(Ob h := GC_SET_COLOR GC_GREY (word_of s (Ob h)))"
      by (rule obj_set_buffered_views [OF b, of "GC_SET_COLOR GC_GREY"])
    have sh: "shape s = shape s0" "shape s1 = shape s0" using inv s1(2) by (simp_all add: mark_inv_def)
    have v: "mark_inv hts s0 R A (insert (Ob h) Rts) (insert (Ob h) D) s1
        (mset (succs hts s0 (Ob h)) + image_mset Zv {#}) (mset (succs hts s0 (Ob h)) + image_mset Zv {#})"
      using visit [OF s1(2-5)] by (simp add: mark_inv_done)
    obtain p where p: "mark_loop hts s0 R A (insert (Ob h) Rts) (insert (Ob h) D) s1 (mset p + {#})" "succs hts s0 (Ob h) = map Zv p"
      using mark_props [OF v b sh] by auto
    have inj: "q = p" if "map Zv p = map Zv q" for q using that by (metis list.inj_map_strong node.inject(1))
    have "gc_wf hts s0" using inv by (simp add: mark_inv_def)
    then have "zobj_mark_grey h (hts h) s = gc_traverse mark_grey_enter mark_grey_edge (Inr p) s1"
      by (rule obj_props_succs [OF _ b sh]) (use p(2) b False s1(1) inj in \<open>auto simp: zobj_mark_grey_def\<close>)
    then show ?thesis using mark.children [OF p(1)] by auto
  qed
qed

end
