(* ===== verification/ZendGcRoots.thy ===== *)
theory ZendGcRoots imports ZendGcMark begin

text \<open>
  The ring of possible roots and the loop of \<open>gc_mark_roots\<close> over it: every root that is not purple any more is
  taken out of the ring, and what is reachable from a purple one is grey at the end.
\<close>

section \<open>The ring\<close>

type_synonym root_buffers = "addr \<rightharpoonup> gc_root_buffer"

definition rlinks :: "root_buffers \<Rightarrow> links" where
  "rlinks R a = map_option (\<lambda>b. (rb_next b, rb_prev b)) (R a)"

definition payload :: "root_buffers \<Rightarrow> addr \<Rightarrow> (u32 \<times> root_union) option" where
  "payload R a = map_option (\<lambda>b. (rb_handle b, rb_u b)) (R a)"

definition ring :: "root_buffers \<Rightarrow> addr list \<Rightarrow> bool" where
  "ring R xs \<longleftrightarrow> distinct (0 # xs) \<and> dseg (rlinks R) (last_ptr (Some 0) xs) (0 # xs) (Some 0)"

lemma upd_rbuf_next:
  assumes "rlinks (rbufs s) a = Some (n, p)"
  shows "\<exists>R. upd_rbuf (Some a) (set_rb_next q) s = Some (s\<lparr>rbufs := R\<rparr>) \<and> rlinks R = (rlinks (rbufs s))(a \<mapsto> (q, p)) \<and>
    payload R = payload (rbufs s)"
  using assms by (auto simp: upd_rbuf_def rlinks_def payload_def set_rb_next_def fun_eq_iff)

lemma upd_rbuf_prev:
  assumes "rlinks (rbufs s) a = Some (n, p)"
  shows "\<exists>R. upd_rbuf (Some a) (set_rb_prev q) s = Some (s\<lparr>rbufs := R\<rparr>) \<and> rlinks R = (rlinks (rbufs s))(a \<mapsto> (n, q)) \<and>
    payload R = payload (rbufs s)"
  using assms by (auto simp: upd_rbuf_def rlinks_def payload_def set_rb_prev_def fun_eq_iff)

lemma rlinks_rbufs: "rlinks R a = Some (n, p) \<Longrightarrow> \<exists>b. R a = Some b \<and> rb_next b = n \<and> rb_prev b = p"
  by (auto simp: rlinks_def)

lemma ring_at: "ring R (xs @ b # ys) \<Longrightarrow> rlinks R b = Some (first_ptr ys (Some 0), last_ptr (Some 0) xs)"
  by (simp add: ring_def)

lemma ring_head: "ring R xs \<Longrightarrow> rlinks R 0 = Some (first_ptr xs (Some 0), last_ptr (Some 0) xs)"
  by (simp add: ring_def)

lemma ring_unlinked:
  assumes r: "ring R (xs @ b # ys)" and p: "last_ptr (Some 0) xs = Some p" and q: "first_ptr ys (Some 0) = Some q"
    and L: "rlinks R' = ((rlinks R)(q \<mapsto> (qn, Some p)))(p \<mapsto> (Some q, if p = q then Some p else pm), b \<mapsto> l)"
    and lq: "rlinks R q = Some (qn, Some b)" and lp: "rlinks R p = Some (Some b, pm)"
  shows "ring R' (xs @ ys)"
proof -
  have d: "distinct (0 # xs @ b # ys)" and seg: "dseg (rlinks R) (last_ptr (Some 0) (xs @ b # ys)) (0 # xs @ b # ys) (Some 0)"
    using r by (simp_all add: ring_def)
  show ?thesis
  proof (cases xs rule: rev_cases)
    case Nil
    then have "p = 0" using p by simp
    with Nil q seg d L lq lp show ?thesis
      by (cases ys) (auto simp: ring_def last_ptr_def)
  next
    case (snoc zs z)
    then have "p = z" using p by simp
    with snoc q seg d L lq lp show ?thesis
      by (cases ys) (auto simp: ring_def last_ptr_def)
  qed
qed

text \<open>Only the ring and the list of unused buffers change.\<close>

lemma ring_remove:
  assumes r: "ring (rbufs s) (xs @ b # ys)"
  shows "\<exists>R. gc_remove_from_buffer b s = Some (s\<lparr>rbufs := R, unused := Some b\<rparr>) \<and> ring R (xs @ ys) \<and> payload R = payload (rbufs s) \<and>
    rlinks R b = Some (first_ptr ys (Some 0), unused s) \<and> (\<forall>a. a \<notin> set (0 # xs @ b # ys) \<longrightarrow> rlinks R a = rlinks (rbufs s) a)"
proof -
  let ?L = "rlinks (rbufs s)"
  obtain p where p: "last_ptr (Some 0) xs = Some p" using last_ptr_after(2) by blast
  obtain q where q: "first_ptr ys (Some 0) = Some q" by (cases ys) auto
  have lb: "?L b = Some (Some q, Some p)" using ring_at [OF r] p q by simp
  have pin: "p \<in> set (0 # xs)" and qin: "q \<in> set (0 # ys)"
    using p q by (auto simp: last_ptr_def first_ptr_def split: if_splits list.splits)
  have d: "distinct (0 # xs @ b # ys)" and seg: "dseg ?L (last_ptr (Some 0) (xs @ b # ys)) (0 # xs @ b # ys) (Some 0)"
    using r by (simp_all add: ring_def)
  have ne: "p \<noteq> b" "q \<noteq> b" using d pin qin by auto
  have "\<exists>n. ?L q = Some (n, Some b)"
    using seg q by (cases ys) (auto simp: last_ptr_def)
  then obtain qn where lq: "?L q = Some (qn, Some b)" by blast
  obtain R1 where R1: "upd_rbuf (Some q) (set_rb_prev (Some p)) s = Some (s\<lparr>rbufs := R1\<rparr>)" "rlinks R1 = ?L(q \<mapsto> (qn, Some p))"
    "payload R1 = payload (rbufs s)" using upd_rbuf_prev [OF lq] by blast
  have "\<exists>m. ?L p = Some (Some b, m)"
  proof (cases xs rule: rev_cases)
    case Nil
    then show ?thesis using seg p by auto
  next
    case (snoc zs z)
    then show ?thesis using seg p by (auto simp: last_ptr_def)
  qed
  then obtain pm where lp: "?L p = Some (Some b, pm)" by blast
  have lp1: "rlinks (rbufs (s\<lparr>rbufs := R1\<rparr>)) p = Some (Some b, if p = q then Some p else pm)"
    using R1(2) lp lq by auto
  obtain R2 where R2: "upd_rbuf (Some p) (set_rb_next (Some q)) (s\<lparr>rbufs := R1\<rparr>) = Some (s\<lparr>rbufs := R2\<rparr>)"
    "rlinks R2 = (rlinks R1)(p \<mapsto> (Some q, if p = q then Some p else pm))" "payload R2 = payload R1"
    using upd_rbuf_next [OF lp1, of "Some q"] by auto
  have lb2: "rlinks (rbufs (s\<lparr>rbufs := R2\<rparr>)) b = Some (Some q, Some p)" using R2(2) R1(2) lb ne by simp
  obtain R3 where R3: "upd_rbuf (Some b) (set_rb_prev (unused s)) (s\<lparr>rbufs := R2\<rparr>) = Some (s\<lparr>rbufs := R3\<rparr>)"
    "rlinks R3 = (rlinks R2)(b \<mapsto> (Some q, unused s))" "payload R3 = payload R2"
    using upd_rbuf_prev [OF lb2, of "unused s"] by auto
  obtain b0 where b0: "rbufs s b = Some b0" "rb_next b0 = Some q" "rb_prev b0 = Some p" using rlinks_rbufs [OF lb] by blast
  have "rlinks R1 b = Some (Some q, Some p)" using R1(2) lb ne by simp
  from rlinks_rbufs [OF this] obtain b1 where b1: "R1 b = Some b1" "rb_next b1 = Some q" "rb_prev b1 = Some p" by blast
  have L: "rlinks R3 = (?L(q \<mapsto> (qn, Some p)))(p \<mapsto> (Some q, if p = q then Some p else pm), b \<mapsto> (Some q, unused s))"
    using R3(2) R2(2) R1(2) by simp
  have "gc_remove_from_buffer b s = Some (s\<lparr>rbufs := R3, unused := Some b\<rparr>)"
    using b0 b1 R1(1) R2(1) R3(1) by (simp add: gc_remove_from_buffer_def)
  moreover have "ring R3 (xs @ ys)" by (rule ring_unlinked [OF r p q L lq lp])
  moreover have "rlinks R3 b = Some (first_ptr ys (Some 0), unused s)" using L q by simp
  moreover have "rlinks R3 a = ?L a" if "a \<notin> set (0 # xs @ b # ys)" for a
    using that pin qin unfolding L by (auto simp: fun_upd_def)
  ultimately show ?thesis using R1(3) R2(3) R3(3) by auto
qed

section \<open>What the roots are\<close>

definition node_at :: "root_buffers \<Rightarrow> addr \<Rightarrow> node" where
  "node_at R b = (case payload R b of
       Some (h, u) \<Rightarrow> if h \<noteq> 0 then Ob h else (case u of Pz a \<Rightarrow> Zv a | Handlers _ \<Rightarrow> Zv 0)
     | None \<Rightarrow> Zv 0)"

definition root_entry :: "(u32 \<Rightarrow> u64) \<Rightarrow> root_buffers \<Rightarrow> addr \<Rightarrow> bool" where
  "root_entry hts R b \<longleftrightarrow> (\<exists>h u. payload R b = Some (h, u) \<and> (if h = 0 then \<exists>a. u = Pz a else u = Handlers (hts h)))"

text \<open>The roots point to zvals and objects that point back, and nothing else points into the buffer.\<close>

definition roots_ok :: "(u32 \<Rightarrow> u64) \<Rightarrow> gc_state \<Rightarrow> addr list \<Rightarrow> bool" where
  "roots_ok hts s xs \<longleftrightarrow> ring (rbufs s) xs \<and>
     (\<forall>b\<in>set xs. root_entry hts (rbufs s) b \<and> node_at (rbufs s) b \<in> nodes s \<and> address_of s (node_at (rbufs s) b) = Root b) \<and>
     (\<forall>n\<in>nodes s. address_of s n = Null \<or> (\<exists>b\<in>set xs. address_of s n = Root b \<and> node_at (rbufs s) b = n))"

lemma node_at_payload: "payload R' = payload R \<Longrightarrow> node_at R' = node_at R \<and> root_entry hts R' = root_entry hts R"
  by (simp add: node_at_def root_entry_def fun_eq_iff)

text \<open>A root: its entry and the zval or the object.\<close>

lemma root_cases:
  assumes "root_entry hts R b"
  obtains rb a where "R b = Some rb" "rb_handle rb = 0" "rb_u rb = Pz a" "node_at R b = Zv a"
  | rb h where "R b = Some rb" "rb_handle rb = h" "h \<noteq> 0" "rb_u rb = Handlers (hts h)" "node_at R b = Ob h"
proof -
  from assms obtain h u where p: "payload R b = Some (h, u)" "if h = 0 then \<exists>a. u = Pz a else u = Handlers (hts h)"
    by (auto simp: root_entry_def)
  then obtain rb where rb: "R b = Some rb" "rb_handle rb = h" "rb_u rb = u" by (auto simp: payload_def)
  show ?thesis
  proof (cases "h = 0")
    case True
    with p obtain a where "u = Pz a" by auto
    with that(1) [of rb a] rb p True show ?thesis by (simp add: node_at_def)
  next
    case False
    with that(2) [of rb h] rb p show ?thesis by (simp add: node_at_def)
  qed
qed

section \<open>Marking from the roots\<close>

lemma rest_rbufs: "rest s' = rest s \<Longrightarrow> rbufs s' = rbufs s \<and> unused s' = unused s"
  by (drule arg_cong [of _ _ "\<lambda>s. (rbufs s, unused s)"]) (simp add: rest_def)

lemma mark_inv_address:
  assumes inv: "mark_inv hts s0 R A Rts D s {#} {#}" and n: "n \<in> nodes s"
    and s': "shape s' = shape s" "rc s' = rc s" "word_of s' = (word_of s)(n := GC_SET_ADDRESS a (word_of s n))"
  shows "mark_inv hts s0 (rest s') (address_of s') Rts D s' {#} {#}"
proof -
  have color: "color_of s' m = color_of s m" for m using s'(3) by (simp add: GC_SET_ADDRESS_def)
  then have "colored s' GC_GREY = colored s GC_GREY" using shape_nodes [OF s'(1)] by (simp add: colored_def)
  with inv s'(1,2) color show ?thesis by (simp add: mark_inv_def)
qed

lemma mark_inv_same:
  assumes inv: "mark_inv hts s0 R A Rts D s {#} {#}" and s': "shape s' = shape s" "rc s' = rc s" "word_of s' = word_of s"
  shows "mark_inv hts s0 (rest s') (address_of s') Rts D s' {#} {#}"
  using inv s' colored_cong [OF s'(1,3)] by (simp add: mark_inv_def)

lemma views_rbufs [simp]: "shape (s\<lparr>rbufs := R, unused := u\<rparr>) = shape s" "rc (s\<lparr>rbufs := R, unused := u\<rparr>) = rc s"
  "word_of (s\<lparr>rbufs := R, unused := u\<rparr>) = word_of s" "nodes (s\<lparr>rbufs := R, unused := u\<rparr>) = nodes s"
  by (auto simp: shape_def rc_def word_of_def nodes_def get_obj_def fun_eq_iff split: node.splits)

text \<open>
  The loop has looked at \<open>ws\<close>, of which it has kept \<open>xs\<close>, and is at the first of \<open>ys\<close>.
\<close>

definition purple :: "gc_state \<Rightarrow> addr list \<Rightarrow> node set" where
  "purple s ws = {n \<in> node_at (rbufs s) ` set ws. color_of s n = GC_PURPLE}"

text \<open>Nothing but the ring has changed, besides words and counts.\<close>

definition same_rest :: "gc_state \<Rightarrow> gc_state \<Rightarrow> bool" where
  "same_rest s s0 \<longleftrightarrow> rest s0 = (rest s)\<lparr>rbufs := rbufs s0, unused := unused s0\<rparr>"

lemma same_rest_trans: "rest s' = rest s \<Longrightarrow> same_rest s s0 \<Longrightarrow> same_rest s' s0"
  by (simp only: same_rest_def)

lemma same_rest_rbufs: "same_rest s s0 \<Longrightarrow> same_rest (s\<lparr>rbufs := R, unused := u\<rparr>) s0"
proof -
  have "rest (s\<lparr>rbufs := R, unused := u\<rparr>) = (rest s)\<lparr>rbufs := R, unused := u\<rparr>" by (simp add: rest_def)
  then show "same_rest s s0 \<Longrightarrow> same_rest (s\<lparr>rbufs := R, unused := u\<rparr>) s0" by (simp add: same_rest_def)
qed

definition mark_roots_inv :: "(u32 \<Rightarrow> u64) \<Rightarrow> gc_state \<Rightarrow> addr list \<Rightarrow> addr list \<Rightarrow> addr list \<Rightarrow> gc_state \<Rightarrow> bool" where
  "mark_roots_inv hts s0 ws xs ys s \<longleftrightarrow>
     mark_inv hts s0 (rest s) (address_of s) (node_at (rbufs s0) ` set xs) (purple s0 ws) s {#} {#} \<and>
     roots_ok hts s (xs @ ys) \<and> payload (rbufs s) = payload (rbufs s0) \<and>
     same_rest s s0 \<and>
     set xs \<subseteq> set ws \<and> node_at (rbufs s0) ` set xs \<subseteq> purple s0 ws"

lemma roots_kept:
  assumes ok: "roots_ok hts s xs" and rb: "rbufs s' = rbufs s" and n: "nodes s' = nodes s"
    and A: "\<And>n. n \<in> nodes s \<Longrightarrow> address_of s' n = address_of s n"
  shows "roots_ok hts s' xs"
  using ok unfolding roots_ok_def rb n by (simp add: A)

lemma roots_unlinked:
  assumes ok: "roots_ok hts s (xs @ b # ys)" and nodes: "nodes s' = nodes s"
    and addr: "\<And>m. address_of s' m = (if m = node_at (rbufs s) b then Null else address_of s m)"
    and R: "ring (rbufs s') (xs @ ys)" "payload (rbufs s') = payload (rbufs s)"
  shows "roots_ok hts s' (xs @ ys)"
proof -
  let ?n = "node_at (rbufs s) b"
  have d: "b \<notin> set (xs @ ys)" using ok by (simp add: roots_ok_def ring_def)
  have nb: "address_of s ?n = Root b" using ok by (simp add: roots_ok_def)
  have other: "node_at (rbufs s) c \<noteq> ?n" if "c \<in> set (xs @ ys)" for c
    using that ok nb d unfolding roots_ok_def by (metis Un_iff gc_address.inject(1) set_append list.set_intros(2))
  note pay = node_at_payload [OF R(2)]
  have "\<exists>c\<in>set (xs @ ys). address_of s m = Root c \<and> node_at (rbufs s) c = m" if "m \<in> nodes s" "address_of s m \<noteq> Null" "m \<noteq> ?n" for m
  proof -
    from ok that obtain c where "c \<in> set (xs @ b # ys)" "address_of s m = Root c" "node_at (rbufs s) c = m"
      unfolding roots_ok_def by blast
    with that show ?thesis by auto
  qed
  moreover have "\<forall>c\<in>set (xs @ ys). root_entry hts (rbufs s) c \<and> node_at (rbufs s) c \<in> nodes s \<and> address_of s (node_at (rbufs s) c) = Root c"
    using ok by (simp add: roots_ok_def)
  ultimately show ?thesis using R(1) other by (auto simp: roots_ok_def nodes pay addr)
qed

lemma roots_removed:
  assumes ok: "roots_ok hts s (xs @ b # ys)" and sh: "shape s1 = shape s"
    and word: "word_of s1 = (word_of s)(node_at (rbufs s) b := GC_SET_ADDRESS Null (word_of s (node_at (rbufs s) b)))"
    and R: "ring R (xs @ ys)" "payload R = payload (rbufs s)"
  shows "roots_ok hts (s1\<lparr>rbufs := R, unused := u\<rparr>) (xs @ ys)"
  by (rule roots_unlinked [OF ok]) (use R shape_nodes [OF sh] in \<open>simp_all add: word GC_SET_ADDRESS_def\<close>)

lemma purple_snoc: "purple s (ws @ [b]) =
    (if color_of s (node_at (rbufs s) b) = GC_PURPLE then insert (node_at (rbufs s) b) (purple s ws) else purple s ws)"
  by (auto simp: purple_def)

lemma mark_root_keep:
  assumes inv: "mark_roots_inv hts s0 ws xs (b # ys) s" and n: "node_at (rbufs s0) b = n" "color_of s n = GC_PURPLE"
    and inv': "mark_inv hts s0 (rest s) (address_of s) (insert n (node_at (rbufs s0) ` set xs)) (insert n (purple s0 ws)) s' {#} {#}"
  shows "mark_roots_inv hts s0 (ws @ [b]) (xs @ [b]) ys s' \<and> rbufs s' = rbufs s"
proof -
  have inv0: "mark_inv hts s0 (rest s) (address_of s) (node_at (rbufs s0) ` set xs) (purple s0 ws) s {#} {#}"
    and ok: "roots_ok hts s (xs @ b # ys)" and pay: "payload (rbufs s) = payload (rbufs s0)"
    using inv by (simp_all add: mark_roots_inv_def)
  have rs: "rest s' = rest s" using inv' by (simp add: mark_inv_def)
  have addr: "address_of s' m = address_of s m" if "m \<in> nodes s0" for m using inv' that by (simp add: mark_inv_def)
  have rb: "rbufs s' = rbufs s" using rest_rbufs [OF rs] by simp
  note nodes = mark_inv_nodes [OF inv0] mark_inv_nodes [OF inv']
  have ok': "roots_ok hts s' ((xs @ [b]) @ ys)" using roots_kept [OF ok rb] nodes addr by simp
  have nn: "n \<in> nodes s0" using ok nodes n(1) node_at_payload [OF pay] by (simp add: roots_ok_def)
  have "n \<notin> colored s GC_GREY" using n(2) by (simp add: colored_def)
  with inv0 nn n(2) have "color_of s0 n = GC_PURPLE" by (auto simp: mark_inv_def)
  then have purple: "purple s0 (ws @ [b]) = insert n (purple s0 ws)" using n(1) by (simp add: purple_snoc)
  have im: "node_at (rbufs s0) ` set (xs @ [b]) = insert n (node_at (rbufs s0) ` set xs)" using n(1) by simp
  have "mark_inv hts s0 (rest s') (address_of s') (insert n (node_at (rbufs s0) ` set xs)) (insert n (purple s0 ws)) s' {#} {#}"
    using inv' by (simp add: mark_inv_def)
  moreover have "set (xs @ [b]) \<subseteq> set (ws @ [b])" "insert n (node_at (rbufs s0) ` set xs) \<subseteq> insert n (purple s0 ws)"
    using inv by (auto simp: mark_roots_inv_def)
  moreover have "same_rest s' s0" by (rule same_rest_trans [OF rs]) (use inv in \<open>simp add: mark_roots_inv_def\<close>)
  moreover have "payload (rbufs s') = payload (rbufs s0)" using rb pay by simp
  ultimately have "mark_roots_inv hts s0 (ws @ [b]) (xs @ [b]) ys s'"
    unfolding mark_roots_inv_def purple im using ok' by (intro conjI)
  with rb show ?thesis by blast
qed

lemma mark_root_drop:
  assumes inv: "mark_roots_inv hts s0 ws xs (b # ys) s" and n: "node_at (rbufs s0) b = n" "color_of s n \<noteq> GC_PURPLE"
    and s1: "shape s1 = shape s" "rest s1 = rest s" "rc s1 = rc s" "word_of s1 = (word_of s)(n := GC_SET_ADDRESS Null (word_of s n))"
  shows "\<exists>s'. gc_remove_from_buffer b s1 = Some s' \<and> mark_roots_inv hts s0 (ws @ [b]) xs ys s' \<and>
    rlinks (rbufs s') b = Some (first_ptr ys (Some 0), unused s)"
proof -
  have inv0: "mark_inv hts s0 (rest s) (address_of s) (node_at (rbufs s0) ` set xs) (purple s0 ws) s {#} {#}"
    and ok: "roots_ok hts s (xs @ b # ys)" and pay: "payload (rbufs s) = payload (rbufs s0)"
    using inv by (simp_all add: mark_roots_inv_def)
  note rb = rest_rbufs [OF s1(2)]
  note nodes = mark_inv_nodes [OF inv0]
  have n': "node_at (rbufs s) b = n" using n(1) node_at_payload [OF pay] by simp
  have nn: "n \<in> nodes s" using ok n' by (simp add: roots_ok_def)
  have "ring (rbufs s1) (xs @ b # ys)" using ok rb by (simp add: roots_ok_def)
  from ring_remove [OF this] obtain R where R: "gc_remove_from_buffer b s1 = Some (s1\<lparr>rbufs := R, unused := Some b\<rparr>)"
    "ring R (xs @ ys)" "payload R = payload (rbufs s)" "rlinks R b = Some (first_ptr ys (Some 0), unused s)" using rb by auto
  let ?s = "s1\<lparr>rbufs := R, unused := Some b\<rparr>"
  have "roots_ok hts ?s (xs @ ys)" by (rule roots_removed [OF ok s1(1) _ R(2,3)]) (use s1(4) n' in simp)
  moreover have "mark_inv hts s0 (rest s) (address_of s) (node_at (rbufs s0) ` set xs) (purple s0 (ws @ [b])) s {#} {#}"
  proof (cases "color_of s0 n = GC_PURPLE")
    case True
    with inv0 nn nodes n(2) have "n \<in> colored s GC_GREY \<or> symtab s0 n \<and> color_of s n = GC_BLACK"
      by (auto simp: mark_inv_def)
    with mark_inv_done [OF inv0] show ?thesis using True n(1) by (simp add: purple_snoc)
  next
    case False
    with inv0 n(1) show ?thesis by (simp add: purple_snoc)
  qed
  note mark_inv_address [OF this nn, of ?s Null]
  then have "mark_inv hts s0 (rest ?s) (address_of ?s) (node_at (rbufs s0) ` set xs) (purple s0 (ws @ [b])) ?s {#} {#}"
    using s1 by simp
  moreover have "same_rest ?s s0"
    by (intro same_rest_rbufs same_rest_trans [OF s1(2)]) (use inv in \<open>simp add: mark_roots_inv_def\<close>)
  ultimately have "mark_roots_inv hts s0 (ws @ [b]) xs ys ?s"
    using inv R(3) by (auto simp: mark_roots_inv_def purple_def)
  with R(1,4) show ?thesis by auto
qed

lemma mark_root_step:
  assumes inv: "mark_roots_inv hts s0 ws xs (b # ys) s"
  shows "\<exists>rb s' xs' p. rbufs s b = Some rb \<and> mark_root b rb s = Some s' \<and> mark_roots_inv hts s0 (ws @ [b]) xs' ys s' \<and>
    rlinks (rbufs s') b = Some (first_ptr ys (Some 0), p)"
proof -
  have inv0: "mark_inv hts s0 (rest s) (address_of s) (node_at (rbufs s0) ` set xs) (purple s0 ws) s {#} {#}"
    and ok: "roots_ok hts s (xs @ b # ys)" and pay: "payload (rbufs s) = payload (rbufs s0)"
    using inv by (simp_all add: mark_roots_inv_def)
  note nodes = mark_inv_nodes [OF inv0]
  have entry: "root_entry hts (rbufs s) b" and nn: "node_at (rbufs s) b \<in> nodes s" and r: "ring (rbufs s) (xs @ b # ys)"
    using ok by (simp_all add: roots_ok_def)
  note same = node_at_payload [OF pay]
  show ?thesis using entry
  proof (cases rule: root_cases)
    case (1 rb a)
    from 1(4) nn obtain z where z: "zvals s a = Some z" by auto
    note at = 1(4) [unfolded conjunct1 [OF same]]
    show ?thesis
    proof (cases "word_color (z_u z) = GC_PURPLE")
      case True
      then have p: "color_of s (Zv a) = GC_PURPLE" using word_zval [OF z] by simp
      obtain s' where s': "zval_mark_grey a s = Some s'" "mark_inv hts s0 (rest s) (address_of s)
          (insert (Zv a) (node_at (rbufs s0) ` set xs)) (insert (Zv a) (purple s0 ws)) s' {#} {#}"
        using zval_mark_grey_inv [OF inv0, of a] nn 1(4) nodes by auto
      from mark_root_keep [OF inv at p s'(2)] ring_at [OF r] True 1 z s'(1) show ?thesis
        by (intro exI [of _ rb] exI [of _ s'] exI [of _ "xs @ [b]"]) (auto simp: mark_root_def)
    next
      case False
      then have p: "color_of s (Zv a) \<noteq> GC_PURPLE" using word_zval [OF z] by simp
      obtain s1 where s1: "zval_set_u a (GC_SET_ADDRESS Null) s = Some s1" "shape s1 = shape s" "rest s1 = rest s" "rc s1 = rc s"
        "word_of s1 = (word_of s)(Zv a := GC_SET_ADDRESS Null (word_of s (Zv a)))"
        by (rule zval_set_u_views [OF z, of "GC_SET_ADDRESS Null"])
      from mark_root_drop [OF inv at p s1(2-5)] False 1 z s1(1) show ?thesis by (auto simp: mark_root_def)
    qed
  next
    case (2 rb h)
    from 2(5) nn obtain o' where o': "get_obj h s = Some o'" by auto
    then obtain bs where bs: "gc_buckets s = Some bs" by (auto simp: get_obj_def split: option.splits)
    note at = 2(5) [unfolded conjunct1 [OF same]]
    show ?thesis
    proof (cases "word_color (gb_buffered o') = GC_PURPLE")
      case True
      then have p: "color_of s (Ob h) = GC_PURPLE" using word_obj [OF o'] by simp
      obtain s' where s': "zobj_mark_grey h (hts h) s = Some s'" "mark_inv hts s0 (rest s) (address_of s)
          (insert (Ob h) (node_at (rbufs s0) ` set xs)) (insert (Ob h) (purple s0 ws)) s' {#} {#}"
        using zobj_mark_grey_inv [OF inv0, of h] nn 2(5) nodes by auto
      from mark_root_keep [OF inv at p s'(2)] ring_at [OF r] True 2 o' bs s'(1) show ?thesis
        by (intro exI [of _ rb] exI [of _ s'] exI [of _ "xs @ [b]"]) (auto simp: mark_root_def)
    next
      case False
      then have p: "color_of s (Ob h) \<noteq> GC_PURPLE" using word_obj [OF o'] by simp
      obtain s1 where s1: "obj_set_buffered h (GC_SET_ADDRESS Null) s = Some s1" "shape s1 = shape s" "rest s1 = rest s" "rc s1 = rc s"
        "word_of s1 = (word_of s)(Ob h := GC_SET_ADDRESS Null (word_of s (Ob h)))"
        by (rule obj_set_buffered_views [OF o', of "GC_SET_ADDRESS Null"])
      from mark_root_drop [OF inv at p s1(2-5)] False 2 o' bs s1(1) show ?thesis by (auto simp: mark_root_def)
    qed
  qed
qed

lemma mark_roots_run:
  "mark_roots_inv hts s0 ws xs ys s \<Longrightarrow>
     \<exists>s' xs'. mark_roots_loop (first_ptr ys (Some 0)) s = Some s' \<and> mark_roots_inv hts s0 (ws @ ys) xs' [] s'"
proof (induction ys arbitrary: ws xs s)
  case Nil
  then show ?case by (subst mark_roots_loop.simps) auto
next
  case (Cons b ys)
  from mark_root_step [OF Cons.prems] obtain rb s' xs' p where st: "rbufs s b = Some rb" "mark_root b rb s = Some s'"
    "mark_roots_inv hts s0 (ws @ [b]) xs' ys s'" "rlinks (rbufs s') b = Some (first_ptr ys (Some 0), p)" by blast
  have "b \<noteq> 0" using Cons.prems by (simp add: mark_roots_inv_def roots_ok_def ring_def)
  moreover obtain rb' where "rbufs s' b = Some rb'" "rb_next rb' = first_ptr ys (Some 0)" using rlinks_rbufs [OF st(4)] by blast
  ultimately have "mark_roots_loop (first_ptr (b # ys) (Some 0)) s = mark_roots_loop (first_ptr ys (Some 0)) s'"
    using st(1,2) by (subst mark_roots_loop.simps) simp
  with Cons.IH [OF st(3)] show ?case by simp
qed

lemma reach_closed:
  assumes "(r, n) \<in> gc_reach hts s" "r \<in> P" "\<And>n m. n \<in> P \<Longrightarrow> n \<in> nodes s \<Longrightarrow> m \<in> set (succs hts s n) \<Longrightarrow> m \<in> P"
  shows "n \<in> P"
  using assms(1) unfolding gc_reach_def
proof (induction rule: rtrancl_induct)
  case base
  show ?case by (rule assms(2))
next
  case (step n m)
  then show ?case using assms(3) by blast
qed

lemma gc_mark_roots_run:
  assumes "gc_wf hts s" "gc_refs hts s" "roots_ok hts s xs" and black: "\<forall>n\<in>nodes s. color_of s n \<noteq> GC_GREY"
  shows "\<exists>s' xs'. gc_mark_roots s = Some s' \<and> mark_roots_inv hts s xs xs' [] s' \<and>
    colored s' GC_GREY = {n \<in> nodes s. \<not> symtab s n \<and> (\<exists>r\<in>purple s xs. (r, n) \<in> gc_reach hts s)}"
proof -
  have grey: "colored s GC_GREY = {}" using black by (auto simp: colored_def)
  have "mark_roots_inv hts s [] [] xs s"
    using assms grey by (simp add: mark_roots_inv_def mark_inv_def purple_def same_rest_def rest_def edges_def)
  from mark_roots_run [OF this] obtain s' xs' where run: "mark_roots_loop (first_ptr xs (Some 0)) s = Some s'"
    and inv: "mark_roots_inv hts s xs xs' [] s'" by auto
  have "ring (rbufs s) xs" using assms(3) by (simp add: roots_ok_def)
  from rlinks_rbufs [OF ring_head [OF this]] obtain b where b: "rbufs s 0 = Some b" "rb_next b = first_ptr xs (Some 0)" by blast
  have m: "mark_inv hts s (rest s') (address_of s') (node_at (rbufs s) ` set xs') (purple s xs) s' {#} {#}"
    and sub: "node_at (rbufs s) ` set xs' \<subseteq> purple s xs" using inv by (simp_all add: mark_roots_inv_def)
  note nodes = mark_inv_nodes [OF m]
  let ?P = "colored s' GC_GREY \<union> {n. symtab s n}"
  have "n \<in> ?P" if "r \<in> purple s xs" "(r, n) \<in> gc_reach hts s" for r n
  proof (rule reach_closed [OF that(2)])
    show "r \<in> ?P" using m that(1) by (auto simp: mark_inv_def)
    show "m' \<in> ?P" if "n' \<in> ?P" "n' \<in> nodes s" "m' \<in> set (succs hts s n')" for n' m'
      using m that by (auto simp: mark_inv_def)
  qed
  moreover have "n \<in> nodes s \<and> \<not> symtab s n \<and> (\<exists>r\<in>purple s xs. (r, n) \<in> gc_reach hts s)" if "n \<in> colored s' GC_GREY" for n
  proof -
    have "n \<in> nodes s" using that nodes by (simp add: colored_def)
    moreover have "\<not> symtab s n" "\<exists>r\<in>node_at (rbufs s) ` set xs'. (r, n) \<in> gc_reach hts s" using m that by (simp_all add: mark_inv_def)
    ultimately show ?thesis using sub by blast
  qed
  ultimately have "colored s' GC_GREY = {n \<in> nodes s. \<not> symtab s n \<and> (\<exists>r\<in>purple s xs. (r, n) \<in> gc_reach hts s)}" by blast
  moreover have "gc_mark_roots s = Some s'" using b run by (simp add: gc_mark_roots_def)
  ultimately show ?thesis using inv by blast
qed

end
