(* ===== verification/ZendGcScan.thy ===== *)
theory ZendGcScan imports ZendGcRoots begin

text \<open>
  The second phase: a grey zval or object that still has references was referred to from outside of the grey region;
  it and all that is reachable from it is made black again and counted again. The rest of the region becomes white.
\<close>

section \<open>The invariant\<close>

text \<open>
  \<open>G\<close> is the region that was marked, \<open>W0\<close> the words at the end of the first phase. A node is external if
  it has more references than come from \<open>G\<close>.
\<close>

definition external :: "(u32 \<Rightarrow> u64) \<Rightarrow> gc_state \<Rightarrow> node set \<Rightarrow> node set" where
  "external hts s0 G = {m \<in> G. count (edges hts s0 G) m < rc s0 m}"

definition ext_reach :: "(u32 \<Rightarrow> u64) \<Rightarrow> gc_state \<Rightarrow> node set \<Rightarrow> node \<Rightarrow> bool" where
  "ext_reach hts s0 G n \<longleftrightarrow> (\<exists>m\<in>external hts s0 G. (m, n) \<in> gc_reach hts s0)"

definition region :: "(u32 \<Rightarrow> u64) \<Rightarrow> gc_state \<Rightarrow> (node \<Rightarrow> gc_word) \<Rightarrow> node set \<Rightarrow> bool" where
  "region hts s0 W0 G \<longleftrightarrow> gc_wf hts s0 \<and> gc_refs hts s0 \<and> G \<subseteq> nodes s0 \<and>
     (\<forall>n\<in>G. \<not> symtab s0 n \<and> (\<forall>m\<in>set (succs hts s0 n). m \<in> G \<or> symtab s0 m \<and> word_color (W0 m) = GC_BLACK)) \<and>
     (\<forall>n\<in>nodes s0 - G. word_color (W0 n) \<noteq> GC_GREY)"

text \<open>
  The references from nodes of \<open>G\<close> that are not black are taken from the counts, and so are the pending ones \<open>K\<close>;
  \<open>K'\<close> is to be made black, \<open>S\<close> is to be scanned. No node outside of \<open>X\<close> is grey.
\<close>

definition scan_inv :: "(u32 \<Rightarrow> u64) \<Rightarrow> gc_state \<Rightarrow> (node \<Rightarrow> gc_word) \<Rightarrow> node set \<Rightarrow> gc_state \<Rightarrow> node set \<Rightarrow>
    gc_state \<Rightarrow> node multiset \<Rightarrow> node multiset \<Rightarrow> node multiset \<Rightarrow> bool" where
  "scan_inv hts s0 W0 G R X s K K' S \<longleftrightarrow>
     region hts s0 W0 G \<and> shape s = shape s0 \<and> rest s = R \<and>
     (\<forall>n\<in>nodes s0. \<not> symtab s0 n \<longrightarrow> rc s n + count (edges hts s0 (G - colored s GC_BLACK)) n + count K n = rc s0 n) \<and>
     (\<forall>n\<in>G \<inter> colored s GC_BLACK. ext_reach hts s0 G n \<and>
        (\<forall>m\<in>set (succs hts s0 n). m \<in> colored s GC_BLACK \<or> m \<in># K')) \<and>
     (\<forall>n\<in>G \<inter> colored s GC_WHITE. (rc s n = 0 \<or> n \<in># K') \<and>
        (\<forall>m\<in>set (succs hts s0 n). m \<notin> colored s GC_GREY \<or> m \<in># S)) \<and>
     (\<forall>n\<in>#K'. n \<in> G \<and> ext_reach hts s0 G n \<or> symtab s0 n \<and> n \<in> colored s GC_BLACK) \<and>
     (\<forall>n\<in>#S. n \<in> nodes s0) \<and>
     (\<forall>n\<in>nodes s0. if n \<in> G then address_of s n = word_address (W0 n) \<and> color_of s n \<noteq> GC_PURPLE else word_of s n = W0 n) \<and>
     colored s GC_GREY \<subseteq> X"

text \<open>The parts of the invariant.\<close>

lemma scan_parts:
  assumes "scan_inv hts s0 W0 G R X s K K' S"
  shows scan_region: "region hts s0 W0 G"
    and scan_frame: "shape s = shape s0" "rest s = R"
    and scan_count: "n \<in> nodes s0 \<Longrightarrow> \<not> symtab s0 n \<Longrightarrow> rc s n + count (edges hts s0 (G - colored s GC_BLACK)) n + count K n = rc s0 n"
    and scan_black: "n \<in> G \<Longrightarrow> n \<in> colored s GC_BLACK \<Longrightarrow>
      ext_reach hts s0 G n \<and> (\<forall>m\<in>set (succs hts s0 n). m \<in> colored s GC_BLACK \<or> m \<in># K')"
    and scan_white: "n \<in> G \<Longrightarrow> n \<in> colored s GC_WHITE \<Longrightarrow>
      (rc s n = 0 \<or> n \<in># K') \<and> (\<forall>m\<in>set (succs hts s0 n). m \<notin> colored s GC_GREY \<or> m \<in># S)"
    and scan_pending: "n \<in># K' \<Longrightarrow> n \<in> G \<and> ext_reach hts s0 G n \<or> symtab s0 n \<and> n \<in> colored s GC_BLACK"
    and scan_scan: "n \<in># S \<Longrightarrow> n \<in> nodes s0"
    and scan_words: "n \<in> nodes s0 \<Longrightarrow> if n \<in> G then address_of s n = word_address (W0 n) \<and> color_of s n \<noteq> GC_PURPLE else word_of s n = W0 n"
    and scan_not_grey: "colored s GC_GREY \<subseteq> X"
  using assms unfolding scan_inv_def by blast+

lemma scan_inv_nodes: "scan_inv hts s0 W0 G R X s K K' S \<Longrightarrow> nodes s = nodes s0 \<and> symtab s = symtab s0 \<and> succs hts s = succs hts s0"
  unfolding scan_inv_def using shape_nodes [of s s0] shape_symtab [of s s0] shape_succs [of s s0 hts] by blast

lemma scan_colors:
  assumes "scan_inv hts s0 W0 G R X s K K' S" "n \<in> G"
  shows "color_of s n = GC_BLACK \<or> color_of s n = GC_WHITE \<or> color_of s n = GC_GREY"
  using scan_words [OF assms(1), of n] scan_region [OF assms(1)] assms(2)
  by (cases "color_of s n") (auto simp: region_def)

lemma scan_grey: "scan_inv hts s0 W0 G R X s K K' S \<Longrightarrow> colored s GC_GREY \<subseteq> G"
proof
  fix n assume inv: "scan_inv hts s0 W0 G R X s K K' S" and n: "n \<in> colored s GC_GREY"
  then have "n \<in> nodes s0" using scan_inv_nodes [OF inv] by (simp add: colored_def)
  then show "n \<in> G" using scan_words [OF inv, of n] scan_region [OF inv] n by (auto simp: region_def colored_def split: if_splits)
qed

section \<open>Scan black\<close>

definition black_todo :: "node set \<Rightarrow> gc_state \<Rightarrow> nat" where
  "black_todo G s = card (G - colored s GC_BLACK)"

lemma black_edge_count:
  assumes inv: "scan_inv hts s0 W0 G R X s (add_mset n K) K' S" and n: "n \<in> G" "n \<in># K'"
    and s': "shape s' = shape s" "rest s' = rest s" "rc s' = (rc s)(n := rc s n + 1)" "word_of s' = word_of s"
  shows "scan_inv hts s0 W0 G R X s' K K' S"
  using inv n s'(1,2) by (auto simp: scan_inv_def colored_cong [OF s'(1,4)] s'(3,4))

lemma black_edge_bound:
  assumes inv: "scan_inv hts s0 W0 G R X s (add_mset n K) K' S" and n: "n \<in> G"
  shows "rc s n + 1 < 2 ^ 32"
proof -
  have n': "n \<in> nodes s0" "\<not> symtab s0 n" "gc_refs hts s0" using scan_region [OF inv] n by (auto simp: region_def)
  have "rc s n + 1 \<le> rc s0 n" using scan_count [OF inv n'(1,2)] by simp
  moreover have "rc s0 n + 1 < 2 ^ 32" using n' unfolding gc_refs_def by blast
  ultimately show ?thesis by linarith
qed

lemma black_symtab_edge:
  assumes inv: "scan_inv hts s0 W0 G R X s (add_mset n K) K' S" and sym: "symtab s0 n"
  shows "scan_inv hts s0 W0 G R X s K K' S"
proof -
  have "count (add_mset n K) m = count K m" if "\<not> symtab s0 m" for m using that sym by auto
  with inv show ?thesis unfolding scan_inv_def by (elim conjE, intro conjI) simp_all
qed

lemma black_old:
  assumes inv: "scan_inv hts s0 W0 G R X s K (add_mset n K') S" and n: "n \<in> colored s GC_BLACK"
  shows "scan_inv hts s0 W0 G R X s K K' S"
  unfolding scan_inv_def
proof (intro conjI ballI impI)
  fix m assume "m \<in> G \<inter> colored s GC_BLACK"
  then have m: "m \<in> G" "m \<in> colored s GC_BLACK" by simp_all
  show "ext_reach hts s0 G m" using scan_black [OF inv m] by simp
  fix k assume "k \<in> set (succs hts s0 m)"
  then show "k \<in> colored s GC_BLACK \<or> k \<in># K'" using scan_black [OF inv m] n by auto
next
  fix m assume "m \<in> G \<inter> colored s GC_WHITE"
  then have m: "m \<in> G" "m \<in> colored s GC_WHITE" "m \<noteq> n" using n by (auto simp: colored_def)
  show "rc s m = 0 \<or> m \<in># K'" using scan_white [OF inv m(1,2)] m(3) by simp
  fix k assume "k \<in> set (succs hts s0 m)"
  then show "k \<notin> colored s GC_GREY \<or> k \<in># S" using scan_white [OF inv m(1,2)] by blast
next
  fix m assume "m \<in># K'"
  then show "m \<in> G \<and> ext_reach hts s0 G m \<or> symtab s0 m \<and> m \<in> colored s GC_BLACK" using scan_pending [OF inv, of m] by simp
qed (use scan_region [OF inv] scan_frame [OF inv] scan_count [OF inv] scan_scan [OF inv] scan_words [OF inv] scan_not_grey [OF inv] in \<open>assumption | simp\<close>)+

lemma ext_reach_step: "ext_reach hts s0 G n \<Longrightarrow> n \<in> nodes s0 \<Longrightarrow> m \<in> set (succs hts s0 n) \<Longrightarrow> ext_reach hts s0 G m"
  unfolding ext_reach_def using reach_step by blast

lemma black_visit:
  assumes inv: "scan_inv hts s0 W0 G R X s K (add_mset n K') S" and n: "n \<in> G" "n \<notin> colored s GC_BLACK"
    and s': "shape s' = shape s" "rest s' = rest s" "rc s' = rc s" "word_of s' = (word_of s)(n := GC_SET_COLOR GC_BLACK (word_of s n))"
  shows "scan_inv hts s0 W0 G R X s' (mset (succs hts s0 n) + K) (mset (succs hts s0 n) + K') S \<and>
    black_todo G s' < black_todo G s \<and> n \<in> colored s' GC_BLACK"
proof -
  note reg = scan_region [OF inv] and sh = scan_frame(1) [OF inv]
  have nK: "ext_reach hts s0 G n" using scan_pending [OF inv, of n] n by auto
  note nodes = scan_inv_nodes [OF inv]
  have G: "G \<subseteq> nodes s0" "finite G" using reg finite_nodes finite_subset unfolding region_def by blast+
  have ns: "n \<in> nodes s" using n(1) G(1) nodes by auto
  have col: "colored s' c = (if c = GC_BLACK then insert n (colored s GC_BLACK) else colored s c - {n})" for c
    using colored_upd [OF s'(1,4) ns, of c] by (simp add: GC_SET_COLOR_def)
  have minus: "G - colored s GC_BLACK = insert n (G - colored s' GC_BLACK)" using n col by auto
  have "edges hts s0 (G - colored s GC_BLACK) = mset (succs hts s0 n) + edges hts s0 (G - colored s' GC_BLACK)"
    unfolding minus by (rule edges_insert) (use G(2) col in auto)
  then have cnt: "count (edges hts s0 (G - colored s GC_BLACK)) m = count (mset (succs hts s0 n)) m + count (edges hts s0 (G - colored s' GC_BLACK)) m" for m
    by simp
  have succ: "m \<in> G \<and> ext_reach hts s0 G m \<or> symtab s0 m \<and> m \<in> colored s' GC_BLACK" if m: "m \<in> set (succs hts s0 n)" for m
  proof (cases "m \<in> G")
    case True
    then show ?thesis using ext_reach_step [OF nK _ m] n(1) G(1) by blast
  next
    case False
    then have "symtab s0 m" "word_color (W0 m) = GC_BLACK" using reg n(1) m by (auto simp: region_def)
    moreover have "m \<in> nodes s0" using wf_succs [of hts s0 n] reg n(1) m by (auto simp: region_def)
    ultimately show ?thesis using scan_words [OF inv, of m] False col nodes by (simp add: colored_def)
  qed
  have word: "word_of s' m = (if m = n then GC_SET_COLOR GC_BLACK (word_of s n) else word_of s m)" for m using s'(4) by simp
  have "scan_inv hts s0 W0 G R X s' (mset (succs hts s0 n) + K) (mset (succs hts s0 n) + K') S"
    unfolding scan_inv_def
  proof (intro conjI ballI impI)
    fix m assume "m \<in> nodes s0" "\<not> symtab s0 m"
    from scan_count [OF inv this] cnt [of m] s'(3)
    show "rc s' m + count (edges hts s0 (G - colored s' GC_BLACK)) m + count (mset (succs hts s0 n) + K) m = rc s0 m" by simp
  next
    fix m assume "m \<in> G \<inter> colored s' GC_BLACK"
    then have m: "m \<in> G" "m = n \<or> m \<in> colored s GC_BLACK" by (auto simp: col)
    then show "ext_reach hts s0 G m" using scan_black [OF inv] nK by blast
    fix k assume "k \<in> set (succs hts s0 m)"
    then show "k \<in> colored s' GC_BLACK \<or> k \<in># mset (succs hts s0 n) + K'" using scan_black [OF inv, of m] m by (auto simp: col)
  next
    fix m assume "m \<in> G \<inter> colored s' GC_WHITE"
    then have m: "m \<in> G" "m \<noteq> n" "m \<in> colored s GC_WHITE" by (auto simp: col)
    then show "rc s' m = 0 \<or> m \<in># mset (succs hts s0 n) + K'" using scan_white [OF inv, of m] s'(3) by auto
    fix k assume "k \<in> set (succs hts s0 m)"
    then show "k \<notin> colored s' GC_GREY \<or> k \<in># S" using scan_white [OF inv, of m] m by (auto simp: col)
  next
    fix m assume "m \<in># mset (succs hts s0 n) + K'"
    then show "m \<in> G \<and> ext_reach hts s0 G m \<or> symtab s0 m \<and> m \<in> colored s' GC_BLACK"
      using succ scan_pending [OF inv, of m] by (auto simp: col)
  next
    fix m assume "m \<in> nodes s0"
    then show "if m \<in> G then address_of s' m = word_address (W0 m) \<and> color_of s' m \<noteq> GC_PURPLE else word_of s' m = W0 m"
      using scan_words [OF inv, of m] n(1) by (auto simp: word GC_SET_COLOR_def)
  qed (use reg sh s'(1,2) scan_frame [OF inv] scan_scan [OF inv] scan_not_grey [OF inv] in \<open>auto simp: col\<close>)
  moreover have "G - colored s' GC_BLACK = (G - colored s GC_BLACK) - {n}" using col by auto
  then have "black_todo G s' < black_todo G s"
    unfolding black_todo_def using card_Diff1_less [of "G - colored s GC_BLACK" n] n G(2) by simp
  ultimately show ?thesis using col by simp
qed

abbreviation black_loop where
  "black_loop hts s0 W0 G R X S s K \<equiv> scan_inv hts s0 W0 G R X s (image_mset Zv K) (image_mset Zv K) S"

abbreviation black_call where
  "black_call hts s0 W0 G R X S z s K \<equiv> scan_inv hts s0 W0 G R X s (image_mset Zv K) (add_mset (Zv z) (image_mset Zv K)) S \<and>
     Zv z \<in> G \<and> Zv z \<notin> colored s GC_BLACK"

lemma black_todo_cong: "shape s' = shape s \<Longrightarrow> word_of s' = word_of s \<Longrightarrow> black_todo G s' = black_todo G s"
  using colored_cong [of s' s GC_BLACK] by (simp add: black_todo_def)

lemma black_edge_step:
  assumes inv: "black_loop hts s0 W0 G R X S s (add_mset z K)"
  shows "\<exists>d s'. scan_black_edge z s = Some (d, s') \<and> black_todo G s' \<le> black_todo G s \<and>
    (if d then black_call hts s0 W0 G R X S z s' K else black_loop hts s0 W0 G R X S s' K)"
proof -
  let ?I = "\<lambda>s. scan_inv hts s0 W0 G R X s (image_mset Zv K) (add_mset (Zv z) (image_mset Zv K)) S"
  note nodes = scan_inv_nodes [OF inv]
  have zK: "Zv z \<in> G \<and> ext_reach hts s0 G (Zv z) \<or> symtab s0 (Zv z) \<and> Zv z \<in> colored s GC_BLACK"
    using scan_pending [OF inv, of "Zv z"] by simp
  then have nz: "Zv z \<in> nodes s0" using scan_region [OF inv] nodes by (auto simp: region_def colored_def)
  then have "Zv z \<in> nodes s" using nodes by simp
  then obtain y where y: "zvals s z = Some y" by auto
  have decide: "\<exists>d s'. scan_black_edge z s = Some (d, s') \<and> black_todo G s' \<le> black_todo G s \<and>
    (if d then black_call hts s0 W0 G R X S z s' K else black_loop hts s0 W0 G R X S s' K)"
    if s': "count_edge 1 z s = Some s'" "?I s'" "shape s' = shape s" "word_of s' = word_of s" and G: "Zv z \<in> G \<or> Zv z \<in> colored s GC_BLACK" for s'
  proof -
    have "Zv z \<in> nodes s'" using scan_inv_nodes [OF s'(2)] nz by simp
    then obtain y' where y': "zvals s' z = Some y'" by auto
    have run: "scan_black_edge z s = Some (word_color (z_u y') \<noteq> GC_BLACK, s')" using s'(1) y' by (simp add: scan_black_edge_def)
    have c: "word_color (z_u y') = GC_BLACK \<longleftrightarrow> Zv z \<in> colored s' GC_BLACK" using word_zval [OF y'] y' by (simp add: colored_def)
    show ?thesis
    proof (cases "Zv z \<in> colored s' GC_BLACK")
      case True
      with run c have "scan_black_edge z s = Some (False, s')" by simp
      then show ?thesis using black_old [OF s'(2) True] black_todo_cong [OF s'(3,4), of G]
        by (intro exI [of _ False] exI [of _ s']) simp
    next
      case False
      then have "Zv z \<in> G" using G colored_cong [OF s'(3,4)] by auto
      moreover from run c False have "scan_black_edge z s = Some (True, s')" by simp
      ultimately show ?thesis using False s'(2) black_todo_cong [OF s'(3,4), of G]
        by (intro exI [of _ True] exI [of _ s']) simp
    qed
  qed
  show ?thesis
  proof (cases "is_symbol_table s y")
    case True
    then have sym: "symtab s0 (Zv z)" using nodes symtab_zval [OF y] by simp
    have "?I s" using black_symtab_edge [OF inv [simplified] sym] .
    moreover have "count_edge 1 z s = Some s" using True y by (simp add: count_edge_def)
    ultimately show ?thesis using decide [of s] zK by blast
  next
    case False
    then have "\<not> symtab s0 (Zv z)" using nodes symtab_zval [OF y] by simp
    then have G: "Zv z \<in> G" using zK by blast
    obtain s' where s': "zval_add_refcount z 1 s = Some s'" "shape s' = shape s" "rest s' = rest s"
      "rc s' = (rc s)(Zv z := unat (z_refcount y + 1))" "word_of s' = word_of s"
      by (rule zval_add_refcount_views [OF y])
    have "rc s' = (rc s)(Zv z := rc s (Zv z) + 1)"
      using s'(4) unat_inc black_edge_bound [OF inv [simplified] G] rc_zval [OF y] by simp
    then have "?I s'" using black_edge_count [OF inv [simplified] G _ s'(2,3) _ s'(5)] by simp
    moreover have "count_edge 1 z s = Some s'" using s'(1) False y by (simp add: count_edge_def)
    ultimately show ?thesis using decide [of s'] s'(2,5) G by blast
  qed
qed

lemma black_props:
  assumes inv: "scan_inv hts s0 W0 G R X s (mset (succs hts s0 (Ob h)) + image_mset Zv K) (mset (succs hts s0 (Ob h)) + image_mset Zv K) S"
    and b: "get_obj h t = Some b" "shape t = shape s0"
  shows "\<exists>p. (case obj_props h (hts h) b s of None \<Rightarrow> Some ([], s) | Some None \<Rightarrow> Some ([], s) | Some (Some p) \<Rightarrow> Some (p, s)) = Some (p, s) \<and>
    black_loop hts s0 W0 G R X S s (mset p + K)"
proof -
  have "gc_wf hts s0" using scan_region [OF inv] by (simp add: region_def)
  then show ?thesis by (rule obj_props_succs [OF _ b scan_frame(1) [OF inv]]) (use inv in auto)
qed

lemma black_enter:
  assumes call: "black_call hts s0 W0 G R X S z s K"
  shows "\<exists>p s'. scan_black_enter z s = Some (p, s') \<and> black_loop hts s0 W0 G R X S s' (mset p + K) \<and>
    (black_todo G s' < black_todo G s \<or> p = [] \<and> black_todo G s' \<le> black_todo G s) \<and> Zv z \<in> colored s' GC_BLACK"
proof -
  have inv: "scan_inv hts s0 W0 G R X s (image_mset Zv K) (add_mset (Zv z) (image_mset Zv K)) S"
    and G: "Zv z \<in> G" and nb: "Zv z \<notin> colored s GC_BLACK" using call by auto
  note nodes = scan_inv_nodes [OF inv]
  have reg: "gc_wf hts s0" "G \<subseteq> nodes s0" "\<not> symtab s0 (Zv z)" using scan_region [OF inv] G by (auto simp: region_def)
  have sh: "shape s = shape s0" by (rule scan_frame(1) [OF inv])
  have wfs: "gc_wf hts s" by (rule shape_wf [OF sh [symmetric] reg(1)])
  have "Zv z \<in> nodes s" using G reg(2) nodes by auto
  then obtain y where y: "zvals s z = Some y" by auto
  obtain s1 where s1: "zval_set_u z (GC_SET_COLOR GC_BLACK) s = Some s1" "shape s1 = shape s" "rest s1 = rest s" "rc s1 = rc s"
    "word_of s1 = (word_of s)(Zv z := GC_SET_COLOR GC_BLACK (word_of s (Zv z)))"
    "zvals s1 z = Some (y\<lparr>z_u := GC_SET_COLOR GC_BLACK (z_u y)\<rparr>)"
    by (rule zval_set_u_views [OF y, of "GC_SET_COLOR GC_BLACK"])
  have st: "symbol_table s1 = symbol_table s" "arrays s1 = arrays s" using shape_fields [OF s1(2)] by auto
  have "gc_wf hts s1" by (rule shape_wf [OF s1(2) [symmetric] wfs])
  then obtain bs where buckets: "gc_buckets s1 = Some bs" by (auto simp: gc_wf_def)
  note v = black_visit [OF inv G nb s1(2-5)]
  have succs: "succs hts s = succs hts s0" using nodes by simp
  show ?thesis
  proof (cases "z_value y")
    case IS_OTHER
    then have "succs hts s0 (Zv z) = []" using wf_other [OF y, of hts] succs by simp
    with v IS_OTHER s1(1,6) show ?thesis by (simp add: scan_black_enter_def)
  next
    case (IS_ARRAY t)
    then have nst: "t \<noteq> symbol_table s" using reg(3) nodes symtab_zval [OF y] by (auto simp: is_symbol_table_def)
    from wf_array [OF wfs y IS_ARRAY nst] succs obtain p where p: "arrays s t = Some p" "succs hts s0 (Zv z) = map Zv p" by auto
    with v nst IS_ARRAY s1(1,6) st show ?thesis by (simp add: scan_black_enter_def)
  next
    case (IS_OBJECT h handlers)
    from wf_object [OF wfs y IS_OBJECT] succs obtain b0 where b0: "get_obj h s = Some b0" and hts: "handlers = hts h"
      and succ: "succs hts s0 (Zv z) = [Ob h]" by auto
    have "get_obj h s1 \<noteq> None" using shape_obj_iff [OF s1(2)] b0 by simp
    then obtain b where b: "get_obj h s1 = Some b" by auto
    have v1: "scan_inv hts s0 W0 G R X s1 (add_mset (Ob h) (image_mset Zv K)) (add_mset (Ob h) (image_mset Zv K)) S"
      and todo1: "black_todo G s1 < black_todo G s" using v succ by auto
    have Gh: "Ob h \<in> G" using scan_region [OF inv] G succ by (force simp: region_def)
    obtain s2 where s2: "obj_add_refcount h 1 s1 = Some s2" "shape s2 = shape s1" "rest s2 = rest s1"
      "rc s2 = (rc s1)(Ob h := unat (gb_refcount b + 1))" "word_of s2 = word_of s1" "get_obj h s2 = Some (b\<lparr>gb_refcount := gb_refcount b + 1\<rparr>)"
      by (rule obj_add_refcount_views [OF b])
    have "rc s2 = (rc s1)(Ob h := rc s1 (Ob h) + 1)"
      using s2(4) unat_inc black_edge_bound [OF v1 Gh] rc_obj [OF b] by simp
    then have v2: "scan_inv hts s0 W0 G R X s2 (image_mset Zv K) (add_mset (Ob h) (image_mset Zv K)) S"
      using black_edge_count [OF v1 Gh _ s2(2,3) _ s2(5)] by simp
    have z2: "Zv z \<in> colored s2 GC_BLACK" using v colored_cong [OF s2(2,5)] by simp
    have todo2: "black_todo G s2 < black_todo G s" using black_todo_cong [OF s2(2,5), of G] todo1 by simp
    have start: "scan_black_enter z s = (do {
            obj \<leftarrow> get_obj h s2;
            if word_color (gb_buffered obj) \<noteq> GC_BLACK then do {
              s \<leftarrow> obj_set_buffered h (GC_SET_COLOR GC_BLACK) s2;
              (case obj_props h handlers obj s of None \<Rightarrow> Some ([], s) | Some None \<Rightarrow> Some ([], s) | Some (Some p) \<Rightarrow> Some (p, s))
            } else Some ([], s2) })"
      using s1(1,6) IS_OBJECT buckets s2(1) by (simp add: scan_black_enter_def)
    show ?thesis
    proof (cases "word_color (gb_buffered b) = GC_BLACK")
      case True
      then have "Ob h \<in> colored s2 GC_BLACK" using s2(6) word_obj [OF s2(6)] by (simp add: colored_def)
      with black_old [OF v2] True start s2(6) todo2 z2 show ?thesis by simp
    next
      case False
      then have nbo: "Ob h \<notin> colored s2 GC_BLACK" using word_obj [OF s2(6)] by (simp add: colored_def)
      obtain s3 where s3: "obj_set_buffered h (GC_SET_COLOR GC_BLACK) s2 = Some s3" "shape s3 = shape s2" "rest s3 = rest s2" "rc s3 = rc s2"
        "word_of s3 = (word_of s2)(Ob h := GC_SET_COLOR GC_BLACK (word_of s2 (Ob h)))"
        by (rule obj_set_buffered_views [OF s2(6), of "GC_SET_COLOR GC_BLACK"])
      note v3 = black_visit [OF v2 Gh nbo s3(2-5)]
      from black_props [OF conjunct1 [OF v3] s2(6) scan_frame(1) [OF v2]] obtain p where
        "(case obj_props h (hts h) (b\<lparr>gb_refcount := gb_refcount b + 1\<rparr>) s3 of
            None \<Rightarrow> Some ([], s3) | Some None \<Rightarrow> Some ([], s3) | Some (Some p) \<Rightarrow> Some (p, s3)) = Some (p, s3)"
        "black_loop hts s0 W0 G R X S s3 (mset p + K)" by blast
      moreover have "Zv z \<in> colored s3 GC_BLACK" using z2 shape_nodes [OF s3(2)] s3(5) by (simp add: colored_def)
      ultimately show ?thesis using start s2(6) False s3(1) v3 todo2 hts by auto
    qed
  qed
qed

lemma black_enter_step:
  assumes "black_call hts s0 W0 G R X S z s K"
  shows "\<exists>p s'. scan_black_enter z s = Some (p, s') \<and> black_loop hts s0 W0 G R X S s' (mset p + K) \<and>
    (black_todo G s' < black_todo G s \<or> p = [] \<and> black_todo G s' \<le> black_todo G s)"
  using black_enter [OF assms] by blast

interpretation black: gc_traversal scan_black_enter scan_black_edge "black_loop hts s0 W0 G R X S" "black_call hts s0 W0 G R X S" "black_todo G"
  by unfold_locales (rule black_edge_step black_enter_step, assumption)+

section \<open>Scan\<close>

abbreviation scan_state where
  "scan_state hts s0 W0 G R X s S \<equiv> scan_inv hts s0 W0 G R X s {#} {#} S"

definition scan_todo :: "gc_state \<Rightarrow> nat" where
  "scan_todo s = card (colored s GC_GREY)"

lemma in_edges: "finite A \<Longrightarrow> n \<in># edges hts s A \<longleftrightarrow> (\<exists>m\<in>A. n \<in> set (succs hts s m))"
  by (simp add: edges_def set_mset_sum)

lemma edges_split: "finite G \<Longrightarrow> edges hts s G = edges hts s (G - B) + edges hts s (G \<inter> B)"
  unfolding edges_def by (metis Int_Diff_Un Int_Diff_disjoint add.commute finite_Diff finite_Int sum.union_disjoint)

lemma region_finite: "region hts s0 W0 G \<Longrightarrow> finite G"
  unfolding region_def using finite_nodes finite_subset by blast

text \<open>A node that still has references is external: none of them comes from a black node of the region.\<close>

lemma scan_external:
  assumes inv: "scan_state hts s0 W0 G R X s S" and n: "n \<in> G" "n \<notin> colored s GC_BLACK" "0 < rc s n"
  shows "ext_reach hts s0 G n"
proof -
  have n': "n \<in> nodes s0" "\<not> symtab s0 n" using scan_region [OF inv] n(1) by (auto simp: region_def)
  have cnt: "rc s n + count (edges hts s0 (G - colored s GC_BLACK)) n = rc s0 n" using scan_count [OF inv n'] by simp
  have fin: "finite G" by (rule region_finite [OF scan_region [OF inv]])
  have "n \<notin># edges hts s0 (G \<inter> colored s GC_BLACK)"
  proof
    assume "n \<in># edges hts s0 (G \<inter> colored s GC_BLACK)"
    then obtain m where "m \<in> G" "m \<in> colored s GC_BLACK" "n \<in> set (succs hts s0 m)" using in_edges fin by fastforce
    then show False using scan_black [OF inv, of m] n(2) by auto
  qed
  then have "count (edges hts s0 G) n = count (edges hts s0 (G - colored s GC_BLACK)) n"
    using edges_split [OF fin, of hts s0 "colored s GC_BLACK"] by (simp add: not_in_iff)
  with cnt n(1,3) have "n \<in> external hts s0 G" by (simp add: external_def)
  then show ?thesis unfolding ext_reach_def by (meson reach_refl)
qed

lemma scan_bound:
  assumes inv: "scan_inv hts s0 W0 G R X s K K' S" and "colored s GC_GREY \<subseteq> Y"
  shows "scan_inv hts s0 W0 G R Y s K K' S"
  unfolding scan_inv_def
  by (intro conjI ballI impI assms(2);
      (use scan_region [OF inv] scan_frame [OF inv] scan_count [OF inv] scan_black [OF inv] scan_white [OF inv]
        scan_pending [OF inv] scan_scan [OF inv] scan_words [OF inv] in blast)?)

lemma scan_old:
  assumes inv: "scan_state hts s0 W0 G R X s (add_mset n S)" and n: "n \<notin> colored s GC_GREY"
  shows "scan_state hts s0 W0 G R X s S"
  unfolding scan_inv_def
proof (intro conjI ballI impI)
  fix m assume "m \<in> G \<inter> colored s GC_WHITE"
  then have m: "m \<in> G" "m \<in> colored s GC_WHITE" by simp_all
  show "rc s m = 0 \<or> m \<in># {#}" using scan_white [OF inv m] by simp
  fix k assume "k \<in> set (succs hts s0 m)"
  then show "k \<notin> colored s GC_GREY \<or> k \<in># S" using scan_white [OF inv m] n by auto
qed (use scan_region [OF inv] scan_frame [OF inv] scan_count [OF inv] scan_black [OF inv] scan_scan [OF inv] scan_words [OF inv]
      scan_not_grey [OF inv] in \<open>auto\<close>)

lemma white_visit:
  assumes inv: "scan_state hts s0 W0 G R X s (add_mset n S)" and n: "n \<in> G" "n \<in> colored s GC_GREY" "rc s n = 0"
    and s': "shape s' = shape s" "rest s' = rest s" "rc s' = rc s" "word_of s' = (word_of s)(n := GC_SET_COLOR GC_WHITE (word_of s n))"
  shows "scan_state hts s0 W0 G R X s' (mset (succs hts s0 n) + S) \<and> scan_todo s' < scan_todo s \<and> n \<notin> colored s' GC_GREY"
proof -
  note reg = scan_region [OF inv] and sh = scan_frame(1) [OF inv]
  note nodes = scan_inv_nodes [OF inv]
  have nn: "n \<in> nodes s0" using n(1) reg by (auto simp: region_def)
  have ns: "n \<in> nodes s" using nn nodes by simp
  have col: "colored s' c = (if c = GC_WHITE then insert n (colored s GC_WHITE) else colored s c - {n})" for c
    using colored_upd [OF s'(1,4) ns, of c] by (simp add: GC_SET_COLOR_def)
  have "n \<notin> colored s GC_BLACK" using n(2) by (auto simp: colored_def)
  then have black: "colored s' GC_BLACK = colored s GC_BLACK" using col by simp
  have word: "word_of s' m = (if m = n then GC_SET_COLOR GC_WHITE (word_of s n) else word_of s m)" for m using s'(4) by simp
  have "scan_state hts s0 W0 G R X s' (mset (succs hts s0 n) + S)"
    unfolding scan_inv_def black
  proof (intro conjI ballI impI)
    fix m assume "m \<in> G \<inter> colored s' GC_WHITE"
    then have m: "m \<in> G" "m = n \<or> m \<in> colored s GC_WHITE" by (auto simp: col)
    then show "rc s' m = 0 \<or> m \<in># {#}" using scan_white [OF inv, of m] n(3) s'(3) by auto
    fix k assume "k \<in> set (succs hts s0 m)"
    then show "k \<notin> colored s' GC_GREY \<or> k \<in># mset (succs hts s0 n) + S" using scan_white [OF inv, of m] m by (auto simp: col)
  next
    fix m assume "m \<in># mset (succs hts s0 n) + S"
    then show "m \<in> nodes s0" using scan_scan [OF inv, of m] wf_succs [of hts s0 n] nn reg by (auto simp: region_def)
  next
    fix m assume "m \<in> nodes s0"
    then show "if m \<in> G then address_of s' m = word_address (W0 m) \<and> color_of s' m \<noteq> GC_PURPLE else word_of s' m = W0 m"
      using scan_words [OF inv, of m] n(1) by (auto simp: word GC_SET_COLOR_def)
  qed (use reg sh s'(1-3) scan_frame [OF inv] scan_count [OF inv] scan_black [OF inv] scan_not_grey [OF inv] in \<open>auto simp: col\<close>)
  moreover have "finite (colored s GC_GREY)" using finite_subset [OF scan_grey [OF inv] region_finite [OF reg]] .
  then have "scan_todo s' < scan_todo s"
    unfolding scan_todo_def using card_Diff1_less [of "colored s GC_GREY" n] n(2) by (simp add: col)
  ultimately show ?thesis using col by simp
qed

lemma pending_black:
  assumes inv: "scan_state hts s0 W0 G R X s S" and n: "n \<in> G" "ext_reach hts s0 G n"
  shows "scan_inv hts s0 W0 G R X s {#} {#n#} S"
  unfolding scan_inv_def
proof (intro conjI ballI impI)
  fix m assume "m \<in> G \<inter> colored s GC_BLACK"
  then have m: "m \<in> G" "m \<in> colored s GC_BLACK" by simp_all
  show "ext_reach hts s0 G m" using scan_black [OF inv m] by simp
  fix k assume "k \<in> set (succs hts s0 m)"
  then show "k \<in> colored s GC_BLACK \<or> k \<in># {#n#}" using scan_black [OF inv m] by simp
next
  fix m assume "m \<in> G \<inter> colored s GC_WHITE"
  then have m: "m \<in> G" "m \<in> colored s GC_WHITE" by simp_all
  show "rc s m = 0 \<or> m \<in># {#n#}" using scan_white [OF inv m] by simp
  fix k assume "k \<in> set (succs hts s0 m)"
  then show "k \<notin> colored s GC_GREY \<or> k \<in># S" using scan_white [OF inv m] by blast
next
  fix m assume "m \<in># {#n#}"
  then show "m \<in> G \<and> ext_reach hts s0 G m \<or> symtab s0 m \<and> m \<in> colored s GC_BLACK" using n by simp
qed (use scan_region [OF inv] scan_frame [OF inv] scan_count [OF inv] scan_scan [OF inv] scan_words [OF inv] scan_not_grey [OF inv] in \<open>assumption | simp\<close>)+

lemma todo_grey: "scan_inv hts s0 W0 G R X s K K' S \<Longrightarrow> colored t GC_GREY \<subseteq> colored s GC_GREY \<Longrightarrow> scan_todo t \<le> scan_todo s"
  unfolding scan_todo_def by (rule card_mono) (use finite_subset [OF scan_grey region_finite [OF scan_region]] in blast)+

lemma zval_scan_black_inv:
  assumes inv: "scan_state hts s0 W0 G R X s S" and z: "Zv z \<in> G" "Zv z \<notin> colored s GC_BLACK" "ext_reach hts s0 G (Zv z)"
  shows "\<exists>s'. zval_scan_black z s = Some s' \<and> scan_state hts s0 W0 G R X s' S \<and>
    colored s' GC_GREY \<subseteq> colored s GC_GREY - {Zv z}"
proof -
  let ?X = "colored s GC_GREY"
  have inv1: "scan_inv hts s0 W0 G R ?X s {#} {#Zv z#} S"
    by (rule pending_black [OF scan_bound [OF inv order_refl] z(1,3)])
  obtain p s1 where enter: "scan_black_enter z s = Some (p, s1)" and s1: "black_loop hts s0 W0 G R ?X S s1 (mset p + {#})"
    and z1: "Zv z \<in> colored s1 GC_BLACK"
    using black_enter [of hts s0 W0 G R ?X s "{#}" z S] inv1 z by auto
  have Y: "colored s1 GC_GREY \<subseteq> ?X - {Zv z}" using scan_not_grey [OF s1] z1 by (auto simp: colored_def)
  from black.children [OF scan_bound [OF s1 order_refl]] obtain s' where
    s': "gc_traverse scan_black_enter scan_black_edge (Inr p) s1 = Some s'" "scan_state hts s0 W0 G R (colored s1 GC_GREY) s' S" by auto
  have g: "colored s' GC_GREY \<subseteq> ?X - {Zv z}" using scan_not_grey [OF s'(2)] Y by blast
  then have "colored s' GC_GREY \<subseteq> X" using scan_not_grey [OF inv] by blast
  with scan_bound [OF s'(2)] g s'(1) show ?thesis
    unfolding zval_scan_black_def gc_traverse_enter [of scan_black_enter, OF enter] by blast
qed

lemma zobj_scan_black_inv:
  assumes inv: "scan_state hts s0 W0 G R X s S" and h: "Ob h \<in> G" "Ob h \<notin> colored s GC_BLACK" "ext_reach hts s0 G (Ob h)"
  shows "\<exists>s'. zobj_scan_black h (hts h) s = Some s' \<and> scan_state hts s0 W0 G R X s' S \<and>
    colored s' GC_GREY \<subseteq> colored s GC_GREY - {Ob h}"
proof -
  let ?X = "colored s GC_GREY"
  have inv1: "scan_inv hts s0 W0 G R ?X s {#} {#Ob h#} S"
    by (rule pending_black [OF scan_bound [OF inv order_refl] h(1,3)])
  have "Ob h \<in> nodes s" using scan_region [OF inv] scan_inv_nodes [OF inv] h(1) by (auto simp: region_def)
  then obtain b where b: "get_obj h s = Some b" by auto
  obtain s1 where s1: "obj_set_buffered h (GC_SET_COLOR GC_BLACK) s = Some s1" "shape s1 = shape s" "rest s1 = rest s" "rc s1 = rc s"
    "word_of s1 = (word_of s)(Ob h := GC_SET_COLOR GC_BLACK (word_of s (Ob h)))" "get_obj h s1 = Some (b\<lparr>gb_buffered := GC_SET_COLOR GC_BLACK (gb_buffered b)\<rparr>)"
    by (rule obj_set_buffered_views [OF b, of "GC_SET_COLOR GC_BLACK"])
  note v = black_visit [OF inv1 h(1,2) s1(2-5)]
  let ?b = "b\<lparr>gb_buffered := GC_SET_COLOR GC_BLACK (gb_buffered b)\<rparr>"
  have sh1: "shape s1 = shape s0" using scan_frame(1) [OF inv] s1(2) by simp
  have wf: "gc_wf hts s0" using scan_region [OF inv] by (simp add: region_def)
  obtain p where p: "succs hts s0 (Ob h) = map Zv p" and run: "zobj_scan_black h (hts h) s = gc_traverse scan_black_enter scan_black_edge (Inr p) s1"
    by (rule obj_props_succs [OF wf s1(6) sh1 sh1]) (use that s1(1,6) in \<open>auto simp: zobj_scan_black_def\<close>)
  have s1': "black_loop hts s0 W0 G R ?X S s1 (mset p + {#})" using v p by simp
  have Y: "colored s1 GC_GREY \<subseteq> ?X - {Ob h}" using scan_not_grey [OF s1'] v by (auto simp: colored_def)
  from black.children [OF scan_bound [OF s1' order_refl]] obtain s' where
    s': "gc_traverse scan_black_enter scan_black_edge (Inr p) s1 = Some s'" "scan_state hts s0 W0 G R (colored s1 GC_GREY) s' S" by auto
  have g: "colored s' GC_GREY \<subseteq> ?X - {Ob h}" using scan_not_grey [OF s'(2)] Y by blast
  then have "colored s' GC_GREY \<subseteq> X" using scan_not_grey [OF inv] by blast
  with scan_bound [OF s'(2)] g s'(1) run show ?thesis by auto
qed

abbreviation scan_loop where
  "scan_loop hts s0 W0 G R X s K \<equiv> scan_state hts s0 W0 G R X s (image_mset Zv K)"

abbreviation scan_call where
  "scan_call hts s0 W0 G R X z s K \<equiv> scan_state hts s0 W0 G R X s (add_mset (Zv z) (image_mset Zv K))"

lemma scan_edge_step:
  "scan_loop hts s0 W0 G R X s (add_mset z K) \<Longrightarrow> \<exists>d s'. scan_edge z s = Some (d, s') \<and> scan_todo s' \<le> scan_todo s \<and>
    (if d then scan_call hts s0 W0 G R X z s' K else scan_loop hts s0 W0 G R X s' K)"
  by (intro exI [of _ True] exI [of _ s]) (simp add: scan_edge_def)

lemma scan_enter:
  assumes inv: "scan_call hts s0 W0 G R X z s K"
  shows "\<exists>p s'. scan_enter z s = Some (p, s') \<and> scan_loop hts s0 W0 G R X s' (mset p + K) \<and>
    (scan_todo s' < scan_todo s \<or> p = [] \<and> scan_todo s' \<le> scan_todo s) \<and> Zv z \<notin> colored s' GC_GREY"
proof -
  note nodes = scan_inv_nodes [OF inv]
  have sh: "shape s = shape s0" by (rule scan_frame(1) [OF inv])
  have wf: "gc_wf hts s0" using scan_region [OF inv] by (simp add: region_def)
  have wfs: "gc_wf hts s" by (rule shape_wf [OF sh [symmetric] wf])
  have "Zv z \<in> nodes s" using scan_scan [OF inv, of "Zv z"] nodes by simp
  then obtain y where y: "zvals s z = Some y" by auto
  have succs: "succs hts s = succs hts s0" using nodes by simp
  show ?thesis
  proof (cases "word_color (z_u y) = GC_GREY")
    case False
    then have "Zv z \<notin> colored s GC_GREY" using word_zval [OF y] by (simp add: colored_def)
    with scan_old [OF inv] False y show ?thesis by (simp add: scan_enter_def)
  next
    case grey: True
    then have zg: "Zv z \<in> colored s GC_GREY" using word_zval [OF y] y by (simp add: colored_def)
    then have G: "Zv z \<in> G" using scan_grey [OF inv] by blast
    have nb: "Zv z \<notin> colored s GC_BLACK" using zg by (auto simp: colored_def)
    have ns: "\<not> symtab s0 (Zv z)" using scan_region [OF inv] G by (auto simp: region_def)
    show ?thesis
    proof (cases "z_refcount y > 0")
      case True
      then have "0 < rc s (Zv z)" using rc_zval [OF y] by (simp add: word_less_nat_alt)
      from zval_scan_black_inv [OF inv G nb scan_external [OF inv G nb this]] obtain s' where
        s': "zval_scan_black z s = Some s'" "scan_call hts s0 W0 G R X z s' K" "colored s' GC_GREY \<subseteq> colored s GC_GREY - {Zv z}" by blast
      have "Zv z \<notin> colored s' GC_GREY" "scan_todo s' \<le> scan_todo s" using s'(3) todo_grey [OF inv, of s'] by blast+
      with scan_old [OF s'(2)] True grey y s'(1) show ?thesis by (simp add: scan_enter_def)
    next
      case False
      then have zero: "rc s (Zv z) = 0" using rc_zval [OF y] by (simp add: word_gt_0)
      obtain s1 where s1: "zval_set_u z (GC_SET_COLOR GC_WHITE) s = Some s1" "shape s1 = shape s" "rest s1 = rest s" "rc s1 = rc s"
        "word_of s1 = (word_of s)(Zv z := GC_SET_COLOR GC_WHITE (word_of s (Zv z)))"
        by (rule zval_set_u_views [OF y, of "GC_SET_COLOR GC_WHITE"])
      note v = white_visit [OF inv G zg zero s1(2-5)]
      have st: "symbol_table s1 = symbol_table s" "arrays s1 = arrays s" using shape_fields [OF s1(2)] by auto
      have "gc_wf hts s1" by (rule shape_wf [OF s1(2) [symmetric] wfs])
      then obtain bs where buckets: "gc_buckets s1 = Some bs" by (auto simp: gc_wf_def)
      show ?thesis
      proof (cases "z_value y")
        case IS_OTHER
        then have "succs hts s0 (Zv z) = []" using wf_other [OF y, of hts] succs by simp
        with v IS_OTHER s1(1) y grey False show ?thesis by (simp add: scan_enter_def)
      next
        case (IS_ARRAY t)
        then have nst: "t \<noteq> symbol_table s" using ns nodes symtab_zval [OF y] by (auto simp: is_symbol_table_def)
        from wf_array [OF wfs y IS_ARRAY nst] succs obtain p where p: "arrays s t = Some p" "succs hts s0 (Zv z) = map Zv p" by auto
        with v nst IS_ARRAY s1(1) st y grey False show ?thesis by (simp add: scan_enter_def)
      next
        case (IS_OBJECT h handlers)
        from wf_object [OF wfs y IS_OBJECT] succs obtain b0 where b0: "get_obj h s = Some b0" and hts: "handlers = hts h"
          and succ: "succs hts s0 (Zv z) = [Ob h]" by auto
        have "get_obj h s1 \<noteq> None" using shape_obj_iff [OF s1(2)] b0 by simp
        then obtain b where b: "get_obj h s1 = Some b" by auto
        have v1: "scan_state hts s0 W0 G R X s1 (add_mset (Ob h) (image_mset Zv K))" and todo1: "scan_todo s1 < scan_todo s"
          and z1: "Zv z \<notin> colored s1 GC_GREY" using v succ by auto
        have start: "scan_enter z s = (do {
            obj \<leftarrow> get_obj h s1;
            if word_color (gb_buffered obj) = GC_GREY then
              if gb_refcount obj > 0 then do { s \<leftarrow> zobj_scan_black h handlers s1; Some ([], s) }
              else do {
                s \<leftarrow> obj_set_buffered h (GC_SET_COLOR GC_WHITE) s1;
                (case obj_props h handlers obj s of None \<Rightarrow> Some ([], s) | Some None \<Rightarrow> Some ([], s) | Some (Some p) \<Rightarrow> Some (p, s))
              }
            else Some ([], s1) })"
          using s1(1) IS_OBJECT buckets y grey False by (simp add: scan_enter_def)
        have gh: "word_color (gb_buffered b) = GC_GREY \<longleftrightarrow> Ob h \<in> colored s1 GC_GREY" using word_obj [OF b] b by (simp add: colored_def)
        show ?thesis
        proof (cases "Ob h \<in> colored s1 GC_GREY")
          case False
          with scan_old [OF v1] start b gh todo1 z1 show ?thesis by simp
        next
          case go: True
          then have Gh: "Ob h \<in> G" using scan_grey [OF v1] by blast
          have nbh: "Ob h \<notin> colored s1 GC_BLACK" using go by (auto simp: colored_def)
          show ?thesis
          proof (cases "gb_refcount b > 0")
            case True
            then have "0 < rc s1 (Ob h)" using rc_obj [OF b] by (simp add: word_less_nat_alt)
            from zobj_scan_black_inv [OF v1 Gh nbh scan_external [OF v1 Gh nbh this]] obtain s2 where
              s2: "zobj_scan_black h (hts h) s1 = Some s2" "scan_state hts s0 W0 G R X s2 (add_mset (Ob h) (image_mset Zv K))"
              "colored s2 GC_GREY \<subseteq> colored s1 GC_GREY - {Ob h}" by blast
            have "Zv z \<notin> colored s2 GC_GREY" "Ob h \<notin> colored s2 GC_GREY" "scan_todo s2 \<le> scan_todo s1"
              using s2(3) z1 todo_grey [OF v1, of s2] by blast+
            with scan_old [OF s2(2)] start b gh go True s2(1) hts todo1 show ?thesis by simp
          next
            case False
            then have zeroh: "rc s1 (Ob h) = 0" using rc_obj [OF b] by (simp add: word_gt_0)
            obtain s2 where s2: "obj_set_buffered h (GC_SET_COLOR GC_WHITE) s1 = Some s2" "shape s2 = shape s1" "rest s2 = rest s1" "rc s2 = rc s1"
              "word_of s2 = (word_of s1)(Ob h := GC_SET_COLOR GC_WHITE (word_of s1 (Ob h)))"
              by (rule obj_set_buffered_views [OF b, of "GC_SET_COLOR GC_WHITE"])
            note v2 = white_visit [OF v1 Gh go zeroh s2(2-5)]
            have z2: "Zv z \<notin> colored s2 GC_GREY" using z1 shape_nodes [OF s2(2)] s2(5) by (auto simp: colored_def)
            have sh1: "shape s1 = shape s0" and sh2: "shape s2 = shape s0" using sh s1(2) s2(2) by simp_all
            obtain p where "succs hts s0 (Ob h) = map Zv p" "(case obj_props h (hts h) b s2 of
                None \<Rightarrow> Some ([], s2) | Some None \<Rightarrow> Some ([], s2) | Some (Some p) \<Rightarrow> Some (p, s2)) = Some (p, s2)"
              by (rule obj_props_succs [OF wf b sh1 sh2]) (use that in auto)
            then show ?thesis using v2 z2 start b gh go False s2(1) hts todo1 by auto
          qed
        qed
      qed
    qed
  qed
qed

lemma scan_enter_step:
  assumes "scan_call hts s0 W0 G R X z s K"
  shows "\<exists>p s'. scan_enter z s = Some (p, s') \<and> scan_loop hts s0 W0 G R X s' (mset p + K) \<and>
    (scan_todo s' < scan_todo s \<or> p = [] \<and> scan_todo s' \<le> scan_todo s)"
  using scan_enter [OF assms] by blast

interpretation scan: gc_traversal scan_enter scan_edge "scan_loop hts s0 W0 G R X" "scan_call hts s0 W0 G R X" scan_todo
  by unfold_locales (rule scan_edge_step scan_enter_step, assumption)+

lemma pending_scan:
  assumes inv: "scan_state hts s0 W0 G R X s {#}" and n: "n \<in> nodes s0"
  shows "scan_state hts s0 W0 G R (colored s GC_GREY) s {#n#}"
  unfolding scan_inv_def
proof (intro conjI ballI impI)
  fix m assume "m \<in> G \<inter> colored s GC_BLACK"
  then have m: "m \<in> G" "m \<in> colored s GC_BLACK" by simp_all
  show "ext_reach hts s0 G m" using scan_black [OF inv m] by simp
  fix k assume "k \<in> set (succs hts s0 m)"
  then show "k \<in> colored s GC_BLACK \<or> k \<in># {#}" using scan_black [OF inv m] by blast
next
  fix m assume "m \<in> G \<inter> colored s GC_WHITE"
  then have m: "m \<in> G" "m \<in> colored s GC_WHITE" by simp_all
  show "rc s m = 0 \<or> m \<in># {#}" using scan_white [OF inv m] by blast
  fix k assume "k \<in> set (succs hts s0 m)"
  then show "k \<notin> colored s GC_GREY \<or> k \<in># {#n#}" using scan_white [OF inv m] by simp
next
  fix m assume "m \<in># {#n#}"
  then show "m \<in> nodes s0" using n by simp
qed (use scan_region [OF inv] scan_frame [OF inv] scan_count [OF inv] scan_black [OF inv] scan_words [OF inv] in \<open>assumption | simp\<close>)+

text \<open>From an entered node on.\<close>

lemma scan_children:
  assumes inv: "scan_loop hts s0 W0 G R Y s1 (mset p + {#})" and n: "n \<notin> colored s1 GC_GREY" and Y: "Y \<subseteq> X"
  shows "\<exists>s'. gc_traverse scan_enter scan_edge (Inr p) s1 = Some s' \<and> scan_state hts s0 W0 G R X s' {#} \<and> colored s' GC_GREY \<subseteq> Y - {n}"
proof -
  from scan.children [OF scan_bound [OF inv order_refl]] obtain s' where
    s': "gc_traverse scan_enter scan_edge (Inr p) s1 = Some s'" "scan_state hts s0 W0 G R (colored s1 GC_GREY) s' {#}" by auto
  have g: "colored s' GC_GREY \<subseteq> Y - {n}" using scan_not_grey [OF s'(2)] scan_not_grey [OF inv] n by blast
  then have "colored s' GC_GREY \<subseteq> X" using Y by blast
  with scan_bound [OF s'(2)] s'(1) g show ?thesis by blast
qed

lemma zval_scan_inv:
  assumes inv: "scan_state hts s0 W0 G R X s {#}" and z: "Zv z \<in> nodes s0"
  shows "\<exists>s'. zval_scan z s = Some s' \<and> scan_state hts s0 W0 G R X s' {#} \<and> colored s' GC_GREY \<subseteq> colored s GC_GREY - {Zv z}"
proof -
  obtain p s1 where enter: "scan_enter z s = Some (p, s1)" and s1: "scan_loop hts s0 W0 G R (colored s GC_GREY) s1 (mset p + {#})"
    and z1: "Zv z \<notin> colored s1 GC_GREY"
    using scan_enter [of hts s0 W0 G R "colored s GC_GREY" s z "{#}"] pending_scan [OF inv z] by auto
  from scan_children [OF s1 z1 scan_not_grey [OF inv]] show ?thesis
    unfolding zval_scan_def gc_traverse_enter [of scan_enter, OF enter] .
qed

lemma zobj_scan_inv:
  assumes inv: "scan_state hts s0 W0 G R X s {#}" and h: "Ob h \<in> nodes s0"
  shows "\<exists>s'. zobj_scan h (hts h) s = Some s' \<and> scan_state hts s0 W0 G R X s' {#} \<and> colored s' GC_GREY \<subseteq> colored s GC_GREY - {Ob h}"
proof -
  let ?X = "colored s GC_GREY"
  note nodes = scan_inv_nodes [OF inv]
  have sh: "shape s = shape s0" by (rule scan_frame(1) [OF inv])
  have wf: "gc_wf hts s0" using scan_region [OF inv] by (simp add: region_def)
  have "Ob h \<in> nodes s" using h nodes by simp
  then obtain b where b: "get_obj h s = Some b" by auto
  then obtain bs where bs: "gc_buckets s = Some bs" by (auto simp: get_obj_def split: option.splits)
  note inv1 = pending_scan [OF inv h]
  have gh: "word_color (gb_buffered b) = GC_GREY \<longleftrightarrow> Ob h \<in> ?X" using word_obj [OF b] b by (simp add: colored_def)
  show ?thesis
  proof (cases "Ob h \<in> ?X")
    case False
    then show ?thesis using gh b bs inv by (intro exI [of _ s]) (auto simp: zobj_scan_def)
  next
    case go: True
    then have Gh: "Ob h \<in> G" using scan_grey [OF inv] by blast
    have nbh: "Ob h \<notin> colored s GC_BLACK" using go by (auto simp: colored_def)
    show ?thesis
    proof (cases "gb_refcount b > 0")
      case True
      then have "0 < rc s (Ob h)" using rc_obj [OF b] by (simp add: word_less_nat_alt)
      from zobj_scan_black_inv [OF inv Gh nbh scan_external [OF inv Gh nbh this]] show ?thesis
        using True go gh b bs by (simp add: zobj_scan_def)
    next
      case False
      then have zero: "rc s (Ob h) = 0" using rc_obj [OF b] by (simp add: word_gt_0)
      obtain s1 where s1: "obj_set_buffered h (GC_SET_COLOR GC_WHITE) s = Some s1" "shape s1 = shape s" "rest s1 = rest s" "rc s1 = rc s"
        "word_of s1 = (word_of s)(Ob h := GC_SET_COLOR GC_WHITE (word_of s (Ob h)))"
        by (rule obj_set_buffered_views [OF b, of "GC_SET_COLOR GC_WHITE"])
      have "add_mset (Ob h) {#} = {#Ob h#}" by simp
      note v = white_visit [OF inv1 Gh go zero s1(2-5)]
      have sh1: "shape s1 = shape s0" using sh s1(2) by simp
      obtain p where p: "succs hts s0 (Ob h) = map Zv p" "zobj_scan h (hts h) s = gc_traverse scan_enter scan_edge (Inr p) s1"
        by (rule obj_props_succs [OF wf b sh sh1]) (use that False go gh b bs s1(1) in \<open>auto simp: zobj_scan_def\<close>)
      have "scan_loop hts s0 W0 G R ?X s1 (mset p + {#})" and "Ob h \<notin> colored s1 GC_GREY" using v p(1) by simp_all
      from scan_children [OF this scan_not_grey [OF inv]] show ?thesis using p(2) by simp
    qed
  qed
qed

section \<open>Scanning from the roots\<close>

lemma scan_root_step:
  assumes inv: "scan_state hts s0 W0 G R (X - node_at (rbufs s1) ` set ws) s {#}" and rb: "rbufs s = rbufs s1"
    and entry: "root_entry hts (rbufs s1) b" and n: "node_at (rbufs s1) b \<in> nodes s0"
  shows "\<exists>rb s'. rbufs s b = Some rb \<and> scan_root rb s = Some s' \<and>
    scan_state hts s0 W0 G R (X - node_at (rbufs s1) ` set (ws @ [b])) s' {#}"
proof -
  have bound: "colored s' GC_GREY \<subseteq> X - node_at (rbufs s1) ` set (ws @ [b])"
    if "colored s' GC_GREY \<subseteq> colored s GC_GREY - {node_at (rbufs s1) b}" for s'
    using that scan_not_grey [OF inv] by auto
  show ?thesis using entry
  proof (cases rule: root_cases)
    case (1 rb a)
    from n 1(4) have "Zv a \<in> nodes s0" by simp
    from zval_scan_inv [OF inv this] obtain s' where "zval_scan a s = Some s'" "scan_state hts s0 W0 G R (X - node_at (rbufs s1) ` set ws) s' {#}"
      "colored s' GC_GREY \<subseteq> colored s GC_GREY - {Zv a}" by blast
    with scan_bound [OF _ bound] 1 rb show ?thesis by (auto simp: scan_root_def)
  next
    case (2 rb h)
    from n 2(5) have "Ob h \<in> nodes s0" by simp
    from zobj_scan_inv [OF inv this] obtain s' where "zobj_scan h (hts h) s = Some s'" "scan_state hts s0 W0 G R (X - node_at (rbufs s1) ` set ws) s' {#}"
      "colored s' GC_GREY \<subseteq> colored s GC_GREY - {Ob h}" by blast
    with scan_bound [OF _ bound] 2 rb show ?thesis by (auto simp: scan_root_def)
  qed
qed

lemma scan_roots_run:
  assumes ok: "roots_ok hts s1 (ws @ ys)" and nodes: "nodes s1 = nodes s0" and R: "R = rest s1"
  shows "scan_state hts s0 W0 G R (X - node_at (rbufs s1) ` set ws) s {#} \<Longrightarrow>
     \<exists>s'. scan_roots_loop (first_ptr ys (Some 0)) s = Some s' \<and> scan_state hts s0 W0 G R (X - node_at (rbufs s1) ` set (ws @ ys)) s' {#}"
  using ok
proof (induction ys arbitrary: ws s)
  case Nil
  then show ?case by (subst scan_roots_loop.simps) auto
next
  case (Cons b ys)
  have rb: "rbufs s = rbufs s1" using rest_rbufs [of s s1] scan_frame(2) [OF Cons.prems(1)] R by simp
  have "root_entry hts (rbufs s1) b" "node_at (rbufs s1) b \<in> nodes s0" and ring: "ring (rbufs s1) (ws @ b # ys)"
    using Cons.prems(2) nodes by (simp_all add: roots_ok_def)
  from scan_root_step [OF Cons.prems(1) rb this(1,2)] obtain rb' s' where st: "rbufs s b = Some rb'" "scan_root rb' s = Some s'"
    "scan_state hts s0 W0 G R (X - node_at (rbufs s1) ` set (ws @ [b])) s' {#}" by blast
  have "rbufs s' = rbufs s1" using rest_rbufs [of s' s1] scan_frame(2) [OF st(3)] R by simp
  then obtain rb2 where "rbufs s' b = Some rb2" "rb_next rb2 = first_ptr ys (Some 0)"
    using rlinks_rbufs [OF ring_at [OF ring]] by auto
  moreover have "b \<noteq> 0" using ring by (simp add: ring_def)
  ultimately have "scan_roots_loop (first_ptr (b # ys) (Some 0)) s = scan_roots_loop (first_ptr ys (Some 0)) s'"
    using st(1,2) by (subst scan_roots_loop.simps) simp
  with Cons.IH [OF st(3)] Cons.prems(2) show ?case by simp
qed

text \<open>
  After both phases the region is black and white: white is what no external node leads to, and the counts of a white
  node are all from white nodes.
\<close>

lemma gc_scan_roots_run:
  assumes m: "mark_roots_inv hts s0 xs0 xs [] s1"
  defines "G \<equiv> colored s1 GC_GREY"
  shows "\<exists>s2. gc_scan_roots s1 = Some s2 \<and> scan_state hts s0 (word_of s1) G (rest s1) {} s2 {#} \<and>
    G \<inter> colored s2 GC_WHITE = {n \<in> G. \<not> ext_reach hts s0 G n} \<and> G \<inter> colored s2 GC_BLACK = {n \<in> G. ext_reach hts s0 G n}"
proof -
  have mi: "mark_inv hts s0 (rest s1) (address_of s1) (node_at (rbufs s0) ` set xs) (purple s0 xs0) s1 {#} {#}"
    and ok: "roots_ok hts s1 xs" and pay: "payload (rbufs s1) = payload (rbufs s0)"
    using m by (simp_all add: mark_roots_inv_def)
  note nodes = mark_inv_nodes [OF mi]
  have G: "G \<subseteq> nodes s0" "gc_wf hts s0" "gc_refs hts s0" "shape s1 = shape s0"
    using mi nodes by (auto simp: mark_inv_def G_def colored_def)
  have closed: "\<not> symtab s0 n \<and> (\<forall>m\<in>set (succs hts s0 n). m \<in> G \<or> symtab s0 m \<and> color_of s1 m = GC_BLACK)" if "n \<in> G" for n
    using mi that unfolding mark_inv_def G_def by auto
  have reg: "region hts s0 (word_of s1) G"
    unfolding region_def using G closed nodes by (auto simp: G_def colored_def)
  have empty: "G - colored s1 GC_BLACK = G" "G \<inter> colored s1 GC_BLACK = {}" "G \<inter> colored s1 GC_WHITE = {}"
    by (auto simp: G_def colored_def)
  have init: "scan_state hts s0 (word_of s1) G (rest s1) (G - node_at (rbufs s1) ` set []) s1 {#}"
    unfolding scan_inv_def empty
  proof (intro conjI ballI impI)
    fix n assume "n \<in> nodes s0" "\<not> symtab s0 n"
    then show "rc s1 n + count (edges hts s0 G) n + count {#} n = rc s0 n" using mi by (simp add: mark_inv_def G_def)
  next
    fix n assume "n \<in> nodes s0"
    show "if n \<in> G then address_of s1 n = address_of s1 n \<and> color_of s1 n \<noteq> GC_PURPLE else word_of s1 n = word_of s1 n"
      by (simp add: G_def colored_def)
  qed (use reg G in \<open>auto simp: G_def\<close>)
  from scan_roots_run [of hts s1 "[]" xs s0 "rest s1", OF _ _ _ init] ok nodes obtain s2 where
    run: "scan_roots_loop (first_ptr xs (Some 0)) s1 = Some s2" and s2: "scan_state hts s0 (word_of s1) G (rest s1) (G - node_at (rbufs s1) ` set xs) s2 {#}"
    by auto
  have "ring (rbufs s1) xs" using ok by (simp add: roots_ok_def)
  from rlinks_rbufs [OF ring_head [OF this]] obtain b where b: "rbufs s1 0 = Some b" "rb_next b = first_ptr xs (Some 0)" by blast
  note nodes2 = scan_inv_nodes [OF s2]
  have black: "colored s2 GC_GREY = {}"
  proof -
    let ?P = "(G - colored s2 GC_GREY) \<union> {n. symtab s0 n}"
    have "n \<notin> colored s2 GC_GREY" if n: "n \<in> G" for n
    proof -
      obtain r where r: "r \<in> node_at (rbufs s1) ` set xs" "(r, n) \<in> gc_reach hts s0"
        using mi n node_at_payload [OF pay] unfolding G_def mark_inv_def by fastforce
      have "n \<in> ?P"
      proof (rule reach_closed [OF r(2)])
        have "r \<in> G \<or> symtab s0 r" using m r(1) node_at_payload [OF pay] unfolding G_def mark_roots_inv_def mark_inv_def by auto
        then show "r \<in> ?P" using scan_not_grey [OF s2] r(1) by auto
        fix n' m' assume st: "n' \<in> ?P" "n' \<in> nodes s0" "m' \<in> set (succs hts s0 n')"
        then have G': "n' \<in> G" by auto
        have "n' \<in> colored s2 GC_BLACK \<or> n' \<in> colored s2 GC_WHITE"
          using scan_colors [OF s2 G'] st nodes2 by (auto simp: colored_def)
        then have "m' \<notin> colored s2 GC_GREY"
        proof
          assume "n' \<in> colored s2 GC_BLACK"
          then have "m' \<in> colored s2 GC_BLACK" using scan_black [OF s2 G'] st(3) by simp
          then show ?thesis by (simp add: colored_def)
        next
          assume "n' \<in> colored s2 GC_WHITE"
          then show ?thesis using scan_white [OF s2 G'] st(3) by simp
        qed
        then show "m' \<in> ?P" using reg G' st(3) by (auto simp: region_def)
      qed
      then show ?thesis using n reg by (auto simp: region_def)
    qed
    then show ?thesis using scan_grey [OF s2] by blast
  qed
  then have s2': "scan_state hts s0 (word_of s1) G (rest s1) {} s2 {#}" using scan_bound [OF s2] by simp
  have ext: "n \<in> colored s2 GC_BLACK" if n: "n \<in> G" and e: "ext_reach hts s0 G n" for n
  proof -
    obtain m where m: "m \<in> G" "count (edges hts s0 G) m < rc s0 m" "(m, n) \<in> gc_reach hts s0"
      using e by (auto simp: ext_reach_def external_def)
    have "n \<in> (G \<inter> colored s2 GC_BLACK) \<union> {n. symtab s0 n}"
    proof (rule reach_closed [OF m(3)])
      have mn: "m \<in> nodes s0" "\<not> symtab s0 m" using reg m(1) by (auto simp: region_def)
      have le: "count (edges hts s0 (G - colored s2 GC_BLACK)) m \<le> count (edges hts s0 G) m"
        using edges_split [OF region_finite [OF reg], of hts s0 "colored s2 GC_BLACK"] by simp
      have "m \<notin> colored s2 GC_WHITE"
      proof
        assume "m \<in> colored s2 GC_WHITE"
        then have "rc s2 m = 0" using scan_white [OF s2 m(1)] by simp
        then show False using scan_count [OF s2 mn] le m(2) by simp
      qed
      then show "m \<in> (G \<inter> colored s2 GC_BLACK) \<union> {n. symtab s0 n}"
        using scan_colors [OF s2 m(1)] black mn(1) m(1) nodes2 by (auto simp: colored_def)
      fix n' m' assume st: "n' \<in> (G \<inter> colored s2 GC_BLACK) \<union> {n. symtab s0 n}" "n' \<in> nodes s0" "m' \<in> set (succs hts s0 n')"
      then have n': "n' \<in> G" "n' \<in> colored s2 GC_BLACK" by auto
      have "m' \<in> colored s2 GC_BLACK" using scan_black [OF s2 n'] st(3) by simp
      then show "m' \<in> (G \<inter> colored s2 GC_BLACK) \<union> {n. symtab s0 n}" using reg n'(1) st(3) by (auto simp: region_def)
    qed
    then show ?thesis using n reg by (auto simp: region_def)
  qed
  have bw: "n \<in> colored s2 GC_BLACK \<or> n \<in> colored s2 GC_WHITE" if "n \<in> G" for n
  proof -
    have "n \<in> nodes s2" using that reg nodes2 by (auto simp: region_def)
    then show ?thesis using scan_colors [OF s2 that] black by (auto simp: colored_def)
  qed
  have disj: "n \<notin> colored s2 GC_WHITE" if "n \<in> colored s2 GC_BLACK" for n using that by (simp add: colored_def)
  have "G \<inter> colored s2 GC_WHITE = {n \<in> G. \<not> ext_reach hts s0 G n}" "G \<inter> colored s2 GC_BLACK = {n \<in> G. ext_reach hts s0 G n}"
    using bw disj ext scan_black [OF s2] by blast+
  moreover have "gc_scan_roots s1 = Some s2" using b run by (simp add: gc_scan_roots_def)
  ultimately show ?thesis using s2' by blast
qed

end
