(* ===== verification/ZendGcCollect.thy ===== *)
theory ZendGcCollect imports ZendGcScan begin

text \<open>
  The third phase: what is white is taken into the list of zvals to free, and the references from it are counted
  again. Then the three phases together.
\<close>

section \<open>The list of zvals to free\<close>

definition free_ptr :: "addr list \<Rightarrow> gc_address" where
  "free_ptr L = (case L of [] \<Rightarrow> FREE_LIST_END | a # _ \<Rightarrow> Next a)"

fun free_chain :: "gc_state \<Rightarrow> addr list \<Rightarrow> bool" where
  "free_chain s [] = True"
| "free_chain s (a # L) = (word_of s (Zv a) = pointer_word (free_ptr L) \<and> free_chain s L)"

lemma free_chain_frame: "(\<And>a. a \<in> set L \<Longrightarrow> word_of s' (Zv a) = word_of s (Zv a)) \<Longrightarrow> free_chain s' L = free_chain s L"
  by (induction L) auto

definition restf :: "gc_state \<Rightarrow> gc_state" where
  "restf s = (rest s)\<lparr>zval_to_free := Null\<rparr>"

section \<open>The invariant\<close>

text \<open>
  \<open>W\<close> is what is white at the beginning, \<open>A\<close> the addresses of the roots that are still in the ring, \<open>L\<close> the list,
  \<open>C\<close> the colors outside of \<open>W\<close> and \<open>rco\<close> the counts of the objects. A root that is still in the ring is not
  collected before its turn.
\<close>

definition collect_inv :: "(u32 \<Rightarrow> u64) \<Rightarrow> gc_state \<Rightarrow> node set \<Rightarrow> (node \<Rightarrow> gc_color) \<Rightarrow> (u32 \<Rightarrow> nat) \<Rightarrow> (node \<Rightarrow> gc_address) \<Rightarrow>
    gc_state \<Rightarrow> node set \<Rightarrow> gc_state \<Rightarrow> node multiset \<Rightarrow> node multiset \<Rightarrow> addr list \<Rightarrow> bool" where
  "collect_inv hts s0 W C rco A R X s K K' L \<longleftrightarrow>
     gc_wf hts s0 \<and> gc_refs hts s0 \<and> W \<subseteq> nodes s0 \<and> (\<forall>n\<in>W. \<not> symtab s0 n) \<and> shape s = shape s0 \<and> restf s = R \<and>
     zval_to_free s = free_ptr L \<and> free_chain s L \<and> distinct L \<and>
     (\<forall>a. Zv a \<in> nodes s0 \<longrightarrow> \<not> symtab s0 (Zv a) \<longrightarrow>
        rc s (Zv a) + count (edges hts s0 (W \<inter> colored s GC_WHITE)) (Zv a) + count K (Zv a) = rc s0 (Zv a) + (if a \<in> set L then 1 else 0)) \<and>
     (\<forall>h. rc s (Ob h) = rco h) \<and>
     (\<forall>a. a \<in> set L \<longleftrightarrow> Zv a \<in> W \<and> Zv a \<notin> colored s GC_WHITE) \<and>
     (\<forall>n\<in>W - colored s GC_WHITE. color_of s n = GC_BLACK \<and> A n = Null \<and>
        (\<forall>m\<in>set (succs hts s0 n). m \<in> W \<and> m \<in> colored s GC_WHITE \<and> A m = Null \<longrightarrow> m \<in># K')) \<and>
     (\<forall>n\<in>nodes s0. (n \<notin> W \<longrightarrow> color_of s n = C n \<and> C n \<noteq> GC_WHITE) \<and>
        (n \<notin> Zv ` set L \<longrightarrow> address_of s n = A n)) \<and>
     (\<forall>n\<in>#K'. n \<in> nodes s0) \<and> W \<inter> colored s GC_WHITE \<subseteq> X"

text \<open>The parts of the invariant.\<close>

lemma collect_parts:
  assumes "collect_inv hts s0 W C rco A R X s K K' L"
  shows collect_wf: "gc_wf hts s0" "gc_refs hts s0" "W \<subseteq> nodes s0" "n \<in> W \<Longrightarrow> \<not> symtab s0 n"
    and collect_frame: "shape s = shape s0" "restf s = R"
    and collect_list: "zval_to_free s = free_ptr L" "free_chain s L" "distinct L"
    and collect_count: "Zv a \<in> nodes s0 \<Longrightarrow> \<not> symtab s0 (Zv a) \<Longrightarrow>
      rc s (Zv a) + count (edges hts s0 (W \<inter> colored s GC_WHITE)) (Zv a) + count K (Zv a) = rc s0 (Zv a) + (if a \<in> set L then 1 else 0)"
    and collect_object: "rc s (Ob h) = rco h"
    and collect_in_list: "a \<in> set L \<longleftrightarrow> Zv a \<in> W \<and> Zv a \<notin> colored s GC_WHITE"
    and collect_done: "n \<in> W \<Longrightarrow> n \<notin> colored s GC_WHITE \<Longrightarrow> color_of s n = GC_BLACK \<and> A n = Null \<and>
        (\<forall>m\<in>set (succs hts s0 n). m \<in> W \<and> m \<in> colored s GC_WHITE \<and> A m = Null \<longrightarrow> m \<in># K')"
    and collect_words: "n \<in> nodes s0 \<Longrightarrow> (n \<notin> W \<longrightarrow> color_of s n = C n \<and> C n \<noteq> GC_WHITE) \<and>
        (n \<notin> Zv ` set L \<longrightarrow> address_of s n = A n)"
    and collect_pending: "n \<in># K' \<Longrightarrow> n \<in> nodes s0"
    and collect_bound: "W \<inter> colored s GC_WHITE \<subseteq> X"
  using assms unfolding collect_inv_def by blast+

lemma collect_nodes: "collect_inv hts s0 W C rco A R X s K K' L \<Longrightarrow> nodes s = nodes s0 \<and> symtab s = symtab s0 \<and> succs hts s = succs hts s0"
  using shape_nodes [of s s0] shape_symtab [of s s0] shape_succs [of s s0 hts] collect_frame(1) by blast

definition collect_todo :: "node set \<Rightarrow> gc_state \<Rightarrow> nat" where
  "collect_todo W s = card (W \<inter> colored s GC_WHITE)"

lemma collect_edge_bound:
  assumes inv: "collect_inv hts s0 W C rco A R X s (add_mset (Zv a) K) K' L" and n: "Zv a \<in> nodes s0" "\<not> symtab s0 (Zv a)"
  shows "rc s (Zv a) + 1 < 2 ^ 32"
proof -
  have "rc s (Zv a) + 1 \<le> rc s0 (Zv a) + 1" using collect_count [OF inv n] by (simp split: if_splits)
  moreover have "rc s0 (Zv a) + 1 < 2 ^ 32" using collect_wf(2) [OF inv] n unfolding gc_refs_def by blast
  ultimately show ?thesis by linarith
qed

lemma collect_edge_count:
  assumes inv: "collect_inv hts s0 W C rco A R X s (add_mset (Zv a) K) K' L"
    and s': "shape s' = shape s" "rest s' = rest s" "rc s' = (rc s)(Zv a := rc s (Zv a) + 1)" "word_of s' = word_of s" "zval_to_free s' = zval_to_free s"
  shows "collect_inv hts s0 W C rco A R X s' K K' L"
  unfolding collect_inv_def colored_cong [OF s'(1,4)] s'(4)
proof (intro conjI allI ballI impI)
  fix b assume "Zv b \<in> nodes s0" "\<not> symtab s0 (Zv b)"
  from collect_count [OF inv this]
  show "rc s' (Zv b) + count (edges hts s0 (W \<inter> colored s GC_WHITE)) (Zv b) + count K (Zv b) = rc s0 (Zv b) + (if b \<in> set L then 1 else 0)"
    using s'(3) by (auto split: if_splits)
next
  show "restf s' = R" using collect_frame(2) [OF inv] s'(2) by (simp add: restf_def)
  show "shape s' = shape s0" using collect_frame(1) [OF inv] s'(1) by simp
  show "zval_to_free s' = free_ptr L" using collect_list(1) [OF inv] s'(5) by simp
  show "free_chain s' L" using collect_list(2) [OF inv] s'(4) free_chain_frame [of L s' s] by simp
  show "rc s' (Ob h) = rco h" for h using collect_object [OF inv] s'(3) by simp
qed (use collect_wf [OF inv] collect_list [OF inv] collect_in_list [OF inv] collect_done [OF inv] collect_words [OF inv]
      collect_pending [OF inv] collect_bound [OF inv] in blast)+

lemma collect_free_edge:
  assumes inv: "collect_inv hts s0 W C rco A R X s (add_mset n K) K' L" and n: "symtab s0 n \<or> (\<exists>h. n = Ob h)"
  shows "collect_inv hts s0 W C rco A R X s K K' L"
proof -
  have "count (add_mset n K) (Zv b) = count K (Zv b)" if "\<not> symtab s0 (Zv b)" for b using that n by auto
  with collect_count [OF inv] have cnt: "rc s (Zv b) + count (edges hts s0 (W \<inter> colored s GC_WHITE)) (Zv b) + count K (Zv b) =
      rc s0 (Zv b) + (if b \<in> set L then 1 else 0)" if "Zv b \<in> nodes s0" "\<not> symtab s0 (Zv b)" for b
    using that by metis
  show ?thesis
    unfolding collect_inv_def
    by (intro conjI allI ballI impI;
        (use cnt collect_wf [OF inv] collect_frame [OF inv] collect_list [OF inv] collect_object [OF inv] collect_in_list [OF inv]
          collect_done [OF inv] collect_words [OF inv] collect_pending [OF inv] collect_bound [OF inv] in blast))
qed

lemma collect_old:
  assumes inv: "collect_inv hts s0 W C rco A R X s K (add_mset n K') L" and n: "\<not> (n \<in> W \<and> n \<in> colored s GC_WHITE \<and> A n = Null)"
  shows "collect_inv hts s0 W C rco A R X s K K' L"
  unfolding collect_inv_def
proof (intro conjI allI ballI impI)
  fix m assume "m \<in> W - colored s GC_WHITE"
  then have m: "m \<in> W" "m \<notin> colored s GC_WHITE" by simp_all
  show "color_of s m = GC_BLACK" "A m = Null" using collect_done [OF inv m] by simp_all
  fix k assume k: "k \<in> set (succs hts s0 m)" "k \<in> W \<and> k \<in> colored s GC_WHITE \<and> A k = Null"
  then have "k \<in># add_mset n K'" using collect_done [OF inv m] by blast
  then show "k \<in># K'" using k(2) n by auto
next
  fix m assume "m \<in># K'"
  then show "m \<in> nodes s0" using collect_pending [OF inv, of m] by simp
qed (use collect_wf [OF inv] collect_frame [OF inv] collect_list [OF inv] collect_count [OF inv] collect_object [OF inv] collect_in_list [OF inv]
      collect_words [OF inv] collect_bound [OF inv] in blast)+

text \<open>A white node is visited.\<close>

lemma visit_white:
  assumes inv: "collect_inv hts s0 W C rco A R X s K K' L" and n: "n \<in> W" "n \<in> colored s GC_WHITE"
    and s': "shape s' = shape s" "word_of s' = (word_of s)(n := w)" "word_color w \<noteq> GC_WHITE"
  shows "colored s' GC_WHITE = colored s GC_WHITE - {n}"
    and "edges hts s0 (W \<inter> colored s GC_WHITE) = mset (succs hts s0 n) + edges hts s0 (W \<inter> colored s' GC_WHITE)"
    and "collect_todo W s' < collect_todo W s"
proof -
  have ns: "n \<in> nodes s" using n(2) by (simp add: colored_def)
  show col: "colored s' GC_WHITE = colored s GC_WHITE - {n}" using colored_upd [OF s'(1,2) ns, of GC_WHITE] s'(3) by simp
  have fin: "finite W" using collect_wf(3) [OF inv] finite_nodes [OF collect_wf(1) [OF inv]] finite_subset by blast
  have eq: "W \<inter> colored s GC_WHITE = insert n (W \<inter> colored s' GC_WHITE)" using n col by blast
  show "edges hts s0 (W \<inter> colored s GC_WHITE) = mset (succs hts s0 n) + edges hts s0 (W \<inter> colored s' GC_WHITE)"
    unfolding eq by (rule edges_insert) (use fin col in auto)
  have "W \<inter> colored s' GC_WHITE = W \<inter> colored s GC_WHITE - {n}" using col by blast
  then show "collect_todo W s' < collect_todo W s"
    unfolding collect_todo_def using card_Diff1_less [of "W \<inter> colored s GC_WHITE" n] n fin by simp
qed

lemma visit_white_done:
  assumes inv: "collect_inv hts s0 W C rco A R X s K (add_mset n K') L" and n: "n \<in> W" "A n = Null"
    and col: "colored s' GC_WHITE = colored s GC_WHITE - {n}" and word: "word_of s' = (word_of s)(n := w)" "word_color w = GC_BLACK"
    and m: "m \<in> W" "m \<notin> colored s' GC_WHITE"
  shows "color_of s' m = GC_BLACK \<and> A m = Null \<and>
    (\<forall>k\<in>set (succs hts s0 m). k \<in> W \<and> k \<in> colored s' GC_WHITE \<and> A k = Null \<longrightarrow> k \<in># mset (succs hts s0 n) + K')"
proof (cases "m = n")
  case True
  then show ?thesis using n word by simp
next
  case False
  then have "m \<notin> colored s GC_WHITE" using m(2) col by simp
  from collect_done [OF inv m(1) this] False show ?thesis using word col by auto
qed

lemma collect_visit_object:
  assumes inv: "collect_inv hts s0 W C rco A R X s K (add_mset (Ob h) K') L" and n: "Ob h \<in> W" "word_of s (Ob h) = white_word"
    and s': "shape s' = shape s" "rest s' = rest s" "rc s' = rc s" "word_of s' = (word_of s)(Ob h := GC_SET_COLOR GC_BLACK (word_of s (Ob h)))"
  shows "collect_inv hts s0 W C rco A R X s' (mset (succs hts s0 (Ob h)) + K) (mset (succs hts s0 (Ob h)) + K') L \<and>
    collect_todo W s' < collect_todo W s"
proof -
  note nodes = collect_nodes [OF inv]
  have nn: "Ob h \<in> nodes s0" using n(1) collect_wf(3) [OF inv] by blast
  have A: "A (Ob h) = Null" using collect_words [OF inv nn] n(2) by (auto simp: white_word_def)
  have nw: "Ob h \<in> colored s GC_WHITE" using nn nodes n(2) by (simp add: colored_def white_word_def)
  have black: "word_color (GC_SET_COLOR GC_BLACK (word_of s (Ob h))) = GC_BLACK" by (simp add: GC_SET_COLOR_def)
  then have nwhite: "word_color (GC_SET_COLOR GC_BLACK (word_of s (Ob h))) \<noteq> GC_WHITE" by simp
  note v = visit_white [OF inv n(1) nw s'(1,4) nwhite]
  note dn = visit_white_done [OF inv n(1) A v(1) s'(4) black]
  have succ: "set (succs hts s0 (Ob h)) \<subseteq> nodes s0" by (rule wf_succs [OF collect_wf(1) [OF inv] nn])
  have "collect_inv hts s0 W C rco A R X s' (mset (succs hts s0 (Ob h)) + K) (mset (succs hts s0 (Ob h)) + K') L"
    unfolding collect_inv_def
  proof (intro conjI allI ballI impI)
    fix b assume "Zv b \<in> nodes s0" "\<not> symtab s0 (Zv b)"
    from collect_count [OF inv this]
    show "rc s' (Zv b) + count (edges hts s0 (W \<inter> colored s' GC_WHITE)) (Zv b) + count (mset (succs hts s0 (Ob h)) + K) (Zv b) =
        rc s0 (Zv b) + (if b \<in> set L then 1 else 0)" using s'(3) v(2) by simp
  next
    show "restf s' = R" using collect_frame(2) [OF inv] s'(2) by (simp add: restf_def)
    show "shape s' = shape s0" using collect_frame(1) [OF inv] s'(1) by simp
    have "zval_to_free s' = zval_to_free s" using arg_cong [OF s'(2), of zval_to_free] by (simp add: rest_def)
    then show "zval_to_free s' = free_ptr L" using collect_list(1) [OF inv] by simp
    show "free_chain s' L" using collect_list(2) [OF inv] s'(4) free_chain_frame [of L s' s] by simp
    show "rc s' (Ob g) = rco g" for g using collect_object [OF inv] s'(3) by simp
    show "a \<in> set L \<longleftrightarrow> Zv a \<in> W \<and> Zv a \<notin> colored s' GC_WHITE" for a using collect_in_list [OF inv] v(1) by simp
  next
    fix m assume "m \<in> W - colored s' GC_WHITE"
    then have m: "m \<in> W" "m \<notin> colored s' GC_WHITE" by simp_all
    from dn [OF m] show "color_of s' m = GC_BLACK" "A m = Null" by simp_all
    fix k assume "k \<in> set (succs hts s0 m)" "k \<in> W \<and> k \<in> colored s' GC_WHITE \<and> A k = Null"
    with dn [OF m] show "k \<in># mset (succs hts s0 (Ob h)) + K'" by blast
  next
    fix m assume m: "m \<in> nodes s0"
    show "color_of s' m = C m" if "m \<notin> W" using collect_words [OF inv m] that n(1) s'(4) by auto
    show "C m \<noteq> GC_WHITE" if "m \<notin> W" using collect_words [OF inv m] that by auto
    show "address_of s' m = A m" if "m \<notin> Zv ` set L" using collect_words [OF inv m] that s'(4) by (auto simp: GC_SET_COLOR_def)
  next
    fix m assume "m \<in># mset (succs hts s0 (Ob h)) + K'"
    then show "m \<in> nodes s0" using succ collect_pending [OF inv, of m] by auto
  qed (use collect_wf [OF inv] collect_list [OF inv] collect_bound [OF inv] v(1) in blast)+
  with v(3) show ?thesis by simp
qed

lemma collect_visit_zval:
  assumes inv: "collect_inv hts s0 W C rco A R X s K (add_mset (Zv z) K') L" and n: "Zv z \<in> W" "word_of s (Zv z) = white_word"
    and s': "shape s' = shape s" "restf s' = restf s" "zval_to_free s' = Next z" "rc s' = (rc s)(Zv z := rc s (Zv z) + 1)"
      "word_of s' = (word_of s)(Zv z := pointer_word (zval_to_free s))"
  shows "collect_inv hts s0 W C rco A R X s' (mset (succs hts s0 (Zv z)) + K) (mset (succs hts s0 (Zv z)) + K') (z # L) \<and>
    collect_todo W s' < collect_todo W s"
proof -
  note nodes = collect_nodes [OF inv]
  have nn: "Zv z \<in> nodes s0" using n(1) collect_wf(3) [OF inv] by blast
  have nw: "Zv z \<in> colored s GC_WHITE" using nn nodes n(2) by (simp add: colored_def white_word_def)
  then have zL: "z \<notin> set L" using collect_in_list [OF inv, of z] by simp
  then have "Zv z \<notin> Zv ` set L" by auto
  then have A: "A (Zv z) = Null" using collect_words [OF inv nn] n(2) by (simp add: white_word_def)
  have black: "word_color (pointer_word (zval_to_free s)) = GC_BLACK" by (simp add: pointer_word_def)
  then have nwhite: "word_color (pointer_word (zval_to_free s)) \<noteq> GC_WHITE" by simp
  note v = visit_white [OF inv n(1) nw s'(1,5) nwhite]
  note dn = visit_white_done [OF inv n(1) A v(1) s'(5) black]
  have succ: "set (succs hts s0 (Zv z)) \<subseteq> nodes s0" by (rule wf_succs [OF collect_wf(1) [OF inv] nn])
  have "collect_inv hts s0 W C rco A R X s' (mset (succs hts s0 (Zv z)) + K) (mset (succs hts s0 (Zv z)) + K') (z # L)"
    unfolding collect_inv_def
  proof (intro conjI allI ballI impI)
    fix b assume "Zv b \<in> nodes s0" "\<not> symtab s0 (Zv b)"
    from collect_count [OF inv this]
    show "rc s' (Zv b) + count (edges hts s0 (W \<inter> colored s' GC_WHITE)) (Zv b) + count (mset (succs hts s0 (Zv z)) + K) (Zv b) =
        rc s0 (Zv b) + (if b \<in> set (z # L) then 1 else 0)" using s'(4) v(2) zL by auto
  next
    show "restf s' = R" using collect_frame(2) [OF inv] s'(2) by simp
    show "shape s' = shape s0" using collect_frame(1) [OF inv] s'(1) by simp
    show "zval_to_free s' = free_ptr (z # L)" using s'(3) by (simp add: free_ptr_def)
    have "word_of s' (Zv a) = word_of s (Zv a)" if "a \<in> set L" for a using s'(5) zL that by auto
    then have "free_chain s' L" using collect_list(2) [OF inv] free_chain_frame [of L s' s] by blast
    then show "free_chain s' (z # L)" using s'(5) collect_list(1) [OF inv] by simp
    show "distinct (z # L)" using zL collect_list(3) [OF inv] by simp
    show "rc s' (Ob g) = rco g" for g using collect_object [OF inv] s'(4) by simp
    show "a \<in> set (z # L) \<longleftrightarrow> Zv a \<in> W \<and> Zv a \<notin> colored s' GC_WHITE" for a
      using collect_in_list [OF inv, of a] v(1) n(1) by auto
  next
    fix m assume "m \<in> W - colored s' GC_WHITE"
    then have m: "m \<in> W" "m \<notin> colored s' GC_WHITE" by simp_all
    from dn [OF m] show "color_of s' m = GC_BLACK" "A m = Null" by simp_all
    fix k assume "k \<in> set (succs hts s0 m)" "k \<in> W \<and> k \<in> colored s' GC_WHITE \<and> A k = Null"
    with dn [OF m] show "k \<in># mset (succs hts s0 (Zv z)) + K'" by blast
  next
    fix m assume m: "m \<in> nodes s0"
    show "color_of s' m = C m" if "m \<notin> W" using collect_words [OF inv m] that n(1) s'(5) by auto
    show "C m \<noteq> GC_WHITE" if "m \<notin> W" using collect_words [OF inv m] that by auto
    show "address_of s' m = A m" if "m \<notin> Zv ` set (z # L)" using collect_words [OF inv m] that s'(5) by auto
  next
    fix m assume "m \<in># mset (succs hts s0 (Zv z)) + K'"
    then show "m \<in> nodes s0" using succ collect_pending [OF inv, of m] by auto
  qed (use collect_wf [OF inv] collect_bound [OF inv] v(1) in blast)+
  with v(3) show ?thesis by simp
qed

section \<open>The traversal\<close>

abbreviation collect_loop where
  "collect_loop hts s0 W C rco A R X s K \<equiv> \<exists>L. collect_inv hts s0 W C rco A R X s (image_mset Zv K) (image_mset Zv K) L"

abbreviation collect_call where
  "collect_call hts s0 W C rco A R X z s K \<equiv> \<exists>L. collect_inv hts s0 W C rco A R X s (image_mset Zv K) (add_mset (Zv z) (image_mset Zv K)) L"

lemma collect_todo_cong: "shape s' = shape s \<Longrightarrow> word_of s' = word_of s \<Longrightarrow> collect_todo W s' = collect_todo W s"
  using colored_cong [of s' s GC_WHITE] by (simp add: collect_todo_def)

lemma rest_zval_to_free: "rest s' = rest s \<Longrightarrow> zval_to_free s' = zval_to_free s"
  by (drule arg_cong [of _ _ zval_to_free]) (simp add: rest_def)

lemma collect_edge_step:
  assumes "collect_loop hts s0 W C rco A R X s (add_mset z K)"
  shows "\<exists>d s'. collect_white_edge z s = Some (d, s') \<and> collect_todo W s' \<le> collect_todo W s \<and>
    (if d then collect_call hts s0 W C rco A R X z s' K else collect_loop hts s0 W C rco A R X s' K)"
proof -
  obtain L where inv: "collect_inv hts s0 W C rco A R X s (add_mset (Zv z) (image_mset Zv K)) (add_mset (Zv z) (image_mset Zv K)) L"
    using assms by auto
  note nodes = collect_nodes [OF inv]
  have nz: "Zv z \<in> nodes s0" using collect_pending [OF inv, of "Zv z"] by simp
  then have "Zv z \<in> nodes s" using nodes by simp
  then obtain y where y: "zvals s z = Some y" by auto
  show ?thesis
  proof (cases "is_symbol_table s y")
    case True
    then have "symtab s0 (Zv z)" using nodes symtab_zval [OF y] by simp
    with collect_free_edge [OF inv] True y show ?thesis
      by (intro exI [of _ True] exI [of _ s]) (auto simp: collect_white_edge_def count_edge_def)
  next
    case False
    then have ns: "\<not> symtab s0 (Zv z)" using nodes symtab_zval [OF y] by simp
    obtain s' where s': "zval_add_refcount z 1 s = Some s'" "shape s' = shape s" "rest s' = rest s"
      "rc s' = (rc s)(Zv z := unat (z_refcount y + 1))" "word_of s' = word_of s"
      by (rule zval_add_refcount_views [OF y])
    have "rc s' = (rc s)(Zv z := rc s (Zv z) + 1)"
      using s'(4) unat_inc collect_edge_bound [OF inv nz ns] rc_zval [OF y] by simp
    from collect_edge_count [OF inv s'(2,3) this s'(5) rest_zval_to_free [OF s'(3)]] s'(1) False y collect_todo_cong [OF s'(2,5), of W]
    show ?thesis by (intro exI [of _ True] exI [of _ s']) (auto simp: collect_white_edge_def count_edge_def)
  qed
qed

lemma views_to_free [simp]: "shape (s\<lparr>zval_to_free := x\<rparr>) = shape s" "rc (s\<lparr>zval_to_free := x\<rparr>) = rc s"
  "word_of (s\<lparr>zval_to_free := x\<rparr>) = word_of s" "nodes (s\<lparr>zval_to_free := x\<rparr>) = nodes s"
  by (auto simp: shape_def rc_def word_of_def nodes_def get_obj_def fun_eq_iff split: node.splits)

lemma restf_to_free [simp]: "restf (s\<lparr>zval_to_free := x\<rparr>) = restf s"
  by (simp add: restf_def rest_def)

text \<open>The end of the function: the zval is counted and put into the list.\<close>

lemma collect_put:
  assumes inv: "collect_inv hts s0 W C rco A R X s K (add_mset (Zv z) K') L" and n: "Zv z \<in> W" "word_of s (Zv z) = white_word"
    and t: "shape t = shape s" "rest t = rest s" "rc t = rc s" "word_of t = (word_of s)(Zv z := w)"
  shows "\<exists>t1 t2. zval_add_refcount z 1 t = Some t1 \<and> zval_set_u z (\<lambda>_. pointer_word (zval_to_free t1)) t1 = Some t2 \<and>
    collect_inv hts s0 W C rco A R X (t2\<lparr>zval_to_free := Next z\<rparr>) (mset (succs hts s0 (Zv z)) + K) (mset (succs hts s0 (Zv z)) + K') (z # L) \<and>
    collect_todo W (t2\<lparr>zval_to_free := Next z\<rparr>) < collect_todo W s \<and> Zv z \<notin> colored (t2\<lparr>zval_to_free := Next z\<rparr>) GC_WHITE \<and>
    (\<forall>n. n \<noteq> Zv z \<longrightarrow> word_of (t2\<lparr>zval_to_free := Next z\<rparr>) n = word_of s n)"
proof -
  note nodes = collect_nodes [OF inv]
  have nn: "Zv z \<in> nodes s0" using n(1) collect_wf(3) [OF inv] by blast
  have ns: "\<not> symtab s0 (Zv z)" by (rule collect_wf(4) [OF inv n(1)])
  have "Zv z \<in> nodes t" using nn nodes shape_nodes [OF t(1)] by simp
  then obtain y where y: "zvals t z = Some y" by auto
  obtain t1 where t1: "zval_add_refcount z 1 t = Some t1" "shape t1 = shape t" "rest t1 = rest t"
    "rc t1 = (rc t)(Zv z := unat (z_refcount y + 1))" "word_of t1 = word_of t" "zvals t1 z = Some (y\<lparr>z_refcount := z_refcount y + 1\<rparr>)"
    by (rule zval_add_refcount_views [OF y])
  obtain t2 where t2: "zval_set_u z (\<lambda>_. pointer_word (zval_to_free t1)) t1 = Some t2" "shape t2 = shape t1" "rest t2 = rest t1" "rc t2 = rc t1"
    "word_of t2 = (word_of t1)(Zv z := pointer_word (zval_to_free t1))"
    by (rule zval_set_u_views [OF t1(6), of "\<lambda>_. pointer_word (zval_to_free t1)"])
  let ?s = "t2\<lparr>zval_to_free := Next z\<rparr>"
  have zf: "zval_to_free t1 = zval_to_free s" using rest_zval_to_free [OF t1(3)] rest_zval_to_free [OF t(2)] by simp
  have nw: "Zv z \<in> colored s GC_WHITE" using nn nodes n(2) by (simp add: colored_def white_word_def)
  then have "z \<notin> set L" using collect_in_list [OF inv, of z] by simp
  then have "rc s (Zv z) \<le> rc s0 (Zv z)" using collect_count [OF inv nn ns] by simp
  moreover have "rc s0 (Zv z) + 1 < 2 ^ 32" using collect_wf(2) [OF inv] nn ns unfolding gc_refs_def by blast
  moreover have "rc s (Zv z) = unat (z_refcount y)" using rc_zval [OF y] t(3) by simp
  ultimately have "unat (z_refcount y + 1) = rc s (Zv z) + 1" using unat_inc [of "z_refcount y"] by linarith
  then have rc2: "rc t2 = (rc s)(Zv z := rc s (Zv z) + 1)" using t2(4) t1(4) t(3) by simp
  have w: "word_of ?s = (word_of s)(Zv z := pointer_word (zval_to_free s))" using t2(5) t1(5) t(4) zf by simp
  have "restf t2 = restf s" using t2(3) t1(3) t(2) by (simp add: restf_def)
  then have "restf ?s = restf s" by (simp only: restf_to_free)
  from collect_visit_zval [OF inv n _ this _ _ w] t2(2) t1(2) t(1) rc2
  have v: "collect_inv hts s0 W C rco A R X ?s (mset (succs hts s0 (Zv z)) + K) (mset (succs hts s0 (Zv z)) + K') (z # L) \<and>
    collect_todo W ?s < collect_todo W s" by simp
  have "Zv z \<notin> colored ?s GC_WHITE" using w by (simp add: colored_def pointer_word_def)
  moreover have "\<forall>n. n \<noteq> Zv z \<longrightarrow> word_of ?s n = word_of s n" using w by simp
  ultimately show ?thesis using v t1(1) t2(1) by blast
qed

lemma collect_pending_more:
  assumes inv: "collect_inv hts s0 W C rco A R X s K K' L" and n: "n \<in> nodes s0"
  shows "collect_inv hts s0 W C rco A R X s K (add_mset n K') L"
  unfolding collect_inv_def
proof (intro conjI allI ballI impI)
  fix m assume "m \<in> W - colored s GC_WHITE"
  then have m: "m \<in> W" "m \<notin> colored s GC_WHITE" by simp_all
  show "color_of s m = GC_BLACK" "A m = Null" using collect_done [OF inv m] by simp_all
  fix k assume "k \<in> set (succs hts s0 m)" "k \<in> W \<and> k \<in> colored s GC_WHITE \<and> A k = Null"
  then show "k \<in># add_mset n K'" using collect_done [OF inv m] by simp
next
  fix m assume "m \<in># add_mset n K'"
  then show "m \<in> nodes s0" using collect_pending [OF inv, of m] n by auto
qed (use collect_wf [OF inv] collect_frame [OF inv] collect_list [OF inv] collect_count [OF inv] collect_object [OF inv] collect_in_list [OF inv]
      collect_words [OF inv] collect_bound [OF inv] in blast)+

lemma not_white_word:
  assumes inv: "collect_inv hts s0 W C rco A R X s K K' L" and n: "n \<in> nodes s0" "word_of s n \<noteq> white_word"
  shows "\<not> (n \<in> W \<and> n \<in> colored s GC_WHITE \<and> A n = Null)"
proof
  assume w: "n \<in> W \<and> n \<in> colored s GC_WHITE \<and> A n = Null"
  then have "n \<notin> Zv ` set L" using collect_in_list [OF inv] by auto
  then have "address_of s n = Null" using collect_words [OF inv n(1)] w by simp
  moreover have "color_of s n = GC_WHITE" using w by (simp add: colored_def)
  ultimately have "word_of s n = white_word" by (simp add: white_word_def)
  with n(2) show False by simp
qed

lemma white_in_W:
  assumes inv: "collect_inv hts s0 W C rco A R X s K K' L" and n: "n \<in> nodes s0" "word_of s n = white_word"
  shows "n \<in> W"
  using collect_words [OF inv n(1)] n(2) by (auto simp: white_word_def)

lemma collect_enter:
  assumes "collect_call hts s0 W C rco A R X z s K"
  shows "\<exists>p s'. collect_white_enter z s = Some (p, s') \<and> collect_loop hts s0 W C rco A R X s' (mset p + K) \<and>
    (collect_todo W s' < collect_todo W s \<or> p = [] \<and> collect_todo W s' \<le> collect_todo W s) \<and>
    \<not> (Zv z \<in> W \<and> Zv z \<in> colored s' GC_WHITE \<and> A (Zv z) = Null)"
proof -
  obtain L where inv: "collect_inv hts s0 W C rco A R X s (image_mset Zv K) (add_mset (Zv z) (image_mset Zv K)) L"
    using assms by auto
  note nodes = collect_nodes [OF inv]
  have wf: "gc_wf hts s0" by (rule collect_wf(1) [OF inv])
  have sh: "shape s = shape s0" by (rule collect_frame(1) [OF inv])
  have wfs: "gc_wf hts s" by (rule shape_wf [OF sh [symmetric] wf])
  have nz: "Zv z \<in> nodes s0" using collect_pending [OF inv, of "Zv z"] by simp
  then have "Zv z \<in> nodes s" using nodes by simp
  then obtain y where y: "zvals s z = Some y" by auto
  have succs: "succs hts s = succs hts s0" using nodes by simp
  show ?thesis
  proof (cases "z_u y = white_word")
    case False
    then have "word_of s (Zv z) \<noteq> white_word" using word_zval [OF y] by simp
    note nw = not_white_word [OF inv nz this]
    from collect_old [OF inv nw] have "collect_loop hts s0 W C rco A R X s (mset [] + K)" by auto
    with nw False y show ?thesis by (auto simp: collect_white_enter_def)
  next
    case white: True
    then have ww: "word_of s (Zv z) = white_word" using word_zval [OF y] by simp
    have zW: "Zv z \<in> W" by (rule white_in_W [OF inv nz ww])
    have ns: "\<not> symtab s0 (Zv z)" by (rule collect_wf(4) [OF inv zW])
    obtain s1 where s1: "zval_set_u z (GC_SET_COLOR GC_BLACK) s = Some s1" "shape s1 = shape s" "rest s1 = rest s" "rc s1 = rc s"
      "word_of s1 = (word_of s)(Zv z := GC_SET_COLOR GC_BLACK (word_of s (Zv z)))"
      by (rule zval_set_u_views [OF y, of "GC_SET_COLOR GC_BLACK"])
    have st: "arrays s1 = arrays s" using shape_fields [OF s1(2)] by auto
    have "gc_wf hts s1" by (rule shape_wf [OF s1(2) [symmetric] wfs])
    then obtain bs where buckets: "gc_buckets s1 = Some bs" by (auto simp: gc_wf_def)
    show ?thesis
    proof (cases "z_value y")
      case IS_OTHER
      then have "succs hts s0 (Zv z) = []" using wf_other [OF y, of hts] succs by simp
      with collect_put [OF inv zW ww s1(2-5)] IS_OTHER white y s1(1) show ?thesis
        by (fastforce simp: collect_white_enter_def)
    next
      case (IS_ARRAY t)
      then have nst: "t \<noteq> symbol_table s" using ns nodes symtab_zval [OF y] by (auto simp: is_symbol_table_def)
      from wf_array [OF wfs y IS_ARRAY nst] succs obtain p where p: "arrays s t = Some p" "succs hts s0 (Zv z) = map Zv p" by auto
      obtain t1 t2 where t: "zval_add_refcount z 1 s1 = Some t1" "zval_set_u z (\<lambda>_. pointer_word (zval_to_free t1)) t1 = Some t2"
        "collect_inv hts s0 W C rco A R X (t2\<lparr>zval_to_free := Next z\<rparr>) (mset (succs hts s0 (Zv z)) + image_mset Zv K)
           (mset (succs hts s0 (Zv z)) + image_mset Zv K) (z # L)"
        "collect_todo W (t2\<lparr>zval_to_free := Next z\<rparr>) < collect_todo W s" "Zv z \<notin> colored (t2\<lparr>zval_to_free := Next z\<rparr>) GC_WHITE"
        using collect_put [OF inv zW ww s1(2-5)] by blast
      have run: "collect_white_enter z s = Some (p, t2\<lparr>zval_to_free := Next z\<rparr>)"
        using IS_ARRAY white y s1(1) st p(1) t(1,2) by (simp add: collect_white_enter_def)
      from t(3) p(2) have "collect_loop hts s0 W C rco A R X (t2\<lparr>zval_to_free := Next z\<rparr>) (mset p + K)" by auto
      with run t(4,5) show ?thesis by blast
    next
      case (IS_OBJECT h handlers)
      from wf_object [OF wfs y IS_OBJECT] succs obtain b0 where b0: "get_obj h s = Some b0" and hts: "handlers = hts h"
        and succ: "succs hts s0 (Zv z) = [Ob h]" by auto
      have nh: "Ob h \<in> nodes s0" using wf_succs [OF wf nz] succ by simp
      have "get_obj h s1 \<noteq> None" using shape_obj_iff [OF s1(2)] b0 by simp
      then obtain b where b: "get_obj h s1 = Some b" by auto
      have wh: "word_of s (Ob h) = gb_buffered b" using word_obj [OF b] s1(5) by simp
      show ?thesis
      proof (cases "gb_buffered b = white_word")
        case False
        from collect_put [OF inv zW ww s1(2-5)] succ obtain t1 t2 where t: "zval_add_refcount z 1 s1 = Some t1"
          "zval_set_u z (\<lambda>_. pointer_word (zval_to_free t1)) t1 = Some t2"
          "collect_inv hts s0 W C rco A R X (t2\<lparr>zval_to_free := Next z\<rparr>) (add_mset (Ob h) (image_mset Zv K))
             (add_mset (Ob h) (image_mset Zv K)) (z # L)"
          "collect_todo W (t2\<lparr>zval_to_free := Next z\<rparr>) < collect_todo W s" "Zv z \<notin> colored (t2\<lparr>zval_to_free := Next z\<rparr>) GC_WHITE"
          "word_of (t2\<lparr>zval_to_free := Next z\<rparr>) (Ob h) = word_of s (Ob h)" by auto
        have "word_of (t2\<lparr>zval_to_free := Next z\<rparr>) (Ob h) \<noteq> white_word" using t(6) wh False by simp
        note old = collect_old [OF collect_free_edge [OF t(3)] not_white_word [OF t(3) nh this]]
        have run: "collect_white_enter z s = Some ([], t2\<lparr>zval_to_free := Next z\<rparr>)"
          using IS_OBJECT white y s1(1) buckets b False t(1,2) by (simp add: collect_white_enter_def)
        have "collect_loop hts s0 W C rco A R X (t2\<lparr>zval_to_free := Next z\<rparr>) (mset [] + K)" using old by auto
        with run t(4,5) show ?thesis by blast
      next
        case True
        then have wo: "word_of s (Ob h) = white_word" using wh by simp
        note inv0 = collect_pending_more [OF inv nh]
        have hW: "Ob h \<in> W" by (rule white_in_W [OF inv nh wo])
        obtain t where t: "obj_set_buffered h (GC_SET_COLOR GC_BLACK) s = Some t" "shape t = shape s" "rest t = rest s" "rc t = rc s"
          "word_of t = (word_of s)(Ob h := GC_SET_COLOR GC_BLACK (word_of s (Ob h)))"
          by (rule obj_set_buffered_views [OF b0, of "GC_SET_COLOR GC_BLACK"])
        note v = collect_visit_object [OF inv0 hW wo t(2-5)]
        obtain s2 where s2: "obj_set_buffered h (GC_SET_COLOR GC_BLACK) s1 = Some s2" "shape s2 = shape s1" "rest s2 = rest s1" "rc s2 = rc s1"
          "word_of s2 = (word_of s1)(Ob h := GC_SET_COLOR GC_BLACK (word_of s1 (Ob h)))"
          by (rule obj_set_buffered_views [OF b, of "GC_SET_COLOR GC_BLACK"])
        have w2: "word_of s2 = (word_of t)(Zv z := GC_SET_COLOR GC_BLACK (word_of s (Zv z)))" using s2(5) s1(5) t(5) by auto
        have v': "collect_inv hts s0 W C rco A R X t (mset (succs hts s0 (Ob h)) + image_mset Zv K)
            (add_mset (Zv z) (mset (succs hts s0 (Ob h)) + image_mset Zv K)) L" using v by simp
        have "word_of t (Zv z) = white_word" using ww t(5) by simp
        from collect_put [OF v' zW this, of s2 "GC_SET_COLOR GC_BLACK (word_of s (Zv z))"] s2(2-4) s1(2-4) t(2-4) w2 succ obtain t1 t2 where
          u: "zval_add_refcount z 1 s2 = Some t1" "zval_set_u z (\<lambda>_. pointer_word (zval_to_free t1)) t1 = Some t2"
          "collect_inv hts s0 W C rco A R X (t2\<lparr>zval_to_free := Next z\<rparr>) (add_mset (Ob h) (mset (succs hts s0 (Ob h)) + image_mset Zv K))
             (add_mset (Ob h) (mset (succs hts s0 (Ob h)) + image_mset Zv K)) (z # L)"
          "collect_todo W (t2\<lparr>zval_to_free := Next z\<rparr>) < collect_todo W t" "Zv z \<notin> colored (t2\<lparr>zval_to_free := Next z\<rparr>) GC_WHITE"
          "word_of (t2\<lparr>zval_to_free := Next z\<rparr>) (Ob h) = word_of t (Ob h)" by auto
        have "color_of (t2\<lparr>zval_to_free := Next z\<rparr>) (Ob h) = GC_BLACK" using u(6) t(5) by (simp add: GC_SET_COLOR_def)
        then have "word_of (t2\<lparr>zval_to_free := Next z\<rparr>) (Ob h) \<noteq> white_word" by (auto simp: white_word_def)
        note old = collect_old [OF collect_free_edge [OF u(3)] not_white_word [OF u(3) nh this]]
        have shs: "shape s1 = shape s0" "shape s2 = shape s0" using sh s1(2) s2(2) by simp_all
        obtain p where p: "succs hts s0 (Ob h) = map Zv p" "(case obj_props h (hts h) b s2 of
            None \<Rightarrow> Some (Some [], s2) | Some None \<Rightarrow> Some (None, s2) | Some (Some p) \<Rightarrow> Some (Some p, s2)) = Some (Some p, s2)"
          by (rule obj_props_succs [OF wf b shs]) (use that in auto)
        have run: "collect_white_enter z s = Some (p, t2\<lparr>zval_to_free := Next z\<rparr>)"
          using IS_OBJECT white y s1(1) buckets b True hts s2(1) p(2) u(1,2) by (simp add: collect_white_enter_def)
        have "collect_loop hts s0 W C rco A R X (t2\<lparr>zval_to_free := Next z\<rparr>) (mset p + K)" using old p(1) by auto
        moreover have "collect_todo W (t2\<lparr>zval_to_free := Next z\<rparr>) < collect_todo W s" using u(4) v by simp
        ultimately show ?thesis using run u(5) by blast
      qed
    qed
  qed
qed

lemma collect_enter_step:
  assumes "collect_call hts s0 W C rco A R X z s K"
  shows "\<exists>p s'. collect_white_enter z s = Some (p, s') \<and> collect_loop hts s0 W C rco A R X s' (mset p + K) \<and>
    (collect_todo W s' < collect_todo W s \<or> p = [] \<and> collect_todo W s' \<le> collect_todo W s)"
  using collect_enter [OF assms] by blast

interpretation collect: gc_traversal collect_white_enter collect_white_edge "collect_loop hts s0 W C rco A R X"
    "collect_call hts s0 W C rco A R X" "collect_todo W"
  by unfold_locales (rule collect_edge_step collect_enter_step, assumption)+

section \<open>A root\<close>

lemma collect_rebound: "collect_inv hts s0 W C rco A R X s K K' L \<Longrightarrow> W \<inter> colored s GC_WHITE \<subseteq> Y \<Longrightarrow> collect_inv hts s0 W C rco A R Y s K K' L"
  unfolding collect_inv_def by blast

lemma collect_old_pending:
  assumes "collect_inv hts s0 W C rco A R X s {#} {#n#} L" "\<not> (n \<in> W \<and> n \<in> colored s GC_WHITE \<and> A n = Null)"
  shows "collect_inv hts s0 W C rco A R X s {#} {#} L"
  using collect_old [OF assms] .

lemma collect_children:
  assumes inv: "collect_loop hts s0 W C rco A R X s (mset p)"
  shows "\<exists>s' L. gc_traverse collect_white_enter collect_white_edge (Inr p) s = Some s' \<and> collect_inv hts s0 W C rco A R X s' {#} {#} L \<and>
    W \<inter> colored s' GC_WHITE \<subseteq> W \<inter> colored s GC_WHITE"
proof -
  obtain L where "collect_inv hts s0 W C rco A R X s (image_mset Zv (mset p)) (image_mset Zv (mset p)) L" using inv by blast
  note inv' = collect_rebound [OF this order_refl]
  then have "collect_loop hts s0 W C rco A R (W \<inter> colored s GC_WHITE) s (mset p + {#})" by auto
  from collect.children [OF this] obtain s' L' where "gc_traverse collect_white_enter collect_white_edge (Inr p) s = Some s'"
    and fin: "collect_inv hts s0 W C rco A R (W \<inter> colored s GC_WHITE) s' {#} {#} L'" by auto
  moreover have "W \<inter> colored s' GC_WHITE \<subseteq> X" using collect_bound [OF fin] collect_bound [OF \<open>collect_inv hts s0 W C rco A R X s _ _ L\<close>] by blast
  ultimately show ?thesis using collect_rebound [OF fin] collect_bound [OF fin] by blast
qed

lemma zval_collect_white_inv:
  assumes inv: "collect_inv hts s0 W C rco A R X s {#} {#Zv a#} L" and A: "A (Zv a) = Null"
  shows "\<exists>s' L. zval_collect_white a s = Some s' \<and> collect_inv hts s0 W C rco A R X s' {#} {#} L \<and>
    \<not> (Zv a \<in> W \<and> Zv a \<in> colored s' GC_WHITE)"
proof -
  have "collect_call hts s0 W C rco A R X a s {#}" using inv by auto
  from collect_enter [OF this] obtain p s1 where s1: "collect_white_enter a s = Some (p, s1)" "collect_loop hts s0 W C rco A R X s1 (mset p + {#})"
    "\<not> (Zv a \<in> W \<and> Zv a \<in> colored s1 GC_WHITE)" using A by auto
  from s1(2) have "collect_loop hts s0 W C rco A R X s1 (mset p)" by simp
  from collect_children [OF this] obtain s' L' where
    "gc_traverse collect_white_enter collect_white_edge (Inr p) s1 = Some s'" "collect_inv hts s0 W C rco A R X s' {#} {#} L'"
    "W \<inter> colored s' GC_WHITE \<subseteq> W \<inter> colored s1 GC_WHITE" by blast
  then show ?thesis using s1(3) gc_traverse_enter [of collect_white_enter, OF s1(1), of collect_white_edge]
    by (auto simp: zval_collect_white_def)
qed

lemma zobj_collect_white_inv:
  assumes inv: "collect_inv hts s0 W C rco A R X s {#} {#Ob h#} L" and A: "A (Ob h) = Null"
  shows "\<exists>s' L. zobj_collect_white h (hts h) s = Some s' \<and> collect_inv hts s0 W C rco A R X s' {#} {#} L \<and>
    \<not> (Ob h \<in> W \<and> Ob h \<in> colored s' GC_WHITE)"
proof -
  note nodes = collect_nodes [OF inv] and wf = collect_wf(1) [OF inv] and sh = collect_frame(1) [OF inv]
  have nh: "Ob h \<in> nodes s0" using collect_pending [OF inv, of "Ob h"] by simp
  then have "Ob h \<in> nodes s" using nodes by simp
  then obtain b where b: "get_obj h s = Some b" by auto
  then obtain bs where bs: "gc_buckets s = Some bs" by (auto simp: get_obj_def split: option.splits)
  have wo: "word_of s (Ob h) = gb_buffered b" by (rule word_obj [OF b])
  show ?thesis
  proof (cases "gb_buffered b = white_word")
    case False
    then have nw: "\<not> (Ob h \<in> W \<and> Ob h \<in> colored s GC_WHITE \<and> A (Ob h) = Null)" using not_white_word [OF inv nh] wo by simp
    from collect_old_pending [OF inv nw] nw A False b bs show ?thesis
      by (intro exI [of _ s] exI [of _ L]) (auto simp: zobj_collect_white_def)
  next
    case True
    then have ww: "word_of s (Ob h) = white_word" using wo by simp
    have hW: "Ob h \<in> W" by (rule white_in_W [OF inv nh ww])
    obtain s1 where s1: "obj_set_buffered h (GC_SET_COLOR GC_BLACK) s = Some s1" "shape s1 = shape s" "rest s1 = rest s" "rc s1 = rc s"
      "word_of s1 = (word_of s)(Ob h := GC_SET_COLOR GC_BLACK (word_of s (Ob h)))"
      by (rule obj_set_buffered_views [OF b, of "GC_SET_COLOR GC_BLACK"])
    from collect_visit_object [OF inv hW ww s1(2-5)]
    have v: "collect_inv hts s0 W C rco A R X s1 (mset (succs hts s0 (Ob h))) (mset (succs hts s0 (Ob h))) L" by simp
    have sh1: "shape s1 = shape s0" using sh s1(2) by simp
    obtain p where p: "succs hts s0 (Ob h) = map Zv p"
      "zobj_collect_white h (hts h) s = gc_traverse collect_white_enter collect_white_edge (Inr p) s1"
      by (rule obj_props_succs [OF wf b sh sh1]) (use that True b bs s1(1) in \<open>auto simp: zobj_collect_white_def\<close>)
    have "collect_loop hts s0 W C rco A R X s1 (mset p)" using v p(1) by auto
    from collect_children [OF this] obtain s' L' where
      "gc_traverse collect_white_enter collect_white_edge (Inr p) s1 = Some s'" "collect_inv hts s0 W C rco A R X s' {#} {#} L'"
      "W \<inter> colored s' GC_WHITE \<subseteq> W \<inter> colored s1 GC_WHITE" by blast
    moreover have "Ob h \<notin> colored s1 GC_WHITE" using s1(5) by (simp add: colored_def GC_SET_COLOR_def)
    ultimately show ?thesis using p(2) by auto
  qed
qed

text \<open>The address of a root is taken out of its word; the root may now be collected.\<close>

lemma collect_take_root:
  assumes inv: "collect_inv hts s0 W C rco A R X s {#} {#} L" and n: "n \<in> nodes s0" "A n \<noteq> Null"
    and s': "shape s' = shape s" "rest s' = rest s" "rc s' = rc s" "word_of s' = (word_of s)(n := GC_SET_ADDRESS Null (word_of s n))"
  shows "collect_inv hts s0 W C rco (A(n := Null)) R X s' {#} {#n#} L"
proof -
  have nL: "n \<notin> Zv ` set L"
  proof
    assume "n \<in> Zv ` set L"
    then have "n \<in> W" "n \<notin> colored s GC_WHITE" using collect_in_list [OF inv] by auto
    then show False using collect_done [OF inv] n(2) by blast
  qed
  have color: "color_of s' m = color_of s m" for m using s'(4) by (simp add: GC_SET_ADDRESS_def)
  have col: "colored s' c = colored s c" for c using color shape_nodes [OF s'(1)] by (simp add: colored_def)
  show ?thesis
    unfolding collect_inv_def col color
  proof (intro conjI allI ballI impI)
    show "restf s' = R" using collect_frame(2) [OF inv] s'(2) by (simp add: restf_def)
    show "shape s' = shape s0" using collect_frame(1) [OF inv] s'(1) by simp
    show "zval_to_free s' = free_ptr L" using collect_list(1) [OF inv] rest_zval_to_free [OF s'(2)] by simp
    have "word_of s' (Zv a) = word_of s (Zv a)" if "a \<in> set L" for a using s'(4) nL that by auto
    then show "free_chain s' L" using collect_list(2) [OF inv] free_chain_frame [of L s' s] by blast
  next
    fix b assume "Zv b \<in> nodes s0" "\<not> symtab s0 (Zv b)"
    from collect_count [OF inv this]
    show "rc s' (Zv b) + count (edges hts s0 (W \<inter> colored s GC_WHITE)) (Zv b) + count {#} (Zv b) = rc s0 (Zv b) + (if b \<in> set L then 1 else 0)"
      using s'(3) by simp
  next
    show "rc s' (Ob h) = rco h" for h using collect_object [OF inv] s'(3) by simp
  next
    fix m assume "m \<in> W - colored s GC_WHITE"
    then have m: "m \<in> W" "m \<notin> colored s GC_WHITE" by simp_all
    show "color_of s m = GC_BLACK" "(A(n := Null)) m = Null" using collect_done [OF inv m] by simp_all
    fix k assume "k \<in> set (succs hts s0 m)" "k \<in> W \<and> k \<in> colored s GC_WHITE \<and> (A(n := Null)) k = Null"
    then show "k \<in># {#n#}" using collect_done [OF inv m] by (cases "k = n") auto
  next
    fix m assume m: "m \<in> nodes s0"
    show "color_of s m = C m" if "m \<notin> W" using collect_words [OF inv m] that by simp
    show "C m \<noteq> GC_WHITE" if "m \<notin> W" using collect_words [OF inv m] that by simp
    show "address_of s' m = (A(n := Null)) m" if "m \<notin> Zv ` set L"
      using collect_words [OF inv m] that s'(4) by (simp add: GC_SET_ADDRESS_def)
  next
    fix m assume "m \<in># {#n#}"
    then show "m \<in> nodes s0" using n(1) by simp
  qed (use collect_wf [OF inv] collect_list [OF inv] collect_in_list [OF inv] collect_bound [OF inv] in blast)+
qed

end
