(* ===== verification/ZendGcRun.thy ===== *)
theory ZendGcRun imports ZendGcCollect begin

text \<open>
  The loop of \<open>gc_collect_roots\<close> over the ring and the three phases together: what is white after the second phase
  is in the list of zvals to free, the ring is empty, and the counts of all other zvals are as they were.
\<close>

section \<open>The roots\<close>

text \<open>As \<open>roots_ok\<close>, with the addresses of the invariant.\<close>

definition croots :: "(u32 \<Rightarrow> u64) \<Rightarrow> gc_state \<Rightarrow> (node \<Rightarrow> gc_address) \<Rightarrow> root_buffers \<Rightarrow> addr list \<Rightarrow> bool" where
  "croots hts s0 A R ys \<longleftrightarrow> ring R ys \<and>
     (\<forall>b\<in>set ys. root_entry hts R b \<and> node_at R b \<in> nodes s0 \<and> A (node_at R b) = Root b) \<and>
     (\<forall>n\<in>nodes s0. A n = Null \<or> (\<exists>b\<in>set ys. A n = Root b \<and> node_at R b = n))"

lemma croots_removed:
  assumes ok: "croots hts s0 A R (b # ys)" and R: "ring R' ys" "payload R' = payload R"
  shows "croots hts s0 (A(node_at R b := Null)) R' ys"
proof -
  let ?n = "node_at R b"
  have d: "b \<notin> set ys" using ok by (simp add: croots_def ring_def)
  have nb: "A ?n = Root b" using ok by (simp add: croots_def)
  have other: "node_at R c \<noteq> ?n" if "c \<in> set ys" for c
  proof
    assume "node_at R c = ?n"
    then have "Root c = Root b" using that ok nb unfolding croots_def by auto
    then show False using that d by simp
  qed
  note pay = node_at_payload [OF R(2)]
  have "\<exists>c\<in>set ys. A m = Root c \<and> node_at R c = m" if "m \<in> nodes s0" "A m \<noteq> Null" "m \<noteq> ?n" for m
  proof -
    from ok that obtain c where "c \<in> set (b # ys)" "A m = Root c" "node_at R c = m"
      unfolding croots_def by blast
    with that show ?thesis by auto
  qed
  moreover have "\<forall>c\<in>set ys. root_entry hts R c \<and> node_at R c \<in> nodes s0 \<and> A (node_at R c) = Root c"
    using ok by (simp add: croots_def)
  ultimately show ?thesis using R(1) other by (auto simp: croots_def pay)
qed

lemma collect_rbufs:
  assumes inv: "collect_inv hts s0 W C rco A R X s K K' L"
  shows "collect_inv hts s0 W C rco A (restf (s\<lparr>rbufs := B, unused := u\<rparr>)) X (s\<lparr>rbufs := B, unused := u\<rparr>) K K' L"
proof -
  let ?s = "s\<lparr>rbufs := B, unused := u\<rparr>"
  have col: "colored ?s c = colored s c" for c by (rule colored_cong) simp_all
  have fc: "free_chain ?s L = free_chain s L" by (rule free_chain_frame) simp
  have zf: "zval_to_free ?s = zval_to_free s" by simp
  from inv show ?thesis unfolding collect_inv_def col fc zf views_rbufs by blast
qed

definition collect_roots_inv :: "(u32 \<Rightarrow> u64) \<Rightarrow> gc_state \<Rightarrow> node set \<Rightarrow> (node \<Rightarrow> gc_color) \<Rightarrow> (u32 \<Rightarrow> nat) \<Rightarrow> gc_state \<Rightarrow>
    addr list \<Rightarrow> addr list \<Rightarrow> gc_state \<Rightarrow> bool" where
  "collect_roots_inv hts s0 W C rco s2 ws ys s \<longleftrightarrow> (\<exists>A L.
     collect_inv hts s0 W C rco A (restf s) (W - node_at (rbufs s2) ` set ws) s {#} {#} L \<and>
     croots hts s0 A (rbufs s) ys \<and> payload (rbufs s) = payload (rbufs s2) \<and>
     restf s2 = (restf s)\<lparr>rbufs := rbufs s2, unused := unused s2\<rparr>)"

lemma collect_root_end:
  assumes inv: "collect_inv hts s0 W C rco (A(n := Null)) (restf s) (W - N) s1 {#} {#} L" and n: "n = node_at (rbufs s) b"
    and old: "\<not> (n \<in> W \<and> n \<in> colored s1 GC_WHITE)" and N: "N = node_at (rbufs s2) ` set ws"
    and roots: "croots hts s0 A (rbufs s) (b # ys)" and pay: "payload (rbufs s) = payload (rbufs s2)"
    and R: "restf s2 = (restf s)\<lparr>rbufs := rbufs s2, unused := unused s2\<rparr>"
  shows "\<exists>s' p. gc_remove_from_buffer b s1 = Some s' \<and> collect_roots_inv hts s0 W C rco s2 (ws @ [b]) ys s' \<and>
    rlinks (rbufs s') b = Some (first_ptr ys (Some 0), p)"
proof -
  have rf: "restf s1 = restf s" by (rule collect_frame(2) [OF inv])
  then have rb: "rbufs s1 = rbufs s" by (drule_tac arg_cong [of _ _ rbufs]) (simp add: restf_def rest_def)
  have "ring (rbufs s1) ([] @ b # ys)" using roots rb by (simp add: croots_def)
  from ring_remove [OF this] obtain B where B: "gc_remove_from_buffer b s1 = Some (s1\<lparr>rbufs := B, unused := Some b\<rparr>)"
    "ring B ys" "payload B = payload (rbufs s)" "rlinks B b = Some (first_ptr ys (Some 0), unused s1)" using rb by auto
  let ?s = "s1\<lparr>rbufs := B, unused := Some b\<rparr>"
  have n2: "n = node_at (rbufs s2) b" using n node_at_payload [OF pay] by simp
  have "W \<inter> colored s1 GC_WHITE \<subseteq> W - node_at (rbufs s2) ` set (ws @ [b])"
    using collect_bound [OF inv] old N n2 by auto
  note inv' = collect_rbufs [OF collect_rebound [OF inv this], where B = B and u = "Some b"]
  have "croots hts s0 (A(n := Null)) B ys" using croots_removed [OF roots B(2,3)] n by simp
  moreover have "restf ?s = (restf s)\<lparr>rbufs := B, unused := Some b\<rparr>"
    unfolding rf [symmetric] by (simp add: restf_def rest_def)
  then have "restf s2 = (restf ?s)\<lparr>rbufs := rbufs s2, unused := unused s2\<rparr>" using R by simp
  moreover have "rbufs ?s = B" by simp
  ultimately have "collect_roots_inv hts s0 W C rco s2 (ws @ [b]) ys ?s"
    unfolding collect_roots_inv_def using inv' B(3) pay by metis
  with B(1,4) show ?thesis by auto
qed

lemma collect_root_step:
  assumes "collect_roots_inv hts s0 W C rco s2 ws (b # ys) s"
  shows "\<exists>rb s' p. rbufs s b = Some rb \<and> collect_root b rb s = Some s' \<and> collect_roots_inv hts s0 W C rco s2 (ws @ [b]) ys s' \<and>
    rlinks (rbufs s') b = Some (first_ptr ys (Some 0), p)"
proof -
  obtain A L where inv: "collect_inv hts s0 W C rco A (restf s) (W - node_at (rbufs s2) ` set ws) s {#} {#} L"
    and roots: "croots hts s0 A (rbufs s) (b # ys)" and pay: "payload (rbufs s) = payload (rbufs s2)"
    and R: "restf s2 = (restf s)\<lparr>rbufs := rbufs s2, unused := unused s2\<rparr>"
    using assms unfolding collect_roots_inv_def by blast
  note nodes = collect_nodes [OF inv]
  have entry: "root_entry hts (rbufs s) b" and nn: "node_at (rbufs s) b \<in> nodes s0" and nz: "A (node_at (rbufs s) b) \<noteq> Null"
    using roots by (simp_all add: croots_def)
  show ?thesis using entry
  proof (cases rule: root_cases)
    case (1 rb a)
    have n0: "Zv a \<in> nodes s0" "A (Zv a) \<noteq> Null" using nn nz 1(4) by simp_all
    then have "Zv a \<in> nodes s" using nodes by simp
    then obtain z where z: "zvals s a = Some z" by auto
    obtain t where t: "zval_set_u a (GC_SET_ADDRESS Null) s = Some t" "shape t = shape s" "rest t = rest s" "rc t = rc s"
      "word_of t = (word_of s)(Zv a := GC_SET_ADDRESS Null (word_of s (Zv a)))"
      by (rule zval_set_u_views [OF z, of "GC_SET_ADDRESS Null"])
    from zval_collect_white_inv [OF collect_take_root [OF inv n0 t(2-5)]] obtain s1 L1 where s1: "zval_collect_white a t = Some s1"
      "collect_inv hts s0 W C rco (A(Zv a := Null)) (restf s) (W - node_at (rbufs s2) ` set ws) s1 {#} {#} L1"
      "\<not> (Zv a \<in> W \<and> Zv a \<in> colored s1 GC_WHITE)" by auto
    from collect_root_end [OF s1(2) 1(4) [symmetric] s1(3) refl roots pay R] 1 t(1) s1(1) show ?thesis
      by (auto simp: collect_root_def)
  next
    case (2 rb h)
    have n0: "Ob h \<in> nodes s0" "A (Ob h) \<noteq> Null" using nn nz 2(5) by simp_all
    then have "Ob h \<in> nodes s" using nodes by simp
    then obtain o' where o': "get_obj h s = Some o'" by auto
    then obtain bs where bs: "gc_buckets s = Some bs" by (auto simp: get_obj_def split: option.splits)
    obtain t where t: "obj_set_buffered h (GC_SET_ADDRESS Null) s = Some t" "shape t = shape s" "rest t = rest s" "rc t = rc s"
      "word_of t = (word_of s)(Ob h := GC_SET_ADDRESS Null (word_of s (Ob h)))"
      by (rule obj_set_buffered_views [OF o', of "GC_SET_ADDRESS Null"])
    from zobj_collect_white_inv [OF collect_take_root [OF inv n0 t(2-5)]] obtain s1 L1 where s1: "zobj_collect_white h (hts h) t = Some s1"
      "collect_inv hts s0 W C rco (A(Ob h := Null)) (restf s) (W - node_at (rbufs s2) ` set ws) s1 {#} {#} L1"
      "\<not> (Ob h \<in> W \<and> Ob h \<in> colored s1 GC_WHITE)" by auto
    from collect_root_end [OF s1(2) 2(5) [symmetric] s1(3) refl roots pay R] 2 bs t(1) s1(1) show ?thesis
      by (auto simp: collect_root_def)
  qed
qed

lemma collect_roots_run:
  "collect_roots_inv hts s0 W C rco s2 ws ys s \<Longrightarrow>
     \<exists>s'. collect_roots_loop (first_ptr ys (Some 0)) s = Some s' \<and> collect_roots_inv hts s0 W C rco s2 (ws @ ys) [] s'"
proof (induction ys arbitrary: ws s)
  case Nil
  then show ?case by (subst collect_roots_loop.simps) auto
next
  case (Cons b ys)
  from collect_root_step [OF Cons.prems] obtain rb s' p where st: "rbufs s b = Some rb" "collect_root b rb s = Some s'"
    "collect_roots_inv hts s0 W C rco s2 (ws @ [b]) ys s'" "rlinks (rbufs s') b = Some (first_ptr ys (Some 0), p)" by blast
  have "b \<noteq> 0" using Cons.prems by (auto simp: collect_roots_inv_def croots_def ring_def)
  moreover obtain rb' where "rbufs s' b = Some rb'" "rb_next rb' = first_ptr ys (Some 0)" using rlinks_rbufs [OF st(4)] by blast
  ultimately have "collect_roots_loop (first_ptr (b # ys) (Some 0)) s = collect_roots_loop (first_ptr ys (Some 0)) s'"
    using st(1,2) by (subst collect_roots_loop.simps) simp
  with Cons.IH [OF st(3)] show ?case by simp
qed

section \<open>The three phases\<close>

text \<open>
  The region is what the purple roots reach; garbage is what no reference from outside of the region leads to.
\<close>

definition suspects :: "(u32 \<Rightarrow> u64) \<Rightarrow> gc_state \<Rightarrow> addr list \<Rightarrow> node set" where
  "suspects hts s xs = {n \<in> nodes s. \<not> symtab s n \<and> (\<exists>r\<in>purple s xs. (r, n) \<in> gc_reach hts s)}"

definition garbage :: "(u32 \<Rightarrow> u64) \<Rightarrow> gc_state \<Rightarrow> addr list \<Rightarrow> node set" where
  "garbage hts s xs = {n \<in> suspects hts s xs. \<not> ext_reach hts s (suspects hts s xs) n}"

definition gc_ready :: "(u32 \<Rightarrow> u64) \<Rightarrow> gc_state \<Rightarrow> addr list \<Rightarrow> bool" where
  "gc_ready hts s xs \<longleftrightarrow> gc_wf hts s \<and> gc_refs hts s \<and> roots_ok hts s xs \<and>
     (\<forall>n\<in>nodes s. color_of s n = GC_BLACK \<or> color_of s n = GC_PURPLE)"

lemma collect_begin:
  assumes m: "mark_roots_inv hts s0 xs xs' [] s1" and sc: "scan_state hts s0 (word_of s1) G (rest s1) {} s2 {#}"
    and W: "W = G \<inter> colored s2 GC_WHITE" and B: "G - colored s2 GC_BLACK = W" and zf: "zval_to_free s0 = FREE_LIST_END"
    and col: "\<And>n. n \<in> nodes s0 \<Longrightarrow> n \<notin> G \<Longrightarrow> color_of s1 n \<noteq> GC_WHITE"
  shows "collect_roots_inv hts s0 W (color_of s2) (\<lambda>h. rc s2 (Ob h)) s2 [] xs' s2"
proof -
  have mi: "mark_inv hts s0 (rest s1) (address_of s1) (node_at (rbufs s0) ` set xs') (purple s0 xs) s1 {#} {#}"
    and ok: "roots_ok hts s1 xs'" and sr: "same_rest s1 s0" using m by (simp_all add: mark_roots_inv_def)
  note reg = scan_region [OF sc] and nodes = scan_inv_nodes [OF sc] mark_inv_nodes [OF mi]
  have rest: "rest s2 = rest s1" by (rule scan_frame(2) [OF sc])
  note rb = rest_rbufs [OF rest]
  have "zval_to_free s1 = zval_to_free s0" using sr unfolding same_rest_def
    by (drule_tac arg_cong [of _ _ zval_to_free]) (simp add: rest_def)
  then have zf2: "zval_to_free s2 = free_ptr []" using rest_zval_to_free [OF rest] zf by (simp add: free_ptr_def)
  have words: "address_of s2 n = address_of s1 n" if "n \<in> nodes s0" for n
    using scan_words [OF sc that] by (auto split: if_splits)
  have inv: "collect_inv hts s0 W (color_of s2) (\<lambda>h. rc s2 (Ob h)) (address_of s2) (restf s2) W s2 {#} {#} []"
    unfolding collect_inv_def
  proof (intro conjI allI ballI impI)
    fix n assume n: "n \<in> nodes s0" "n \<notin> W"
    show "color_of s2 n \<noteq> GC_WHITE"
    proof (cases "n \<in> G")
      case True
      then show ?thesis using n W nodes by (simp add: colored_def)
    next
      case False
      then show ?thesis using scan_words [OF sc n(1)] col [OF n(1) False] by simp
    qed
  next
    fix a assume a: "Zv a \<in> nodes s0" "\<not> symtab s0 (Zv a)"
    have "W \<inter> colored s2 GC_WHITE = W" using W by blast
    then show "rc s2 (Zv a) + count (edges hts s0 (W \<inter> colored s2 GC_WHITE)) (Zv a) + count {#} (Zv a) = rc s0 (Zv a) + (if a \<in> set [] then 1 else 0)"
      using scan_count [OF sc a] B by simp
  qed (use reg scan_frame(1) [OF sc] zf2 W in \<open>auto simp: region_def\<close>)
  have "croots hts s0 (address_of s2) (rbufs s2) xs'"
    using ok rb nodes words by (auto simp: croots_def roots_ok_def)
  then show ?thesis using inv unfolding collect_roots_inv_def by (intro exI [of _ "address_of s2"] exI [of _ "[]"]) (simp add: restf_def rest_def)
qed

lemma collect_end:
  assumes inv: "collect_inv hts s0 W C rco A R X s {#} {#} L" and nil: "croots hts s0 A B []"
    and roots: "\<And>n. n \<in> W \<Longrightarrow> \<exists>r\<in>Rts. (r, n) \<in> gc_reach hts s0"
    and done_roots: "\<And>r. r \<in> Rts \<Longrightarrow> r \<in> W \<Longrightarrow> r \<notin> colored s GC_WHITE"
    and G: "region hts s0 W0 G" "Rts \<subseteq> G \<union> {n. symtab s0 n}" "W = {n \<in> G. \<not> ext_reach hts s0 G n}"
  shows "W \<inter> colored s GC_WHITE = {}"
proof -
  let ?P = "(W - colored s GC_WHITE) \<union> {n \<in> G. ext_reach hts s0 G n} \<union> {n. symtab s0 n}"
  have null: "A n = Null" if "n \<in> nodes s0" for n using nil that by (simp add: croots_def)
  have "n \<notin> colored s GC_WHITE" if n: "n \<in> W" for n
  proof -
    from roots [OF n] obtain r where r: "r \<in> Rts" "(r, n) \<in> gc_reach hts s0" by blast
    have "n \<in> ?P"
    proof (rule reach_closed [OF r(2)])
      show "r \<in> ?P" using r(1) G(2,3) done_roots [OF r(1)] by blast
      fix n' m assume st: "n' \<in> ?P" "n' \<in> nodes s0" "m \<in> set (succs hts s0 n')"
      then have n': "n' \<in> G" using G(3) by auto
      then have m: "m \<in> G \<or> symtab s0 m" using G(1) st(3) unfolding region_def by blast
      have mn: "m \<in> nodes s0" using wf_succs [OF collect_wf(1) [OF inv] st(2)] st(3) by blast
      show "m \<in> ?P"
      proof (cases "ext_reach hts s0 G n'")
        case True
        then have "ext_reach hts s0 G m" using ext_reach_step st(2,3) by blast
        with m show ?thesis by blast
      next
        case False
        then have "n' \<in> W" "n' \<notin> colored s GC_WHITE" using st(1,3) n' G(3) by auto
        from collect_done [OF inv this] st(3) null [OF mn] have "m \<notin> W \<or> m \<notin> colored s GC_WHITE" by auto
        with m G(3) show ?thesis by blast
      qed
    qed
    then show ?thesis using n G(3) collect_wf(4) [OF inv n] by auto
  qed
  then show ?thesis by blast
qed

text \<open>
  After a run that began in \<open>s\<close>: the list \<open>L\<close> holds the zvals that are garbage, each with one reference more than
  before, so that it is not freed by what is destroyed first. An object has lost the references from garbage.
\<close>

definition gc_outcome :: "(u32 \<Rightarrow> u64) \<Rightarrow> gc_state \<Rightarrow> addr list \<Rightarrow> gc_state \<Rightarrow> addr list \<Rightarrow> bool" where
  "gc_outcome hts s xs s' L \<longleftrightarrow>
     zval_to_free s' = free_ptr L \<and> free_chain s' L \<and> distinct L \<and> (\<forall>a. a \<in> set L \<longleftrightarrow> Zv a \<in> garbage hts s xs) \<and>
     shape s' = shape s \<and> ring (rbufs s') [] \<and> restf s = (restf s')\<lparr>rbufs := rbufs s, unused := unused s\<rparr> \<and>
     (\<forall>a. Zv a \<in> nodes s \<longrightarrow> \<not> symtab s (Zv a) \<longrightarrow> rc s' (Zv a) = rc s (Zv a) + (if a \<in> set L then 1 else 0)) \<and>
     (\<forall>h. Ob h \<in> nodes s \<longrightarrow> rc s' (Ob h) + count (edges hts s (garbage hts s xs)) (Ob h) = rc s (Ob h)) \<and>
     (\<forall>n\<in>nodes s. (color_of s' n = GC_BLACK \<or> color_of s' n = GC_PURPLE \<and> n \<notin> garbage hts s xs) \<and>
        (n \<notin> Zv ` set L \<longrightarrow> address_of s' n = Null)) \<and>
     (\<forall>n\<in>garbage hts s xs. rc s n = count (edges hts s (garbage hts s xs)) n)"

lemma gc_phases_run:
  assumes ready: "gc_ready hts s xs" and zf: "zval_to_free s = FREE_LIST_END"
  shows "\<exists>s' L. gc_phases s = Some s' \<and> gc_outcome hts s xs s' L"
proof -
  have col0: "color_of s n = GC_BLACK \<or> color_of s n = GC_PURPLE" if "n \<in> nodes s" for n
    using ready that by (simp add: gc_ready_def)
  then have "\<forall>n\<in>nodes s. color_of s n \<noteq> GC_GREY" by fastforce
  with ready obtain s1 xs' where s1: "gc_mark_roots s = Some s1" "mark_roots_inv hts s xs xs' [] s1"
    "colored s1 GC_GREY = suspects hts s xs"
    using gc_mark_roots_run [of hts s xs] unfolding gc_ready_def suspects_def by blast
  define G where "G = suspects hts s xs"
  define W where "W = garbage hts s xs"
  have WG: "W = {n \<in> G. \<not> ext_reach hts s G n}" by (simp add: W_def G_def garbage_def)
  from gc_scan_roots_run [OF s1(2)] obtain s2 where s2: "gc_scan_roots s1 = Some s2" and sc: "scan_state hts s (word_of s1) G (rest s1) {} s2 {#}"
    and wh: "G \<inter> colored s2 GC_WHITE = {n \<in> G. \<not> ext_reach hts s G n}" and bl: "G \<inter> colored s2 GC_BLACK = {n \<in> G. ext_reach hts s G n}"
    unfolding s1(3) G_def by blast
  have mi: "mark_inv hts s (rest s1) (address_of s1) (node_at (rbufs s) ` set xs') (purple s xs) s1 {#} {#}"
    and ok1: "roots_ok hts s1 xs'" and pay1: "payload (rbufs s1) = payload (rbufs s)" and sub: "node_at (rbufs s) ` set xs' \<subseteq> purple s xs"
    and sr: "same_rest s1 s"
    using s1(2) by (simp_all add: mark_roots_inv_def)
  note nodes = scan_inv_nodes [OF sc] mark_inv_nodes [OF mi]
  have W: "W = G \<inter> colored s2 GC_WHITE" using wh WG by simp
  have B: "G - colored s2 GC_BLACK = W" using bl WG by blast
  have out: "color_of s1 n = GC_BLACK \<or> color_of s1 n = GC_PURPLE" if n: "n \<in> nodes s" "n \<notin> G" for n
  proof -
    have "n \<notin> colored s1 GC_GREY" using n(2) s1(3) by (simp add: G_def)
    then have "color_of s1 n = color_of s n \<or> color_of s1 n = GC_BLACK"
      using mi n(1) by (auto simp: mark_inv_def)
    then show ?thesis using col0 [OF n(1)] by auto
  qed
  have "collect_roots_inv hts s W (color_of s2) (\<lambda>h. rc s2 (Ob h)) s2 [] xs' s2"
    by (rule collect_begin [OF s1(2) sc W B zf]) (use out in fastforce)
  from collect_roots_run [OF this] obtain s3 where run: "collect_roots_loop (first_ptr xs' (Some 0)) s2 = Some s3"
    and "collect_roots_inv hts s W (color_of s2) (\<lambda>h. rc s2 (Ob h)) s2 xs' [] s3" by auto
  then obtain A L where inv: "collect_inv hts s W (color_of s2) (\<lambda>h. rc s2 (Ob h)) A (restf s3) (W - node_at (rbufs s2) ` set xs') s3 {#} {#} L"
    and nil: "croots hts s A (rbufs s3) []" and R: "restf s2 = (restf s3)\<lparr>rbufs := rbufs s2, unused := unused s2\<rparr>"
    unfolding collect_roots_inv_def by blast
  have rest2: "rest s2 = rest s1" by (rule scan_frame(2) [OF sc])
  note rb2 = rest_rbufs [OF rest2]
  have "ring (rbufs s2) xs'" using ok1 rb2 by (simp add: roots_ok_def)
  from rlinks_rbufs [OF ring_head [OF this]] obtain b where b: "rbufs s2 0 = Some b" "rb_next b = first_ptr xs' (Some 0)" by blast
  have phases: "gc_phases s = Some s3" using s1(1) s2 b run by (simp add: gc_phases_def gc_collect_roots_def)
  have at: "node_at (rbufs s2) ` set xs' = node_at (rbufs s) ` set xs'" using rb2 node_at_payload [OF pay1] by simp
  have none: "W \<inter> colored s3 GC_WHITE = {}"
  proof (rule collect_end [OF inv nil _ _ scan_region [OF sc] _ WG])
    show "\<exists>r\<in>node_at (rbufs s) ` set xs'. (r, n) \<in> gc_reach hts s" if "n \<in> W" for n
    proof -
      have "n \<in> colored s1 GC_GREY" using that W s1(3) by (simp add: G_def)
      then show ?thesis using mi by (simp add: mark_inv_def)
    qed
    show "r \<notin> colored s3 GC_WHITE" if "r \<in> node_at (rbufs s) ` set xs'" "r \<in> W" for r
      using collect_bound [OF inv] that at by auto
    show "node_at (rbufs s) ` set xs' \<subseteq> G \<union> {n. symtab s n}"
    proof
      fix r assume "r \<in> node_at (rbufs s) ` set xs'"
      then have r: "r \<in> purple s xs" using sub by blast
      then have "r \<in> colored s1 GC_GREY \<or> symtab s r" using mi by (auto simp: mark_inv_def)
      then show "r \<in> G \<union> {n. symtab s n}" using s1(3) by (simp add: G_def)
    qed
  qed
  have done_all: "n \<notin> colored s3 GC_WHITE" if "n \<in> W" for n using none that by blast
  have Wn: "n \<in> nodes s" "\<not> symtab s n" if "n \<in> W" for n using that collect_wf(3,4) [OF inv] by auto
  have L: "a \<in> set L \<longleftrightarrow> Zv a \<in> W" for a using collect_in_list [OF inv, of a] done_all by blast
  have null: "A n = Null" if "n \<in> nodes s" for n using nil that by (simp add: croots_def)
  have zs: "zval_to_free s1 = zval_to_free s" using sr unfolding same_rest_def
    by (drule_tac arg_cong [of _ _ zval_to_free]) (simp add: rest_def)
  have "restf s = (restf s1)\<lparr>rbufs := rbufs s, unused := unused s\<rparr>" using sr by (simp add: same_rest_def restf_def)
  also have "restf s1 = (restf s3)\<lparr>rbufs := rbufs s2, unused := unused s2\<rparr>" using rest2 R by (simp add: restf_def)
  finally have fr: "restf s = (restf s3)\<lparr>rbufs := rbufs s, unused := unused s\<rparr>" by simp
  have count2: "rc s2 n + count (edges hts s W) n = rc s n" if "n \<in> nodes s" "\<not> symtab s n" for n
    using scan_count [OF sc that] B by simp
  have "gc_outcome hts s xs s3 L"
    unfolding gc_outcome_def W_def [symmetric]
  proof (intro conjI allI ballI impI)
    show "zval_to_free s3 = free_ptr L" "free_chain s3 L" "distinct L" by (rule collect_list [OF inv])+
    show "a \<in> set L \<longleftrightarrow> Zv a \<in> W" for a by (rule L)
    show "shape s3 = shape s" by (rule collect_frame(1) [OF inv])
    show "ring (rbufs s3) []" using nil by (simp add: croots_def)
    show "restf s = (restf s3)\<lparr>rbufs := rbufs s, unused := unused s\<rparr>" by (rule fr)
  next
    fix a assume "Zv a \<in> nodes s" "\<not> symtab s (Zv a)"
    from collect_count [OF inv this] none
    show "rc s3 (Zv a) = rc s (Zv a) + (if a \<in> set L then 1 else 0)" by (simp add: edges_def)
  next
    fix h assume "Ob h \<in> nodes s"
    moreover have "\<not> symtab s (Ob h)" by (simp add: symtab_def)
    ultimately show "rc s3 (Ob h) + count (edges hts s W) (Ob h) = rc s (Ob h)" using count2 collect_object [OF inv] by simp
  next
    fix n assume n: "n \<in> nodes s"
    show "color_of s3 n = GC_BLACK \<or> color_of s3 n = GC_PURPLE \<and> n \<notin> W"
    proof (cases "n \<in> W")
      case True
      then show ?thesis using collect_done [OF inv True done_all] by simp
    next
      case False
      then have c: "color_of s3 n = color_of s2 n" using collect_words [OF inv n] by simp
      show ?thesis
      proof (cases "n \<in> G")
        case True
        then have "n \<in> colored s2 GC_BLACK" using False B by blast
        then show ?thesis using c by (simp add: colored_def)
      next
        case outside: False
        then show ?thesis using c out [OF n] scan_words [OF sc n] False by simp
      qed
    qed
    show "address_of s3 n = Null" if "n \<notin> Zv ` set L" using collect_words [OF inv n] that null [OF n] by simp
  next
    fix n assume n: "n \<in> W"
    have "n \<in> G" "n \<in> colored s2 GC_WHITE" using n W by simp_all
    from scan_white [OF sc this] have "rc s2 n = 0" by simp
    then show "rc s n = count (edges hts s W) n" using count2 [OF Wn [OF n]] by simp
  qed
  with phases show ?thesis by blast
qed

end
