(* ===== verification/ZendGcCycles.thy ===== *)
theory ZendGcCycles imports ZendGcRun begin

text \<open>
  A whole run of \<open>gc_collect_cycles\<close>: the three phases, then the destructors, the destruction and the release of what
  is in the list. The functions that destroy are only known to leave the list alone.
\<close>

section \<open>Functions that leave the list alone\<close>

text \<open>The zvals of the list exist, and so do the objects they refer to.\<close>

definition listed :: "addr set \<Rightarrow> gc_state \<Rightarrow> bool" where
  "listed Z s \<longleftrightarrow> (\<forall>a\<in>Z. \<exists>z. zvals s a = Some z \<and>
     (case z_value z of IS_OBJECT h handlers \<Rightarrow> get_obj h s \<noteq> None | _ \<Rightarrow> True))"

definition same_list :: "addr set \<Rightarrow> gc_state \<Rightarrow> gc_state \<Rightarrow> bool" where
  "same_list Z s s' \<longleftrightarrow> listed Z s' \<and> (\<forall>a\<in>Z. word_of s' (Zv a) = word_of s (Zv a)) \<and> free_list s' = free_list s \<and>
     next_to_free s' = next_to_free s \<and> (\<forall>h. get_obj h s \<noteq> None \<longrightarrow> get_obj h s' \<noteq> None)"

definition keeps_list :: "addr set \<Rightarrow> (gc_state \<Rightarrow> gc_state option) \<Rightarrow> bool" where
  "keeps_list Z f \<longleftrightarrow> (\<forall>s. listed Z s \<longrightarrow> (\<exists>s'. f s = Some s' \<and> same_list Z s s'))"

definition env_ok :: "addr set \<Rightarrow> gc_env \<Rightarrow> bool" where
  "env_ok Z env \<longleftrightarrow> (\<forall>h. keeps_list Z (obj_dtor env h)) \<and> (\<forall>h hs. keeps_list Z (del_ref_by_handle_ex env h hs)) \<and>
     (\<forall>t. keeps_list Z (hash_destroy env t)) \<and> (\<forall>a. keeps_list Z (zval_dtor env a))"

lemma same_list_refl: "listed Z s \<Longrightarrow> same_list Z s s"
  by (simp add: same_list_def)

lemma same_list_trans: "same_list Z s t \<Longrightarrow> same_list Z t u \<Longrightarrow> same_list Z s u"
  by (simp add: same_list_def)

lemma keeps_listD: "keeps_list Z f \<Longrightarrow> listed Z s \<Longrightarrow> \<exists>s'. f s = Some s' \<and> same_list Z s s'"
  by (simp add: keeps_list_def)

lemma same_listed: "same_list Z s t \<Longrightarrow> listed Z t"
  by (simp add: same_list_def)

lemma get_obj_buckets: "get_obj h s = Some b \<Longrightarrow> gc_buckets s \<noteq> None"
  by (cases "gc_buckets s") (simp_all add: get_obj_def)

lemma upd_obj_listed:
  assumes "listed Z s" "get_obj h s \<noteq> None"
  shows "\<exists>s'. upd_obj h f s = Some s' \<and> same_list Z s s' \<and> get_obj h s' \<noteq> None"
proof -
  from assms(2) obtain b where b: "get_obj h s = Some b" by auto
  then obtain bs where bs: "gc_buckets s = Some bs" "unat h < length bs"
    by (auto simp: get_obj_def split: option.splits if_splits)
  let ?s = "s\<lparr>gc_buckets := Some (bs[unat h := f (bs ! unat h)])\<rparr>"
  have upd: "upd_obj h f s = Some ?s" using bs by (simp add: upd_obj_def)
  note g = get_obj_upd [OF b upd]
  have "listed Z ?s"
    unfolding listed_def
  proof
    fix a assume "a \<in> Z"
    with assms(1) obtain z where "zvals s a = Some z" "case z_value z of IS_OBJECT h handlers \<Rightarrow> get_obj h s \<noteq> None | _ \<Rightarrow> True"
      unfolding listed_def by blast
    then show "\<exists>z. zvals ?s a = Some z \<and> (case z_value z of IS_OBJECT h handlers \<Rightarrow> get_obj h ?s \<noteq> None | _ \<Rightarrow> True)"
      using g by (auto split: zvalue.splits)
  qed
  then have "same_list Z s ?s" using g by (auto simp: same_list_def word_of_def)
  with upd g show ?thesis by auto
qed

lemma zval_set_null_listed:
  assumes "listed Z s" "a \<in> Z"
  shows "\<exists>s'. zval_set_null a s = Some s' \<and> same_list Z s s'"
proof -
  from assms obtain z where z: "zvals s a = Some z" unfolding listed_def by blast
  let ?s = "s\<lparr>zvals := (zvals s)(a \<mapsto> z\<lparr>z_value := IS_OTHER\<rparr>)\<rparr>"
  have g: "get_obj h ?s = get_obj h s" for h by (simp add: get_obj_def)
  have "listed Z ?s" using assms(1) unfolding listed_def g by auto
  then have "same_list Z s ?s" using z g by (auto simp: same_list_def word_of_def)
  then show ?thesis using z by (auto simp: zval_set_null_def upd_zval_def)
qed

section \<open>The three loops\<close>

lemma free_ptr_simps [simp]: "free_ptr [] = FREE_LIST_END" "free_ptr (a # L) = Next a"
  by (simp_all add: free_ptr_def)

lemma free_ptr_cases: "free_ptr L \<noteq> Null" "free_ptr L \<noteq> Root b"
  by (simp_all add: free_ptr_def split: list.split)

lemma chain_next: "free_chain s (a # L) \<Longrightarrow> zvals s a = Some z \<Longrightarrow> zval_next a s = Some (free_ptr L)"
  using word_zval [of s a z] by (simp add: zval_next_def pointer_word_def)

lemma same_chain: "same_list Z s t \<Longrightarrow> set L \<subseteq> Z \<Longrightarrow> free_chain s L \<Longrightarrow> free_chain t L"
  using free_chain_frame [of L t s] by (auto simp: same_list_def)

lemma call_destructor_run:
  assumes env: "env_ok Z env" and s: "listed Z s" and a: "a \<in> Z"
  shows "\<exists>s'. call_destructor env a s = Some s' \<and> same_list Z s s'"
proof -
  from s a obtain z where z: "zvals s a = Some z" "case z_value z of IS_OBJECT h handlers \<Rightarrow> get_obj h s \<noteq> None | _ \<Rightarrow> True"
    unfolding listed_def by blast
  show ?thesis
  proof (cases "z_value z")
    case (IS_OBJECT h handlers)
    with z(2) obtain obj where obj: "get_obj h s = Some obj" by auto
    then obtain bs where bk: "gc_buckets s = Some bs" using get_obj_buckets by blast
    show ?thesis
    proof (cases "gb_valid obj \<and> gb_refcount obj \<le> 0 \<and> gb_dtor obj \<noteq> 0 \<and> \<not> gb_destructor_called obj")
      case True
      obtain t1 where t1: "upd_obj h (\<lambda>b. b\<lparr>gb_destructor_called := True\<rparr>) s = Some t1" "same_list Z s t1" "get_obj h t1 \<noteq> None"
        using upd_obj_listed [OF s, of h "\<lambda>b. b\<lparr>gb_destructor_called := True\<rparr>"] obj by auto
      obtain t2 where t2: "obj_add_refcount h 1 t1 = Some t2" "same_list Z t1 t2" "get_obj h t2 \<noteq> None"
        using upd_obj_listed [OF same_listed [OF t1(2)] t1(3)] unfolding obj_add_refcount_def by blast
      have "keeps_list Z (obj_dtor env h)" using env by (simp add: env_ok_def)
      from keeps_listD [OF this same_listed [OF t2(2)]] obtain t3 where t3: "obj_dtor env h t2 = Some t3" "same_list Z t2 t3" by blast
      then have "get_obj h t3 \<noteq> None" using t2(3) by (simp add: same_list_def)
      from upd_obj_listed [OF same_listed [OF t3(2)] this] obtain t4 where t4: "obj_add_refcount h (-1) t3 = Some t4" "same_list Z t3 t4"
        unfolding obj_add_refcount_def by blast
      have "call_destructor env a s = Some t4"
        using z(1) IS_OBJECT bk obj True t1(1) t2(1) t3(1) t4(1) by (simp add: call_destructor_def)
      moreover have "same_list Z s t4"
        by (rule same_list_trans [OF t1(2) same_list_trans [OF t2(2) same_list_trans [OF t3(2) t4(2)]]])
      ultimately show ?thesis by blast
    next
      case False
      then show ?thesis using z(1) IS_OBJECT bk obj same_list_refl [OF s] by (auto simp: call_destructor_def)
    qed
  qed (use z same_list_refl [OF s] in \<open>simp_all add: call_destructor_def\<close>)
qed

lemma call_destructors_run:
  assumes env: "env_ok Z env"
  shows "listed Z s \<Longrightarrow> set L \<subseteq> Z \<Longrightarrow> free_chain s L \<Longrightarrow>
    \<exists>s'. call_destructors env (free_ptr L) n s = Some (n + of_nat (length L), s') \<and> same_list Z s s'"
proof (induction L arbitrary: s n)
  case Nil
  then show ?case using same_list_refl by (subst call_destructors.simps) simp
next
  case (Cons a L)
  then have a: "a \<in> Z" and L: "set L \<subseteq> Z" by simp_all
  from call_destructor_run [OF env Cons.prems(1) a] obtain t where t: "call_destructor env a s = Some t" "same_list Z s t" by blast
  have chain: "free_chain t (a # L)" by (rule same_chain [OF t(2) Cons.prems(2,3)])
  from same_listed [OF t(2)] a obtain z where "zvals t a = Some z" unfolding listed_def by blast
  note nx = chain_next [OF chain this]
  from chain have "free_chain t L" by simp
  from Cons.IH [OF same_listed [OF t(2)] L this, of "n + 1"] obtain s' where
    "call_destructors env (free_ptr L) (n + 1) t = Some (n + 1 + of_nat (length L), s')" "same_list Z t s'" by blast
  then show ?case using t nx same_list_trans [OF t(2)]
    by (subst call_destructors.simps) (auto simp: zval_ptr_def add.assoc)
qed

lemma destroy_zval_run:
  assumes env: "env_ok Z env" and s: "listed Z s" and a: "a \<in> Z"
  shows "\<exists>s'. destroy_zval env a s = Some s' \<and> same_list Z s s'"
proof -
  from s a obtain z where z: "zvals s a = Some z" "case z_value z of IS_OBJECT h handlers \<Rightarrow> get_obj h s \<noteq> None | _ \<Rightarrow> True"
    unfolding listed_def by blast
  show ?thesis
  proof (cases "z_value z")
    case (IS_OBJECT h handlers)
    with z(2) obtain obj where obj: "get_obj h s = Some obj" by auto
    then obtain bs where bk: "gc_buckets s = Some bs" using get_obj_buckets by blast
    show ?thesis
    proof (cases "gb_valid obj \<and> gb_refcount obj \<le> 0")
      case True
      obtain t1 where t1: "upd_obj h (\<lambda>b. b\<lparr>gb_refcount := 1\<rparr>) s = Some t1" "same_list Z s t1"
        using upd_obj_listed [OF s, of h "\<lambda>b. b\<lparr>gb_refcount := 1\<rparr>"] obj by auto
      from zval_set_null_listed [OF same_listed [OF t1(2)] a] obtain t2 where t2: "zval_set_null a t1 = Some t2" "same_list Z t1 t2" by blast
      have "keeps_list Z (del_ref_by_handle_ex env h handlers)" using env by (simp add: env_ok_def)
      from keeps_listD [OF this same_listed [OF t2(2)]] obtain t3 where
        t3: "del_ref_by_handle_ex env h handlers t2 = Some t3" "same_list Z t2 t3" by blast
      have "destroy_zval env a s = Some t3" using z(1) IS_OBJECT bk obj True t1(1) t2(1) t3(1) by (simp add: destroy_zval_def)
      moreover have "same_list Z s t3" by (rule same_list_trans [OF t1(2) same_list_trans [OF t2(2) t3(2)]])
      ultimately show ?thesis by blast
    next
      case False
      then show ?thesis using z(1) IS_OBJECT bk obj same_list_refl [OF s] by (auto simp: destroy_zval_def)
    qed
  next
    case (IS_ARRAY t)
    from zval_set_null_listed [OF s a] obtain t1 where t1: "zval_set_null a s = Some t1" "same_list Z s t1" by blast
    have "keeps_list Z (hash_destroy env t)" using env by (simp add: env_ok_def)
    from keeps_listD [OF this same_listed [OF t1(2)]] obtain t2 where t2: "hash_destroy env t t1 = Some t2" "same_list Z t1 t2" by blast
    have "destroy_zval env a s = Some (t2\<lparr>arrays := (arrays t2)(t := None)\<rparr>)"
      using z(1) IS_ARRAY t1(1) t2(1) by (simp add: destroy_zval_def)
    moreover have g: "get_obj h (t2\<lparr>arrays := (arrays t2)(t := None)\<rparr>) = get_obj h t2" for h by (simp add: get_obj_def)
    have "same_list Z s (t2\<lparr>arrays := (arrays t2)(t := None)\<rparr>)"
      using same_list_trans [OF t1(2) t2(2)] unfolding same_list_def listed_def g by (simp add: word_of_def)
    ultimately show ?thesis by blast
  next
    case IS_OTHER
    have "keeps_list Z (zval_dtor env a)" using env by (simp add: env_ok_def)
    from keeps_listD [OF this s] obtain t1 where t1: "zval_dtor env a s = Some t1" "same_list Z s t1" by blast
    from zval_set_null_listed [OF same_listed [OF t1(2)] a] obtain t2 where t2: "zval_set_null a t1 = Some t2" "same_list Z t1 t2" by blast
    have "destroy_zval env a s = Some t2" using z(1) IS_OTHER t1(1) t2(1) by (simp add: destroy_zval_def)
    then show ?thesis using same_list_trans [OF t1(2) t2(2)] by blast
  qed
qed

text \<open>The loop goes on with \<open>next_to_free\<close>, which is what it was when the zval was looked at.\<close>

lemma destroy_zvals_run:
  assumes env: "env_ok Z env"
  shows "listed Z s \<Longrightarrow> set L \<subseteq> Z \<Longrightarrow> free_chain s L \<Longrightarrow>
    \<exists>s'. destroy_zvals env (free_ptr L) s = Some s' \<and> listed Z s' \<and> (\<forall>a\<in>Z. word_of s' (Zv a) = word_of s (Zv a)) \<and> free_list s' = free_list s"
proof (induction L arbitrary: s)
  case Nil
  then show ?case by (subst destroy_zvals.simps) simp
next
  case (Cons a L)
  then have a: "a \<in> Z" and L: "set L \<subseteq> Z" by simp_all
  from Cons.prems(1) a obtain z where "zvals s a = Some z" unfolding listed_def by blast
  note nx = chain_next [OF Cons.prems(3) this]
  let ?s = "s\<lparr>next_to_free := free_ptr L\<rparr>"
  have g: "get_obj h ?s = get_obj h s" for h by (simp add: get_obj_def)
  have "listed Z ?s" using Cons.prems(1) unfolding listed_def g by simp
  from destroy_zval_run [OF env this a] obtain t where t: "destroy_zval env a ?s = Some t" "same_list Z ?s t" by blast
  have w: "\<forall>b\<in>Z. word_of t (Zv b) = word_of s (Zv b)" and nf: "next_to_free t = free_ptr L" "free_list t = free_list s"
    using t(2) by (simp_all add: same_list_def word_of_def)
  have "free_chain t L" using free_chain_frame [of L t s] w L Cons.prems(3) by auto
  from Cons.IH [OF same_listed [OF t(2)] L this] obtain s' where
    "destroy_zvals env (free_ptr L) t = Some s'" "listed Z s'" "\<forall>a\<in>Z. word_of s' (Zv a) = word_of t (Zv a)" "free_list s' = free_list t" by blast
  then show ?case using t(1) nx nf w by (subst destroy_zvals.simps) (simp add: zval_ptr_def)
qed

lemma free_zvals_run:
  "distinct L \<Longrightarrow> free_chain s L \<Longrightarrow> (\<And>a. a \<in> set L \<Longrightarrow> zvals s a \<noteq> None) \<Longrightarrow>
     free_zvals (free_ptr L) s = Some (s\<lparr>zvals := zvals s |` (- set L)\<rparr>)"
proof (induction L arbitrary: s)
  case Nil
  then show ?case by (subst free_zvals.simps) (simp add: restrict_map_def)
next
  case (Cons a L)
  let ?s = "s\<lparr>zvals := (zvals s)(a := None)\<rparr>"
  have "zvals s a \<noteq> None" using Cons.prems(3) by simp
  then obtain z where "zvals s a = Some z" by auto
  note nx = chain_next [OF Cons.prems(2) this]
  have "word_of ?s (Zv b) = word_of s (Zv b)" if "b \<in> set L" for b
    using that Cons.prems(1) by (auto simp: word_of_def)
  then have "free_chain ?s L" using free_chain_frame [of L ?s s] Cons.prems(2) by simp
  moreover have "zvals ?s b \<noteq> None" if "b \<in> set L" for b using that Cons.prems(1,3) by auto
  ultimately have "free_zvals (free_ptr L) ?s = Some (?s\<lparr>zvals := zvals ?s |` (- set L)\<rparr>)"
    using Cons.IH Cons.prems(1) by auto
  moreover have "zvals ?s |` (- set L) = zvals s |` (- set (a # L))" by (auto simp: restrict_map_def fun_eq_iff)
  ultimately show ?case using nx by (subst free_zvals.simps) (simp add: zval_ptr_def)
qed

section \<open>A run\<close>

lemma views_same:
  assumes "shape s' = shape s" "rc s' = rc s" "word_of s' = word_of s" "rbufs s' = rbufs s"
  shows "gc_ready hts s' xs = gc_ready hts s xs" and "garbage hts s' xs = garbage hts s xs" and "suspects hts s' xs = suspects hts s xs"
proof -
  note n = shape_nodes [OF assms(1)] shape_symtab [OF assms(1)] shape_succs [OF assms(1)]
  have wf: "gc_wf hts s' = gc_wf hts s" using shape_wf [OF assms(1)] shape_wf [OF assms(1) [symmetric]] by blast
  have e: "edges hts s' = edges hts s" by (simp add: edges_def n fun_eq_iff)
  show "gc_ready hts s' xs = gc_ready hts s xs"
    by (simp add: gc_ready_def wf gc_refs_def roots_ok_def n e assms)
  show sus: "suspects hts s' xs = suspects hts s xs"
    by (simp add: suspects_def purple_def gc_reach_def n assms)
  show "garbage hts s' xs = garbage hts s xs"
    by (simp add: garbage_def sus ext_reach_def external_def gc_reach_def n e assms)
qed

lemma views_begin: "shape (s\<lparr>gc_runs := r, zval_to_free := x, gc_active := g\<rparr>) = shape s"
  "rc (s\<lparr>gc_runs := r, zval_to_free := x, gc_active := g\<rparr>) = rc s"
  "word_of (s\<lparr>gc_runs := r, zval_to_free := x, gc_active := g\<rparr>) = word_of s"
  by (auto simp: shape_def rc_def word_of_def get_obj_def fun_eq_iff split: node.splits)

lemma garbage_zvals: "gc_wf hts s \<Longrightarrow> a \<in> Zv -` garbage hts s xs \<Longrightarrow> \<exists>z. zvals s a = Some z \<and>
    (case z_value z of IS_OBJECT h handlers \<Rightarrow> get_obj h s \<noteq> None | _ \<Rightarrow> True)"
  by (force simp: garbage_def suspects_def gc_wf_def split: zvalue.splits)

lemma garbage_listed:
  assumes "gc_wf hts s" "shape s' = shape s"
  shows "listed (Zv -` garbage hts s xs) s'"
  unfolding listed_def
proof
  fix a assume "a \<in> Zv -` garbage hts s xs"
  from garbage_zvals [OF assms(1) this] obtain z where z: "zvals s a = Some z"
    "case z_value z of IS_OBJECT h handlers \<Rightarrow> get_obj h s \<noteq> None | _ \<Rightarrow> True" by blast
  from shape_value [OF assms(2) [symmetric] z(1)] obtain y where "zvals s' a = Some y" "z_value y = z_value z" by blast
  then show "\<exists>z. zvals s' a = Some z \<and> (case z_value z of IS_OBJECT h handlers \<Rightarrow> get_obj h s' \<noteq> None | _ \<Rightarrow> True)"
    using z(2) shape_obj_iff [OF assms(2)] by (auto split: zvalue.splits)
qed

lemma outcome_list: "gc_outcome hts s xs s' L \<Longrightarrow> zval_to_free s' = free_ptr L \<and> free_chain s' L \<and> distinct L \<and>
    (\<forall>a. a \<in> set L \<longleftrightarrow> Zv a \<in> garbage hts s xs) \<and> shape s' = shape s"
  unfolding gc_outcome_def by blast

lemma outcome_rest:
  assumes "gc_outcome hts s xs s' L"
  shows "free_list s' = free_list s \<and> next_to_free s' = next_to_free s"
proof -
  have R: "restf s = (restf s')\<lparr>rbufs := rbufs s, unused := unused s\<rparr>" using assms unfolding gc_outcome_def by blast
  show ?thesis using arg_cong [OF R, of free_list] arg_cong [OF R, of next_to_free] by (simp add: restf_def rest_def)
qed

lemma gc_collect_cycles_run:
  assumes ready: "gc_ready hts s xs" and ne: "xs \<noteq> []" and idle: "\<not> gc_active s" and env: "env_ok (Zv -` garbage hts s xs) env"
  shows "\<exists>s'. gc_collect_cycles env s = Some (of_nat (card (Zv -` garbage hts s xs)), s') \<and>
    (\<forall>a\<in>Zv -` garbage hts s xs. zvals s' a = None) \<and> free_list s' = free_list s \<and> next_to_free s' = next_to_free s"
proof -
  let ?Z = "Zv -` garbage hts s xs"
  have r: "ring (rbufs s) xs" and wf: "gc_wf hts s" using ready by (simp_all add: gc_ready_def roots_ok_def)
  from rlinks_rbufs [OF ring_head [OF r]] obtain b where b: "rbufs s 0 = Some b" "rb_next b = first_ptr xs (Some 0)" by blast
  obtain x xs' where "xs = x # xs'" using ne by (cases xs) auto
  then have nb: "rb_next b \<noteq> Some 0" using b(2) r by (auto simp: ring_def)
  let ?s0 = "s\<lparr>gc_runs := gc_runs s + 1, zval_to_free := FREE_LIST_END, gc_active := True\<rparr>"
  have same: "gc_ready hts ?s0 xs = gc_ready hts s xs" "garbage hts ?s0 xs = garbage hts s xs"
    using views_same [OF views_begin] by simp_all
  have "gc_ready hts ?s0 xs" using ready same(1) by simp
  from gc_phases_run [OF this] obtain s1 L where s1: "gc_phases ?s0 = Some s1" and out: "gc_outcome hts ?s0 xs s1 L" by auto
  have L: "zval_to_free s1 = free_ptr L" "free_chain s1 L" "distinct L" "set L = ?Z" "shape s1 = shape s"
    using outcome_list [OF out] by (auto simp: same(2) views_begin)
  have fl: "free_list s1 = free_list s" "next_to_free s1 = next_to_free s" using outcome_rest [OF out] by simp_all
  let ?s1 = "s1\<lparr>free_list := free_ptr L, zval_to_free := Null, gc_active := False\<rparr>"
  have sh: "shape ?s1 = shape s" using L(5) by (simp add: shape_def)
  have listed1: "listed ?Z ?s1" by (rule garbage_listed [OF wf sh])
  have chain1: "free_chain ?s1 L" using L(2) free_chain_frame [of L ?s1 s1] by (simp add: word_of_def)
  from call_destructors_run [OF env listed1 _ chain1, of 0] L(4) obtain s2 where
    s2: "call_destructors env (free_ptr L) 0 ?s1 = Some (of_nat (length L), s2)" "same_list ?Z ?s1 s2" by auto
  have fl2: "free_list s2 = free_ptr L" using s2(2) by (simp add: same_list_def)
  have chain2: "free_chain s2 L" by (rule same_chain [OF s2(2) _ chain1]) (simp add: L(4))
  from destroy_zvals_run [OF env same_listed [OF s2(2)] _ chain2] L(4) obtain s3 where
    s3: "destroy_zvals env (free_ptr L) s2 = Some s3" "listed ?Z s3" "\<forall>a\<in>?Z. word_of s3 (Zv a) = word_of s2 (Zv a)"
    "free_list s3 = free_ptr L" using fl2 by auto
  have chain3: "free_chain s3 L" using free_chain_frame [of L s3 s2] s3(3) L(4) chain2 by blast
  have "zvals s3 a \<noteq> None" if "a \<in> set L" for a using s3(2) that L(4) unfolding listed_def by fastforce
  from free_zvals_run [OF L(3) chain3 this]
  have s4: "free_zvals (free_ptr L) s3 = Some (s3\<lparr>zvals := zvals s3 |` (- set L)\<rparr>)" .
  have "card ?Z = length L" using distinct_card [OF L(3)] L(4) by simp
  moreover have "gc_collect_cycles env s = Some (of_nat (length L), s3\<lparr>zvals := zvals s3 |` (- set L), collected := collected s3 + of_nat (length L),
      free_list := free_list s, next_to_free := next_to_free s\<rparr>)"
    using b(1) nb idle s1 L(1) fl s2(1) fl2 s3(1,4) s4 by (simp add: gc_collect_cycles_def Let_def)
  ultimately show ?thesis using L(4) by simp
qed

section \<open>An example\<close>

text \<open>
  An array that holds itself and a second, empty one, to which there is another reference; the first one was
  released and is a possible root.
\<close>

definition cyclic_array :: gc_state where
  "cyclic_array = \<lparr>
     zvals = [2 \<mapsto> \<lparr>z_value = IS_ARRAY 5, z_refcount = 1, z_u = \<lparr>word_address = Root 2, word_color = GC_PURPLE\<rparr>\<rparr>,
              3 \<mapsto> \<lparr>z_value = IS_ARRAY 6, z_refcount = 2, z_u = pointer_word Null\<rparr>],
     arrays = [5 \<mapsto> [2, 3], 6 \<mapsto> []], symbol_table = 9, gc_buckets = Some [], get_properties = \<lambda>_ _. None,
     rbufs = [0 \<mapsto> \<lparr>rb_prev = Some 2, rb_next = Some 2, rb_handle = 0, rb_u = Handlers 0\<rparr>,
              2 \<mapsto> \<lparr>rb_prev = Some 0, rb_next = Some 0, rb_handle = 0, rb_u = Pz 2\<rparr>],
     gc_buf = True, gc_enabled = True, gc_active = False, unused = None, first_unused = Some 3,
     last_unused = Some (1 + GC_ROOT_BUFFER_MAX_ENTRIES), zval_to_free = FREE_LIST_END, free_list = Null, next_to_free = Null,
     gc_runs = 0, collected = 0\<rparr>"

lemma cyclic_nodes: "nodes cyclic_array = {Zv 2, Zv 3}"
proof -
  have "get_obj h cyclic_array = None" for h by (simp add: get_obj_def cyclic_array_def)
  then show ?thesis by (auto simp: nodes_def cyclic_array_def)
qed

lemma cyclic_succs: "succs hts cyclic_array (Zv 2) = [Zv 2, Zv 3]" "succs hts cyclic_array (Zv 3) = []"
  by (simp_all add: succs_def cyclic_array_def)

lemma cyclic_symtab: "\<not> symtab cyclic_array n"
  by (auto simp: symtab_def is_symbol_table_def cyclic_array_def split: if_splits)

lemma cyclic_words: "word_of cyclic_array (Zv 2) = \<lparr>word_address = Root 2, word_color = GC_PURPLE\<rparr>"
  "word_of cyclic_array (Zv 3) = pointer_word Null" "rc cyclic_array (Zv 2) = 1" "rc cyclic_array (Zv 3) = 2"
  by (simp_all add: word_of_def rc_def cyclic_array_def)

lemma cyclic_node_at: "node_at (rbufs cyclic_array) 2 = Zv 2"
  by (simp add: node_at_def payload_def cyclic_array_def)

lemma cyclic_edges: "edges hts cyclic_array {Zv 2, Zv 3} = {#Zv 2, Zv 3#}"
  by (simp add: edges_def cyclic_succs)

lemma cyclic_array_ready: "gc_ready hts cyclic_array [2]"
proof -
  have "gc_wf hts cyclic_array"
    using cyclic_nodes cyclic_succs [of hts] by (auto simp: gc_wf_def cyclic_array_def split: if_splits)
  moreover have "gc_refs hts cyclic_array"
    by (simp add: gc_refs_def cyclic_nodes cyclic_edges cyclic_words)
  moreover have "ring (rbufs cyclic_array) [2]" by (simp add: ring_def rlinks_def cyclic_array_def)
  moreover have "root_entry hts (rbufs cyclic_array) 2" by (simp add: root_entry_def payload_def cyclic_array_def)
  ultimately have "gc_wf hts cyclic_array" "gc_refs hts cyclic_array" "roots_ok hts cyclic_array [2]"
    by (simp_all add: roots_ok_def cyclic_nodes cyclic_words cyclic_node_at pointer_word_def del: nodes_Zv)
  then show ?thesis by (simp add: gc_ready_def cyclic_nodes cyclic_words pointer_word_def)
qed

lemma cyclic_array_garbage: "garbage hts cyclic_array [2] = {Zv 2}"
proof -
  have step: "(Zv 2, Zv 3) \<in> gc_reach hts cyclic_array"
    by (rule reach_step [OF reach_refl]) (simp_all add: cyclic_nodes cyclic_succs)
  have purple: "purple cyclic_array [2] = {Zv 2}" by (auto simp: purple_def cyclic_node_at cyclic_words)
  have "\<exists>r\<in>{Zv 2}. (r, n) \<in> gc_reach hts cyclic_array" if "n \<in> {Zv 2, Zv 3}" for n
    using that step reach_refl by blast
  then have sus: "suspects hts cyclic_array [2] = {Zv 2, Zv 3}"
    unfolding suspects_def purple cyclic_nodes using cyclic_symtab by blast
  have ext: "external hts cyclic_array {Zv 2, Zv 3} = {Zv 3}"
    by (auto simp: external_def cyclic_edges cyclic_words)
  have "n = Zv 3" if "(Zv 3, n) \<in> gc_reach hts cyclic_array" for n
    using that unfolding gc_reach_def by (induction rule: rtrancl_induct) (auto simp: cyclic_succs)
  then have "(Zv 3, Zv 2) \<notin> gc_reach hts cyclic_array" by fastforce
  then show ?thesis by (auto simp: garbage_def sus ext_reach_def ext)
qed

section \<open>Properties\<close>

lemma free_chain_unique: "free_ptr L = free_ptr M \<Longrightarrow> free_chain s L \<Longrightarrow> free_chain s M \<Longrightarrow> L = M"
proof (induction L arbitrary: M)
  case Nil
  then show ?case by (cases M) simp_all
next
  case (Cons a L)
  then obtain M' where M: "M = a # M'" by (cases M) simp_all
  with Cons.prems have "free_ptr L = free_ptr M'" by (simp add: pointer_word_def)
  with Cons M show ?case by simp
qed

lemma outcome_counts: "gc_outcome hts s xs s' L \<Longrightarrow>
    (\<forall>a. Zv a \<in> nodes s \<longrightarrow> \<not> symtab s (Zv a) \<longrightarrow> rc s' (Zv a) = rc s (Zv a) + (if a \<in> set L then 1 else 0)) \<and>
    (\<forall>h. Ob h \<in> nodes s \<longrightarrow> rc s' (Ob h) + count (edges hts s (garbage hts s xs)) (Ob h) = rc s (Ob h)) \<and>
    (\<forall>n\<in>garbage hts s xs. rc s n = count (edges hts s (garbage hts s xs)) n)"
  unfolding gc_outcome_def by blast

lemma outcome_words: "gc_outcome hts s xs s' L \<Longrightarrow> ring (rbufs s') [] \<and>
    (\<forall>n\<in>nodes s. (color_of s' n = GC_BLACK \<or> color_of s' n = GC_PURPLE \<and> n \<notin> garbage hts s xs) \<and>
        (n \<notin> Zv ` set L \<longrightarrow> address_of s' n = Null))"
  unfolding gc_outcome_def by blast

lemma phases_outcome:
  "gc_ready hts s xs \<Longrightarrow> zval_to_free s = FREE_LIST_END \<Longrightarrow> gc_phases s = Some s' \<Longrightarrow> \<exists>L. gc_outcome hts s xs s' L"
  using gc_phases_run [of hts s xs] by auto

lemma garbage_sub: "garbage hts s xs \<subseteq> nodes s" "n \<in> garbage hts s xs \<Longrightarrow> \<not> symtab s n"
  by (auto simp: garbage_def suspects_def)



text \<open>
  C7: no zval that is still in use is freed: all references to a zval in the list are from zvals and objects that are
  garbage themselves, and nothing else refers to it.
\<close>

theorem gc_phases_frees_unreferenced:
  assumes ready: "gc_ready hts s xs" and zf: "zval_to_free s = FREE_LIST_END" and run: "gc_phases s = Some s'"
    and L: "zval_to_free s' = free_ptr L" "free_chain s' L" and a: "a \<in> set L"
  shows "rc s (Zv a) = count (edges hts s (garbage hts s xs)) (Zv a) \<and>
    (\<forall>n. n \<in> nodes s - garbage hts s xs \<longrightarrow> Zv a \<notin> set (succs hts s n))"
proof -
  from phases_outcome [OF ready zf run] obtain M where out: "gc_outcome hts s xs s' M" by blast
  have "L = M" using outcome_list [OF out] L free_chain_unique by metis
  then have g: "Zv a \<in> garbage hts s xs" using outcome_list [OF out] a by blast
  then have eq: "rc s (Zv a) = count (edges hts s (garbage hts s xs)) (Zv a)" using outcome_counts [OF out] by blast
  have wf: "gc_wf hts s" "gc_refs hts s" using ready by (simp_all add: gc_ready_def)
  have "Zv a \<notin> set (succs hts s n)" if n: "n \<in> nodes s - garbage hts s xs" for n
  proof
    assume "Zv a \<in> set (succs hts s n)"
    then have "0 < count (mset (succs hts s n)) (Zv a)" by simp
    moreover have "edges hts s (insert n (garbage hts s xs)) = mset (succs hts s n) + edges hts s (garbage hts s xs)"
      using n finite_subset [OF garbage_sub(1) finite_nodes [OF wf(1)]] by (intro edges_insert) auto
    moreover have "count (edges hts s (insert n (garbage hts s xs))) (Zv a) \<le> rc s (Zv a)"
      by (rule refs_le [OF wf subsetD [OF garbage_sub(1) g] garbage_sub(2) [OF g]]) (use garbage_sub(1) [of hts s xs] n in blast)
    ultimately show False using eq by simp
  qed
  with eq show ?thesis by blast
qed

theorem gc_phases_frees_unreferenced_witness:
  "\<exists>s' L. gc_phases cyclic_array = Some s' \<and> zval_to_free s' = free_ptr L \<and> free_chain s' L \<and> 2 \<in> set L \<and>
     rc cyclic_array (Zv 2) = count (edges (\<lambda>_. 0) cyclic_array {Zv 2}) (Zv 2)"
proof -
  have zf: "zval_to_free cyclic_array = FREE_LIST_END" by (simp add: cyclic_array_def)
  from gc_phases_run [OF cyclic_array_ready [of "\<lambda>_. 0"] this] obtain s' L where run: "gc_phases cyclic_array = Some s'"
    and out: "gc_outcome (\<lambda>_. 0) cyclic_array [2] s' L" by blast
  note l = outcome_list [OF out]
  then have L: "zval_to_free s' = free_ptr L" "free_chain s' L" "2 \<in> set L" by (simp_all add: cyclic_array_garbage)
  from gc_phases_frees_unreferenced [OF cyclic_array_ready zf run L] L run show ?thesis by (auto simp: cyclic_array_garbage)
qed

text \<open>
  C8: what the first phase takes from the reference counts is given back: the count of a zval is as it was, but that a
  zval of the list has one reference more; an object has lost exactly the references from garbage. What refers to what
  is as it was.
\<close>

theorem gc_phases_counts:
  assumes "gc_ready hts s xs" and "zval_to_free s = FREE_LIST_END" and "gc_phases s = Some s'"
  shows "shape s' = shape s \<and>
    (\<forall>a. Zv a \<in> nodes s \<and> \<not> symtab s (Zv a) \<longrightarrow> rc s' (Zv a) = rc s (Zv a) + (if Zv a \<in> garbage hts s xs then 1 else 0)) \<and>
    (\<forall>h. Ob h \<in> nodes s \<longrightarrow> rc s' (Ob h) + count (edges hts s (garbage hts s xs)) (Ob h) = rc s (Ob h))"
proof -
  from phases_outcome [OF assms] obtain L where out: "gc_outcome hts s xs s' L" by blast
  from outcome_list [OF out] outcome_counts [OF out] show ?thesis by simp
qed

theorem gc_phases_counts_witness:
  "\<exists>s'. gc_phases cyclic_array = Some s' \<and> rc s' (Zv 2) = 2 \<and> rc s' (Zv 3) = 2"
proof -
  have zf: "zval_to_free cyclic_array = FREE_LIST_END" by (simp add: cyclic_array_def)
  from gc_phases_run [OF cyclic_array_ready [of "\<lambda>_. 0"] this] obtain s' where run: "gc_phases cyclic_array = Some s'" by blast
  from gc_phases_counts [OF cyclic_array_ready [of "\<lambda>_. 0"] zf run] run show ?thesis
    by (simp add: cyclic_nodes cyclic_symtab cyclic_array_garbage cyclic_words del: nodes_Zv)
qed

text \<open>
  C10: the words are well-formed again: no zval or object is grey or white, none points into the root buffer, what is
  garbage is black, and the ring is empty.
\<close>

theorem gc_phases_words:
  assumes "gc_ready hts s xs" and "zval_to_free s = FREE_LIST_END" and "gc_phases s = Some s'" and n: "n \<in> nodes s'"
  shows "ring (rbufs s') [] \<and> (color_of s' n = GC_BLACK \<or> color_of s' n = GC_PURPLE \<and> n \<notin> garbage hts s xs) \<and>
    (\<forall>b. address_of s' n \<noteq> Root b) \<and> (n \<notin> garbage hts s xs \<longrightarrow> address_of s' n = Null)"
proof -
  from phases_outcome [OF assms(1-3)] obtain L where out: "gc_outcome hts s xs s' L" by blast
  note l = outcome_list [OF out] and w = outcome_words [OF out]
  have n': "n \<in> nodes s" using n shape_nodes [of s' s] l by simp
  have chain: "address_of s' (Zv a) \<noteq> Root b" if "a \<in> set M" "free_chain s' M" for a b M
    using that by (induction M) (auto simp: pointer_word_def free_ptr_cases)
  show ?thesis
  proof (cases "n \<in> Zv ` set L")
    case True
    then obtain a where "n = Zv a" "a \<in> set L" "n \<in> garbage hts s xs" using l by auto
    with chain l w n' show ?thesis by blast
  next
    case False
    then have "address_of s' n = Null" using w n' by blast
    with w n' show ?thesis by auto
  qed
qed

theorem gc_phases_words_witness:
  "\<exists>s'. gc_phases cyclic_array = Some s' \<and> ring (rbufs s') [] \<and> color_of s' (Zv 2) = GC_BLACK \<and> address_of s' (Zv 3) = Null"
proof -
  have zf: "zval_to_free cyclic_array = FREE_LIST_END" by (simp add: cyclic_array_def)
  from gc_phases_run [OF cyclic_array_ready [of "\<lambda>_. 0"] this] obtain s' L where run: "gc_phases cyclic_array = Some s'"
    and out: "gc_outcome (\<lambda>_. 0) cyclic_array [2] s' L" by blast
  have "nodes s' = {Zv 2, Zv 3}" using outcome_list [OF out] shape_nodes [of s' cyclic_array] cyclic_nodes by simp
  with gc_phases_words [OF cyclic_array_ready [of "\<lambda>_. 0"] zf run, of "Zv 2"]
    gc_phases_words [OF cyclic_array_ready [of "\<lambda>_. 0"] zf run, of "Zv 3"] run
  show ?thesis by (auto simp: cyclic_array_garbage simp del: nodes_Zv)
qed


definition quiet_env :: gc_env where
  "quiet_env = \<lparr>obj_dtor = \<lambda>_. Some, del_ref_by_handle_ex = \<lambda>_ _. Some, hash_destroy = \<lambda>_. Some, zval_dtor = \<lambda>_. Some\<rparr>"


end
