(* ===== verification/ZendGcBuffer.thy ===== *)
theory ZendGcBuffer imports ZendGcCycles begin

text \<open>
  The root buffer between two runs: an entry is in the ring, in the list of unused buffers or behind \<open>first_unused\<close>.
  A zval that may be the root of a cycle becomes a purple root of the ring, a zval that is freed is taken out of it.
\<close>

section \<open>The invariant\<close>

fun unused_chain :: "root_buffers \<Rightarrow> ptr \<Rightarrow> addr list \<Rightarrow> bool" where
  "unused_chain R p [] = (p = None)"
| "unused_chain R p (a # us) = (p = Some a \<and> (\<exists>n q. rlinks R a = Some (n, q) \<and> unused_chain R q us))"

definition buffer_ok :: "gc_state \<Rightarrow> addr list \<Rightarrow> addr list \<Rightarrow> bool" where
  "buffer_ok s xs us \<longleftrightarrow> gc_buf s \<and> ring (rbufs s) xs \<and> unused_chain (rbufs s) (unused s) us \<and> distinct (xs @ us) \<and>
     last_unused s = Some (1 + GC_ROOT_BUFFER_MAX_ENTRIES) \<and>
     (\<exists>f. first_unused s = Some f \<and> 1 \<le> f \<and> f \<le> 1 + GC_ROOT_BUFFER_MAX_ENTRIES \<and> set xs \<union> set us = {1..<f}) \<and>
     (\<forall>a\<le>GC_ROOT_BUFFER_MAX_ENTRIES. rbufs s a \<noteq> None)"

lemma unused_chain_frame: "(\<And>a. a \<in> set us \<Longrightarrow> rlinks R' a = rlinks R a) \<Longrightarrow> unused_chain R' p us = unused_chain R p us"
  by (induction us arbitrary: p) auto

section \<open>A new root\<close>

lemma upd_rbuf_fill:
  assumes "rbufs s a = Some b"
  shows "\<exists>R. fill_root a h u s = Some (s\<lparr>rbufs := R\<rparr>) \<and> rlinks R = rlinks (rbufs s) \<and> payload R = (payload (rbufs s))(a \<mapsto> (h, u)) \<and>
    dom R = dom (rbufs s)"
proof -
  let ?R = "(rbufs s)(a \<mapsto> b\<lparr>rb_handle := h, rb_u := u\<rparr>)"
  have "fill_root a h u s = Some (s\<lparr>rbufs := ?R\<rparr>)" "rlinks ?R = rlinks (rbufs s)" "payload ?R = (payload (rbufs s))(a \<mapsto> (h, u))"
    "dom ?R = dom (rbufs s)"
    using assms by (auto simp: fill_root_def upd_rbuf_def rlinks_def payload_def fun_eq_iff)
  then show ?thesis by blast
qed

lemma link_root_run:
  assumes r: "ring (rbufs s) xs" and root: "root \<notin> set (0 # xs)" "rbufs s root = Some rb"
  shows "\<exists>R. link_root root s = Some (s\<lparr>rbufs := R\<rparr>) \<and> ring R (root # xs) \<and> payload R = payload (rbufs s) \<and> dom R = dom (rbufs s) \<and>
    (\<forall>a. a \<notin> set (0 # root # xs) \<longrightarrow> rlinks R a = rlinks (rbufs s) a)"
proof -
  let ?L = "rlinks (rbufs s)"
  obtain q where q: "first_ptr xs (Some 0) = Some q" by (cases xs) auto
  have qin: "q \<in> set (0 # xs)" using q by (cases xs) auto
  from rlinks_rbufs [OF ring_head [OF r]] q obtain hd where hd: "rbufs s 0 = Some hd" "rb_next hd = Some q" by auto
  have l0: "?L 0 = Some (Some q, last_ptr (Some 0) xs)" using ring_head [OF r] q by simp
  have seg: "dseg ?L (last_ptr (Some 0) xs) (0 # xs) (Some 0)" and d: "distinct (0 # xs)" using r by (simp_all add: ring_def)
  have ne: "q \<noteq> root" "root \<noteq> 0" using root qin by auto
  have lr: "?L root = Some (rb_next rb, rb_prev rb)" using root(2) by (simp add: rlinks_def)
  obtain R1 where R1: "upd_rbuf (Some root) (set_rb_next (Some q)) s = Some (s\<lparr>rbufs := R1\<rparr>)" "rlinks R1 = ?L(root \<mapsto> (Some q, rb_prev rb))"
    "payload R1 = payload (rbufs s)" using upd_rbuf_next [OF lr] by blast
  have "rlinks (rbufs (s\<lparr>rbufs := R1\<rparr>)) root = Some (Some q, rb_prev rb)" using R1(2) by simp
  from upd_rbuf_prev [OF this, of "Some 0"] obtain R2 where
    R2: "upd_rbuf (Some root) (set_rb_prev (Some 0)) (s\<lparr>rbufs := R1\<rparr>) = Some (s\<lparr>rbufs := R2\<rparr>)"
    "rlinks R2 = ?L(root \<mapsto> (Some q, Some 0))" "payload R2 = payload R1" using R1(2) by auto
  have "rlinks R2 0 = Some (Some q, last_ptr (Some 0) xs)" using R2(2) l0 ne by simp
  from rlinks_rbufs [OF this] obtain h2 where h2: "R2 0 = Some h2" "rb_next h2 = Some q" by auto
  obtain qn qp where lq: "?L q = Some (qn, qp)" using seg l0 q by (cases xs) auto
  then have "rlinks (rbufs (s\<lparr>rbufs := R2\<rparr>)) q = Some (qn, qp)" using R2(2) ne by simp
  from upd_rbuf_prev [OF this, of "Some root"] obtain R3 where
    R3: "upd_rbuf (Some q) (set_rb_prev (Some root)) (s\<lparr>rbufs := R2\<rparr>) = Some (s\<lparr>rbufs := R3\<rparr>)"
    "rlinks R3 = ?L(root \<mapsto> (Some q, Some 0), q \<mapsto> (qn, Some root))" "payload R3 = payload R2" using R2(2) by auto
  define p0 where "p0 = (if q = 0 then Some root else last_ptr (Some 0) xs)"
  have "rlinks (rbufs (s\<lparr>rbufs := R3\<rparr>)) 0 = Some (Some q, p0)" using R3(2) l0 lq ne by (auto simp: p0_def)
  from upd_rbuf_next [OF this, of "Some root"] obtain R4 where
    R4: "upd_rbuf (Some 0) (set_rb_next (Some root)) (s\<lparr>rbufs := R3\<rparr>) = Some (s\<lparr>rbufs := R4\<rparr>)"
    "rlinks R4 = ?L(root \<mapsto> (Some q, Some 0), q \<mapsto> (qn, Some root), 0 \<mapsto> (Some root, p0))" "payload R4 = payload R3" using R3(2) by auto
  have "link_root root s = Some (s\<lparr>rbufs := R4\<rparr>)"
    using hd h2 R1(1) R2(1) R3(1) R4(1) by (simp add: link_root_def)
  moreover have "ring R4 (root # xs)"
  proof (cases xs)
    case Nil
    then show ?thesis using q ne R4(2) by (auto simp: ring_def p0_def last_ptr_def)
  next
    case (Cons x zs)
    then have "q = x" "q \<noteq> 0" using q d by auto
    with Cons seg d root(1) R4(2) lq show ?thesis by (auto simp: ring_def p0_def last_ptr_def)
  qed
  moreover have "payload R4 = payload (rbufs s)" using R4(3) R3(3) R2(3) R1(3) by simp
  moreover have "rlinks R4 a = ?L a" if "a \<notin> set (0 # root # xs)" for a using that qin unfolding R4(2) by auto
  moreover have "R4 a = None \<longleftrightarrow> rbufs s a = None" for a
    using arg_cong [OF calculation(3), of "\<lambda>f. f a"] by (auto simp: payload_def)
  then have "dom R4 = dom (rbufs s)" by (auto simp: dom_def)
  ultimately show ?thesis by blast
qed

lemma take_unused_run:
  assumes buf: "buffer_ok s xs us" and cap: "us \<noteq> [] \<or> first_unused s \<noteq> last_unused s"
  shows "\<exists>root us' q f. take_unused s = Some (Some root, s\<lparr>unused := q, first_unused := Some f\<rparr>) \<and> root \<notin> set (0 # xs) \<and>
    rbufs s root \<noteq> None \<and> unused_chain (rbufs s) q us' \<and> distinct ((root # xs) @ us') \<and>
    1 \<le> f \<and> f \<le> 1 + GC_ROOT_BUFFER_MAX_ENTRIES \<and> set (root # xs) \<union> set us' = {1..<f}"
proof -
  obtain f where f: "first_unused s = Some f" "f \<le> 1 + GC_ROOT_BUFFER_MAX_ENTRIES" and f1: "1 \<le> f" and fs: "set xs \<union> set us = {1..<f}"
    and last: "last_unused s = Some (1 + GC_ROOT_BUFFER_MAX_ENTRIES)" and ex: "\<And>a. a \<le> GC_ROOT_BUFFER_MAX_ENTRIES \<Longrightarrow> rbufs s a \<noteq> None"
    and ch: "unused_chain (rbufs s) (unused s) us" and d: "distinct (xs @ us)"
    using buf unfolding buffer_ok_def by blast
  show ?thesis
  proof (cases us)
    case Nil
    then have u: "unused s = None" and fl: "f \<noteq> 1 + GC_ROOT_BUFFER_MAX_ENTRIES" using ch cap f(1) last by auto
    have fx: "f \<notin> set xs" "f \<le> GC_ROOT_BUFFER_MAX_ENTRIES" using fs f(2) fl Nil by auto
    have "take_unused s = Some (Some f, s\<lparr>unused := None, first_unused := Some (Suc f)\<rparr>)"
      using u f(1) last fl by (simp add: take_unused_def)
    moreover have "set (f # xs) \<union> set [] = {1..<Suc f}" using fs Nil f1 by auto
    moreover have "f \<notin> set (0 # xs)" "distinct ((f # xs) @ [])" using fx f1 d Nil by simp_all
    moreover have "unused_chain (rbufs s) None []" "1 \<le> Suc f" "Suc f \<le> 1 + GC_ROOT_BUFFER_MAX_ENTRIES" using fx by simp_all
    ultimately show ?thesis using ex [OF fx(2)] by blast
  next
    case (Cons root us')
    with ch obtain n q where root: "unused s = Some root" "rlinks (rbufs s) root = Some (n, q)" "unused_chain (rbufs s) q us'" by auto
    from rlinks_rbufs [OF root(2)] obtain b where b: "rbufs s root = Some b" "rb_prev b = q" by blast
    have "root \<in> {1..<f}" using fs Cons by auto
    then have "root \<noteq> 0" by simp
    have "s\<lparr>unused := q, first_unused := Some f\<rparr> = s\<lparr>unused := q\<rparr>" using f(1) by simp
    then have "take_unused s = Some (Some root, s\<lparr>unused := q, first_unused := Some f\<rparr>)"
      using root(1) b by (simp add: take_unused_def)
    moreover have "set (root # xs) \<union> set us' = {1..<f}" using fs Cons by auto
    moreover have "root \<notin> set (0 # xs)" "distinct ((root # xs) @ us')" using d Cons \<open>root \<noteq> 0\<close> by auto
    moreover have "rbufs s root \<noteq> None" using b by simp
    ultimately show ?thesis using root(3) f(2) f1 by blast
  qed
qed

text \<open>All steps of the insertion, for a zval or an object \<open>n\<close>; \<open>put\<close> sets the address in its word.\<close>

lemma views_buffer: "shape (s\<lparr>unused := q, first_unused := f, rbufs := R\<rparr>) = shape s" "rc (s\<lparr>unused := q, first_unused := f, rbufs := R\<rparr>) = rc s"
  "word_of (s\<lparr>unused := q, first_unused := f, rbufs := R\<rparr>) = word_of s"
  by (auto simp: shape_def rc_def word_of_def get_obj_def fun_eq_iff split: node.splits)

lemma views_rbufs_only: "shape (s\<lparr>rbufs := R\<rparr>) = shape s" "rc (s\<lparr>rbufs := R\<rparr>) = rc s" "word_of (s\<lparr>rbufs := R\<rparr>) = word_of s"
  by (auto simp: shape_def rc_def word_of_def get_obj_def fun_eq_iff split: node.splits)

lemma rest_buffer:
  assumes "rest s' = rest s"
  shows "rbufs s' = rbufs s" "unused s' = unused s" "first_unused s' = first_unused s" "last_unused s' = last_unused s" "gc_buf s' = gc_buf s"
  using arg_cong [OF assms, of rbufs] arg_cong [OF assms, of unused] arg_cong [OF assms, of first_unused]
    arg_cong [OF assms, of last_unused] arg_cong [OF assms, of gc_buf] by (simp_all add: rest_def)

lemma buffer_ok_rest: "rest s' = rest s \<Longrightarrow> buffer_ok s' xs us = buffer_ok s xs us"
  by (simp add: buffer_ok_def rest_buffer [of s' s])

lemma roots_added:
  assumes ok: "roots_ok hts s xs" and n: "n \<in> nodes s" "address_of s n = Null" and root: "root \<notin> set xs"
    and entry: "if h = 0 then \<exists>a. u = Pz a \<and> n = Zv a else u = Handlers (hts h) \<and> n = Ob h"
    and R: "ring R (root # xs)" "payload R = (payload (rbufs s))(root \<mapsto> (h, u))"
    and s': "rbufs s' = R" "shape s' = shape s" "word_of s' = (word_of s)(n := GC_SET_ADDRESS (Root root) (word_of s n))"
  shows "roots_ok hts s' (root # xs)"
proof -
  have nodes: "nodes s' = nodes s" by (rule shape_nodes [OF s'(2)])
  have addr: "address_of s' m = (if m = n then Root root else address_of s m)" for m using s'(3) by (simp add: GC_SET_ADDRESS_def)
  have new: "node_at R root = n" "root_entry hts R root"
    using entry R(2) by (auto simp: node_at_def root_entry_def split: if_splits)
  have old: "node_at R b = node_at (rbufs s) b" "root_entry hts R b = root_entry hts (rbufs s) b" if "b \<noteq> root" for b
    using that R(2) by (simp_all add: node_at_def root_entry_def)
  have ok': "root_entry hts (rbufs s) b \<and> node_at (rbufs s) b \<in> nodes s \<and> address_of s (node_at (rbufs s) b) = Root b \<and> b \<noteq> root"
    if "b \<in> set xs" for b using ok that root unfolding roots_ok_def by blast
  have entries: "root_entry hts R b \<and> node_at R b \<in> nodes s' \<and> address_of s' (node_at R b) = Root b" if "b \<in> set (root # xs)" for b
  proof (cases "b = root")
    case True
    then show ?thesis using new n(1) nodes addr by simp
  next
    case False
    then have b: "b \<in> set xs" using that by simp
    have "node_at (rbufs s) b \<noteq> n" using ok' [OF b] n(2) by auto
    then show ?thesis using ok' [OF b] old [OF False] nodes addr by simp
  qed
  have pointed: "address_of s' m = Null \<or> (\<exists>b\<in>set (root # xs). address_of s' m = Root b \<and> node_at R b = m)" if m: "m \<in> nodes s'" for m
  proof (cases "m = n")
    case True
    then show ?thesis using new addr by simp
  next
    case False
    have "address_of s m = Null \<or> (\<exists>b\<in>set xs. address_of s m = Root b \<and> node_at (rbufs s) b = m)"
      using ok m nodes by (simp add: roots_ok_def)
    then show ?thesis using False ok' old addr by auto
  qed
  show ?thesis unfolding roots_ok_def s'(1) using R(1) entries pointed by blast
qed

lemma add_root:
  assumes ok: "roots_ok hts s xs" and buf: "buffer_ok s xs us" and cap: "us \<noteq> [] \<or> first_unused s \<noteq> last_unused s"
    and n: "n \<in> nodes s" "address_of s n = Null" and entry: "if h = 0 then \<exists>a. u = Pz a \<and> n = Zv a else u = Handlers (hts h) \<and> n = Ob h"
    and put: "\<And>root y. shape y = shape s \<Longrightarrow> \<exists>y'. put root y = Some y' \<and> shape y' = shape y \<and> rest y' = rest y \<and> rc y' = rc y \<and>
      word_of y' = (word_of y)(n := GC_SET_ADDRESS (Root root) (word_of y n))"
  shows "\<exists>root t t2 t3 s' us'. take_unused s = Some (Some root, t) \<and> link_root root t = Some t2 \<and> put root t2 = Some t3 \<and>
    fill_root root h u t3 = Some s' \<and> roots_ok hts s' (root # xs) \<and> buffer_ok s' (root # xs) us' \<and> node_at (rbufs s') root = n \<and>
    shape s' = shape s \<and> rc s' = rc s \<and> word_of s' = (word_of s)(n := GC_SET_ADDRESS (Root root) (word_of s n))"
proof -
  obtain root us' q f where t: "take_unused s = Some (Some root, s\<lparr>unused := q, first_unused := Some f\<rparr>)" "root \<notin> set (0 # xs)"
    "rbufs s root \<noteq> None" "unused_chain (rbufs s) q us'" "distinct ((root # xs) @ us')"
    "1 \<le> f" "f \<le> 1 + GC_ROOT_BUFFER_MAX_ENTRIES" "set (root # xs) \<union> set us' = {1..<f}"
    using take_unused_run [OF buf cap] by blast
  let ?t = "s\<lparr>unused := q, first_unused := Some f\<rparr>"
  have "ring (rbufs ?t) xs" using ok by (simp add: roots_ok_def)
  moreover obtain rb where "rbufs ?t root = Some rb" using t(3) by auto
  ultimately obtain R where R: "link_root root ?t = Some (?t\<lparr>rbufs := R\<rparr>)" "ring R (root # xs)" "payload R = payload (rbufs s)"
    "dom R = dom (rbufs s)" "\<And>a. a \<notin> set (0 # root # xs) \<Longrightarrow> rlinks R a = rlinks (rbufs s) a"
    using link_root_run [of ?t xs root] t(2) by auto
  let ?t2 = "?t\<lparr>rbufs := R\<rparr>"
  have t2: "shape ?t2 = shape s" "rc ?t2 = rc s" "word_of ?t2 = word_of s" using views_buffer [where s = s and R = R and q = q and f = "Some f"] by simp_all
  from put [OF t2(1), of root] obtain t3 where t3: "put root ?t2 = Some t3" "shape t3 = shape ?t2" "rest t3 = rest ?t2" "rc t3 = rc ?t2"
    "word_of t3 = (word_of ?t2)(n := GC_SET_ADDRESS (Root root) (word_of ?t2 n))" by blast
  have rb: "rbufs t3 = R" "unused t3 = q" "first_unused t3 = Some f" "last_unused t3 = last_unused s" "gc_buf t3 = gc_buf s"
    using rest_buffer [OF t3(3)] by simp_all
  have "R root \<noteq> None" using R(4) t(3) by (auto simp: dom_def)
  then obtain rb3 where "rbufs t3 root = Some rb3" using rb(1) by auto
  from upd_rbuf_fill [OF this, of h u] obtain R4 where R4: "fill_root root h u t3 = Some (t3\<lparr>rbufs := R4\<rparr>)" "rlinks R4 = rlinks R"
    "payload R4 = (payload R)(root \<mapsto> (h, u))" "dom R4 = dom R" using rb(1) by auto
  let ?s = "t3\<lparr>rbufs := R4\<rparr>"
  have ring4: "ring R4 (root # xs)" using R(2) R4(2) by (simp add: ring_def)
  have pay4: "payload R4 = (payload (rbufs s))(root \<mapsto> (h, u))" using R4(3) R(3) by simp
  have v: "shape ?s = shape s" "rc ?s = rc s" "word_of ?s = (word_of s)(n := GC_SET_ADDRESS (Root root) (word_of s n))"
    using views_rbufs_only [where s = t3 and R = R4] t3 t2 by simp_all
  have rs: "rbufs ?s = R4" by simp
  have "root \<notin> set xs" using t(2) by simp
  from roots_added [OF ok n this entry ring4 pay4 rs v(1,3)] have ok4: "roots_ok hts ?s (root # xs)" .
  have "0 \<notin> set us'" "set us' \<inter> set (root # xs) = {}" using t(5,8) by auto
  then have "a \<notin> set (0 # root # xs)" if "a \<in> set us'" for a using that by (cases "a = 0") auto
  then have "rlinks R4 a = rlinks (rbufs s) a" if "a \<in> set us'" for a using R4(2) R(5) that by metis
  then have "unused_chain R4 q us'" using t(4) unused_chain_frame [of us' R4 "rbufs s" q] by blast
  moreover have "R4 a \<noteq> None" if "a \<le> GC_ROOT_BUFFER_MAX_ENTRIES" for a
  proof -
    have "a \<in> dom (rbufs s)" using buf that by (auto simp: buffer_ok_def)
    then show ?thesis using R4(4) R(4) by auto
  qed
  ultimately have "buffer_ok ?s (root # xs) us'"
    using t(5-8) rb ring4 buf by (simp add: buffer_ok_def)
  moreover have "node_at (rbufs ?s) root = n" using entry pay4 by (auto simp: node_at_def split: if_splits)
  ultimately show ?thesis using t(1) R(1) t3(1) R4(1) ok4 v by blast
qed

section \<open>Possible roots\<close>

text \<open>A zval or an object that is painted is still at its place in the ring.\<close>

lemma paint_ok:
  assumes ok: "roots_ok hts s xs" and buf: "buffer_ok s xs us"
    and t: "shape t = shape s" "rest t = rest s" "word_of t = (word_of s)(n := GC_SET_COLOR c (word_of s n))"
  shows "roots_ok hts t xs" "buffer_ok t xs us"
proof -
  show "roots_ok hts t xs"
    by (rule roots_kept [OF ok rest_buffer(1) [OF t(2)] shape_nodes [OF t(1)]]) (simp add: t(3) GC_SET_COLOR_def)
  show "buffer_ok t xs us" using buf buffer_ok_rest [OF t(2)] by simp
qed

lemma root_kept: "roots_ok hts s xs \<Longrightarrow> n \<in> nodes s \<Longrightarrow> address_of s n \<noteq> Null \<Longrightarrow> color_of s n = GC_PURPLE \<Longrightarrow> n \<in> purple s xs"
  by (auto simp: roots_ok_def purple_def)

lemma zval_possible_root_run:
  assumes ok: "roots_ok hts s xs" and buf: "buffer_ok s xs us" and cap: "us \<noteq> [] \<or> first_unused s \<noteq> last_unused s"
    and z: "zvals s a = Some z" "\<And>h handlers. z_value z \<noteq> IS_OBJECT h handlers" and fl: "free_list s = Null"
    and marked: "color_of s (Zv a) = GC_PURPLE \<Longrightarrow> address_of s (Zv a) \<noteq> Null"
  shows "\<exists>s' xs' us'. gc_zval_possible_root env a s = Some s' \<and> roots_ok hts s' xs' \<and> buffer_ok s' xs' us' \<and>
    Zv a \<in> purple s' xs' \<and> (xs' = xs \<or> (\<exists>root. xs' = root # xs \<and> node_at (rbufs s') root = Zv a)) \<and> shape s' = shape s \<and> rc s' = rc s"
proof -
  have n: "Zv a \<in> nodes s" using z(1) by simp
  have w: "word_of s (Zv a) = z_u z" by (rule word_zval [OF z(1)])
  obtain t where t: "zval_set_u a (GC_SET_COLOR GC_PURPLE) s = Some t" "shape t = shape s" "rest t = rest s" "rc t = rc s"
    "word_of t = (word_of s)(Zv a := GC_SET_COLOR GC_PURPLE (word_of s (Zv a)))"
    by (rule zval_set_u_views [OF z(1), of "GC_SET_COLOR GC_PURPLE"])
  note painted = paint_ok [OF ok buf t(2,3,5)]
  have nt: "Zv a \<in> nodes t" using n shape_nodes [OF t(2)] by simp
  show ?thesis
  proof (cases "word_color (z_u z) = GC_PURPLE")
    case True
    then have run: "gc_zval_possible_root env a s = Some s"
      using z fl by (cases "z_value z") (auto simp: gc_zval_possible_root_def)
    have "Zv a \<in> purple s xs" using root_kept [OF ok n] marked True w by simp
    with run ok buf show ?thesis by blast
  next
    case color: False
    show ?thesis
    proof (cases "word_address (z_u z) = Null")
      case False
      then have run: "gc_zval_possible_root env a s = Some t"
        using z fl color t(1) by (cases "z_value z") (auto simp: gc_zval_possible_root_def)
      have "Zv a \<in> purple t xs"
        by (rule root_kept [OF painted(1) nt]) (use False w t(5) in \<open>simp_all add: GC_SET_COLOR_def\<close>)
      with run painted t(2,4) show ?thesis by blast
    next
      case True
      have null: "address_of t (Zv a) = Null" using True w t(5) by (simp add: GC_SET_COLOR_def)
      have cap': "us \<noteq> [] \<or> first_unused t \<noteq> last_unused t" using cap rest_buffer [OF t(3)] by simp
      have put: "\<exists>y'. zval_set_u a (GC_SET_ADDRESS (Root root)) y = Some y' \<and> shape y' = shape y \<and> rest y' = rest y \<and> rc y' = rc y \<and>
          word_of y' = (word_of y)(Zv a := GC_SET_ADDRESS (Root root) (word_of y (Zv a)))" if "shape y = shape t" for root y
      proof -
        have "Zv a \<in> nodes y" using nt shape_nodes [OF that] by simp
        then obtain v where "zvals y a = Some v" by auto
        from zval_set_u_views [OF this, of "GC_SET_ADDRESS (Root root)"] show ?thesis by metis
      qed
      from add_root [OF painted cap' nt null, of 0 "Pz a", OF _ put] obtain root u u2 u3 s' us' where
        r: "take_unused t = Some (Some root, u)" "link_root root u = Some u2" "zval_set_u a (GC_SET_ADDRESS (Root root)) u2 = Some u3"
          "fill_root root 0 (Pz a) u3 = Some s'" "roots_ok hts s' (root # xs)" "buffer_ok s' (root # xs) us'" "node_at (rbufs s') root = Zv a"
          "shape s' = shape t" "rc s' = rc t" "word_of s' = (word_of t)(Zv a := GC_SET_ADDRESS (Root root) (word_of t (Zv a)))" by auto
      have "gc_zval_possible_root env a s = Some s'"
        using z fl color True t(1) r(1-4) by (cases "z_value z") (auto simp: gc_zval_possible_root_def)
      moreover have "Zv a \<in> purple s' (root # xs)"
        using r(7,10) t(5) by (auto simp: purple_def GC_SET_ADDRESS_def GC_SET_COLOR_def)
      ultimately show ?thesis using r(5-9) t(2,4) by metis
    qed
  qed
qed

section \<open>The beginning\<close>

lemma gc_init_ok:
  assumes "gc_enabled s" "\<not> gc_buf s" and null: "\<And>n. n \<in> nodes s \<Longrightarrow> address_of s n = Null"
  shows "roots_ok hts (gc_init contents s) []" "buffer_ok (gc_init contents s) [] []" "shape (gc_init contents s) = shape s"
    "rc (gc_init contents s) = rc s" "word_of (gc_init contents s) = word_of s"
proof -
  show sh: "shape (gc_init contents s) = shape s"
    and "rc (gc_init contents s) = rc s" and w: "word_of (gc_init contents s) = word_of s"
    using assms(1,2) by (auto simp: gc_init_def gc_reset_def Let_def shape_def rc_def word_of_def get_obj_def fun_eq_iff split: node.splits)
  have rb: "ring (rbufs (gc_init contents s)) []" using assms(1,2)
    by (simp add: gc_init_def gc_reset_def Let_def ring_def rlinks_def empty_roots_def)
  then show "roots_ok hts (gc_init contents s) []"
    using null shape_nodes [OF sh] by (simp add: roots_ok_def w)
  show "buffer_ok (gc_init contents s) [] []"
    using rb assms(1,2) by (simp add: buffer_ok_def gc_init_def gc_reset_def Let_def)
qed

text \<open>An array and an object, and a buffer that was just made.\<close>

definition fresh_heap :: gc_state where
  "fresh_heap = \<lparr>
     zvals = [2 \<mapsto> \<lparr>z_value = IS_ARRAY 5, z_refcount = 1, z_u = pointer_word Null\<rparr>,
              3 \<mapsto> \<lparr>z_value = IS_OBJECT 1 7, z_refcount = 1, z_u = pointer_word Null\<rparr>],
     arrays = [5 \<mapsto> []], symbol_table = 9,
     gc_buckets = Some (replicate 2 \<lparr>gb_destructor_called = False, gb_valid = True, gb_dtor = 0, gb_refcount = 1, gb_buffered = pointer_word Null\<rparr>),
     get_properties = \<lambda>_ _. Some (Some []), rbufs = Map.empty, gc_buf = False, gc_enabled = True, gc_active = False, unused = None,
     first_unused = None, last_unused = None, zval_to_free = Null, free_list = Null, next_to_free = Null, gc_runs = 0, collected = 0\<rparr>"

definition fresh_state :: gc_state where
  "fresh_state = gc_init (\<lambda>_. empty_roots) fresh_heap"

lemma fresh_words: "address_of fresh_heap n = Null" "color_of fresh_heap n = GC_BLACK"
  by (auto simp: word_of_def fresh_heap_def pointer_word_def get_obj_def split: node.splits option.splits)

lemma fresh_fields: "zvals fresh_state = zvals fresh_heap" "get_obj h fresh_state = get_obj h fresh_heap" "free_list fresh_state = Null"
  "first_unused fresh_state \<noteq> last_unused fresh_state" "get_properties fresh_state = get_properties fresh_heap"
  by (simp_all add: fresh_state_def gc_init_def gc_reset_def Let_def fresh_heap_def get_obj_def GC_ROOT_BUFFER_MAX_ENTRIES_def)

lemma fresh_ok: "roots_ok hts fresh_state []" "buffer_ok fresh_state [] []" "word_of fresh_state = word_of fresh_heap"
  using gc_init_ok [of fresh_heap, OF _ _ fresh_words(1)] unfolding fresh_state_def by (simp_all add: fresh_heap_def)

section \<open>Properties\<close>



text \<open>
  An object becomes a purple root in the same way, by its handle and its handlers.
\<close>

theorem gc_zobj_possible_root_adds:
  assumes ok: "roots_ok hts s xs" and buf: "buffer_ok s xs us" and cap: "us \<noteq> [] \<or> first_unused s \<noteq> last_unused s"
    and z: "zvals s a = Some z" "z_value z = IS_OBJECT h (hts h)" and obj: "get_obj h s = Some obj" "h \<noteq> 0"
    and props: "get_properties s (hts h) h \<noteq> None" and marked: "color_of s (Ob h) = GC_PURPLE \<Longrightarrow> address_of s (Ob h) \<noteq> Null"
  shows "\<exists>s' xs' us'. gc_zobj_possible_root env a s = Some s' \<and> roots_ok hts s' xs' \<and> buffer_ok s' xs' us' \<and>
    Ob h \<in> purple s' xs' \<and> (xs' = xs \<or> (\<exists>root. xs' = root # xs \<and> node_at (rbufs s') root = Ob h)) \<and> shape s' = shape s \<and> rc s' = rc s"
proof -
  have n: "Ob h \<in> nodes s" using obj(1) by simp
  have w: "word_of s (Ob h) = gb_buffered obj" by (rule word_obj [OF obj(1)])
  obtain bs where bk: "gc_buckets s = Some bs" using get_obj_buckets [OF obj(1)] by auto
  obtain t where t: "obj_set_buffered h (GC_SET_COLOR GC_PURPLE) s = Some t" "shape t = shape s" "rest t = rest s" "rc t = rc s"
    "word_of t = (word_of s)(Ob h := GC_SET_COLOR GC_PURPLE (word_of s (Ob h)))"
    by (rule obj_set_buffered_views [OF obj(1), of "GC_SET_COLOR GC_PURPLE"])
  note painted = paint_ok [OF ok buf t(2,3,5)]
  have nt: "Ob h \<in> nodes t" using n shape_nodes [OF t(2)] by simp
  show ?thesis
  proof (cases "word_color (gb_buffered obj) = GC_PURPLE")
    case True
    then have run: "gc_zobj_possible_root env a s = Some s"
      using z obj bk props by (auto simp: gc_zobj_possible_root_def)
    have "Ob h \<in> purple s xs" using root_kept [OF ok n] marked True w by simp
    with run ok buf show ?thesis by blast
  next
    case color: False
    show ?thesis
    proof (cases "word_address (gb_buffered obj) = Null")
      case False
      then have run: "gc_zobj_possible_root env a s = Some t"
        using z obj bk props color t(1) by (auto simp: gc_zobj_possible_root_def)
      have "Ob h \<in> purple t xs"
        by (rule root_kept [OF painted(1) nt]) (use False w t(5) in \<open>simp_all add: GC_SET_COLOR_def\<close>)
      with run painted t(2,4) show ?thesis by blast
    next
      case True
      have null: "address_of t (Ob h) = Null" using True w t(5) by (simp add: GC_SET_COLOR_def)
      have cap': "us \<noteq> [] \<or> first_unused t \<noteq> last_unused t" using cap rest_buffer [OF t(3)] by simp
      have put: "\<exists>y'. obj_set_buffered h (GC_SET_ADDRESS (Root root)) y = Some y' \<and> shape y' = shape y \<and> rest y' = rest y \<and> rc y' = rc y \<and>
          word_of y' = (word_of y)(Ob h := GC_SET_ADDRESS (Root root) (word_of y (Ob h)))" if "shape y = shape t" for root y
      proof -
        have "Ob h \<in> nodes y" using nt shape_nodes [OF that] by simp
        then obtain v where "get_obj h y = Some v" by auto
        from obj_set_buffered_views [OF this, of "GC_SET_ADDRESS (Root root)"] show ?thesis by metis
      qed
      from add_root [OF painted cap' nt null, of h "Handlers (hts h)", OF _ put] obj(2) obtain root u u2 u3 s' us' where
        r: "take_unused t = Some (Some root, u)" "link_root root u = Some u2" "obj_set_buffered h (GC_SET_ADDRESS (Root root)) u2 = Some u3"
          "fill_root root h (Handlers (hts h)) u3 = Some s'" "roots_ok hts s' (root # xs)" "buffer_ok s' (root # xs) us'" "node_at (rbufs s') root = Ob h"
          "shape s' = shape t" "rc s' = rc t" "word_of s' = (word_of t)(Ob h := GC_SET_ADDRESS (Root root) (word_of t (Ob h)))" by auto
      have "gc_zobj_possible_root env a s = Some s'"
        using z obj(1) bk props color True t(1) r(1-4) by (auto simp: gc_zobj_possible_root_def)
      moreover have "Ob h \<in> purple s' (root # xs)"
        using r(7,10) t(5) by (auto simp: purple_def GC_SET_ADDRESS_def GC_SET_COLOR_def)
      ultimately show ?thesis using r(5-9) t(2,4) by metis
    qed
  qed
qed

theorem gc_zobj_possible_root_adds_witness:
  "\<exists>s' root. gc_zobj_possible_root quiet_env 3 fresh_state = Some s' \<and> roots_ok (\<lambda>_. 7) s' [root] \<and> Ob 1 \<in> purple s' [root]"
proof -
  have z: "zvals fresh_state 3 = Some \<lparr>z_value = IS_OBJECT 1 7, z_refcount = 1, z_u = pointer_word Null\<rparr>"
    by (simp only: fresh_fields) (simp add: fresh_heap_def)
  have obj: "get_obj 1 fresh_state = Some \<lparr>gb_destructor_called = False, gb_valid = True, gb_dtor = 0, gb_refcount = 1, gb_buffered = pointer_word Null\<rparr>"
    by (simp only: fresh_fields) (simp add: fresh_heap_def get_obj_def)
  have props: "get_properties fresh_state 7 1 \<noteq> None" by (simp only: fresh_fields) (simp add: fresh_heap_def)
  from gc_zobj_possible_root_adds [OF fresh_ok(1) [of "\<lambda>_. 7"] fresh_ok(2) disjI2 [OF fresh_fields(4)] z _ obj, where env = quiet_env] props
  obtain s' xs' where s': "gc_zobj_possible_root quiet_env 3 fresh_state = Some s'" "roots_ok (\<lambda>_. 7) s' xs'" "Ob 1 \<in> purple s' xs'"
    "xs' = [] \<or> (\<exists>root. xs' = [root])" by (auto simp: fresh_ok(3) fresh_words)
  then have "xs' \<noteq> []" by (auto simp: purple_def)
  with s' show ?thesis by blast
qed

text \<open>
  C12: a zval that is freed while it is a root is taken out of the ring, its buffer becomes the first unused one, and
  the other roots stay.
\<close>

theorem gc_remove_zval_from_buffer_removes:
  assumes ok: "roots_ok hts s xs" and buf: "buffer_ok s xs us" and z: "zvals s a = Some z" "word_address (z_u z) \<noteq> Null"
  shows "\<exists>s' b. gc_remove_zval_from_buffer a s = Some s' \<and> node_at (rbufs s) b = Zv a \<and> b \<in> set xs \<and> roots_ok hts s' (remove1 b xs) \<and>
    buffer_ok s' (remove1 b xs) (b # us) \<and> word_of s' = (word_of s)(Zv a := pointer_word Null) \<and> shape s' = shape s \<and> rc s' = rc s"
proof -
  have "Zv a \<in> nodes s" using z(1) by simp
  moreover have w: "word_of s (Zv a) = z_u z" by (rule word_zval [OF z(1)])
  ultimately obtain b where b: "b \<in> set xs" "word_address (z_u z) = Root b" "node_at (rbufs s) b = Zv a"
    using ok z(2) unfolding roots_ok_def by fastforce
  then obtain ps qs where xs: "xs = ps @ b # qs" by (meson split_list)
  have dx: "distinct (xs @ us)" and r: "ring (rbufs s) (ps @ b # qs)" and ch: "unused_chain (rbufs s) (unused s) us"
    using buf xs by (simp_all add: buffer_ok_def)
  obtain f where f: "first_unused s = Some f" "1 \<le> f" "f \<le> 1 + GC_ROOT_BUFFER_MAX_ENTRIES" "set xs \<union> set us = {1..<f}"
    and last: "last_unused s = Some (1 + GC_ROOT_BUFFER_MAX_ENTRIES)" and gb: "gc_buf s"
    and ex: "\<And>a. a \<le> GC_ROOT_BUFFER_MAX_ENTRIES \<Longrightarrow> rbufs s a \<noteq> None"
    using buf unfolding buffer_ok_def by blast
  have "b \<in> {1..<f}" using b(1) f(4) by blast
  then have inside: "\<not> outside_buffer s (Root b)" using f(3) last gb by (simp add: outside_buffer_def)
  have rm: "remove1 b xs = ps @ qs" using xs dx by (simp add: remove1_append)
  obtain R where R: "gc_remove_from_buffer b s = Some (s\<lparr>rbufs := R, unused := Some b\<rparr>)" "ring R (ps @ qs)" "payload R = payload (rbufs s)"
    "rlinks R b = Some (first_ptr qs (Some 0), unused s)" "\<And>a. a \<notin> set (0 # ps @ b # qs) \<Longrightarrow> rlinks R a = rlinks (rbufs s) a"
    using ring_remove [OF r] by blast
  let ?s = "s\<lparr>rbufs := R, unused := Some b\<rparr>"
  have "zvals ?s a = Some z" using z(1) by simp
  then obtain s' where s': "zval_set_u a (\<lambda>_. pointer_word Null) ?s = Some s'" "shape s' = shape ?s" "rest s' = rest ?s" "rc s' = rc ?s"
    "word_of s' = (word_of ?s)(Zv a := pointer_word Null)"
    using zval_set_u_views [of ?s a z "\<lambda>_. pointer_word Null"] by metis
  have rb: "rbufs s' = R" "unused s' = Some b" "first_unused s' = Some f" "last_unused s' = last_unused s" "gc_buf s'"
    using rest_buffer [OF s'(3)] f(1) gb by simp_all
  have run: "gc_remove_zval_from_buffer a s = Some s'"
    using z(1) b(2) inside R(1) s'(1) by (simp add: gc_remove_zval_from_buffer_def)
  have "roots_ok hts s' (ps @ qs)"
    by (rule roots_unlinked [OF ok [unfolded xs]]) (use rb R(2,3) b(3) s'(5) shape_nodes [OF s'(2)] in \<open>simp_all add: pointer_word_def\<close>)
  moreover have "buffer_ok s' (ps @ qs) (b # us)"
  proof -
    have "c \<in> {1..<f}" if "c \<in> set us" for c using f(4) that by blast
    then have "c \<notin> set (0 # ps @ b # qs)" if "c \<in> set us" for c using that dx xs by (cases "c = 0") fastforce+
    then have "unused_chain R (unused s) us" using ch R(5) unused_chain_frame [of us R "rbufs s" "unused s"] by blast
    moreover have "R c \<noteq> None" if "c \<le> GC_ROOT_BUFFER_MAX_ENTRIES" for c
      using ex [OF that] fun_cong [OF R(3), of c] by (auto simp: payload_def)
    moreover have "set (ps @ qs) \<union> set (b # us) = {1..<f}" "distinct ((ps @ qs) @ b # us)" using f(4) dx xs by auto
    ultimately show ?thesis using rb R(2,4) f(2,3) last by (simp add: buffer_ok_def)
  qed
  ultimately show ?thesis using run b(1,3) rm s'(2,4,5) by (metis views_rbufs(1-3))
qed

theorem gc_remove_zval_from_buffer_removes_witness:
  "\<exists>s1 s2 us. gc_zval_possible_root quiet_env 2 fresh_state = Some s1 \<and> gc_remove_zval_from_buffer 2 s1 = Some s2 \<and>
     roots_ok (\<lambda>_. 7) s2 [] \<and> buffer_ok s2 [] us \<and> word_of s2 (Zv 2) = pointer_word Null"
proof -
  have z: "zvals fresh_state 2 = Some \<lparr>z_value = IS_ARRAY 5, z_refcount = 1, z_u = pointer_word Null\<rparr>"
    by (simp only: fresh_fields) (simp add: fresh_heap_def)
  from zval_possible_root_run [OF fresh_ok(1) [of "\<lambda>_. 7"] fresh_ok(2) disjI2 [OF fresh_fields(4)] z, where env = quiet_env] fresh_fields(3)
  obtain s1 xs us where s1: "gc_zval_possible_root quiet_env 2 fresh_state = Some s1" "roots_ok (\<lambda>_. 7) s1 xs" "buffer_ok s1 xs us"
    "Zv 2 \<in> purple s1 xs" "xs = [] \<or> (\<exists>root. xs = [root])" by (auto simp: fresh_ok(3) fresh_words)
  then obtain root where xs: "xs = [root]" by (auto simp: purple_def)
  have root: "node_at (rbufs s1) root = Zv 2" using s1(4) xs by (simp add: purple_def)
  then have n: "Zv 2 \<in> nodes s1" "address_of s1 (Zv 2) = Root root" using s1(2) xs by (auto simp: roots_ok_def simp del: nodes_Zv)
  then obtain y where y: "zvals s1 2 = Some y" by auto
  have "word_address (z_u y) \<noteq> Null" using n(2) word_zval [OF y] by simp
  from gc_remove_zval_from_buffer_removes [OF s1(2,3) y this] xs obtain s2 where
    "gc_remove_zval_from_buffer 2 s1 = Some s2" "roots_ok (\<lambda>_. 7) s2 []" "buffer_ok s2 [] (root # us)" "word_of s2 (Zv 2) = pointer_word Null" by auto
  with s1(1) show ?thesis by blast
qed

text \<open>A zval that is in the list of a run is neither made a root nor taken for one.\<close>

lemma listed_zval_ignored:
  assumes z: "zvals s a = Some z" and chain: "free_chain s (ps @ a # qs)" and fl: "free_list s \<noteq> Null"
  shows "gc_zval_possible_root env a s = Some s" and "\<exists>p. gc_remove_zval_from_buffer a s = Some (s\<lparr>next_to_free := p\<rparr>)"
proof -
  have "free_chain s (a # qs)" using chain by (induction ps) auto
  then have w: "z_u z = pointer_word (free_ptr qs)" using word_zval [OF z] by simp
  have "outside_buffer s (free_ptr qs)" by (simp add: outside_buffer_def free_ptr_def split: list.split)
  then show "gc_zval_possible_root env a s = Some s"
    using z w fl free_ptr_cases(1) [of qs] by (simp add: gc_zval_possible_root_def pointer_word_def)
  show "\<exists>p. gc_remove_zval_from_buffer a s = Some (s\<lparr>next_to_free := p\<rparr>)"
  proof (cases "next_to_free s = Next a")
    case True
    with z w fl \<open>outside_buffer s (free_ptr qs)\<close> show ?thesis
      by (intro exI [of _ "free_ptr qs"]) (simp add: gc_remove_zval_from_buffer_def pointer_word_def)
  next
    case False
    with z w fl \<open>outside_buffer s (free_ptr qs)\<close> show ?thesis
      by (intro exI [of _ "next_to_free s"]) (simp add: gc_remove_zval_from_buffer_def pointer_word_def)
  qed
qed



end
