(* ===== verification/Calendar.thy ===== *)
theory Calendar imports Prelude "HOL-Library.Signed_Division" begin

text \<open>
  The serial day numbers of \<open>ext/calendar\<close>: the conversions between a day number and a date of the Gregorian
  (\<open>gregor.c\<close>), Julian (\<open>julian.c\<close>) and French republican calendar (\<open>french.c\<close>), and the day of the week (\<open>dow.c\<close>).

  An \<open>int\<close> and a \<open>long int\<close> are integers; an operation whose result does not fit is the value \<open>None\<close>
  (it is undefined in C), and a \<open>long int\<close> that is stored in an \<open>int\<close> keeps its low 32 bits. A function with
  three result parameters gives the triple of year, month and day. Divisions of operands that are not negative are
  \<open>div\<close> and \<open>mod\<close>. The lemmas relate the formulas to the rules of the calendars: the lengths of the
  months, the leap years, and that there is no year 0.
\<close>

section \<open>Arithmetic\<close>

definition int32 :: "int \<Rightarrow> int option" where
  "int32 x = (if - (2 ^ 31) \<le> x \<and> x < 2 ^ 31 then Some x else None)"

definition int64 :: "int \<Rightarrow> int option" where
  "int64 x = (if - (2 ^ 63) \<le> x \<and> x < 2 ^ 63 then Some x else None)"

definition to_int :: "int \<Rightarrow> int" where
  "to_int x = signed_take_bit 31 x"

definition GREGOR_SDN_OFFSET :: int where "GREGOR_SDN_OFFSET = 32045"
definition JULIAN_SDN_OFFSET :: int where "JULIAN_SDN_OFFSET = 32083"
definition DAYS_PER_5_MONTHS :: int where "DAYS_PER_5_MONTHS = 153"
definition DAYS_PER_4_YEARS :: int where "DAYS_PER_4_YEARS = 1461"
definition DAYS_PER_400_YEARS :: int where "DAYS_PER_400_YEARS = 146097"

section \<open>Conversions\<close>

text \<open>What the two calendars share: the month and the day of a day of the year that begins in March.\<close>

definition month_and_day :: "int \<Rightarrow> int \<times> int" where
  "month_and_day dayOfYear = (let temp = dayOfYear * 5 - 3 in (temp div DAYS_PER_5_MONTHS, temp mod DAYS_PER_5_MONTHS div 5 + 1))"

definition normal_year :: "int \<Rightarrow> int \<Rightarrow> int \<Rightarrow> (int \<times> int \<times> int) option" where
  "normal_year year month day = do {
     (year, month) \<leftarrow> (if month < 10 then Some (year, month + 3) else do { year \<leftarrow> int32 (year + 1); Some (year, month - 9) });
     year \<leftarrow> int32 (year - 4800);
     year \<leftarrow> (if year \<le> 0 then int32 (year - 1) else Some year);
     Some (year, month, day) }"

text \<open>\<open>Make year always a positive number. Adjust the start of the year.\<close>\<close>

definition march_year :: "int \<Rightarrow> int \<Rightarrow> (int \<times> int) option" where
  "march_year inputYear inputMonth = do {
     year \<leftarrow> (if inputYear < 0 then int32 (inputYear + 4801) else int32 (inputYear + 4800));
     if inputMonth > 2 then Some (year, inputMonth - 3) else Some (year - 1, inputMonth + 9) }"

definition SdnToGregorian :: "int \<Rightarrow> (int \<times> int \<times> int) option" where
  "SdnToGregorian sdn =
     (if sdn \<le> 0 then Some (0, 0, 0)
      else do {
        temp \<leftarrow> int64 (sdn + GREGOR_SDN_OFFSET);
        temp \<leftarrow> int64 (temp * 4);
        temp \<leftarrow> int64 (temp - 1);
        if temp < 0 then Some (0, 0, 0)
        else do {
          let century = to_int (temp div DAYS_PER_400_YEARS);
          let temp = temp mod DAYS_PER_400_YEARS div 4 * 4 + 3;
          hundreds \<leftarrow> int32 (century * 100);
          let year = to_int (hundreds + temp div DAYS_PER_4_YEARS);
          let dayOfYear = temp mod DAYS_PER_4_YEARS div 4 + 1;
          let (month, day) = month_and_day dayOfYear;
          normal_year year month day
        }
      })"

definition GregorianToSdn :: "int \<Rightarrow> int \<Rightarrow> int \<Rightarrow> int option" where
  "GregorianToSdn inputYear inputMonth inputDay =
     (if inputYear = 0 \<or> inputYear < -4714 \<or> inputMonth \<le> 0 \<or> inputMonth > 12 \<or> inputDay \<le> 0 \<or> inputDay > 31 then Some 0
      else if inputYear = -4714 \<and> inputMonth < 11 then Some 0
      else if inputYear = -4714 \<and> inputMonth = 11 \<and> inputDay < 25 then Some 0
      else do {
        (year, month) \<leftarrow> march_year inputYear inputMonth;
        centuries \<leftarrow> int32 (year div 100 * DAYS_PER_400_YEARS);
        years \<leftarrow> int32 (year mod 100 * DAYS_PER_4_YEARS);
        int32 (centuries div 4 + years div 4 + (month * DAYS_PER_5_MONTHS + 2) div 5 + inputDay - GREGOR_SDN_OFFSET)
      })"

definition SdnToJulian :: "int \<Rightarrow> (int \<times> int \<times> int) option" where
  "SdnToJulian sdn =
     (if sdn \<le> 0 then Some (0, 0, 0)
      else if sdn > (2 ^ 63 - 1 - JULIAN_SDN_OFFSET * 4 + 1) div 4 \<or> sdn < - (2 ^ 61) then Some (0, 0, 0)
      else do {
        temp \<leftarrow> int64 (sdn * 4);
        temp \<leftarrow> int64 (temp + (JULIAN_SDN_OFFSET * 4 - 1));
        let yearl = temp div DAYS_PER_4_YEARS;
        if yearl > 2 ^ 31 - 1 \<or> yearl < - (2 ^ 31) then Some (0, 0, 0)
        else do {
          let dayOfYear = temp mod DAYS_PER_4_YEARS div 4 + 1;
          let (month, day) = month_and_day dayOfYear;
          normal_year yearl month day
        }
      })"

definition JulianToSdn :: "int \<Rightarrow> int \<Rightarrow> int \<Rightarrow> int option" where
  "JulianToSdn inputYear inputMonth inputDay =
     (if inputYear = 0 \<or> inputYear < -4713 \<or> inputMonth \<le> 0 \<or> inputMonth > 12 \<or> inputDay \<le> 0 \<or> inputDay > 31 then Some 0
      else if inputYear = -4713 \<and> inputMonth = 1 \<and> inputDay = 1 then Some 0
      else do {
        (year, month) \<leftarrow> march_year inputYear inputMonth;
        years \<leftarrow> int32 (year * DAYS_PER_4_YEARS);
        int32 (years div 4 + (month * DAYS_PER_5_MONTHS + 2) div 5 + inputDay - JULIAN_SDN_OFFSET)
      })"

definition FRENCH_SDN_OFFSET :: int where "FRENCH_SDN_OFFSET = 2375474"
definition DAYS_PER_MONTH :: int where "DAYS_PER_MONTH = 30"
definition FIRST_VALID :: int where "FIRST_VALID = 2375840"
definition LAST_VALID :: int where "LAST_VALID = 2380952"

definition SdnToFrench :: "int \<Rightarrow> int \<times> int \<times> int" where
  "SdnToFrench sdn =
     (if sdn < FIRST_VALID \<or> sdn > LAST_VALID then (0, 0, 0)
      else let temp = (sdn - FRENCH_SDN_OFFSET) * 4 - 1;
               year = temp div DAYS_PER_4_YEARS;
               dayOfYear = temp mod DAYS_PER_4_YEARS div 4
           in (year, dayOfYear div DAYS_PER_MONTH + 1, dayOfYear mod DAYS_PER_MONTH + 1))"

definition FrenchToSdn :: "int \<Rightarrow> int \<Rightarrow> int \<Rightarrow> int" where
  "FrenchToSdn year month day =
     (if year < 1 \<or> year > 14 \<or> month < 1 \<or> month > 13 \<or> day < 1 \<or> day > 30 then 0
      else year * DAYS_PER_4_YEARS div 4 + (month - 1) * DAYS_PER_MONTH + day + FRENCH_SDN_OFFSET)"

definition DayOfWeek :: "int \<Rightarrow> int option" where
  "DayOfWeek sdn = do {
     n \<leftarrow> int64 (sdn + 1);
     let dow = to_int (n smod 7);
     if dow \<ge> 0 then Some dow else int32 (dow + 7) }"

section \<open>The rules of the calendars\<close>

text \<open>There is no year 0: the year before 1 is -1.\<close>

definition astronomical :: "int \<Rightarrow> int" where
  "astronomical y = (if y < 0 then y + 1 else y)"

definition julian_leap :: "int \<Rightarrow> bool" where
  "julian_leap y \<longleftrightarrow> astronomical y mod 4 = 0"

definition gregorian_leap :: "int \<Rightarrow> bool" where
  "gregorian_leap y \<longleftrightarrow> astronomical y mod 4 = 0 \<and> (astronomical y mod 100 \<noteq> 0 \<or> astronomical y mod 400 = 0)"

definition days_in_month :: "(int \<Rightarrow> bool) \<Rightarrow> int \<Rightarrow> int \<Rightarrow> int" where
  "days_in_month leap y m = (if m = 2 then (if leap y then 29 else 28) else if m \<in> {4, 6, 9, 11} then 30 else 31)"

definition valid_date :: "(int \<Rightarrow> bool) \<Rightarrow> int \<Rightarrow> int \<Rightarrow> int \<Rightarrow> bool" where
  "valid_date leap y m d \<longleftrightarrow> y \<noteq> 0 \<and> 1 \<le> m \<and> m \<le> 12 \<and> 1 \<le> d \<and> d \<le> days_in_month leap y m"

definition next_year :: "int \<Rightarrow> int" where
  "next_year y = (if y = -1 then 1 else y + 1)"

definition next_day :: "(int \<Rightarrow> bool) \<Rightarrow> int \<Rightarrow> int \<Rightarrow> int \<Rightarrow> int \<times> int \<times> int" where
  "next_day leap y m d = (if d < days_in_month leap y m then (y, m, d + 1) else if m < 12 then (y, m + 1, 1) else (next_year y, 1, 1))"

section \<open>The formulas\<close>

lemmas calendar_constants = GREGOR_SDN_OFFSET_def JULIAN_SDN_OFFSET_def DAYS_PER_5_MONTHS_def DAYS_PER_4_YEARS_def DAYS_PER_400_YEARS_def

lemma int32_Some [simp]: "- (2 ^ 31) \<le> x \<Longrightarrow> x < 2 ^ 31 \<Longrightarrow> int32 x = Some x"
  by (simp add: int32_def)

lemma int64_Some [simp]: "- (2 ^ 63) \<le> x \<Longrightarrow> x < 2 ^ 63 \<Longrightarrow> int64 x = Some x"
  by (simp add: int64_def)

lemma to_int_id: "- (2 ^ 31) \<le> x \<Longrightarrow> x < 2 ^ 31 \<Longrightarrow> to_int x = x"
  by (simp add: to_int_def signed_take_bit_int_eq_self)

text \<open>What is lost when a part is rounded down is not more than the 3 quarters (the 4 fifths) that are added.\<close>

lemma quarters: "(4 * k + 3 - w) div 4 = k - w div (4 :: int)"
proof -
  have "(3 - w) div 4 = - (w div 4)" by presburger
  then show ?thesis using div_mult_self2 [of 4 "3 - w" k] by (simp add: algebra_simps)
qed

lemma fifths: "(5 * k + 2 - w) div 5 = k - (w + 2) div (5 :: int)"
proof -
  have "(2 - w) div 5 = - ((w + 2) div 5)" by presburger
  then show ?thesis using div_mult_self2 [of 5 "2 - w" k] by (simp add: algebra_simps)
qed

lemma mod_as_minus: "(a :: int) mod b = a - b * (a div b)"
  by (simp add: minus_mult_div_eq_mod)

definition month_start :: "int \<Rightarrow> int" where
  "month_start m = (m * 153 + 2) div 5"

definition julian_days :: "int \<Rightarrow> int" where
  "julian_days y = y * 1461 div 4"

definition gregorian_days :: "int \<Rightarrow> int" where
  "gregorian_days y = y div 100 * 146097 div 4 + y mod 100 * 1461 div 4"

text \<open>The same with the whole days of a year and a century taken out.\<close>

lemma julian_days_eq: "julian_days y = 365 * y + y div 4"
  using div_mult_self2 [of 4 y "365 * y"] by (simp add: julian_days_def algebra_simps)

lemma century_days_eq: "c * 146097 div 4 = 36524 * c + c div (4 :: int)"
  using div_mult_self2 [of 4 c "36524 * c"] by (simp add: algebra_simps)

lemma gregorian_days_eq: "gregorian_days y = 36524 * (y div 100) + y div 100 div 4 + 365 * (y mod 100) + y mod 100 div 4"
  using century_days_eq [of "y div 100"] julian_days_eq [of "y mod 100"] by (simp add: gregorian_days_def julian_days_def)

lemma div_bounds: "4 * (a div 4) \<le> a" "a < 4 * (a div 4) + 4" "5 * (a div 5) \<le> a" "a < 5 * (a div 5) + (5 :: int)"
  by presburger+

text \<open>Cycles of \<open>N / 4\<close> days: day \<open>k\<close> is day \<open>r\<close> of cycle \<open>y\<close>.\<close>

lemma cycle:
  assumes N: "0 < (N :: int)" and k: "k = y * N div 4 + r" and r: "0 \<le> r" "k < (y + 1) * N div 4"
  shows "(4 * k + 3) div N = y" "(4 * k + 3) mod N div 4 = r"
proof -
  have lo: "y * N \<le> 4 * k + 3" using div_bounds(1,2) [of "y * N"] k r(1) by linarith
  have hi: "4 * k + 3 < (y + 1) * N" using div_bounds(1) [of "(y + 1) * N"] r(2) by linarith
  show d: "(4 * k + 3) div N = y"
    by (rule int_div_pos_eq [where r = "4 * k + 3 - N * y"]) (use lo hi in \<open>simp_all add: algebra_simps\<close>)
  have "(4 * k + 3) mod N = 4 * k + 3 - y * N" unfolding mod_as_minus d by (simp only: mult.commute)
  then show "(4 * k + 3) mod N div 4 = r" using k by (simp add: quarters)
qed

text \<open>Cycles of five months: day \<open>k\<close> of the year is day \<open>r\<close> of month \<open>m\<close>.\<close>

lemma month_cycle:
  assumes k: "k = month_start m + r" and r: "0 \<le> r" "k < month_start (m + 1)"
  shows "month_and_day (k + 1) = (m, r + 1)"
proof -
  have lo: "153 * m \<le> 5 * k + 2" using div_bounds(3,4) [of "m * 153 + 2"] k r(1) unfolding month_start_def by linarith
  have hi: "5 * k + 2 < 153 * (m + 1)" using div_bounds(3) [of "(m + 1) * 153 + 2"] r(2) unfolding month_start_def by linarith
  have d: "(5 * k + 2) div 153 = m"
    by (rule int_div_pos_eq [where r = "5 * k + 2 - 153 * m"]) (use lo hi in simp_all)
  have "(5 * k + 2) mod 153 = 5 * k + 2 - m * 153" unfolding mod_as_minus d by (simp only: mult.commute)
  then have "(5 * k + 2) mod 153 div 5 = r" using k by (simp add: fifths month_start_def)
  moreover have "(k + 1) * 5 - 3 = 5 * k + 2" by simp
  ultimately show ?thesis unfolding month_and_day_def calendar_constants Let_def by (simp only: d)
qed

text \<open>The year that begins in March and the month in it; the limits keep all computations in an \<open>int\<close>.\<close>

definition march :: "int \<Rightarrow> int \<Rightarrow> int \<times> int" where
  "march y m = (if m > 2 then (astronomical y + 4800, m - 3) else (astronomical y + 4799, m + 9))"

lemma march_year_eq: "y < 2147478000 \<Longrightarrow> - 10000 < y \<Longrightarrow> march_year y m = Some (march y m)"
  by (simp add: march_year_def march_def astronomical_def)

lemma month_start_bounds: "0 \<le> m \<Longrightarrow> m \<le> 11 \<Longrightarrow> 0 \<le> month_start m \<and> month_start m \<le> 337"
  using div_bounds(3,4) [of "m * 153 + 2"] unfolding month_start_def by linarith

lemma gregorian_days_bounds:
  assumes "0 \<le> y" "y < 1470000"
  shows "0 \<le> gregorian_days y" "gregorian_days y \<le> 536906200" "0 \<le> y div 100" "y div 100 < 14700" "0 \<le> y mod 100" "y mod 100 < 100"
proof -
  show c: "0 \<le> y div 100" "y div 100 < 14700" "0 \<le> y mod 100" "y mod 100 < 100" using assms by auto
  have q: "0 \<le> y div 100 div 4" "0 \<le> y mod 100 div 4" using c by (simp_all only: pos_imp_zdiv_nonneg_iff zero_less_numeral)
  show "0 \<le> gregorian_days y" unfolding gregorian_days_eq
    by (intro add_nonneg_nonneg mult_nonneg_nonneg zero_le_numeral c q)
  have "36524 * q + a + 365 * r + b \<le> 536906200" if "q < 14700" "r < 100" "4 * a \<le> q" "4 * b \<le> r" for q r a b :: int
    using that by linarith
  from this [OF c(2,4) div_bounds(1) div_bounds(1)] show "gregorian_days y \<le> 536906200" unfolding gregorian_days_eq .
qed

definition gregorian_first :: "int \<Rightarrow> int \<Rightarrow> int \<Rightarrow> bool" where
  "gregorian_first y m d \<longleftrightarrow> -4714 < y \<or> y = -4714 \<and> (11 < m \<or> m = 11 \<and> 25 \<le> d)"

definition julian_first :: "int \<Rightarrow> int \<Rightarrow> int \<Rightarrow> bool" where
  "julian_first y m d \<longleftrightarrow> -4713 < y \<or> y = -4713 \<and> (1 < m \<or> 1 < d)"

lemma GregorianToSdn_eq:
  assumes v: "valid_date leap y m d" and first: "gregorian_first y m d" and last: "y < 1465200" and M: "march y m = (Y, M)"
  shows "GregorianToSdn y m d = Some (gregorian_days Y + month_start M + d - GREGOR_SDN_OFFSET)"
proof -
  have b: "y \<noteq> 0" "1 \<le> m" "m \<le> 12" "1 \<le> d" "d \<le> 31"
    using v by (auto simp: valid_date_def days_in_month_def split: if_splits)
  have Y: "0 \<le> Y" "Y < 1470000" "0 \<le> M" "M \<le> 11"
    using M b first last by (auto simp: gregorian_first_def march_def astronomical_def split: if_splits)
  have "march_year y m = Some (Y, M)" using march_year_eq [of y m] M first last by (auto simp: gregorian_first_def)
  moreover have "int32 (Y div 100 * 146097) = Some (Y div 100 * 146097)" "int32 (Y mod 100 * 1461) = Some (Y mod 100 * 1461)"
    using gregorian_days_bounds(3-6) [OF Y(1,2)] by (auto intro!: int32_Some)
  moreover have "int32 (gregorian_days Y + month_start M + d - 32045) = Some (gregorian_days Y + month_start M + d - 32045)"
    using gregorian_days_bounds [OF Y(1,2)] month_start_bounds [OF Y(3,4)] b by (intro int32_Some; simp)
  ultimately show ?thesis using b first
    by (auto simp: gregorian_first_def GregorianToSdn_def calendar_constants gregorian_days_def month_start_def)
qed

lemma JulianToSdn_eq:
  assumes v: "valid_date leap y m d" and first: "julian_first y m d" and last: "y < 1465000" and M: "march y m = (Y, M)"
  shows "JulianToSdn y m d = Some (julian_days Y + month_start M + d - JULIAN_SDN_OFFSET)"
proof -
  have b: "y \<noteq> 0" "1 \<le> m" "m \<le> 12" "1 \<le> d" "d \<le> 31"
    using v by (auto simp: valid_date_def days_in_month_def split: if_splits)
  have Y: "0 \<le> Y" "Y < 1469801" "0 \<le> M" "M \<le> 11"
    using M b first last by (auto simp: julian_first_def march_def astronomical_def split: if_splits)
  have "march_year y m = Some (Y, M)" using march_year_eq [of y m] M first last by (auto simp: julian_first_def)
  moreover have "int32 (Y * 1461) = Some (Y * 1461)"
    using Y by (intro int32_Some; simp)
  moreover have "0 \<le> julian_days Y" "julian_days Y \<le> 536844815" using Y div_bounds(1,2) [of Y] unfolding julian_days_eq by linarith+
  then have "int32 (julian_days Y + month_start M + d - 32083) = Some (julian_days Y + month_start M + d - 32083)"
    using month_start_bounds [OF Y(3,4)] b by (intro int32_Some; simp)
  ultimately show ?thesis using b first
    by (auto simp: julian_first_def JulianToSdn_def calendar_constants julian_days_def month_start_def)
qed

text \<open>The lengths of the years.\<close>

lemma gregorian_year_length:
  "gregorian_days (Y + 1) = gregorian_days Y + (if (Y + 1) mod 4 = 0 \<and> ((Y + 1) mod 100 \<noteq> 0 \<or> (Y + 1) mod 400 = 0) then 366 else 365)"
proof -
  define c r where "c = Y div 100" and "r = Y mod 100"
  have Y: "Y = 100 * c + r" "0 \<le> r" "r < 100" by (simp_all add: c_def r_def)
  have Y4: "(Y + 1) mod 4 = (r + 1) mod 4" using mod_mult_self2 [of "r + 1" 4 "25 * c"] Y(1) by (simp add: algebra_simps)
  show ?thesis
  proof (cases "r = 99")
    case True
    then have s: "(Y + 1) div 100 = c + 1" "(Y + 1) mod 100 = 0" using Y by auto
    have "(Y + 1) mod 400 = 0 \<longleftrightarrow> (c + 1) mod 4 = 0" using mod_mult_mult1 [of 100 "c + 1" 4] Y(1) True by (simp add: algebra_simps)
    moreover have "(c + 1) div 4 = c div 4 + (if (c + 1) mod 4 = 0 then 1 else 0)" by presburger
    moreover have "gregorian_days (Y + 1) = 36524 * (c + 1) + (c + 1) div 4" unfolding gregorian_days_eq s by simp
    moreover have "gregorian_days Y = 36524 * c + c div 4 + 365 * 99 + 24"
      unfolding gregorian_days_eq c_def [symmetric] r_def [symmetric] True by simp
    moreover have "(Y + 1) mod 4 = 0" using Y4 True by simp
    ultimately show ?thesis using s(2) by simp
  next
    case False
    then have "0 \<le> r + 1" "r + 1 < 100" using Y by simp_all
    moreover have "Y + 1 = r + 1 + c * 100" using Y by simp
    moreover have "(r + 1 + c * 100) mod 100 = (r + 1) mod 100" "(r + 1 + c * 100) div 100 = c + (r + 1) div 100"
      by (rule mod_mult_self1) (rule div_mult_self1, simp)
    ultimately have s: "(Y + 1) div 100 = c" "(Y + 1) mod 100 = r + 1"
      by (simp_all only: div_pos_pos_trivial mod_pos_pos_trivial add_0_right)
    have q: "(r + 1) div 4 = r div 4 + (if (r + 1) mod 4 = 0 then 1 else 0)" by presburger
    have y: "(Y + 1) mod 100 \<noteq> 0" using s(2) Y(2) by linarith
    have g: "gregorian_days (Y + 1) = 36524 * c + c div 4 + 365 * (r + 1) + (r + 1) div 4" unfolding gregorian_days_eq s by (rule refl)
    have h: "gregorian_days Y = 36524 * c + c div 4 + 365 * r + r div 4"
      unfolding gregorian_days_eq c_def [symmetric] r_def [symmetric] by (rule refl)
    show ?thesis
    proof (cases "(r + 1) mod 4 = 0")
      case True
      then show ?thesis unfolding g h Y4 q by (simp only: y simp_thms if_True) (simp only: algebra_simps)
    next
      case False
      then show ?thesis unfolding g h Y4 q by (simp only: y simp_thms if_False) (simp only: algebra_simps)
    qed
  qed
qed

lemma julian_year_length: "julian_days (Y + 1) = julian_days Y + (if (Y + 1) mod 4 = 0 then 366 else 365)"
proof -
  have "(Y + 1) div 4 = Y div 4 + (if (Y + 1) mod 4 = 0 then 1 else 0)" by presburger
  then show ?thesis by (simp add: julian_days_eq)
qed

section \<open>From a day to the next\<close>

text \<open>In the year that begins in March every month ends where the next one begins, and February is its last one.\<close>

lemma month_cases: "1 \<le> m \<Longrightarrow> m \<le> 12 \<Longrightarrow> m \<in> {1, 2, 3, 4, 5, 6, 7, 8, 9, 10, 11, 12 :: int}"
proof (cases "m \<le> 6")
  case True
  moreover assume "1 \<le> m"
  ultimately have "m = 1 \<or> m = 2 \<or> m = 3 \<or> m = 4 \<or> m = 5 \<or> m = 6" by arith
  then show ?thesis by blast
next
  case False
  moreover assume "m \<le> 12"
  ultimately have "m = 7 \<or> m = 8 \<or> m = 9 \<or> m = 10 \<or> m = 11 \<or> m = 12" by arith
  then show ?thesis by blast
qed

lemma month_length:
  assumes "1 \<le> m" "m \<le> 12" "m \<noteq> 2" "march y m = (Y, M)"
  shows "(if m < 12 then march y (m + 1) else (Y, 10)) = (Y, M + 1)" "month_start (M + 1) = month_start M + days_in_month leap y m"
  using month_cases [OF assms(1,2)] assms(3,4) by (auto simp: march_def month_start_def days_in_month_def)

lemma gregorian_year_days:
  "gregorian_days (astronomical y + 4800) = gregorian_days (astronomical y + 4799) + (if gregorian_leap y then 366 else 365)"
  unfolding gregorian_leap_def
proof -
  let ?a = "astronomical y"
  have m: "(?a + 4800) mod 4 = ?a mod 4" "(?a + 4800) mod 100 = ?a mod 100" "(?a + 4800) mod 400 = ?a mod 400"
    using mod_mult_self1 [of ?a 1200 4] mod_mult_self1 [of ?a 48 100] mod_mult_self1 [of ?a 12 400] by simp_all
  have e: "?a + 4799 + 1 = ?a + 4800" by simp
  show "gregorian_days (?a + 4800) = gregorian_days (?a + 4799) + (if ?a mod 4 = 0 \<and> (?a mod 100 \<noteq> 0 \<or> ?a mod 400 = 0) then 366 else 365)"
    using gregorian_year_length [of "?a + 4799"] unfolding e m .
qed

lemma julian_year_days: "julian_days (astronomical y + 4800) = julian_days (astronomical y + 4799) + (if julian_leap y then 366 else 365)"
  unfolding julian_leap_def
proof -
  let ?a = "astronomical y"
  have m: "(?a + 4800) mod 4 = ?a mod 4" using mod_mult_self1 [of ?a 1200 4] by simp
  have e: "?a + 4799 + 1 = ?a + 4800" by simp
  show "julian_days (?a + 4800) = julian_days (?a + 4799) + (if ?a mod 4 = 0 then 366 else 365)"
    using julian_year_length [of "?a + 4799"] unfolding e m .
qed

lemma astronomical_next: "y \<noteq> 0 \<Longrightarrow> astronomical (next_year y) = astronomical y + 1"
  by (auto simp: astronomical_def next_year_def)

text \<open>The number of a day before the offset is taken away.\<close>

definition day_number :: "(int \<Rightarrow> int) \<Rightarrow> int \<times> int \<times> int \<Rightarrow> int" where
  "day_number F = (\<lambda>(y, m, d). case march y m of (Y, M) \<Rightarrow> F Y + month_start M + d)"

lemma valid_next: "valid_date leap y m d \<Longrightarrow> case next_day leap y m d of (y', m', d') \<Rightarrow> valid_date leap y' m' d' \<and> y \<le> y' \<and> y' \<le> y + 2"
  by (auto simp: valid_date_def next_day_def days_in_month_def next_year_def)

text \<open>
  What a calendar is to both conversions: the number of the days before a year that begins in March, and the year
  and the day in it of a day number.
\<close>

locale march_calendar =
  fixes leap :: "int \<Rightarrow> bool" and F :: "int \<Rightarrow> int" and year_of :: "int \<Rightarrow> int \<times> int"
  assumes year_days: "F (astronomical y + 4800) = F (astronomical y + 4799) + (if leap y then 366 else 365)"
    and year_length: "F (Y + 1) = F Y + 365 \<or> F (Y + 1) = F Y + 366"
    and year_of: "0 \<le> Y \<Longrightarrow> 0 \<le> r \<Longrightarrow> r < F (Y + 1) - F Y \<Longrightarrow> year_of (F Y + r) = (Y, r)"
begin

lemma day_number_next:
  assumes v: "valid_date leap y m d" and y: "-4800 < y"
  shows "day_number F (next_day leap y m d) = day_number F (y, m, d) + 1"
proof -
  obtain Y M where YM: "march y m = (Y, M)" by force
  have b: "y \<noteq> 0" "1 \<le> m" "m \<le> 12" "1 \<le> d" "d \<le> days_in_month leap y m" using v by (simp_all add: valid_date_def)
  show ?thesis
  proof (cases "d < days_in_month leap y m")
    case True
    then show ?thesis by (simp add: next_day_def day_number_def split: prod.split)
  next
    case False
    then have d: "d = days_in_month leap y m" using b(5) by simp
    consider "m = 2" | "m = 12" | "m \<noteq> 2" "m < 12" using b(3) by linarith
    then show ?thesis
    proof cases
      case 1
      have "F (astronomical y + 4800) = F (astronomical y + 4799) + (if leap y then 366 else 365)"
        using year_days b(1) y by simp
      then show ?thesis using 1 d by (simp add: next_day_def day_number_def march_def month_start_def days_in_month_def)
    next
      case 2
      have "F (astronomical (next_year y) + 4799) = F (astronomical y + 4800)"
        by (rule arg_cong [of _ _ F]) (simp add: astronomical_next [OF b(1)])
      then show ?thesis using 2 d
        by (simp add: next_day_def day_number_def march_def month_start_def days_in_month_def)
    next
      case 3
      then show ?thesis using d YM month_length(1) [OF b(2,3) 3(1) YM] month_length(2) [OF b(2,3) 3(1) YM, of leap] by (simp add: next_day_def day_number_def)
    qed
  qed
qed

lemma decode:
  assumes v: "valid_date leap y m d" and y: "-4800 < y" and YM: "march y m = (Y, M)"
  shows "\<exists>r. year_of (day_number F (y, m, d) - 1) = (Y, r) \<and> month_and_day (r + 1) = (M, d)"
proof -
  have b: "y \<noteq> 0" "1 \<le> m" "m \<le> 12" "1 \<le> d" "d \<le> days_in_month leap y m" using v by (simp_all add: valid_date_def)
  define r where "r = month_start M + (d - 1)"
  have Y: "0 \<le> Y" "0 \<le> M" "M \<le> 11" using YM b y by (auto simp: march_def astronomical_def split: if_splits)
  have r0: "0 \<le> r" using month_start_bounds [OF Y(2,3)] b(4) by (simp add: r_def)
  have "r < month_start (M + 1) \<and> r < F (Y + 1) - F Y"
  proof (cases "m = 2")
    case True
    then have M: "M = 11" "Y = astronomical y + 4799" using YM by (simp_all add: march_def)
    then have "Y + 1 = astronomical y + 4800" by simp
    then have "F (Y + 1) = F Y + (if leap y then 366 else 365)" using year_days [of y] unfolding M(2) by (simp only:)
    moreover have "r < (if leap y then 366 else 365)" using b(5) True M(1) by (simp add: r_def days_in_month_def month_start_def split: if_splits)
    moreover have "month_start (M + 1) = 367" using M(1) by (simp add: month_start_def)
    ultimately show ?thesis by (auto split: if_splits)
  next
    case False
    note l = month_length(2) [OF b(2,3) False YM, of leap]
    then have "r < month_start (M + 1)" using b(5) by (simp add: r_def)
    moreover have "M + 1 \<le> 11" using YM False b(2,3) by (auto simp: march_def split: if_splits)
    then have "month_start (M + 1) \<le> 337" using month_start_bounds [of "M + 1"] Y(2) by simp
    moreover have "365 \<le> F (Y + 1) - F Y" using year_length [of Y] by auto
    ultimately show ?thesis by linarith
  qed
  then have "year_of (F Y + r) = (Y, r)" "month_and_day (r + 1) = (M, d - 1 + 1)"
    using year_of [OF Y(1) r0] month_cycle [of r M "d - 1"] b(4) by (simp_all add: r_def)
  moreover have "day_number F (y, m, d) - 1 = F Y + r" using YM by (simp add: day_number_def r_def)
  ultimately show ?thesis by (intro exI [of _ r]) simp
qed

text \<open>Every day from a valid date on has a valid date.\<close>

lemma reached:
  assumes "valid_date leap y0 m0 d0" "-4800 < y0" "day_number F (y0, m0, d0) = n0"
  shows "\<exists>y m d. valid_date leap y m d \<and> y0 \<le> y \<and> day_number F (y, m, d) = n0 + int k \<and> (y = y0 \<longrightarrow> m0 < m \<or> m0 = m \<and> d0 \<le> d)"
proof (induction k)
  case 0
  then show ?case using assms by auto
next
  case (Suc k)
  then obtain y m d where v: "valid_date leap y m d" "y0 \<le> y" "day_number F (y, m, d) = n0 + int k"
    "y = y0 \<longrightarrow> m0 < m \<or> m0 = m \<and> d0 \<le> d" by blast
  obtain y' m' d' where nx: "next_day leap y m d = (y', m', d')" by (cases "next_day leap y m d")
  have "valid_date leap y' m' d'" "y \<le> y'" using valid_next [OF v(1)] nx by simp_all
  moreover have "day_number F (y', m', d') = n0 + int (Suc k)"
    using day_number_next [OF v(1)] v(2,3) assms(2) nx by simp
  moreover have "y' = y0 \<longrightarrow> m0 < m' \<or> m0 = m' \<and> d0 \<le> d'"
    using nx v(1,2,4) by (auto simp: next_day_def next_year_def valid_date_def split: if_splits)
  moreover have "y0 \<le> y'" using v(2) \<open>y \<le> y'\<close> by simp
  ultimately show ?case by (intro exI [of _ y'] exI [of _ m'] exI [of _ d'] conjI)
qed

end

definition gregorian_year_of :: "int \<Rightarrow> int \<times> int" where
  "gregorian_year_of k = (let r = (4 * k + 3) mod 146097 div 4 in
     ((4 * k + 3) div 146097 * 100 + (4 * r + 3) div 1461, (4 * r + 3) mod 1461 div 4))"

definition julian_year_of :: "int \<Rightarrow> int \<times> int" where
  "julian_year_of k = ((4 * k + 3) div 1461, (4 * k + 3) mod 1461 div 4)"

lemma julian_cycle:
  assumes k: "k = julian_days y + r" and r: "0 \<le> r" "r < julian_days (y + 1) - julian_days y \<or> k < julian_days (y + 1)"
  shows "(4 * k + 3) div 1461 = y" "(4 * k + 3) mod 1461 div 4 = r"
proof -
  have "k = y * 1461 div 4 + r" "k < (y + 1) * 1461 div 4" using k r(2) unfolding julian_days_def by auto
  from cycle [OF _ this(1) r(1) this(2)] show "(4 * k + 3) div 1461 = y" "(4 * k + 3) mod 1461 div 4 = r" by simp_all
qed

interpretation julian: march_calendar julian_leap julian_days julian_year_of
proof unfold_locales
  show "julian_days (astronomical y + 4800) = julian_days (astronomical y + 4799) + (if julian_leap y then 366 else 365)" for y
    by (rule julian_year_days)
  show "julian_days (Y + 1) = julian_days Y + 365 \<or> julian_days (Y + 1) = julian_days Y + 366" for Y
    using julian_year_length [of Y] by auto
  show "julian_year_of (julian_days Y + r) = (Y, r)" if "0 \<le> Y" "0 \<le> r" "r < julian_days (Y + 1) - julian_days Y" for Y r
    using julian_cycle [OF refl that(2) disjI1 [OF that(3)]] by (simp only: julian_year_of_def)
qed

interpretation gregorian: march_calendar gregorian_leap gregorian_days gregorian_year_of
proof unfold_locales
  show "gregorian_days (astronomical y + 4800) = gregorian_days (astronomical y + 4799) + (if gregorian_leap y then 366 else 365)" for y
    by (rule gregorian_year_days)
  show "gregorian_days (Y + 1) = gregorian_days Y + 365 \<or> gregorian_days (Y + 1) = gregorian_days Y + 366" for Y
    using gregorian_year_length [of Y] by auto
  fix Y r :: int
  assume Y: "0 \<le> Y" and r: "0 \<le> r" "r < gregorian_days (Y + 1) - gregorian_days Y"
  define c q where "c = Y div 100" and "q = Y mod 100"
  have cq: "Y = c * 100 + q" "0 \<le> q" "q < 100" by (simp_all add: c_def q_def)
  define k where "k = julian_days q + r"
  have F: "gregorian_days Y = c * 146097 div 4 + julian_days q"
    by (simp add: gregorian_days_def julian_days_def c_def q_def)
  have next_k: "k < julian_days (q + 1) \<and> gregorian_days Y + r < (c + 1) * 146097 div 4"
  proof (cases "q = 99")
    case True
    then have "(Y + 1) div 100 = c + 1" "(Y + 1) mod 100 = 0" using cq by auto
    then have "gregorian_days (Y + 1) = (c + 1) * 146097 div 4" by (simp add: gregorian_days_def)
    moreover have "r < 366" using r gregorian_year_length [of Y] by (auto split: if_splits)
    moreover have "julian_days (q + 1) = julian_days q + 366" using True by (simp add: julian_days_def)
    ultimately show ?thesis using r by (simp add: k_def)
  next
    case False
    then have "(q + 1 + c * 100) mod 100 = (q + 1) mod 100" "(q + 1 + c * 100) div 100 = c + (q + 1) div 100"
      by (intro mod_mult_self1 div_mult_self1; simp)+
    moreover have "Y + 1 = q + 1 + c * 100" using cq(1) by simp
    moreover have "(q + 1) div 100 = 0" "(q + 1) mod 100 = q + 1" using False cq by simp_all
    ultimately have "(Y + 1) div 100 = c" "(Y + 1) mod 100 = q + 1" by (simp_all only: add_0_right)
    then have "gregorian_days (Y + 1) = c * 146097 div 4 + julian_days (q + 1)" by (simp add: gregorian_days_def julian_days_def)
    moreover have "(q + 1) div 4 \<le> 99 div 4" by (rule zdiv_mono1) (use False cq in simp_all)
    then have "julian_days (q + 1) \<le> 36159" using False cq unfolding julian_days_eq by simp
    moreover have "c * 146097 div 4 + 36524 \<le> (c + 1) * 146097 div 4" unfolding century_days_eq by (simp add: zdiv_mono1)
    ultimately show ?thesis using r F by (simp add: k_def)
  qed
  have "0 \<le> k" using r(1) cq(2) by (simp add: k_def julian_days_def)
  moreover have "gregorian_days Y + r = c * 146097 div 4 + k" using F by (simp add: k_def)
  ultimately have "(4 * (gregorian_days Y + r) + 3) div 146097 = c" "(4 * (gregorian_days Y + r) + 3) mod 146097 div 4 = k"
    by - (rule cycle [OF _ _ _ conjunct2 [OF next_k]]; simp)+
  moreover have "(4 * k + 3) div 1461 = q" "(4 * k + 3) mod 1461 div 4 = r"
    by (rule julian_cycle [OF k_def r(1) disjI2 [OF conjunct1 [OF next_k]]])+
  ultimately show "gregorian_year_of (gregorian_days Y + r) = (Y, r)"
    unfolding gregorian_year_of_def Let_def by (simp only: cq(1) [symmetric])
qed

lemma GregorianToSdn_number:
  "valid_date gregorian_leap y m d \<Longrightarrow> gregorian_first y m d \<Longrightarrow> y < 1465200 \<Longrightarrow> GregorianToSdn y m d = Some (day_number gregorian_days (y, m, d) - 32045)"
  using GregorianToSdn_eq [of gregorian_leap y m d] by (simp add: day_number_def calendar_constants split: prod.split)

lemma JulianToSdn_number:
  "valid_date julian_leap y m d \<Longrightarrow> julian_first y m d \<Longrightarrow> y < 1465000 \<Longrightarrow> JulianToSdn y m d = Some (day_number julian_days (y, m, d) - 32083)"
  using JulianToSdn_eq [of julian_leap y m d] by (simp add: day_number_def calendar_constants split: prod.split)

section \<open>Both conversions\<close>

lemma normal_year_eq:
  assumes "march y m = (Y, M)" "y \<noteq> 0" "1 \<le> m" "m \<le> 12" "-4800 < y" "y < 2000000"
  shows "normal_year Y M d = Some (y, m, d)"
  using assms by (auto simp: normal_year_def march_def astronomical_def split: if_splits)

lemma div_int_nonneg: "0 \<le> a \<Longrightarrow> 0 < b \<Longrightarrow> 0 \<le> a div (b :: int)"
  by (simp only: pos_imp_zdiv_nonneg_iff)

lemma decode_bounds:
  assumes "0 \<le> k" "k \<le> (537000000 :: int)"
  shows "0 \<le> (4 * k + 3) div 146097" "(4 * k + 3) div 146097 \<le> 14703" "0 \<le> (4 * ((4 * k + 3) mod 146097 div 4) + 3) div 1461"
    "(4 * ((4 * k + 3) mod 146097 div 4) + 3) div 1461 \<le> 100"
proof -
  show "0 \<le> (4 * k + 3) div 146097" by (rule div_int_nonneg) (use assms(1) in simp_all)
  have "(4 * k + 3) div 146097 \<le> 2148000003 div 146097" by (rule zdiv_mono1) (use assms(2) in simp_all)
  then show "(4 * k + 3) div 146097 \<le> 14703" by simp
  define r where "r = (4 * k + 3) mod 146097"
  have r: "0 \<le> r" "r \<le> 146096" using pos_mod_bound [of 146097 "4 * k + 3"] unfolding r_def by simp_all
  then have q: "0 \<le> r div 4" by (intro div_int_nonneg) simp_all
  have "4 * (r div 4) + 3 \<le> 146100" using div_bounds(1) [of r] r(2) by linarith
  then have "(4 * (r div 4) + 3) div 1461 \<le> 146100 div 1461" by (rule zdiv_mono1) simp
  then show "(4 * ((4 * k + 3) mod 146097 div 4) + 3) div 1461 \<le> 100" unfolding r_def by simp
  show "0 \<le> (4 * ((4 * k + 3) mod 146097 div 4) + 3) div 1461"
    unfolding r_def [symmetric] by (rule div_int_nonneg) (use q in simp_all)
qed

lemma SdnToGregorian_eq:
  assumes sdn: "0 < sdn" "sdn \<le> 536900000" and Y: "gregorian_year_of (sdn + 32044) = (Y, r)" and M: "month_and_day (r + 1) = (M, D)"
  shows "SdnToGregorian sdn = normal_year Y M D"
proof -
  let ?k = "sdn + 32044"
  have k: "0 \<le> ?k" "?k \<le> 537000000" using sdn by simp_all
  define c q where "c = (4 * ?k + 3) div 146097" and "q = (4 * ((4 * ?k + 3) mod 146097 div 4) + 3) div 1461"
  have b: "0 \<le> c" "c \<le> 14703" "0 \<le> q" "q \<le> 100" unfolding c_def q_def by (rule decode_bounds [OF k])+
  have e: "(sdn + 32045) * 4 - 1 = 4 * ?k + 3" "(4 * ?k + 3) mod 146097 div 4 * 4 + 3 = 4 * ((4 * ?k + 3) mod 146097 div 4) + 3" by simp_all
  have i: "int64 (sdn + 32045) = Some (sdn + 32045)" "int64 ((sdn + 32045) * 4) = Some ((sdn + 32045) * 4)"
    "int64 (4 * ?k + 3) = Some (4 * ?k + 3)" "int32 (c * 100) = Some (c * 100)" "to_int c = c" "to_int (c * 100 + q) = c * 100 + q"
    by (rule int64_Some; use sdn in simp)+ (rule int32_Some to_int_id; use b in simp)+
  have y: "Y = c * 100 + q" "r = (4 * ((4 * ?k + 3) mod 146097 div 4) + 3) mod 1461 div 4"
    using Y unfolding gregorian_year_of_def Let_def c_def q_def by blast+
  have "\<not> sdn \<le> 0" "\<not> 4 * ?k + 3 < 0" using sdn by simp_all
  then show ?thesis
    using M unfolding SdnToGregorian_def calendar_constants
    by (simp only: i(1-3) Option.bind.bind_lunit if_False Let_def e c_def [symmetric] i(5) q_def [symmetric] i(4) i(6) y prod.case)
qed

lemma SdnToJulian_eq:
  assumes sdn: "0 < sdn" "sdn \<le> 536900000" and Y: "julian_year_of (sdn + 32082) = (Y, r)" and M: "month_and_day (r + 1) = (M, D)"
  shows "SdnToJulian sdn = normal_year Y M D"
proof -
  let ?k = "sdn + 32082"
  have e: "sdn * 4 + (32083 * 4 - 1) = 4 * ?k + 3" by simp
  have i: "int64 (sdn * 4) = Some (sdn * 4)" "int64 (4 * ?k + 3) = Some (4 * ?k + 3)"
    by (rule int64_Some; use sdn in simp)+
  define y where "y = (4 * ?k + 3) div 1461"
  have "0 \<le> y" unfolding y_def by (rule div_int_nonneg) (use sdn in simp_all)
  moreover have "y \<le> 2148000000 div 1461" unfolding y_def by (rule zdiv_mono1) (use sdn in simp_all)
  ultimately have b: "\<not> (y > 2 ^ 31 - 1 \<or> y < - (2 ^ 31))" by simp
  have yr: "Y = y" "r = (4 * ?k + 3) mod 1461 div 4"
    using Y unfolding julian_year_of_def y_def by blast+
  have "\<not> sdn \<le> 0" "\<not> (sdn > (2 ^ 63 - 1 - 32083 * 4 + 1) div 4 \<or> sdn < - (2 ^ 61))" using sdn by simp_all
  then show ?thesis
    using M b unfolding SdnToJulian_def calendar_constants
    by (simp only: i Option.bind.bind_lunit if_False Let_def e y_def [symmetric] yr prod.case)
qed

text \<open>A valid date has a day number, which is converted back to it.\<close>

lemma gregorian_days_ge:
  assumes "0 \<le> Y"
  shows "365 * Y \<le> gregorian_days Y"
proof -
  have "365 * Y \<le> 36524 * c + a + 365 * q + b" if "0 \<le> c" "0 \<le> a" "0 \<le> b" "100 * c + q = Y" for a b c q :: int
    using that by linarith
  from this [OF _ _ _ mult_div_mod_eq] show ?thesis
    unfolding gregorian_days_eq using assms by (simp add: div_int_nonneg)
qed

lemma julian_days_ge: "0 \<le> Y \<Longrightarrow> 365 * Y \<le> julian_days Y"
  using div_int_nonneg [of Y 4] unfolding julian_days_eq by simp

lemma valid_bounds: "valid_date leap y m d \<Longrightarrow> y \<noteq> 0 \<and> 1 \<le> m \<and> m \<le> 12 \<and> 1 \<le> d \<and> d \<le> 31"
  by (auto simp: valid_date_def days_in_month_def split: if_splits)

lemma march_bounds:
  "march y m = (Y, M) \<Longrightarrow> -4800 < y \<Longrightarrow> 1 \<le> m \<Longrightarrow> m \<le> 12 \<Longrightarrow> 0 \<le> Y \<and> 0 \<le> M \<and> M \<le> 11 \<and> Y \<le> y + 4801 \<and> y + 4799 \<le> Y"
  by (auto simp: march_def astronomical_def split: if_splits)

text \<open>The first day of each is day 1 (day 2 of the Julian calendar is the first that is accepted).\<close>

lemma gregorian_after_first:
  assumes v: "valid_date leap y m d" and first: "gregorian_first y m d" and YM: "march y m = (Y, M)"
  shows "32045 < gregorian_days Y + month_start M + d"
proof -
  note b = valid_bounds [OF v]
  consider "Y = 87" "8 \<le> M" "M = 8 \<longrightarrow> 25 \<le> d" | "88 \<le> Y"
  proof -
    have "-4714 \<le> y" using first by (auto simp: gregorian_first_def)
    then consider "y = -4714" | "y = -4713" | "-4713 < y" by linarith
    then show thesis
    proof cases
      case 1
      then show ?thesis using first YM that(1) by (auto simp: gregorian_first_def march_def astronomical_def)
    next
      case 2
      then show ?thesis using YM b that by (cases "m \<le> 2") (auto simp: march_def astronomical_def)
    next
      case 3
      then show ?thesis using YM that(2) by (auto simp: march_def astronomical_def split: if_splits)
    qed
  qed
  then show ?thesis
  proof cases
    case 1
    have "M \<le> 11" using YM b by (auto simp: march_def split: if_splits)
    then have "M = 8 \<or> M = 9 \<or> M = 10 \<or> M = 11" using 1(2) by linarith
    then show ?thesis using 1 b by (auto simp: gregorian_days_def month_start_def)
  next
    case 2
    have "0 \<le> M" using YM b by (auto simp: march_def split: if_splits)
    then have "0 \<le> month_start M" by (simp add: month_start_def div_int_nonneg)
    then show ?thesis using gregorian_days_ge [of Y] 2 b by linarith
  qed
qed

lemma julian_after_first:
  assumes v: "valid_date leap y m d" and first: "julian_first y m d" and YM: "march y m = (Y, M)"
  shows "32083 < julian_days Y + month_start M + d"
proof -
  note b = valid_bounds [OF v]
  consider "Y = 87" "10 \<le> M" "M = 10 \<longrightarrow> 2 \<le> d" | "88 \<le> Y"
  proof -
    consider "y = -4713" | "-4713 < y" using first by (auto simp: julian_first_def)
    then show thesis
    proof cases
      case 1
      then show ?thesis using first YM b that by (cases "m \<le> 2") (auto simp: julian_first_def march_def astronomical_def)
    next
      case 2
      then show ?thesis using YM that(2) by (auto simp: march_def astronomical_def split: if_splits)
    qed
  qed
  then show ?thesis
  proof cases
    case 1
    have "M \<le> 11" using YM b by (auto simp: march_def split: if_splits)
    then have "M = 10 \<or> M = 11" using 1(2) by linarith
    then show ?thesis using 1 b by (auto simp: julian_days_def month_start_def)
  next
    case 2
    have "0 \<le> M" using YM b by (auto simp: march_def split: if_splits)
    then have "0 \<le> month_start M" by (simp add: month_start_def div_int_nonneg)
    then show ?thesis using julian_days_ge [of Y] 2 b by linarith
  qed
qed

lemma gregorian_date:
  assumes v: "valid_date gregorian_leap y m d" and first: "gregorian_first y m d" and last: "y < 1465000"
  shows "\<exists>n. GregorianToSdn y m d = Some n \<and> n = day_number gregorian_days (y, m, d) - 32045 \<and> SdnToGregorian n = Some (y, m, d) \<and> 0 < n"
proof -
  obtain Y M where YM: "march y m = (Y, M)" by force
  note b = valid_bounds [OF v]
  have y: "-4800 < y" using first by (auto simp: gregorian_first_def)
  note Y = march_bounds [OF YM y]
  define n where "n = gregorian_days Y + month_start M + d - 32045"
  have n: "n = day_number gregorian_days (y, m, d) - 32045" using YM by (simp add: day_number_def n_def)
  have "Y < 1470000" using Y b last by simp
  then have "n \<le> 536900000" using gregorian_days_bounds(2) [of Y] month_start_bounds [of M] Y b by (simp add: n_def)
  moreover have "0 < n" using gregorian_after_first [OF v first YM] by (simp add: n_def)
  moreover obtain r where r: "gregorian_year_of (day_number gregorian_days (y, m, d) - 1) = (Y, r)" "month_and_day (r + 1) = (M, d)"
    using gregorian.decode [OF v y YM] by blast
  moreover have "day_number gregorian_days (y, m, d) - 1 = n + 32044" using n by simp
  ultimately have "SdnToGregorian n = normal_year Y M d" using SdnToGregorian_eq [of n Y r M d] by simp
  also have "\<dots> = Some (y, m, d)" by (rule normal_year_eq [OF YM]) (use b y last in simp_all)
  finally have "SdnToGregorian n = Some (y, m, d)" .
  moreover have "GregorianToSdn y m d = Some n" using GregorianToSdn_number [OF v first] last n by simp
  ultimately show ?thesis using n \<open>0 < n\<close> by blast
qed

lemma julian_date:
  assumes v: "valid_date julian_leap y m d" and first: "julian_first y m d" and last: "y < 1465000"
  shows "\<exists>n. JulianToSdn y m d = Some n \<and> n = day_number julian_days (y, m, d) - 32083 \<and> SdnToJulian n = Some (y, m, d) \<and> 0 < n"
proof -
  obtain Y M where YM: "march y m = (Y, M)" by force
  note b = valid_bounds [OF v]
  have y: "-4800 < y" using first by (auto simp: julian_first_def)
  note Y = march_bounds [OF YM y]
  define n where "n = julian_days Y + month_start M + d - 32083"
  have n: "n = day_number julian_days (y, m, d) - 32083" using YM by (simp add: day_number_def n_def)
  have "Y \<le> 1469800" using Y b last by simp
  then have "julian_days Y \<le> 536844450" using div_bounds(1) [of Y] unfolding julian_days_eq by linarith
  then have "n \<le> 536900000" using month_start_bounds [of M] Y b by (simp add: n_def)
  moreover have "0 < n" using julian_after_first [OF v first YM] by (simp add: n_def)
  moreover obtain r where r: "julian_year_of (day_number julian_days (y, m, d) - 1) = (Y, r)" "month_and_day (r + 1) = (M, d)"
    using julian.decode [OF v y YM] by blast
  moreover have "day_number julian_days (y, m, d) - 1 = n + 32082" using n by simp
  ultimately have "SdnToJulian n = normal_year Y M d" using SdnToJulian_eq [of n Y r M d] by simp
  also have "\<dots> = Some (y, m, d)" by (rule normal_year_eq [OF YM]) (use b y last in simp_all)
  finally have "SdnToJulian n = Some (y, m, d)" .
  moreover have "JulianToSdn y m d = Some n" using JulianToSdn_number [OF v first] last n by simp
  ultimately show ?thesis using n \<open>0 < n\<close> by blast
qed

end
