(* ===== verification/CalendarDays.thy ===== *)
theory CalendarDays imports Calendar begin

text \<open>
  What the functions of \<open>ext/calendar\<close> promise about days: every day number is a date and back, the day
  after a date has the next number, the length of a month (\<open>cal_days_in_month\<close> of \<open>calendar.c\<close>) and
  the date of Easter (\<open>easter.c\<close>), which is a Sunday by \<open>DayOfWeek\<close>.
\<close>

section \<open>Operations\<close>

text \<open>
  \<open>cal_days_in_month\<close> after the calendar is selected: \<open>to_jd\<close> is the function of the table. \<open>None\<close> is an
  undefined operation and \<open>Some None\<close> the value \<open>FALSE\<close>, for a date that is not valid.
\<close>

definition cal_days_in_month :: "(int \<Rightarrow> int \<Rightarrow> int \<Rightarrow> int option) \<Rightarrow> int \<Rightarrow> int \<Rightarrow> int option option" where
  "cal_days_in_month to_jd month year = do {
     sdn_start \<leftarrow> to_jd (to_int year) (to_int month) 1;
     if sdn_start = 0 then Some None
     else do {
       month' \<leftarrow> int64 (1 + month);
       sdn_next \<leftarrow> to_jd (to_int year) (to_int month') 1;
       sdn_next \<leftarrow>
         (if sdn_next = 0 then
            if year = -1 then to_jd 1 1 1
            else do { year' \<leftarrow> int64 (year + 1); to_jd (to_int year') 1 1 }
          else Some sdn_next);
       days \<leftarrow> int64 (sdn_next - sdn_start);
       Some (Some days)
     } }"

definition CAL_EASTER_DEFAULT :: int where "CAL_EASTER_DEFAULT = 0"
definition CAL_EASTER_ROMAN :: int where "CAL_EASTER_ROMAN = 1"
definition CAL_EASTER_ALWAYS_GREGORIAN :: int where "CAL_EASTER_ALWAYS_GREGORIAN = 2"
definition CAL_EASTER_ALWAYS_JULIAN :: int where "CAL_EASTER_ALWAYS_JULIAN = 3"

definition uses_julian :: "int \<Rightarrow> int \<Rightarrow> bool" where
  "uses_julian year method \<longleftrightarrow>
     year \<le> 1582 \<and> method \<noteq> CAL_EASTER_ALWAYS_GREGORIAN
     \<or> year \<ge> 1583 \<and> year \<le> 1752 \<and> method \<noteq> CAL_EASTER_ROMAN \<and> method \<noteq> CAL_EASTER_ALWAYS_GREGORIAN
     \<or> method = CAL_EASTER_ALWAYS_JULIAN"

text \<open>\<open>x += n\<close> where \<open>x\<close> is negative.\<close>

definition made_positive :: "int \<Rightarrow> int \<Rightarrow> int" where
  "made_positive n x = (if x < 0 then x + n else x)"

text \<open>
  \<open>_cal_easter\<close> with the year that was given (or is the current one): \<open>mktime\<close> is the function of the C library on the
  fields \<open>tm_year\<close>, \<open>tm_mon\<close> and \<open>tm_mday\<close>. Only the sums with the year can leave a \<open>long\<close>.
\<close>

definition cal_easter :: "(int \<Rightarrow> int \<Rightarrow> int \<Rightarrow> int) \<Rightarrow> bool \<Rightarrow> int \<Rightarrow> int \<Rightarrow> int option option" where
  "cal_easter mktime gm year method =
     (if gm \<and> (year < 1970 \<or> year > 2037) then Some None
      else do {
        let golden = year smod 19 + 1;
        (dom, pfm) \<leftarrow>
          (if uses_julian year method then do {
             s \<leftarrow> int64 (year + year sdiv 4);
             s \<leftarrow> int64 (s + 5);
             let dom = made_positive 7 (s smod 7);
             let pfm = made_positive 30 ((3 - 11 * golden - 7) smod 30);
             Some (dom, pfm)
           } else do {
             s \<leftarrow> int64 (year + year sdiv 4);
             s \<leftarrow> int64 (s - year sdiv 100);
             s \<leftarrow> int64 (s + year sdiv 400);
             let dom = made_positive 7 (s smod 7);
             y1600 \<leftarrow> int64 (year - 1600);
             let solar = y1600 sdiv 100 - y1600 sdiv 400;
             y1400 \<leftarrow> int64 (year - 1400);
             let lunar = (y1400 sdiv 100 * 8) sdiv 25;
             let pfm = made_positive 30 ((3 - 11 * golden + solar - lunar) smod 30);
             Some (dom, pfm)
           });
        let pfm = (if pfm = 29 \<or> pfm = 28 \<and> golden > 11 then pfm - 1 else pfm);
        let tmp = made_positive 7 ((4 - pfm - dom) smod 7);
        let easter = pfm + tmp + 1;
        if gm then
          Some (Some (if easter < 11 then mktime (to_int (year - 1900)) 2 (to_int (easter + 21))
                      else mktime (to_int (year - 1900)) 3 (to_int (easter - 10))))
        else Some (Some easter)
      })"

section \<open>Every day has a date\<close>

lemma march_Y: "march y m = (Y, M) \<Longrightarrow> 1 \<le> m \<Longrightarrow> m \<le> 12 \<Longrightarrow> y + 4799 \<le> Y \<and> 0 \<le> M \<and> M \<le> 11"
  by (auto simp: march_def astronomical_def split: if_splits)

lemma year_of_number:
  assumes v: "valid_date leap y m d" and y: "-4800 < y" and n: "day_number F (y, m, d) \<le> 535032045"
    and F: "\<And>Y. 0 \<le> Y \<Longrightarrow> 365 * Y \<le> F Y"
  shows "y < 1464990"
proof -
  obtain Y M where YM: "march y m = (Y, M)" by force
  note b = valid_bounds [OF v]
  note Y = march_Y [OF YM] march_bounds [OF YM y]
  have "0 \<le> month_start M" using month_start_bounds [of M] Y b by simp
  then have "365 * Y \<le> 535032045" using F [of Y] n YM Y b by (simp add: day_number_def)
  then show ?thesis using Y b by linarith
qed

lemma gregorian_number:
  assumes "0 < n" "n \<le> 535000000"
  shows "\<exists>y m d. valid_date gregorian_leap y m d \<and> gregorian_first y m d \<and> y < 1464990 \<and> day_number gregorian_days (y, m, d) = n + 32045"
proof -
  have "valid_date gregorian_leap (-4714) 11 25" "day_number gregorian_days (-4714, 11, 25) = 32046"
    by (simp_all add: valid_date_def days_in_month_def day_number_def march_def astronomical_def gregorian_days_def month_start_def)
  from gregorian.reached [OF this(1) _ this(2), of "nat (n - 1)"] obtain y m d where
    r: "valid_date gregorian_leap y m d" "-4714 \<le> y" "day_number gregorian_days (y, m, d) = n + 32045"
      "y = -4714 \<longrightarrow> 11 < m \<or> 11 = m \<and> 25 \<le> d" using assms(1) by auto
  moreover have "gregorian_first y m d" using r(2,4) by (auto simp: gregorian_first_def)
  moreover have "y < 1464990"
    by (rule year_of_number [OF r(1) _ _ gregorian_days_ge]) (use r(2,3) assms in simp_all)
  ultimately show ?thesis by blast
qed

lemma julian_number:
  assumes "0 < n" "n \<le> 535000000 - 38"
  shows "\<exists>y m d. valid_date julian_leap y m d \<and> julian_first y m d \<and> y < 1464990 \<and> day_number julian_days (y, m, d) = n + 32083"
proof -
  have "valid_date julian_leap (-4713) 1 2" "day_number julian_days (-4713, 1, 2) = 32084"
    by (simp_all add: valid_date_def days_in_month_def day_number_def march_def astronomical_def julian_days_def month_start_def)
  from julian.reached [OF this(1) _ this(2), of "nat (n - 1)"] obtain y m d where
    r: "valid_date julian_leap y m d" "-4713 \<le> y" "day_number julian_days (y, m, d) = n + 32083"
      "y = -4713 \<longrightarrow> 1 < m \<or> 1 = m \<and> 2 \<le> d" using assms(1) by auto
  moreover have "julian_first y m d" using r(2,4) by (auto simp: julian_first_def)
  moreover have "y < 1464990"
    by (rule year_of_number [OF r(1) _ _ julian_days_ge]) (use r(2,3) assms in simp_all)
  ultimately show ?thesis by blast
qed

lemma first_next:
  assumes "valid_date leap y m d" "next_day leap y m d = (y', m', d')"
  shows "gregorian_first y m d \<Longrightarrow> gregorian_first y' m' d'" "julian_first y m d \<Longrightarrow> julian_first y' m' d'"
  using assms by (auto simp: gregorian_first_def julian_first_def next_day_def next_year_def valid_date_def split: if_splits)

lemma gregorian_next:
  assumes v: "valid_date gregorian_leap y m d" and first: "gregorian_first y m d" and last: "y < 1464990"
    and n: "next_day gregorian_leap y m d = (y', m', d')"
  shows "GregorianToSdn y' m' d' = Some (day_number gregorian_days (y, m, d) - 32045 + 1)"
proof -
  have y: "-4800 < y" using first by (auto simp: gregorian_first_def)
  have "valid_date gregorian_leap y' m' d'" "y' < 1465200" using valid_next [OF v] n last by simp_all
  then have "GregorianToSdn y' m' d' = Some (day_number gregorian_days (y', m', d') - 32045)"
    using GregorianToSdn_number first_next(1) [OF v n first] by blast
  then show ?thesis using gregorian.day_number_next [OF v y] n by simp
qed

lemma julian_next:
  assumes v: "valid_date julian_leap y m d" and first: "julian_first y m d" and last: "y < 1464990"
    and n: "next_day julian_leap y m d = (y', m', d')"
  shows "JulianToSdn y' m' d' = Some (day_number julian_days (y, m, d) - 32083 + 1)"
proof -
  have y: "-4800 < y" using first by (auto simp: julian_first_def)
  have "valid_date julian_leap y' m' d'" "y' < 1465000" using valid_next [OF v] n last by simp_all
  then have "JulianToSdn y' m' d' = Some (day_number julian_days (y', m', d') - 32083)"
    using JulianToSdn_number first_next(2) [OF v n first] by blast
  then show ?thesis using julian.day_number_next [OF v y] n by simp
qed



text \<open>
  C38: The two conversions of the Gregorian calendar and of the Julian calendar are inverse: every day number up to 535 million
  is converted to a valid date of the calendar, which is converted back to the number.
\<close>
theorem calendar_roundtrip:
  assumes "0 < n" "n \<le> 534999000"
  shows "(\<exists>y m d. SdnToGregorian n = Some (y, m, d) \<and> valid_date gregorian_leap y m d \<and> GregorianToSdn y m d = Some n)
    \<and> (\<exists>y m d. SdnToJulian n = Some (y, m, d) \<and> valid_date julian_leap y m d \<and> JulianToSdn y m d = Some n)"
proof
  obtain y m d where g: "valid_date gregorian_leap y m d" "gregorian_first y m d" "y < 1464990" "day_number gregorian_days (y, m, d) = n + 32045"
    using gregorian_number [of n] assms by auto
  then have "y < 1465000" by simp
  from gregorian_date [OF g(1,2) this] g(1,4)
  show "\<exists>y m d. SdnToGregorian n = Some (y, m, d) \<and> valid_date gregorian_leap y m d \<and> GregorianToSdn y m d = Some n" by auto
next
  obtain y m d where g: "valid_date julian_leap y m d" "julian_first y m d" "y < 1464990" "day_number julian_days (y, m, d) = n + 32083"
    using julian_number [of n] assms by auto
  then have "y < 1465000" by simp
  from julian_date [OF g(1,2) this] g(1,4)
  show "\<exists>y m d. SdnToJulian n = Some (y, m, d) \<and> valid_date julian_leap y m d \<and> JulianToSdn y m d = Some n" by auto
qed

theorem calendar_roundtrip_witness:
  "\<exists>y m d. SdnToGregorian 2299161 = Some (y, m, d) \<and> valid_date gregorian_leap y m d \<and> GregorianToSdn y m d = Some 2299161"
  using calendar_roundtrip [of 2299161] by simp

section \<open>The length of a month\<close>

lemma last_of_month:
  assumes "y \<noteq> 0" "1 \<le> m" "m \<le> 12"
  shows "valid_date leap y m 1" "valid_date leap y m (days_in_month leap y m)"
    "next_day leap y m (days_in_month leap y m) = (if m < 12 then (y, m + 1, 1) else (next_year y, 1, 1))"
    "day_number F (y, m, days_in_month leap y m) = day_number F (y, m, 1) + days_in_month leap y m - 1"
    "1 \<le> days_in_month leap y m" "days_in_month leap y m \<le> 31"
  using assms by (auto simp: valid_date_def next_day_def day_number_def days_in_month_def split: prod.split)

text \<open>What the function needs of a conversion: the first day of a month and the first day of the next one.\<close>

lemma cal_days_in_month_of:
  assumes m: "1 \<le> m" "m \<le> 12" and y: "y \<noteq> 0" "-5000 < y" "y < 1464990"
    and first: "to_jd y m 1 = Some n" "0 < n"
    and month: "m < 12 \<Longrightarrow> to_jd y (m + 1) 1 = Some (n + k)"
    and year: "m = 12 \<Longrightarrow> to_jd (next_year y) 1 1 = Some (n + k) \<and> to_jd y 13 1 = Some 0" and k: "1 \<le> k" "k \<le> 31"
  shows "cal_days_in_month to_jd m y = Some (Some k)"
proof -
  have i: "to_int y = y" "to_int m = m" "to_int (m + 1) = m + 1" "to_int (y + 1) = y + 1" "int64 (m + 1) = Some (m + 1)"
    "int64 (y + 1) = Some (y + 1)" "int64 k = Some k"
    "to_int 12 = 12" "to_int 13 = 13" "to_int (-1) = -1"
    by (rule to_int_id int64_Some; use m y k in simp)+
  have "next_year y = (if y = -1 then 1 else y + 1)" by (simp add: next_year_def)
  then show ?thesis using first month year k m
    by (cases "m < 12") (auto simp: cal_days_in_month_def i add.commute [of 1])
qed



section \<open>Easter\<close>

lemma made_positive_smod: "0 < n \<Longrightarrow> made_positive n (x smod n) = x mod n"
proof (cases "0 \<le> x")
  case False
  assume n: "0 < n"
  have s: "x smod n = - ((- x) mod n)" using False n by (simp add: smod_int_alt_def)
  show ?thesis
  proof (cases "(- x) mod n = 0")
    case True
    then have "x mod n = 0" by (metis minus_minus mod_minus_minus zmod_zminus1_not_zero)
    then show ?thesis using s True by (simp add: made_positive_def)
  next
    case False
    moreover have "0 \<le> (- x) mod n" using n by simp
    moreover have "x mod n = n - (- x) mod n" using zmod_zminus1_eq_if [of "- x" n] False by simp
    ultimately show ?thesis using s by (simp add: made_positive_def)
  qed
next
  case True
  assume n: "0 < n"
  then have "x smod n = x mod n" using True by (simp add: smod_mod_positive)
  moreover have "0 \<le> x mod n" using n by simp
  ultimately show ?thesis by (simp add: made_positive_def)
qed

lemma sdiv_nonneg: "0 \<le> x \<Longrightarrow> 0 < n \<Longrightarrow> x sdiv n = x div (n :: int)"
  by (cases "x = 0") (simp_all add: signed_divide_int_def)

text \<open>The last steps, which find the Sunday after the full moon.\<close>

definition easter_of :: "int \<Rightarrow> int \<Rightarrow> int \<Rightarrow> int" where
  "easter_of golden dn pfm = (let pfm = (if pfm = 29 \<or> pfm = 28 \<and> golden > 11 then pfm - 1 else pfm) in pfm + (4 - pfm - dn) mod 7 + 1)"

lemma easter_of_bounds: "0 \<le> pfm \<Longrightarrow> pfm < 30 \<Longrightarrow> 1 \<le> easter_of g dn pfm \<and> easter_of g dn pfm \<le> 35"
proof -
  assume p: "0 \<le> pfm" "pfm < 30"
  define q where "q = (if pfm = 29 \<or> pfm = 28 \<and> g > 11 then pfm - 1 else pfm)"
  have "0 \<le> q" "q \<le> 28" using p by (auto simp: q_def)
  moreover have "0 \<le> (4 - q - dn) mod 7" "(4 - q - dn) mod 7 < 7" by simp_all
  ultimately show ?thesis unfolding easter_of_def Let_def q_def [symmetric] by linarith
qed

lemma easter_of_mod: "(easter_of g dn pfm + dn) mod 7 = 5"
proof -
  have "(q + (4 - q - dn) mod 7 + 1 + dn) mod 7 = 5" for q :: int
  proof -
    have "((4 - q - dn) mod 7 + (q + 1 + dn)) mod 7 = (4 - q - dn + (q + 1 + dn)) mod 7" by (rule mod_add_left_eq)
    then show ?thesis by (simp add: algebra_simps)
  qed
  then show ?thesis unfolding easter_of_def Let_def .
qed

lemma cal_easter_eq:
  assumes y: "0 < year" "year < 1464990"
  shows "\<exists>pfm. cal_easter mktime False year method = Some (Some (easter_of (year mod 19 + 1)
      ((if uses_julian year method then year + year div 4 + 5 else year + year div 4 - year div 100 + year div 400) mod 7) pfm)) \<and> 0 \<le> pfm \<and> pfm < 30"
proof -
  define a b c where "a = year div 4" and "b = year div 100" and "c = year div 400"
  have abc: "0 \<le> a" "a < 1464990" "0 \<le> b" "b < 1464990" "0 \<le> c" "c < 1464990"
    using y zdiv_mono2 [of year 1 4] zdiv_mono2 [of year 1 100] zdiv_mono2 [of year 1 400] unfolding a_def b_def c_def
    by (simp_all add: div_int_nonneg)
  have s: "year sdiv 4 = a" "year sdiv 100 = b" "year sdiv 400 = c" "year smod 19 = year mod 19"
    using y by (simp_all add: sdiv_nonneg a_def b_def c_def smod_mod_positive)
  have i: "int64 (year + a) = Some (year + a)" "int64 (year + a + 5) = Some (year + a + 5)" "int64 (year + a - b) = Some (year + a - b)"
    "int64 (year + a - b + c) = Some (year + a - b + c)" "int64 (year - 1600) = Some (year - 1600)" "int64 (year - 1400) = Some (year - 1400)"
    by (rule int64_Some; use abc y in simp)+
  note m = made_positive_smod [of 7, simplified] made_positive_smod [of 30, simplified]
  show ?thesis
    unfolding a_def [symmetric] b_def [symmetric] c_def [symmetric]
    by (cases "uses_julian year method")
      (simp_all only: cal_easter_def Let_def s i m if_True if_False Option.bind.bind_lunit prod.case easter_of_def simp_thms option.inject,
       (intro exI conjI, rule refl, simp, simp)+)
qed

lemma DayOfWeek_nonneg:
  assumes "0 \<le> n" "n < 2 ^ 60"
  shows "DayOfWeek n = Some ((n + 1) mod 7)"
proof -
  have "int64 (n + 1) = Some (n + 1)" by (rule int64_Some) (use assms in simp_all)
  moreover have "(n + 1) smod 7 = (n + 1) mod 7" by (rule smod_mod_positive) (use assms in simp_all)
  moreover have "0 \<le> (n + 1) mod 7" "(n + 1) mod 7 < 7" by simp_all
  moreover then have "to_int ((n + 1) mod 7) = (n + 1) mod 7" by (intro to_int_id; simp)
  ultimately show ?thesis by (simp only: DayOfWeek_def Option.bind.bind_lunit Let_def if_True)
qed

lemma gregorian_days_sum: "gregorian_days Y = 365 * Y + Y div 4 - Y div 100 + Y div 400"
proof -
  define c q where "c = Y div 100" and "q = Y mod 100"
  have Y: "Y = 4 * (25 * c) + q" "Y = 100 * c + q" by (simp_all add: c_def q_def)
  have "Y div 4 = 25 * c + q div 4" unfolding Y(1) by simp
  moreover have "Y div 400 = c div 4" using zdiv_zmult2_eq [of 4 Y 100] by (simp add: c_def)
  ultimately show ?thesis using Y(2) unfolding gregorian_days_eq c_def [symmetric] q_def [symmetric] by linarith
qed

lemma gregorian_march_21: "gregorian_days (y + 4800) + 21 - 32045 = 7 * (52 * y + 245876) + y + (y div 4 - y div 100 + y div 400) + 8"
proof -
  have "(y + 4800) div 4 = y div 4 + 1200" "(y + 4800) div 100 = y div 100 + 48" "(y + 4800) div 400 = y div 400 + 12"
    using div_mult_self1 [of 4 y 1200] div_mult_self1 [of 100 y 48] div_mult_self1 [of 400 y 12] by simp_all
  then show ?thesis unfolding gregorian_days_sum by simp
qed

lemma julian_march_21: "julian_days (y + 4800) + 21 - 32083 = 7 * (52 * y + 245875) + y + (y div 4 + 5) + 8"
proof -
  have "(y + 4800) div 4 = y div 4 + 1200" using div_mult_self1 [of 4 y 1200] by simp
  then show ?thesis unfolding julian_days_eq by simp
qed

lemma march_21:
  assumes "0 < y" "y < 1464990"
  shows "GregorianToSdn y 3 21 = Some (gregorian_days (y + 4800) + 21 - 32045)" "JulianToSdn y 3 21 = Some (julian_days (y + 4800) + 21 - 32083)"
proof -
  have "valid_date leap y 3 21" for leap using assms by (simp add: valid_date_def days_in_month_def)
  moreover have "gregorian_first y 3 21" "julian_first y 3 21" using assms by (simp_all add: gregorian_first_def julian_first_def)
  moreover have "day_number F (y, 3, 21) = F (y + 4800) + 21" for F using assms by (simp add: day_number_def march_def astronomical_def month_start_def)
  ultimately show "GregorianToSdn y 3 21 = Some (gregorian_days (y + 4800) + 21 - 32045)" "JulianToSdn y 3 21 = Some (julian_days (y + 4800) + 21 - 32083)"
    using GregorianToSdn_number [of y 3 21] JulianToSdn_number [of y 3 21] assms by auto
qed

text \<open>The day that is found is a Sunday: the day of the week of March 21 is one more than the year's number.\<close>

lemma sunday:
  assumes s: "s = 7 * a + x + 8" and b: "0 \<le> s" "s < 2 ^ 50" and p: "0 \<le> pfm" "pfm < 30"
  shows "DayOfWeek (s + easter_of g (x mod 7) pfm) = Some 0"
proof -
  define k where "k = easter_of g (x mod 7) pfm"
  have k: "1 \<le> k" "k \<le> 35" "(k + x mod 7) mod 7 = 5"
    using easter_of_bounds [OF p] easter_of_mod by (auto simp: k_def)
  have "(k + x) mod 7 = 5" using k(3) by (simp only: mod_add_right_eq)
  then obtain j where "k + x = 7 * j + 5" using mult_div_mod_eq [of 7 "k + x"] by metis
  then have "s + k + 1 = 7 * (a + j + 2)" using s by simp
  then have "(s + k + 1) mod 7 = 0" by simp
  moreover have "DayOfWeek (s + k) = Some ((s + k + 1) mod 7)" by (rule DayOfWeek_nonneg) (use b k in simp_all)
  ultimately show ?thesis by (simp add: k_def)
qed



text \<open>Easter of the year 2011 was on 24 April, 34 days after 21 March.\<close>

lemma easter_2011: "cal_easter mktime False 2011 CAL_EASTER_DEFAULT = Some (Some 34)"
  by (simp add: cal_easter_def uses_julian_def CAL_EASTER_DEFAULT_def CAL_EASTER_ALWAYS_JULIAN_def made_positive_def int64_def)

section \<open>Limits\<close>

text \<open>The extra month of year 14 of the French republican calendar has no month after it, and its length is not a length.\<close>

lemma cal_days_in_month_french: "cal_days_in_month (\<lambda>y m d. Some (FrenchToSdn y m d)) 13 14 = Some (Some (-2380948))"
  by (simp add: cal_days_in_month_def FrenchToSdn_def calendar_constants FRENCH_SDN_OFFSET_def DAYS_PER_MONTH_def to_int_def int64_def)

text \<open>The centuries of a year past 1465199 do not fit an \<open>int\<close>.\<close>

lemma GregorianToSdn_overflow: "GregorianToSdn 1465200 3 1 = None"
  by (simp add: GregorianToSdn_def march_year_def int32_def DAYS_PER_400_YEARS_def)

end
