(* ===== verification/Spec2Isabelle.thy ===== *)
theory Spec2Isabelle imports ZendQsort ZendLlist ZendHashBulk ZendHashSort ZendSymtable ZendRsrcList ZendStack ZendObjectsStore Base64 Url Uuencode Levenshtein SplHeap ZendGcBuffer CalendarDays begin

text \<open>Verification library of the engine's core data structures.\<close>

end
